(* ===== verification/Mcp_Prelude.thy ===== *)
theory Mcp_Prelude
  imports Main "HOL-Library.Word"
begin

text \<open>
  Shared vocabulary of the development: the type synonyms and abbreviations that
  name bytes and machine words, the theorem collections the component theories
  fill, and the generic facts on lists, options and searches that several
  components use.  Nothing here models code of the repository.
\<close>

section \<open>Bytes and machine words\<close>

text \<open>A C \<open>char\<close> buffer is a list of bytes; Isabelle's \<open>char\<close> is an 8-bit value.\<close>

type_synonym bytes = "char list"
type_synonym u32 = "32 word"
type_synonym u64 = "64 word"

abbreviation NUL :: char where "NUL \<equiv> CHR 0x00"
abbreviation TAB :: char where "TAB \<equiv> CHR 0x09"
abbreviation LF :: char where "LF \<equiv> CHR 0x0A"
abbreviation CR :: char where "CR \<equiv> CHR 0x0D"
abbreviation SPC :: char where "SPC \<equiv> CHR 0x20"

lemma unat_u64: "n < 2 ^ 64 \<Longrightarrow> unat (of_nat n :: u64) = n"
  by (simp add: unsigned_of_nat take_bit_eq_mod)

section \<open>Theorem collections\<close>

named_theorems c_lib "evaluation rules of the C library model"
named_theorems inv_intros "introduction rules for component invariants"
named_theorems inv_pres "an operation keeps its component's invariant"
named_theorems frame_rules "what an operation leaves unchanged"

section \<open>Lists: first match, replacement, removal\<close>

text \<open>Index of the first element satisfying a predicate: the shape of every
  \<open>for (i = 0; i < n; i++) if (p(a[i])) break;\<close> of the source.\<close>

fun find_index :: "('a \<Rightarrow> bool) \<Rightarrow> 'a list \<Rightarrow> nat option" where
  "find_index p [] = None"
| "find_index p (x # xs) = (if p x then Some 0 else map_option Suc (find_index p xs))"

lemma find_index_Some_iff:
  "find_index p xs = Some i \<longleftrightarrow> i < length xs \<and> p (xs ! i) \<and> (\<forall>j<i. \<not> p (xs ! j))"
proof (induction xs arbitrary: i)
  case Nil
  then show ?case by simp
next
  case (Cons x xs)
  show ?case
    by (cases i) (auto simp: Cons.IH nth_Cons split: nat.splits)
qed

lemma find_index_None_iff: "find_index p xs = None \<longleftrightarrow> (\<forall>x\<in>set xs. \<not> p x)"
  by (induction xs) auto

lemma find_index_SomeD:
  assumes "find_index p xs = Some i"
  shows "i < length xs" and "p (xs ! i)" and "\<And>j. j < i \<Longrightarrow> \<not> p (xs ! j)"
  using assms by (auto simp: find_index_Some_iff)

lemma find_index_mem: "find_index p xs = Some i \<Longrightarrow> xs ! i \<in> set xs"
  by (simp add: find_index_Some_iff)

lemma find_index_append:
  "find_index p (xs @ ys) =
     (case find_index p xs of Some i \<Rightarrow> Some i
      | None \<Rightarrow> map_option (\<lambda>i. length xs + i) (find_index p ys))"
  by (induction xs) (cases "find_index p ys", auto split: option.splits, cases "find_index p ys", auto)

lemma find_index_mem_iff: "find_index (\<lambda>e. e = c) xs \<noteq> None \<longleftrightarrow> c \<in> set xs"
  by (auto simp: find_index_None_iff)

lemma find_append: "find p (xs @ ys) = (case find p xs of Some x \<Rightarrow> Some x | None \<Rightarrow> find p ys)"
  by (induction xs) auto

text \<open>Removing the element at an index, as a \<open>memmove\<close> over a C array does.\<close>

definition remove_at :: "nat \<Rightarrow> 'a list \<Rightarrow> 'a list" where
  "remove_at i xs = take i xs @ drop (Suc i) xs"

lemma length_remove_at: "i < length xs \<Longrightarrow> length (remove_at i xs) = length xs - 1"
  by (simp add: remove_at_def)

lemma set_remove_at_subset: "set (remove_at i xs) \<subseteq> set xs"
  by (auto simp: remove_at_def dest: in_set_takeD in_set_dropD)

lemma remove_at_simps [simp]:
  "remove_at 0 (x # xs) = xs"
  "remove_at (Suc i) (x # xs) = x # remove_at i xs"
  by (simp_all add: remove_at_def)

section \<open>Prefixes of byte strings\<close>

lemma take_eq_append_iff: "length p = n \<Longrightarrow> n \<le> length s \<Longrightarrow> take n s = p \<longleftrightarrow> (\<exists>r. s = p @ r)"
  by (metis append_eq_conv_conj append_take_drop_id)

lemma takeWhile_append_stop:
  "\<forall>x\<in>set xs. P x \<Longrightarrow> \<not> P y \<Longrightarrow> takeWhile P (xs @ y # ys) = xs"
  by (simp add: takeWhile_append)

lemma dropWhile_append_stop:
  "\<forall>x\<in>set xs. P x \<Longrightarrow> \<not> P y \<Longrightarrow> dropWhile P (xs @ y # ys) = y # ys"
  by (simp add: dropWhile_append)

section \<open>Counting in fixed-size tables\<close>

text \<open>Number of occupied entries of a table: the size of a filter.\<close>

abbreviation count_where :: "('a \<Rightarrow> bool) \<Rightarrow> 'a list \<Rightarrow> nat" where
  "count_where p xs \<equiv> length (filter p xs)"

lemma count_where_le: "count_where p xs \<le> length xs"
  by (rule length_filter_le)

lemma count_where_update_in:
  "i < length xs \<Longrightarrow> \<not> p (xs ! i) \<Longrightarrow> p y \<Longrightarrow> count_where p (xs[i := y]) = Suc (count_where p xs)"
  by (induction xs arbitrary: i) (auto split: nat.splits)

lemma count_where_update_out:
  "i < length xs \<Longrightarrow> p (xs ! i) \<Longrightarrow> \<not> p y \<Longrightarrow> Suc (count_where p (xs[i := y])) = count_where p xs"
  by (induction xs arbitrary: i) (auto split: nat.splits)

lemma count_where_update_same:
  "i < length xs \<Longrightarrow> p y = p (xs ! i) \<Longrightarrow> count_where p (xs[i := y]) = count_where p xs"
  by (induction xs arbitrary: i) (auto split: nat.splits)

lemma count_where_pos: "i < length xs \<Longrightarrow> p (xs ! i) \<Longrightarrow> 0 < count_where p xs"
  by (auto simp: filter_empty_conv dest: nth_mem)

lemma count_where_pointwise:
  "length xs = length ys \<Longrightarrow> (\<And>i. i < length ys \<Longrightarrow> p (xs ! i) = p (ys ! i)) \<Longrightarrow>
     count_where p xs = count_where p ys"
  by (simp add: length_filter_conv_card) (metis (mono_tags, lifting))

lemma count_where_map_same:
  "(\<And>x. x \<in> set xs \<Longrightarrow> p (f x) = p x) \<Longrightarrow> count_where p (map f xs) = count_where p xs"
  by (induction xs) auto

end
