(* ===== verification/C_Lib.thy ===== *)
theory C_Lib
  imports Mcp_Prelude
begin

text \<open>
  The part of the C standard library the sources call: C strings, character
  classes, the number scanners \<open>strtoul\<close> / \<open>strtol\<close>, decimal printing
  (\<open>%zu\<close>, \<open>%ld\<close>, \<open>%llu\<close>), bounded \<open>snprintf\<close> and \<open>strstr\<close>.  A C string in a buffer
  ends at the first NUL byte; a byte list without NUL stands for the string
  whose terminator follows it.
\<close>

section \<open>C strings and character classes\<close>

definition cstr :: "bytes \<Rightarrow> bytes" where
  "cstr s = takeWhile (\<lambda>c. c \<noteq> NUL) s"

definition c_strlen :: "bytes \<Rightarrow> nat" where
  "c_strlen s = length (cstr s)"

definition isspace :: "char \<Rightarrow> bool" where
  "isspace c \<longleftrightarrow> c = SPC \<or> (let n = (of_char c :: nat) in 9 \<le> n \<and> n \<le> 13)"

definition isdigit :: "char \<Rightarrow> bool" where
  "isdigit c \<longleftrightarrow> (let n = (of_char c :: nat) in 48 \<le> n \<and> n \<le> 57)"

definition digit_val :: "char \<Rightarrow> nat" where
  "digit_val c = of_char c - 48"

definition digit_char :: "nat \<Rightarrow> char" where
  "digit_char d = char_of (48 + d)"

definition tolower_ascii :: "char \<Rightarrow> char" where
  "tolower_ascii c = (let n = (of_char c :: nat) in if 65 \<le> n \<and> n \<le> 90 then char_of (n + 32) else c)"

lemma cstr_no_nul: "NUL \<notin> set (cstr s)"
  by (auto simp: cstr_def dest: set_takeWhileD)

lemma cstr_id: "NUL \<notin> set s \<Longrightarrow> cstr s = s"
  by (auto simp: cstr_def takeWhile_eq_all_conv)

lemma cstr_append: "NUL \<notin> set s \<Longrightarrow> cstr (s @ t) = s @ cstr t"
  by (induction s) (auto simp: cstr_def)

lemma of_digit_char [simp]: "d < 10 \<Longrightarrow> (of_char (digit_char d) :: nat) = 48 + d"
  by (simp add: digit_char_def of_char_of)

lemma isdigit_digit_char [simp]: "d < 10 \<Longrightarrow> isdigit (digit_char d)"
  by (simp add: isdigit_def)

lemma digit_val_digit_char [simp]: "d < 10 \<Longrightarrow> digit_val (digit_char d) = d"
  by (simp add: digit_val_def)

lemma isdigit_not_isspace: "isdigit c \<Longrightarrow> \<not> isspace c"
  by (auto simp: isdigit_def isspace_def Let_def)

lemma isdigit_literals [simp]:
  "\<not> isdigit NUL" "\<not> isdigit CR" "\<not> isdigit LF" "\<not> isdigit SPC"
  "\<not> isdigit CHR 0x2C" "\<not> isdigit CHR 0x2B" "\<not> isdigit CHR 0x2D" "\<not> isdigit CHR 0x2E"
  by (simp_all add: isdigit_def)

lemma isspace_literals [simp]:
  "isspace SPC" "isspace CR" "isspace LF" "isspace TAB"
  "\<not> isspace NUL" "\<not> isspace CHR 0x2C" "\<not> isspace CHR 0x2B" "\<not> isspace CHR 0x2D"
  by (simp_all add: isspace_def)

lemma digit_char_eqI: "d < 10 \<Longrightarrow> (of_char c :: nat) = 48 + d \<Longrightarrow> digit_char d = c"
  by (metis of_char_eq_iff of_digit_char)

lemma digit_char_literals [simp]:
  "digit_char 0 = CHR ''0''" "digit_char (Suc 0) = CHR ''1''" "digit_char 1 = CHR ''1''"
  "digit_char (Suc (Suc 0)) = CHR ''2''" "digit_char 2 = CHR ''2''" "digit_char 3 = CHR ''3''" "digit_char 4 = CHR ''4''"
  "digit_char 5 = CHR ''5''" "digit_char 6 = CHR ''6''" "digit_char 7 = CHR ''7''"
  "digit_char 8 = CHR ''8''" "digit_char 9 = CHR ''9''"
  by (rule digit_char_eqI; simp)+

section \<open>Decimal numbers\<close>

fun show_nat :: "nat \<Rightarrow> bytes" where
  "show_nat n = (if n < 10 then [digit_char n] else show_nat (n div 10) @ [digit_char (n mod 10)])"

declare show_nat.simps [simp del]

definition show_int :: "int \<Rightarrow> bytes" where
  "show_int i = (if i < 0 then CHR ''-'' # show_nat (nat (- i)) else show_nat (nat i))"

definition dec_val :: "bytes \<Rightarrow> nat" where
  "dec_val ds = foldl (\<lambda>a c. 10 * a + digit_val c) 0 ds"

lemma dec_val_Nil [simp]: "dec_val [] = 0"
  by (simp add: dec_val_def)

lemma dec_val_snoc [simp]: "dec_val (ds @ [c]) = 10 * dec_val ds + digit_val c"
  by (simp add: dec_val_def)

lemma show_nat_digits: "\<forall>c\<in>set (show_nat n). isdigit c"
proof (induction n rule: show_nat.induct)
  case (1 n)
  then show ?case by (cases "n < 10") (simp_all add: show_nat.simps [of n])
qed

lemma show_nat_nonempty [simp]: "show_nat n \<noteq> []"
  by (subst show_nat.simps) simp

lemma dec_val_show_nat [simp]: "dec_val (show_nat n) = n"
proof (induction n rule: show_nat.induct)
  case (1 n)
  show ?case
  proof (cases "n < 10")
    case True
    then show ?thesis by (simp add: show_nat.simps [of n] dec_val_def)
  next
    case False
    with 1 show ?thesis by (simp add: show_nat.simps [of n])
  qed
qed

lemma show_nat_inj: "show_nat m = show_nat n \<longleftrightarrow> m = n"
  by (metis dec_val_show_nat)

lemma length_show_nat: "n < 10 ^ k \<Longrightarrow> 0 < k \<Longrightarrow> length (show_nat n) \<le> k"
proof (induction k arbitrary: n)
  case 0
  then show ?case by simp
next
  case (Suc k)
  show ?case
  proof (cases "n < 10")
    case True
    then show ?thesis by (simp add: show_nat.simps [of n])
  next
    case False
    with Suc.prems have "n div 10 < 10 ^ k" and "0 < k"
      by (auto simp: less_mult_imp_div_less mult.commute intro: gr0I)
    then have "length (show_nat (n div 10)) \<le> k" by (rule Suc.IH)
    with False show ?thesis by (simp add: show_nat.simps [of n])
  qed
qed

lemma show_nat_no:
  "\<not> isdigit c \<Longrightarrow> c \<notin> set (show_nat n)"
  using show_nat_digits by blast

section \<open>\<open>strtoul\<close> and \<open>strtol\<close>, base 10\<close>

text \<open>
  Both skip white space, take an optional sign and read digits up to the first
  other byte (the terminating NUL included).  \<open>scan_num\<close> gives the sign, the
  digits and what follows them, or \<open>None\<close> when there is no digit.
\<close>

definition scan_num :: "bytes \<Rightarrow> (bool \<times> bytes \<times> bytes) option" where
  "scan_num s =
     (let t = dropWhile isspace s;
          neg = (t \<noteq> [] \<and> hd t = CHR ''-'');
          u = (if t \<noteq> [] \<and> (hd t = CHR ''-'' \<or> hd t = CHR ''+'') then tl t else t);
          ds = takeWhile isdigit u
      in if ds = [] then None else Some (neg, ds, dropWhile isdigit u))"

text \<open>\<open>w\<close> is the width of \<open>unsigned long\<close> (64 on the POSIX targets, 32 on Windows).\<close>

definition strtoul :: "nat \<Rightarrow> bytes \<Rightarrow> nat" where
  "strtoul w s =
     (case scan_num s of None \<Rightarrow> 0
      | Some (neg, ds, _) \<Rightarrow>
          let v = dec_val ds
          in if 2 ^ w \<le> v then 2 ^ w - 1 else if neg then (2 ^ w - v) mod 2 ^ w else v)"

text \<open>\<open>strtol\<close> also reports its end pointer: the text that was not consumed, which is the
  whole argument when no number was read.\<close>

definition strtol :: "nat \<Rightarrow> bytes \<Rightarrow> int \<times> bytes" where
  "strtol w s =
     (case scan_num s of None \<Rightarrow> (0, s)
      | Some (neg, ds, rest) \<Rightarrow>
          let v = (if neg then - int (dec_val ds) else int (dec_val ds))
          in (max (- (2 ^ (w - 1))) (min (2 ^ (w - 1) - 1) v), rest))"

lemma scan_num_show_nat:
  assumes "rest = [] \<or> \<not> isdigit (hd rest)"
  shows "scan_num (show_nat n @ rest) = Some (False, show_nat n, rest)"
proof -
  obtain c cs where cs: "show_nat n = c # cs"
    by (cases "show_nat n") auto
  have c: "isdigit c" using show_nat_digits [of n] cs by simp
  then have nsp: "\<not> isspace c" by (rule isdigit_not_isspace)
  have sgn: "c \<noteq> CHR ''-''" "c \<noteq> CHR ''+''" using c by auto
  have tw: "takeWhile isdigit (show_nat n @ rest) = show_nat n"
    using assms show_nat_digits [of n] by (cases rest) (auto simp: takeWhile_append)
  have dw: "dropWhile isdigit (show_nat n @ rest) = rest"
    using assms show_nat_digits [of n] by (cases rest) (auto simp: dropWhile_append)
  show ?thesis
    using tw dw nsp sgn by (simp add: scan_num_def Let_def cs)
qed

lemma scan_num_skip_space: "isspace c \<Longrightarrow> scan_num (c # s) = scan_num s"
  by (simp add: scan_num_def)

lemma strtoul_skip_space: "isspace c \<Longrightarrow> strtoul w (c # s) = strtoul w s"
  by (simp add: strtoul_def scan_num_skip_space)

text \<open>The scan stays inside a line that holds something besides white space.\<close>

lemma strtoul_line:
  assumes "l \<noteq> []" and "last l = LF" and "\<exists>c\<in>set l. \<not> isspace c"
  shows "strtoul w (l @ t) = strtoul w l"
proof -
  define d where "d = dropWhile isspace l"
  have d: "dropWhile isspace (l @ t) = d @ t" using assms(3) by (auto simp: d_def dropWhile_append1)
  have dn: "d \<noteq> []" using assms(3) by (auto simp: d_def dropWhile_eq_Nil_conv)
  then have dl: "last d = LF" using assms(2) by (metis d_def last_appendR takeWhile_dropWhile_id)
  define u where "u = (if hd d = CHR ''-'' \<or> hd d = CHR ''+'' then tl d else d)"
  have un: "u \<noteq> [] \<and> last u = LF"
    using dn dl by (cases d) (auto simp: u_def split: if_splits)
  then have "LF \<in> set u" by (metis last_in_set)
  then have "takeWhile isdigit (u @ t) = takeWhile isdigit u"
    by (rule takeWhile_append1) (rule isdigit_literals)
  moreover have "(if hd (d @ t) = CHR ''-'' \<or> hd (d @ t) = CHR ''+'' then tl (d @ t) else d @ t) = u @ t"
    using dn by (simp add: u_def)
  ultimately show ?thesis using dn
    by (simp add: strtoul_def scan_num_def d d_def [symmetric] u_def [symmetric] Let_def)
qed

lemma strtoul_show_nat:
  "n < 2 ^ w \<Longrightarrow> rest = [] \<or> \<not> isdigit (hd rest) \<Longrightarrow> strtoul w (show_nat n @ rest) = n"
  by (simp add: strtoul_def scan_num_show_nat)

lemma strtol_show_nat:
  assumes "int n < 2 ^ (w - 1)" and "rest = [] \<or> \<not> isdigit (hd rest)"
  shows "strtol w (show_nat n @ rest) = (int n, rest)"
proof -
  have "max (- (2 ^ (w - 1))) (min (2 ^ (w - 1) - 1) (int n)) = int n"
  proof -
    have "int n \<le> 2 ^ (w - 1) - 1" using assms(1) by linarith
    moreover have "- (2 ^ (w - 1)) \<le> (0 :: int)" by simp
    ultimately show ?thesis by linarith
  qed
  then show ?thesis
    by (simp add: strtol_def scan_num_show_nat [OF assms(2)] Let_def)
qed

lemma scan_num_rest_shorter:
  "scan_num s = Some (neg, ds, rest) \<Longrightarrow> length rest < length s"
proof -
  assume sc: "scan_num s = Some (neg, ds, rest)"
  define t where "t = dropWhile isspace s"
  define u where "u = (if t \<noteq> [] \<and> (hd t = CHR ''-'' \<or> hd t = CHR ''+'') then tl t else t)"
  from sc have ds: "takeWhile isdigit u \<noteq> []" and r: "rest = dropWhile isdigit u"
    by (auto simp: scan_num_def Let_def t_def u_def split: if_splits)
  have "length rest < length u"
    using ds r by (metis add_diff_cancel_left' diff_less length_append length_greater_0_conv
        takeWhile_dropWhile_id takeWhile.simps(1) add.commute less_add_same_cancel1)
  moreover have "length u \<le> length t" by (auto simp: u_def)
  moreover have "length t \<le> length s" by (simp add: t_def length_dropWhile_le)
  ultimately show ?thesis by linarith
qed

lemma strtol_rest_shorter: "snd (strtol w s) \<noteq> s \<Longrightarrow> length (snd (strtol w s)) < length s"
  by (auto simp: strtol_def Let_def dest: scan_num_rest_shorter split: option.splits)

section \<open>\<open>snprintf\<close>, \<open>strstr\<close>, prefix comparison\<close>

text \<open>What \<open>snprintf(out, cap, ...)\<close> leaves in \<open>out\<close>: the text cut to \<open>cap - 1\<close> bytes.\<close>

definition snprintf_s :: "nat \<Rightarrow> bytes \<Rightarrow> bytes" where
  "snprintf_s cap s = take (cap - 1) s"

lemma snprintf_s_fits: "length s < cap \<Longrightarrow> snprintf_s cap s = s"
  by (simp add: snprintf_s_def)

lemma length_snprintf_s: "0 < cap \<Longrightarrow> length (snprintf_s cap s) < cap"
  by (simp add: snprintf_s_def)

text \<open>Does \<open>p\<close> start \<open>s\<close>?\<close>

fun starts_with :: "bytes \<Rightarrow> bytes \<Rightarrow> bool" where
  "starts_with [] s = True"
| "starts_with (p # ps) [] = False"
| "starts_with (p # ps) (c # cs) = (p = c \<and> starts_with ps cs)"

lemma starts_with_iff: "starts_with p s \<longleftrightarrow> (\<exists>r. s = p @ r)"
  by (induction p s rule: starts_with.induct) auto

text \<open>\<open>strstr\<close>: offset of the first occurrence.\<close>

fun strstr :: "bytes \<Rightarrow> bytes \<Rightarrow> nat option" where
  "strstr [] needle = (if needle = [] then Some 0 else None)"
| "strstr (c # cs) needle =
     (if starts_with needle (c # cs) then Some 0 else map_option Suc (strstr cs needle))"

lemma strstr_SomeD:
  "strstr s needle = Some i \<Longrightarrow> \<exists>r. s = take i s @ needle @ r"
proof (induction s arbitrary: i)
  case Nil
  then show ?case by (auto split: if_splits)
next
  case (Cons c cs)
  then show ?case
    by (auto simp: starts_with_iff split: if_splits)
qed

lemma strstr_first:
  "strstr s needle = Some i \<Longrightarrow> j < i \<Longrightarrow> \<not> starts_with needle (drop j s)"
proof (induction s arbitrary: i j)
  case Nil
  then show ?case by (auto split: if_splits)
next
  case (Cons c cs)
  then show ?case by (cases j) (auto split: if_splits)
qed

text \<open>\<open>strncasecmp(s, key, strlen(key)) == 0\<close> for a lower-case key, in the C locale.\<close>

definition has_prefix_ci :: "bytes \<Rightarrow> bytes \<Rightarrow> bool" where
  "has_prefix_ci key s \<longleftrightarrow> map tolower_ascii (take (length key) (cstr s)) = key"

end
