(* ===== verification/Json.thy ===== *)
theory Json
  imports Complex_Main C_Lib
begin

text \<open>
  JSON trees as the sources use them through cJSON
  (\<^verbatim>\<open>external/cjson/cJSON.c\<close>): the item types, member lookup, the constructors
  that append or replace members, and the number conversions of the callers.
  A tree is a value, so \<open>cJSON_Duplicate(x, 1)\<close> is \<open>x\<close> and deletion disappears; \<open>Json_Heap\<close> has both,
  and \<open>Json_Memory\<close> shows that items in memory refine these values.
  Strings are C strings (no NUL byte).  Text conversion
  (\<open>cJSON_PrintUnformatted\<close>, \<open>cJSON_Parse\<close>) is a pair of arguments of the
  definitions that call it.  Allocation does not fail.
\<close>

section \<open>Numbers\<close>

text \<open>A \<open>double\<close> that JSON text can denote: a finite value, or an infinity
  when the literal overflows (the flag is the sign).\<close>

datatype dbl = Finite rat | Infinite bool

abbreviation dbl_of_int :: "int \<Rightarrow> dbl" where
  "dbl_of_int i \<equiv> Finite (of_int i)"

fun dbl_pos :: "dbl \<Rightarrow> bool" where
  "dbl_pos (Finite q) = (0 < q)"
| "dbl_pos (Infinite neg) = (\<not> neg)"

fun dbl_le_int :: "dbl \<Rightarrow> int \<Rightarrow> bool" where
  "dbl_le_int (Finite q) i = (q \<le> of_int i)"
| "dbl_le_int (Infinite neg) i = neg"

text \<open>\<open>(double)n\<close> for a 64-bit unsigned \<open>n\<close>: exact up to 53 significant bits,
  otherwise rounded to nearest, ties to even.\<close>

fun bit_length :: "nat \<Rightarrow> nat" where
  "bit_length n = (if n = 0 then 0 else Suc (bit_length (n div 2)))"

declare bit_length.simps [simp del]

definition round53 :: "nat \<Rightarrow> nat" where
  "round53 n =
     (if n < 2 ^ 53 then n
      else let e = bit_length n - 53; q = n div 2 ^ e; r = n mod 2 ^ e; half = 2 ^ (e - 1)
           in (if half < r \<or> (r = half \<and> odd q) then q + 1 else q) * 2 ^ e)"

definition u64_to_double :: "u64 \<Rightarrow> dbl" where
  "u64_to_double x = Finite (of_nat (round53 (unat x)))"

text \<open>\<open>(uint64_t)d\<close> truncates towards zero.  Where the truncated value does not fit, C
  leaves the conversion undefined: the result is then what the parameter \<open>oob\<close>
  says, and no fact of the development depends on it.\<close>

definition double_to_u64 :: "(dbl \<Rightarrow> u64) \<Rightarrow> dbl \<Rightarrow> u64" where
  "double_to_u64 oob d =
     (case d of
        Finite q \<Rightarrow>
          if - 1 < q \<and> q < 2 ^ 64 then of_int (if q < 0 then 0 else \<lfloor>q\<rfloor>) else oob d
      | Infinite _ \<Rightarrow> oob d)"

lemma round53_small: "n < 2 ^ 53 \<Longrightarrow> round53 n = n"
  by (simp add: round53_def)

lemma double_to_u64_nat:
  assumes "n < 2 ^ 64"
  shows "double_to_u64 oob (Finite (of_nat n)) = of_nat n"
proof -
  have "(of_nat n :: rat) < of_nat (2 ^ 64)" using assms by (simp only: of_nat_less_iff)
  then have lt: "(of_nat n :: rat) < 2 ^ 64" by simp
  have ge: "(0 :: rat) \<le> of_nat n" by (rule of_nat_0_le_iff)
  then have gt: "(- 1 :: rat) < of_nat n" by linarith
  show ?thesis using lt gt ge by (simp add: double_to_u64_def)
qed

lemma double_u64_roundtrip:
  assumes "unat x < 2 ^ 53"
  shows "double_to_u64 oob (u64_to_double x) = x"
proof -
  have "double_to_u64 oob (Finite (of_nat (unat x))) = of_nat (unat x)"
    using assms by (intro double_to_u64_nat) simp
  moreover have "(of_nat (unat x) :: u64) = x" by simp
  ultimately show ?thesis
    by (simp only: u64_to_double_def round53_small [OF assms])
qed

lemma u64_to_double_inj:
  "unat x < 2 ^ 53 \<Longrightarrow> unat y < 2 ^ 53 \<Longrightarrow> u64_to_double x = u64_to_double y \<longleftrightarrow> x = y"
  by (metis double_u64_roundtrip)

section \<open>Trees\<close>

datatype json =
    JNull
  | JBool bool
  | JNum dbl
  | JStr bytes
  | JArr "json list"
  | JObj "(bytes \<times> json) list"

abbreviation JInt :: "int \<Rightarrow> json" where
  "JInt i \<equiv> JNum (dbl_of_int i)"

text \<open>Lookup returns the first member with the name, and nothing for \<open>NULL\<close> or for an
  item that is not an object.\<close>

fun cJSON_GetObjectItemCaseSensitive :: "json option \<Rightarrow> bytes \<Rightarrow> json option" where
  "cJSON_GetObjectItemCaseSensitive (Some (JObj kvs)) k = map_of kvs k"
| "cJSON_GetObjectItemCaseSensitive _ k = None"

text \<open>Adding a member appends it whatever the item is: an array gets one more
  element, and a scalar keeps its printed form.\<close>

fun cJSON_AddItemToObject :: "json \<Rightarrow> bytes \<Rightarrow> json \<Rightarrow> json" where
  "cJSON_AddItemToObject (JObj kvs) k v = JObj (kvs @ [(k, v)])"
| "cJSON_AddItemToObject (JArr xs) k v = JArr (xs @ [v])"
| "cJSON_AddItemToObject j k v = j"

fun cJSON_AddItemToArray :: "json \<Rightarrow> json \<Rightarrow> json" where
  "cJSON_AddItemToArray (JArr xs) v = JArr (xs @ [v])"
| "cJSON_AddItemToArray j v = j"

text \<open>Replacement rewrites the first member with the name and does nothing without one.\<close>

fun replace_member :: "bytes \<Rightarrow> json \<Rightarrow> (bytes \<times> json) list \<Rightarrow> (bytes \<times> json) list" where
  "replace_member k v [] = []"
| "replace_member k v ((k', v') # kvs) =
     (if k' = k then (k, v) # kvs else (k', v') # replace_member k v kvs)"

fun cJSON_ReplaceItemInObjectCaseSensitive :: "json \<Rightarrow> bytes \<Rightarrow> json \<Rightarrow> json" where
  "cJSON_ReplaceItemInObjectCaseSensitive (JObj kvs) k v = JObj (replace_member k v kvs)"
| "cJSON_ReplaceItemInObjectCaseSensitive j k v = j"

definition cJSON_CreateObject :: json where
  "cJSON_CreateObject = JObj []"

definition cJSON_CreateArray :: json where
  "cJSON_CreateArray = JArr []"

definition cJSON_AddStringToObject :: "json \<Rightarrow> bytes \<Rightarrow> bytes \<Rightarrow> json" where
  "cJSON_AddStringToObject j k s = cJSON_AddItemToObject j k (JStr s)"

definition cJSON_AddNumberToObject :: "json \<Rightarrow> bytes \<Rightarrow> dbl \<Rightarrow> json" where
  "cJSON_AddNumberToObject j k d = cJSON_AddItemToObject j k (JNum d)"

definition cJSON_AddBoolToObject :: "json \<Rightarrow> bytes \<Rightarrow> bool \<Rightarrow> json" where
  "cJSON_AddBoolToObject j k b = cJSON_AddItemToObject j k (JBool b)"

fun cJSON_IsString :: "json option \<Rightarrow> bool" where
  "cJSON_IsString (Some (JStr _)) = True"
| "cJSON_IsString _ = False"

fun cJSON_IsNumber :: "json option \<Rightarrow> bool" where
  "cJSON_IsNumber (Some (JNum _)) = True"
| "cJSON_IsNumber _ = False"

fun cJSON_IsArray :: "json option \<Rightarrow> bool" where
  "cJSON_IsArray (Some (JArr _)) = True"
| "cJSON_IsArray _ = False"

fun cJSON_IsObject :: "json option \<Rightarrow> bool" where
  "cJSON_IsObject (Some (JObj _)) = True"
| "cJSON_IsObject _ = False"

fun cJSON_IsTrue :: "json option \<Rightarrow> bool" where
  "cJSON_IsTrue (Some (JBool True)) = True"
| "cJSON_IsTrue _ = False"

text \<open>\<open>cJSON_IsString(x) ? x->valuestring : NULL\<close>, and the same for numbers.\<close>

fun valuestring :: "json option \<Rightarrow> bytes option" where
  "valuestring (Some (JStr s)) = Some s"
| "valuestring _ = None"

fun valuedouble :: "json option \<Rightarrow> dbl option" where
  "valuedouble (Some (JNum d)) = Some d"
| "valuedouble _ = None"

text \<open>\<open>cJSON_ArrayForEach\<close> visits the children of an array or an object.\<close>

fun cJSON_children :: "json \<Rightarrow> json list" where
  "cJSON_children (JArr xs) = xs"
| "cJSON_children (JObj kvs) = map snd kvs"
| "cJSON_children _ = []"

named_theorems json_simps "building and reading objects"

lemmas json_builders [json_simps] =
  cJSON_CreateObject_def cJSON_CreateArray_def cJSON_AddStringToObject_def
  cJSON_AddNumberToObject_def cJSON_AddBoolToObject_def

lemma IsString_iff: "cJSON_IsString x \<longleftrightarrow> (\<exists>s. x = Some (JStr s))"
  by (cases x rule: cJSON_IsString.cases) auto

lemma valuestring_Some_iff: "valuestring x = Some s \<longleftrightarrow> x = Some (JStr s)"
  by (cases x rule: valuestring.cases) auto

lemma valuestring_None_iff: "valuestring x = None \<longleftrightarrow> \<not> cJSON_IsString x"
  by (cases x rule: valuestring.cases) auto

lemma valuedouble_Some_iff: "valuedouble x = Some d \<longleftrightarrow> x = Some (JNum d)"
  by (cases x rule: valuedouble.cases) auto

lemma GetObjectItem_None [simp]: "cJSON_GetObjectItemCaseSensitive None k = None"
  by simp

lemma GetObjectItem_add_new:
  "cJSON_GetObjectItemCaseSensitive (Some (JObj kvs)) k = None \<Longrightarrow>
     cJSON_GetObjectItemCaseSensitive (Some (cJSON_AddItemToObject (JObj kvs) k v)) k = Some v"
  by (simp add: map_of_append map_add_def split: option.splits)

lemma replace_member_fst: "map fst (replace_member k v kvs) = map fst kvs"
  by (induction k v kvs rule: replace_member.induct) auto

lemma map_of_replace_member:
  "map_of (replace_member k v kvs) k' =
     (if k' = k \<and> map_of kvs k \<noteq> None then Some v else map_of kvs k')"
  by (induction k v kvs rule: replace_member.induct) auto

lemma GetObjectItem_replace:
  "cJSON_GetObjectItemCaseSensitive (Some (JObj kvs)) k \<noteq> None \<Longrightarrow>
     cJSON_GetObjectItemCaseSensitive (Some (cJSON_ReplaceItemInObjectCaseSensitive (JObj kvs) k v)) k = Some v"
  by (simp add: map_of_replace_member)

end
