(* ===== verification/Json_Number.thy ===== *)
theory Json_Number
  imports Json
begin

text \<open>
  Numbers in JSON text (\<^verbatim>\<open>external/cjson/cJSON.c\<close>): \<open>parse_number\<close> with the C library's \<open>strtod\<close>, and
  \<open>print_number\<close> with \<open>sprintf\<close> and \<open>sscanf\<close>.  A decimal literal is first an exact rational and
  is then rounded to the nearest \<open>double\<close>, ties to even; overflow gives an infinity.  \<open>strtod\<close> is
  defined on the characters \<open>parse_number\<close> copies for it.
\<close>

section \<open>Rounding to a double\<close>

definition round_half_even :: "rat \<Rightarrow> int" where
  "round_half_even q =
     (let f = \<lfloor>q\<rfloor>; r = q - of_int f
      in if r < 1 / 2 then f else if 1 / 2 < r then f + 1 else if even f then f else f + 1)"

definition power_int10 :: "int \<Rightarrow> rat" where
  "power_int10 k = (if 0 \<le> k then 10 ^ nat k else 1 / 10 ^ nat (- k))"

definition power_int2 :: "int \<Rightarrow> rat" where
  "power_int2 k = (if 0 \<le> k then 2 ^ nat k else 1 / 2 ^ nat (- k))"

text \<open>The exponents of the leading digits of a positive number, in base 2 and base 10.\<close>

definition floor_log2 :: "rat \<Rightarrow> int" where
  "floor_log2 q =
     (if 1 \<le> q then int (bit_length (nat \<lfloor>q\<rfloor>)) - 1
      else - int (bit_length (nat (\<lceil>1 / q\<rceil> - 1))))"

definition floor_log10 :: "rat \<Rightarrow> int" where
  "floor_log10 q =
     (if 1 \<le> q then int (length (show_nat (nat \<lfloor>q\<rfloor>))) - 1
      else - int (length (show_nat (nat (\<lceil>1 / q\<rceil> - 1)))))"

text \<open>53 significant bits, but no bit below \<open>2 ^ -1074\<close>.\<close>

definition round_pos :: "rat \<Rightarrow> rat" where
  "round_pos q =
     (let e = max (- 1074) (floor_log2 q - 52)
      in of_int (round_half_even (q / power_int2 e)) * power_int2 e)"

definition round_double :: "rat \<Rightarrow> dbl" where
  "round_double q =
     (if q = 0 then Finite 0
      else let r = round_pos \<bar>q\<bar>
           in if 2 ^ 1024 \<le> r then Infinite (q < 0) else Finite (if q < 0 then - r else r))"

lemma round_half_even_int [simp]: "round_half_even (of_int n) = n"
  by (simp add: round_half_even_def)

lemma bit_length_bound: "n < 2 ^ k \<Longrightarrow> bit_length n \<le> k"
proof (induction k arbitrary: n)
  case 0
  then show ?case by (simp add: bit_length.simps)
next
  case (Suc k)
  show ?case
  proof (cases "n = 0")
    case True
    then show ?thesis by (simp add: bit_length.simps)
  next
    case False
    have "n div 2 < 2 ^ k" using Suc.prems by (simp add: less_mult_imp_div_less mult.commute)
    then have "bit_length (n div 2) \<le> k" by (rule Suc.IH)
    with False show ?thesis by (subst bit_length.simps) simp
  qed
qed

lemma round_pos_nat:
  assumes "0 < n" and "n < 2 ^ 53"
  shows "round_pos (of_nat n) = of_nat n"
proof -
  define e where "e = max (- 1074) (floor_log2 (of_nat n) - 52)"
  have one: "(1 :: rat) \<le> of_nat n" using assms(1) by (simp add: Suc_le_eq)
  have fl: "floor_log2 (of_nat n) = int (bit_length n) - 1" using one by (simp add: floor_log2_def)
  have "bit_length n \<le> 53" using assms(2) by (rule bit_length_bound)
  then have e: "e \<le> 0" by (simp add: e_def fl)
  define k where "k = nat (- e)"
  have p: "power_int2 e = 1 / 2 ^ k"
  proof (cases "e = 0")
    case True
    then show ?thesis by (simp add: power_int2_def k_def)
  next
    case False
    then show ?thesis using e by (simp add: power_int2_def k_def)
  qed
  have "of_nat n / power_int2 e = (of_int (int n * 2 ^ k) :: rat)" by (simp add: p)
  then have "round_half_even (of_nat n / power_int2 e) = int n * 2 ^ k"
    by (simp only: round_half_even_int)
  then show ?thesis by (simp add: round_pos_def e_def [symmetric] p)
qed

lemma of_nat_below_overflow: "n < 2 ^ 53 \<Longrightarrow> \<not> (2 ^ 1024 \<le> (of_nat n :: rat))"
proof
  assume n: "n < 2 ^ 53" and "2 ^ 1024 \<le> (of_nat n :: rat)"
  then have "(of_nat (2 ^ 1024) :: rat) \<le> of_nat n" by simp
  then have "2 ^ 1024 \<le> n" by (simp only: of_nat_le_iff)
  moreover have "(2 :: nat) ^ 53 \<le> 2 ^ 1024" by (rule power_increasing) simp_all
  ultimately show False using n by linarith
qed

lemma round_double_int:
  assumes "\<bar>i\<bar> < 2 ^ 53"
  shows "round_double (of_int i) = dbl_of_int i"
proof (cases "i = 0")
  case False
  define n where "n = nat \<bar>i\<bar>"
  have n: "0 < n" "n < 2 ^ 53" using False assms by (auto simp: n_def nat_less_iff)
  have a: "\<bar>of_int i :: rat\<bar> = of_nat n" by (simp add: n_def)
  have "(if of_int i < (0 :: rat) then - of_nat n else of_nat n :: rat) = of_int i"
    by (simp add: n_def)
  then show ?thesis
    using False round_pos_nat [OF n] of_nat_below_overflow [OF n(2)]
    by (simp add: round_double_def a Let_def)
qed (simp add: round_double_def)

section \<open>\<open>strtod\<close>\<close>

definition is_exp_char :: "char \<Rightarrow> bool" where
  "is_exp_char c \<longleftrightarrow> c = CHR ''e'' \<or> c = CHR ''E''"

text \<open>An optional sign: is it a minus, and what follows it.\<close>

definition scan_sign :: "bytes \<Rightarrow> bool \<times> bytes" where
  "scan_sign s =
     (case s of c # t \<Rightarrow> if c = CHR ''-'' then (True, t) else if c = CHR ''+'' then (False, t) else (False, s)
      | [] \<Rightarrow> (False, []))"

text \<open>An exponent counts only with at least one digit.\<close>

definition scan_exponent :: "bytes \<Rightarrow> int \<times> bytes" where
  "scan_exponent s =
     (case s of [] \<Rightarrow> (0, [])
      | c # t \<Rightarrow>
          if is_exp_char c then
            (let (neg, u) = scan_sign t; ds = takeWhile isdigit u
             in if ds = [] then (0, s)
                else (if neg then - int (dec_val ds) else int (dec_val ds), dropWhile isdigit u))
          else (0, s))"

definition scan_fraction :: "bytes \<Rightarrow> bytes \<times> bytes" where
  "scan_fraction s =
     (case s of [] \<Rightarrow> ([], [])
      | c # t \<Rightarrow> if c = CHR ''.'' then (takeWhile isdigit t, dropWhile isdigit t) else ([], s))"

text \<open>The number at the start of a text and the text from \<open>after_end\<close> on; \<open>None\<close> when there is no
  number, and \<open>after_end\<close> is then the start.\<close>

definition strtod :: "bytes \<Rightarrow> (dbl \<times> bytes) option" where
  "strtod s =
     (let (neg, u) = scan_sign s;
          ds = takeWhile isdigit u;
          (fs, v) = scan_fraction (dropWhile isdigit u);
          (ex, w) = scan_exponent v;
          q = of_nat (dec_val (ds @ fs)) * power_int10 (ex - int (length fs))
      in if ds = [] \<and> fs = [] then None else Some (round_double (if neg then - q else q), w))"

text \<open>A number stands alone when nothing that could belong to it follows.\<close>

definition is_num_char :: "char \<Rightarrow> bool" where
  "is_num_char c \<longleftrightarrow> isdigit c \<or> c = CHR ''+'' \<or> c = CHR ''-'' \<or> is_exp_char c \<or> c = CHR ''.''"

lemma isdigit_not_sign: "isdigit c \<Longrightarrow> c \<noteq> CHR ''-'' \<and> c \<noteq> CHR ''+'' \<and> c \<noteq> CHR ''.''"
  by auto

lemma scan_sign_show_nat: "scan_sign (show_nat n) = (False, show_nat n)"
proof (cases "show_nat n")
  case (Cons c cs)
  then have "isdigit c" using show_nat_digits [of n] by simp
  then show ?thesis using Cons isdigit_not_sign [of c] by (simp add: scan_sign_def)
qed simp

lemma strtod_show_int:
  assumes "\<bar>i\<bar> < 2 ^ 53"
  shows "strtod (show_int i) = Some (dbl_of_int i, [])"
proof -
  have tw: "takeWhile isdigit (show_nat n) = show_nat n" "dropWhile isdigit (show_nat n) = []" for n
    using show_nat_digits [of n] by (simp_all add: takeWhile_eq_all_conv)
  have f: "scan_fraction [] = ([], [])" "scan_exponent [] = (0, [])"
    by (simp_all add: scan_fraction_def scan_exponent_def)
  show ?thesis
  proof (cases "i < 0")
    case True
    have "scan_sign (show_int i) = (True, show_nat (nat (- i)))"
      using True by (simp add: show_int_def scan_sign_def)
    moreover have "- (of_nat (nat (- i)) :: rat) = of_int i" using True by simp
    ultimately show ?thesis
      using round_double_int [OF assms] by (simp add: strtod_def tw f power_int10_def)
  next
    case False
    have "scan_sign (show_int i) = (False, show_nat (nat i))"
      using False by (simp add: show_int_def scan_sign_show_nat)
    moreover have "(of_nat (nat i) :: rat) = of_int i" using False by simp
    ultimately show ?thesis
      using round_double_int [OF assms] by (simp add: strtod_def tw f power_int10_def)
  qed
qed

section \<open>\<open>valueint\<close> and \<open>parse_number\<close>\<close>

definition INT_MAX :: int where
  "INT_MAX = 2147483647"

definition INT_MIN :: int where
  "INT_MIN = -2147483648"

text \<open>\<open>valueint\<close> saturates, and otherwise truncates towards zero.\<close>

fun valueint :: "dbl \<Rightarrow> int" where
  "valueint (Infinite neg) = (if neg then INT_MIN else INT_MAX)"
| "valueint (Finite q) =
     (if of_int INT_MAX \<le> q then INT_MAX
      else if q \<le> of_int INT_MIN then INT_MIN
      else if q < 0 then \<lceil>q\<rceil> else \<lfloor>q\<rfloor>)"

text \<open>\<open>input\<close> is the text from the buffer's offset to its end; up to 63 characters of it are copied
  for \<open>strtod\<close>.  The result is the number and how far the offset moves.\<close>

definition parse_number_text :: "bytes \<Rightarrow> (dbl \<times> nat) option" where
  "parse_number_text input =
     (let number_c_string = takeWhile is_num_char (take 63 input)
      in (case strtod number_c_string of
            None \<Rightarrow> None
          | Some (number, after_end) \<Rightarrow> Some (number, length number_c_string - length after_end)))"

lemma valueint_int: "INT_MIN \<le> i \<Longrightarrow> i \<le> INT_MAX \<Longrightarrow> valueint (dbl_of_int i) = i"
  by auto

lemma scan_sign_len: "length (snd (scan_sign s)) \<le> length s"
  by (cases s) (simp_all add: scan_sign_def)

lemma scan_fraction_len: "fst (scan_fraction s) = [] \<and> snd (scan_fraction s) = s \<or>
    length (snd (scan_fraction s)) < length s"
  by (cases s) (auto simp: scan_fraction_def less_Suc_eq_le length_dropWhile_le)

lemma scan_exponent_len: "length (snd (scan_exponent s)) \<le> length s"
proof (cases s)
  case (Cons c t)
  have "length (snd (scan_sign t)) \<le> length t" by (rule scan_sign_len)
  then show ?thesis using Cons length_dropWhile_le [of isdigit "snd (scan_sign t)"]
    by (auto simp: scan_exponent_def Let_def split: prod.splits)
qed (simp add: scan_exponent_def)

text \<open>A number takes at least one character, so the offset moves.\<close>

lemma strtod_consumes:
  assumes "strtod s = Some (d, w)"
  shows "length w < length s"
proof -
  obtain neg u where sg: "scan_sign s = (neg, u)" by fastforce
  obtain fs v where fr: "scan_fraction (dropWhile isdigit u) = (fs, v)" by fastforce
  obtain ex w' where xp: "scan_exponent v = (ex, w')" by fastforce
  have w: "w = w'" and ne: "takeWhile isdigit u \<noteq> [] \<or> fs \<noteq> []"
    using assms sg fr xp by (auto simp: strtod_def Let_def split: if_splits)
  have u: "length u \<le> length s" using scan_sign_len [of s] sg by simp
  have v: "length v \<le> length (dropWhile isdigit u)" "fs \<noteq> [] \<Longrightarrow> length v < length (dropWhile isdigit u)"
    using scan_fraction_len [of "dropWhile isdigit u"] fr by auto
  have t: "length (takeWhile isdigit u) + length (dropWhile isdigit u) = length u"
    by (metis length_append takeWhile_dropWhile_id)
  have "length w' \<le> length v" using scan_exponent_len [of v] xp by simp
  moreover have "length v < length u"
  proof (cases "takeWhile isdigit u = []")
    case True
    then show ?thesis using ne v(2) t by simp
  next
    case False
    then have "0 < length (takeWhile isdigit u)" by simp
    then show ?thesis using v(1) t by linarith
  qed
  ultimately show ?thesis using u unfolding w by linarith
qed

lemma parse_number_text_moves:
  assumes "parse_number_text s = Some (d, n)"
  shows "0 < n \<and> n \<le> length s"
proof -
  let ?t = "takeWhile is_num_char (take 63 s)"
  obtain w where "strtod ?t = Some (d, w)" and n: "n = length ?t - length w"
    using assms by (auto simp: parse_number_text_def Let_def split: option.splits)
  then have "length w < length ?t" by (intro strtod_consumes)
  moreover have "length ?t \<le> length s"
    using length_takeWhile_le [of is_num_char "take 63 s"] by simp
  ultimately show ?thesis using n by linarith
qed

lemma is_num_char_show_int: "\<forall>c\<in>set (show_int i). is_num_char c"
  using show_nat_digits by (auto simp: show_int_def is_num_char_def)

lemma length_show_int: "\<bar>i\<bar> < 10 ^ k \<Longrightarrow> 0 < k \<Longrightarrow> length (show_int i) \<le> Suc k"
  using length_show_nat [of "nat \<bar>i\<bar>" k] by (auto simp: show_int_def nat_less_iff)

lemma parse_number_text_show_int:
  assumes "\<bar>i\<bar> < 10 ^ 15" and "rest = [] \<or> \<not> is_num_char (hd rest)"
  shows "parse_number_text (show_int i @ rest) = Some (dbl_of_int i, length (show_int i))"
proof -
  have l: "length (show_int i) \<le> 16" using length_show_int [OF assms(1)] by simp
  have "takeWhile is_num_char (take 63 (show_int i @ rest)) = show_int i"
    using assms(2) l is_num_char_show_int [of i]
    by (cases rest) (auto simp: takeWhile_append take_Cons' takeWhile_eq_all_conv)
  moreover have "\<bar>i\<bar> < 2 ^ 53" using assms(1) by simp
  ultimately show ?thesis by (simp add: parse_number_text_def strtod_show_int)
qed

section \<open>\<open>sprintf("%1.15g")\<close>, \<open>sscanf("%lg")\<close> and \<open>print_number\<close>\<close>

definition strip_zeros :: "bytes \<Rightarrow> bytes" where
  "strip_zeros s = rev (dropWhile (\<lambda>c. c = CHR ''0'') (rev s))"

definition with_point :: "bytes \<Rightarrow> bytes \<Rightarrow> bytes" where
  "with_point ip fp = (let f = strip_zeros fp in if f = [] then ip else ip @ CHR ''.'' # f)"

text \<open>The digits of a positive number rounded to \<open>p\<close> of them, as a number, and the exponent of the
  first.\<close>

definition sig_digits :: "nat \<Rightarrow> rat \<Rightarrow> nat \<times> int" where
  "sig_digits p a =
     (let x = floor_log10 a; m = nat (round_half_even (a / power_int10 (x - int p + 1)))
      in if m = 10 ^ p then (10 ^ (p - 1), x + 1) else (m, x))"

definition exponent_text :: "int \<Rightarrow> bytes" where
  "exponent_text x =
     CHR ''e'' # (if x < 0 then CHR ''-'' else CHR ''+'') #
     (let s = show_nat (nat \<bar>x\<bar>) in if length s < 2 then CHR ''0'' # s else s)"

definition format_pos :: "nat \<Rightarrow> rat \<Rightarrow> bytes" where
  "format_pos p a =
     (let (m, x) = sig_digits p a; ds = show_nat m
      in if - 4 \<le> x \<and> x < int p then
           (if 0 \<le> x then with_point (take (nat x + 1) ds) (drop (nat x + 1) ds)
            else with_point ''0'' (replicate (nat (- x) - 1) (CHR ''0'') @ ds))
         else with_point (take 1 ds) (drop 1 ds) @ exponent_text x)"

text \<open>\<open>sprintf(buf, "%1.<p>g", d)\<close> for a finite \<open>d\<close>.\<close>

definition format_g :: "nat \<Rightarrow> rat \<Rightarrow> bytes" where
  "format_g p q =
     (if q = 0 then ''0'' else if q < 0 then CHR ''-'' # format_pos p (- q) else format_pos p q)"

fun dbl_le :: "dbl \<Rightarrow> dbl \<Rightarrow> bool" where
  "dbl_le (Finite a) (Finite b) = (a \<le> b)"
| "dbl_le (Finite a) (Infinite neg) = (\<not> neg)"
| "dbl_le (Infinite neg) (Finite b) = neg"
| "dbl_le (Infinite neg) (Infinite neg') = (neg \<or> \<not> neg')"

text \<open>\<open>fabs(a - b) <= maxVal * DBL_EPSILON\<close>, each operation rounded.  With one infinity, or two of
  different sign, both sides are infinite; with two of the same sign the difference is not a number.\<close>

fun compare_double :: "dbl \<Rightarrow> dbl \<Rightarrow> bool" where
  "compare_double (Finite a) (Finite b) =
     dbl_le (round_double \<bar>a - b\<bar>) (round_double (max \<bar>a\<bar> \<bar>b\<bar> / 2 ^ 52))"
| "compare_double (Infinite s) (Infinite t) = (s \<noteq> t)"
| "compare_double _ _ = True"

definition number_buffer_text :: "dbl \<Rightarrow> bytes" where
  "number_buffer_text d =
     (case d of
        Infinite _ \<Rightarrow> ''null''
      | Finite q \<Rightarrow>
          if q = of_int (valueint d) then show_int (valueint d)
          else let s = format_g 15 q
               in (case strtod s of
                     Some (test, _) \<Rightarrow> (if compare_double test d then s else format_g 17 q)
                   | None \<Rightarrow> format_g 17 q))"

text \<open>The text of a number, unless it overran the buffer of 26 bytes.\<close>

definition print_number_text :: "dbl \<Rightarrow> bytes option" where
  "print_number_text d =
     (let s = number_buffer_text d in if 25 < length s then None else Some s)"

text \<open>Integers of at most 15 digits print as they are.\<close>

lemma show_nat_times10: "0 < n \<Longrightarrow> show_nat (n * 10 ^ k) = show_nat n @ replicate k (CHR ''0'')"
proof (induction k)
  case (Suc k)
  have "\<not> n * 10 ^ Suc k < 10" using Suc.prems by simp
  then have "show_nat (n * 10 ^ Suc k) = show_nat (n * 10 ^ k) @ [digit_char 0]"
    by (subst show_nat.simps) (simp add: mult.left_commute)
  then show ?case using Suc by (simp add: replicate_append_same)
qed simp

lemma show_nat_bound: "n < 10 ^ length (show_nat n)"
proof (induction n rule: show_nat.induct)
  case (1 n)
  show ?case
  proof (cases "n < 10")
    case True
    then show ?thesis by (simp add: show_nat.simps [of n])
  next
    case False
    then have "n div 10 < 10 ^ length (show_nat (n div 10))" by (rule "1.IH")
    then have "n < 10 * 10 ^ length (show_nat (n div 10))" by (simp add: div_less_iff_less_mult mult.commute)
    then show ?thesis using False by (simp add: show_nat.simps [of n])
  qed
qed

lemma strip_zeros_replicate [simp]: "strip_zeros (replicate k (CHR ''0'')) = []"
  by (simp add: strip_zeros_def)

lemma format_pos_int:
  assumes "0 < n" and "n < 10 ^ p" and "0 < p"
  shows "format_pos p (of_nat n) = show_nat n"
proof -
  let ?l = "length (show_nat n)"
  have l: "?l \<le> p" using assms(2,3) by (rule length_show_nat)
  have l0: "0 < ?l" by simp
  have one: "(1 :: rat) \<le> of_nat n" using assms(1) by (simp add: Suc_le_eq)
  have x: "floor_log10 (of_nat n) = int ?l - 1" using one by (simp add: floor_log10_def)
  have "power_int10 (int ?l - 1 - int p + 1) = 1 / 10 ^ (p - ?l)"
    using l by (auto simp: power_int10_def nat_diff_distrib)
  then have "of_nat n / power_int10 (int ?l - 1 - int p + 1) = (of_int (int n * 10 ^ (p - ?l)) :: rat)"
    by simp
  then have m: "round_half_even (of_nat n / power_int10 (int ?l - 1 - int p + 1)) = int (n * 10 ^ (p - ?l))"
    by (simp only: round_half_even_int) simp
  have "n * 10 ^ (p - ?l) < 10 ^ ?l * 10 ^ (p - ?l)"
    using show_nat_bound [of n] by (intro mult_strict_right_mono) simp_all
  also have "\<dots> = 10 ^ p" using l by (simp flip: power_add)
  finally have "sig_digits p (of_nat n) = (n * 10 ^ (p - ?l), int ?l - 1)"
    unfolding sig_digits_def x Let_def m nat_int by simp
  moreover have "Suc (nat (int ?l - 1)) = ?l" using l0 by linarith
  ultimately show ?thesis
    using l l0 show_nat_times10 [OF assms(1), of "p - ?l"]
    by (simp add: format_pos_def with_point_def)
qed

lemma format_g_int:
  assumes "\<bar>i\<bar> < 10 ^ p" and "0 < p"
  shows "format_g p (of_int i) = show_int i"
proof (cases "i = 0")
  case True
  then show ?thesis by (simp add: format_g_def show_int_def show_nat.simps [of 0])
next
  case False
  define n where "n = nat \<bar>i\<bar>"
  have n: "0 < n" "n < 10 ^ p" using False assms by (auto simp: n_def nat_less_iff)
  show ?thesis
  proof (cases "i < 0")
    case True
    then have "- (of_int i :: rat) = of_nat n" and "n = nat (- i)" by (simp_all add: n_def)
    then show ?thesis
      using True format_pos_int [OF n assms(2)] by (simp add: format_g_def show_int_def)
  next
    case ge: False
    then have "(of_int i :: rat) = of_nat n" and "n = nat i" by (simp_all add: n_def)
    then show ?thesis
      using ge False format_pos_int [OF n assms(2)] by (simp add: format_g_def show_int_def)
  qed
qed

lemma compare_double_same: "compare_double (dbl_of_int i) (dbl_of_int i)"
proof -
  let ?q = "\<bar>of_int i :: rat\<bar> / 2 ^ 52"
  have f: "(0 :: rat) \<le> of_int (round_half_even r)" if "0 \<le> r" for r
    using that by (auto simp: round_half_even_def Let_def)
  have p: "0 < power_int2 e" for e by (simp add: power_int2_def)
  have "0 \<le> round_pos r" if "0 \<le> r" for r
    unfolding round_pos_def Let_def using that p by (intro mult_nonneg_nonneg f) (simp_all add: less_imp_le)
  then have "dbl_le (Finite 0) (round_double ?q)"
    by (simp add: round_double_def Let_def)
  moreover have "round_double 0 = Finite 0" by (simp add: round_double_def)
  ultimately show ?thesis by simp
qed

lemma number_buffer_text_int:
  assumes "\<bar>i\<bar> < 10 ^ 15"
  shows "number_buffer_text (dbl_of_int i) = show_int i"
proof (cases "(of_int i :: rat) = of_int (valueint (dbl_of_int i))")
  case True
  then have "valueint (dbl_of_int i) = i" by (simp only: of_int_eq_iff)
  then show ?thesis by (simp add: number_buffer_text_def del: valueint.simps)
next
  case False
  have g: "format_g 15 (of_int i) = show_int i" using assms by (rule format_g_int) simp
  have "\<bar>i\<bar> < 2 ^ 53" using assms by simp
  then have "strtod (show_int i) = Some (dbl_of_int i, [])" by (rule strtod_show_int)
  then show ?thesis
    using False g compare_double_same [of i]
    by (simp add: number_buffer_text_def del: valueint.simps compare_double.simps)
qed

lemma print_number_text_int:
  assumes "\<bar>i\<bar> < 10 ^ 15"
  shows "print_number_text (dbl_of_int i) = Some (show_int i)"
  using length_show_int [OF assms] number_buffer_text_int [OF assms]
  by (simp add: print_number_text_def)


section \<open>A number that does not survive printing\<close>

text \<open>The double nearest to 0.3 and the next one above it: \<open>compare_double\<close> cannot tell them apart.\<close>

lemma bit_length_3: "bit_length (Suc (Suc (Suc 0))) = 2" "bit_length 3 = 2"
  by (simp_all add: bit_length.simps [of "Suc (Suc (Suc 0))"] bit_length.simps [of 3] bit_length.simps [of 1]
      bit_length.simps [of 0] bit_length.simps [of "Suc 0"])

lemma digit_literals:
  "isdigit (CHR ''0'')" "isdigit (CHR ''3'')" "isdigit (CHR ''4'')"
  "digit_val (CHR ''0'') = 0" "digit_val (CHR ''3'') = 3" "digit_val (CHR ''4'') = 4"
  by (simp_all add: isdigit_def digit_val_def)

lemma round_0_3: "round_double (3 / 10) = Finite (5404319552844595 / 18014398509481984)"
proof -
  have "\<lceil>10 / 3 :: rat\<rceil> = 4" by (rule ceiling_unique) simp_all
  then have l: "floor_log2 (3 / 10) = - 2" by (simp add: floor_log2_def bit_length_3)
  have f: "\<lfloor>27021597764222976 / 5 :: rat\<rfloor> = 5404319552844595" by (rule floor_unique) simp_all
  have "round_half_even (27021597764222976 / 5) = 5404319552844595"
    unfolding round_half_even_def Let_def f by simp
  then have "round_pos (3 / 10) = 5404319552844595 / 18014398509481984"
    by (simp add: round_pos_def l power_int2_def)
  then show ?thesis by (simp add: round_double_def)
qed

lemma round_0_3_next:
  "round_double (7500000000000001 / 25000000000000000) = Finite (1351079888211149 / 4503599627370496)"
proof -
  have "\<lceil>25000000000000000 / 7500000000000001 :: rat\<rceil> = 4" by (rule ceiling_unique) simp_all
  then have l: "floor_log2 (7500000000000001 / 25000000000000000) = - 2"
    by (simp add: floor_log2_def bit_length_3)
  have f: "\<lfloor>7500000000000001 * 18014398509481984 / 25000000000000000 :: rat\<rfloor> = 5404319552844595"
    by (rule floor_unique) simp_all
  have "round_half_even (7500000000000001 * 18014398509481984 / 25000000000000000) = 5404319552844596"
    unfolding round_half_even_def Let_def f by simp
  then have "round_pos (7500000000000001 / 25000000000000000) = 1351079888211149 / 4503599627370496"
    by (simp add: round_pos_def l power_int2_def)
  then show ?thesis by (simp add: round_double_def)
qed

lemma strtod_0_3: "strtod ''0.3'' = Some (Finite (5404319552844595 / 18014398509481984), [])"
  using round_0_3
  by (simp add: strtod_def scan_sign_def digit_literals scan_fraction_def scan_exponent_def dec_val_def
      power_int10_def)

lemma format_0_3_next: "format_g 15 (1351079888211149 / 4503599627370496) = ''0.3''"
proof -
  have "\<lceil>4503599627370496 / 1351079888211149 :: rat\<rceil> = 4" by (rule ceiling_unique) simp_all
  then have l: "floor_log10 (1351079888211149 / 4503599627370496) = - 1"
    by (simp add: floor_log10_def show_nat.simps)
  have f: "\<lfloor>1351079888211149 * 1000000000000000 / 4503599627370496 :: rat\<rfloor> = 300000000000000"
    by (rule floor_unique) simp_all
  have "round_half_even (1351079888211149 * 1000000000000000 / 4503599627370496) = 300000000000000"
    unfolding round_half_even_def Let_def f by simp
  then have "sig_digits 15 (1351079888211149 / 4503599627370496) = (300000000000000, - 1)"
    by (simp add: sig_digits_def l power_int10_def)
  moreover have "show_nat 300000000000000 = ''3'' @ replicate 14 (CHR ''0'')"
    using show_nat_times10 [of 3 14] by (simp add: show_nat.simps [of 3])
  ultimately show ?thesis
    by (simp add: format_g_def format_pos_def with_point_def strip_zeros_def dropWhile_append)
qed

lemma round_tiny: "round_double (1 / 18014398509481984) = Finite (1 / 18014398509481984)"
proof -
  have "bit_length 18014398509481983 = 54" by (simp add: bit_length.simps)
  then have l: "floor_log2 (1 / 18014398509481984) = - 54" by (simp add: floor_log2_def)
  have "round_half_even (4503599627370496) = 4503599627370496"
    using round_half_even_int [of 4503599627370496] by simp
  then have "round_pos (1 / 18014398509481984) = 1 / 18014398509481984"
    by (simp add: round_pos_def l power_int2_def)
  then show ?thesis by (simp add: round_double_def)
qed


lemma round_eps:
  "round_double (1351079888211149 / 20282409603651670423947251286016) =
     Finite (1351079888211149 / 20282409603651670423947251286016)"
proof -
  have "\<lceil>20282409603651670423947251286016 / 1351079888211149 :: rat\<rceil> = 15011998757901652"
    by (rule ceiling_unique) simp_all
  moreover have "bit_length 15011998757901651 = 54" by (simp add: bit_length.simps)
  ultimately have l: "floor_log2 (1351079888211149 / 20282409603651670423947251286016) = - 54"
    by (simp add: floor_log2_def)
  have "round_half_even 5404319552844596 = 5404319552844596"
    using round_half_even_int [of 5404319552844596] by simp
  then have "round_pos (1351079888211149 / 20282409603651670423947251286016) =
      1351079888211149 / 20282409603651670423947251286016"
    by (simp add: round_pos_def l power_int2_def)
  then show ?thesis by (simp add: round_double_def)
qed

text \<open>Printing is not exact on every double, although it tests whether the value can be recovered:
  the number 0.30000000000000004 is printed as 0.3, which reads back as another double.\<close>

theorem printed_number_may_differ:
  "\<exists>d t. strtod ''0.30000000000000004'' = Some (d, []) \<and> print_number_text d = Some ''0.3'' \<and>
     strtod ''0.3'' = Some (t, []) \<and> t \<noteq> d"
proof -
  let ?d = "Finite (1351079888211149 / 4503599627370496)" and ?t = "Finite (5404319552844595 / 18014398509481984)"
  have "strtod ''0.30000000000000004'' = Some (?d, [])"
    using round_0_3_next
    by (simp add: strtod_def scan_sign_def digit_literals scan_fraction_def scan_exponent_def dec_val_def
        power_int10_def)
  moreover have c: "compare_double ?t ?d" by (simp add: round_tiny round_eps)
  moreover have "valueint ?d = 0" by (simp add: INT_MAX_def INT_MIN_def floor_eq_iff)
  then have "number_buffer_text ?d = ''0.3''"
    using c by (simp add: number_buffer_text_def format_0_3_next strtod_0_3 del: compare_double.simps valueint.simps)
  then have "print_number_text ?d = Some ''0.3''" by (simp add: print_number_text_def)
  moreover have "?t \<noteq> ?d" by simp
  ultimately show ?thesis using strtod_0_3 by blast
qed

end
