(* ===== verification/Transport.thy ===== *)
theory Transport
  imports C_Lib
begin

text \<open>
  The POSIX half of \<^verbatim>\<open>src/mcp_transport.c\<close>.  A connection is its descriptor together
  with the kernel's socket behind it.  What the peer and the kernel do is a
  script inside the socket: the results \<open>read()\<close> will give, and for every pass of a
  write loop the clock reading, the \<open>poll()\<close> result and the \<open>send()\<close> result.  An
  exhausted receive script is end of file; an exhausted transmit script is a peer
  that never drains again.  The locales \<open>conn_source\<close> and \<open>conn_sink\<close> state what the
  framing code above relies on, and are interpreted here by the POSIX operations.
\<close>

section \<open>Sockets\<close>

datatype rx_event = RxData bytes | RxEintr | RxErr

datatype poll_result = PollReady | PollTimeout | PollEintr | PollErr

datatype send_result = SendOk nat | SendEintr | SendErr

text \<open>\<open>struct timespec\<close>: seconds and nanoseconds.\<close>

type_synonym timespec = "int \<times> int"

record tx_event =
  now_ts :: timespec
  poll_rc :: poll_result
  send_rc :: send_result

text \<open>\<open>queued\<close> is how many entries of the receive script are in the socket buffer
  already; \<open>shutdown()\<close> leaves those readable and cuts off the rest.  \<open>sent\<close> is every
  byte the kernel accepted for the peer, \<open>clock\<close> the time of day the next call starts at.\<close>

record mcp_conn =
  conn_fd :: int
  rx :: "rx_event list"
  queued :: nat
  tx :: "tx_event list"
  clock :: timespec
  sent :: bytes
  shut :: bool

section \<open>Reading\<close>

fun conn_read_loop :: "nat \<Rightarrow> bytes \<Rightarrow> rx_event list \<Rightarrow> bytes option \<times> rx_event list" where
  "conn_read_loop len acc [] = ((if len = 0 then Some acc else None), [])"
| "conn_read_loop len acc (e # es) =
     (if len = 0 then (Some acc, e # es)
      else case e of
        RxEintr \<Rightarrow> conn_read_loop len acc es
      | RxErr \<Rightarrow> (None, es)
      | RxData d \<Rightarrow>
          if d = [] then (None, es)
          else if length d \<le> len then conn_read_loop (len - length d) (acc @ d) es
          else (Some (acc @ take len d), RxData (drop len d) # es))"

definition mcp_conn_read :: "mcp_conn option \<Rightarrow> nat \<Rightarrow> mcp_conn option \<times> bytes option" where
  "mcp_conn_read conn len =
     (case conn of None \<Rightarrow> (None, None)
      | Some c \<Rightarrow>
          let (r, rx') = conn_read_loop len [] (rx c)
          in (Some (c\<lparr>rx := rx', queued := queued c - (length (rx c) - length rx')\<rparr>), r))"

text \<open>The bytes a reader can still get before end of file or an error.\<close>

fun rx_bytes :: "rx_event list \<Rightarrow> bytes" where
  "rx_bytes [] = []"
| "rx_bytes (RxEintr # es) = rx_bytes es"
| "rx_bytes (RxErr # es) = []"
| "rx_bytes (RxData d # es) = (if d = [] then [] else d @ rx_bytes es)"

definition conn_pending :: "mcp_conn option \<Rightarrow> bytes" where
  "conn_pending conn = (case conn of None \<Rightarrow> [] | Some c \<Rightarrow> rx_bytes (rx c))"

lemma conn_read_loop_spec:
  "conn_read_loop len acc es = (r, es') \<Longrightarrow>
     (if len \<le> length (rx_bytes es)
      then r = Some (acc @ take len (rx_bytes es)) \<and> rx_bytes es' = drop len (rx_bytes es)
      else r = None)"
proof (induction len acc es arbitrary: r es' rule: conn_read_loop.induct)
  case (1 len acc)
  then show ?case by (auto split: if_splits)
next
  case (2 len acc e es)
  show ?case
  proof (cases "len = 0")
    case True
    with "2.prems" show ?thesis by simp
  next
    case False
    show ?thesis
    proof (cases e)
      case (RxData d)
      show ?thesis
      proof (cases "d \<noteq> [] \<and> length d \<le> len")
        case True
        with "2.prems" RxData False
        have l: "conn_read_loop (len - length d) (acc @ d) es = (r, es')" by simp
        from True have "d \<noteq> []" and "length d \<le> len" by auto
        from "2.IH"(1) [OF False RxData this l] True RxData show ?thesis
          by (auto split: if_splits)
      next
        case nt: False
        with "2.prems" RxData False show ?thesis by (auto split: if_splits)
      qed
    qed (use 2 False in auto)
  qed
qed

text \<open>Reading at the interface: on a valid handle, exactly \<open>n\<close> bytes in order, or failure
  when fewer are to come.\<close>

locale conn_source =
  fixes rd :: "'s \<Rightarrow> nat \<Rightarrow> 's \<times> bytes option"
    and pending :: "'s \<Rightarrow> bytes"
    and valid :: "'s \<Rightarrow> bool"
  assumes rd_valid: "valid s \<Longrightarrow> valid (fst (rd s n))"
    and rd_enough: "valid s \<Longrightarrow> n \<le> length (pending s) \<Longrightarrow>
          snd (rd s n) = Some (take n (pending s)) \<and> pending (fst (rd s n)) = drop n (pending s)"
    and rd_short: "valid s \<Longrightarrow> length (pending s) < n \<Longrightarrow> snd (rd s n) = None"
begin

lemma rd_cases:
  assumes "valid s"
  obtains (enough) s' where "n \<le> length (pending s)" "rd s n = (s', Some (take n (pending s)))"
      "pending s' = drop n (pending s)" "valid s'"
  | (short) s' where "length (pending s) < n" "rd s n = (s', None)" "valid s'"
proof (cases "n \<le> length (pending s)")
  case True
  with assms rd_enough [of s n] rd_valid [of s n] show thesis
    by (intro enough [of "fst (rd s n)"]) (auto simp: prod_eq_iff)
next
  case False
  with assms rd_short [of s n] rd_valid [of s n] show thesis
    by (intro short [of "fst (rd s n)"]) (auto simp: prod_eq_iff)
qed

lemma rd_someD:
  assumes "valid s" and "rd s n = (s', Some bs)"
  shows "n \<le> length (pending s)" "bs = take n (pending s)" "pending s' = drop n (pending s)"
    "valid s'"
proof -
  have "n \<le> length (pending s)"
    using assms rd_short [of s n] by (metis not_less option.distinct(1) snd_conv)
  then show "n \<le> length (pending s)" "bs = take n (pending s)" "pending s' = drop n (pending s)"
    "valid s'"
    using assms rd_enough [of s n] rd_valid [of s n] by auto
qed

end

lemma mcp_conn_read_spec:
  "snd (mcp_conn_read (Some c) n) =
     (if n \<le> length (conn_pending (Some c)) then Some (take n (conn_pending (Some c))) else None)"
  "n \<le> length (conn_pending (Some c)) \<Longrightarrow>
     conn_pending (fst (mcp_conn_read (Some c) n)) = drop n (conn_pending (Some c))"
proof -
  obtain r rx' where l: "conn_read_loop n [] (rx c) = (r, rx')" by fastforce
  from conn_read_loop_spec [OF l]
  show "snd (mcp_conn_read (Some c) n) =
     (if n \<le> length (conn_pending (Some c)) then Some (take n (conn_pending (Some c))) else None)"
    and "n \<le> length (conn_pending (Some c)) \<Longrightarrow>
     conn_pending (fst (mcp_conn_read (Some c) n)) = drop n (conn_pending (Some c))"
    by (auto simp: mcp_conn_read_def conn_pending_def l split: if_splits)
qed

text \<open>A handle the module gave out: an object with an open descriptor.\<close>

definition conn_valid :: "mcp_conn option \<Rightarrow> bool" where
  "conn_valid conn = (case conn of None \<Rightarrow> False | Some c \<Rightarrow> 0 \<le> conn_fd c)"

lemma conn_valid_iff: "conn_valid conn \<longleftrightarrow> (\<exists>c. conn = Some c \<and> 0 \<le> conn_fd c)"
  by (auto simp: conn_valid_def split: option.splits)

lemma conn_valid_read: "conn_valid s \<Longrightarrow> conn_valid (fst (mcp_conn_read s n))"
  by (cases s) (auto simp: conn_valid_def mcp_conn_read_def split: prod.splits)

interpretation posix_src: conn_source mcp_conn_read conn_pending conn_valid
proof
  show "conn_valid (fst (mcp_conn_read s n))" if "conn_valid s" for s n
    using that by (rule conn_valid_read)
qed (auto simp: conn_valid_iff mcp_conn_read_spec)

section \<open>Writing\<close>

text \<open>\<open>send()\<close> on a socket that was shut down fails whatever the script says.
  The result \<open>None\<close> is a write that never returns: the peer takes no more bytes.\<close>

fun conn_write_loop ::
    "bool \<Rightarrow> bytes \<Rightarrow> bytes \<Rightarrow> tx_event list \<Rightarrow> (bool \<times> bytes \<times> tx_event list) option" where
  "conn_write_loop dead buf out [] =
     (if buf = [] then Some (True, out, []) else if dead then Some (False, out, []) else None)"
| "conn_write_loop dead buf out (e # es) =
     (if buf = [] then Some (True, out, e # es)
      else if dead then Some (False, out, es)
      else case send_rc e of
        SendEintr \<Rightarrow> conn_write_loop dead buf out es
      | SendErr \<Rightarrow> Some (False, out, es)
      | SendOk n \<Rightarrow>
          if n = 0 then Some (False, out, es)
          else conn_write_loop dead (drop n buf) (out @ take n buf) es)"

definition mcp_conn_write :: "mcp_conn option \<Rightarrow> bytes \<Rightarrow> (bool \<times> mcp_conn option) option" where
  "mcp_conn_write conn buf =
     (case conn of None \<Rightarrow> Some (False, None)
      | Some c \<Rightarrow>
          map_option (\<lambda>(ok, out, tx'). (ok, Some (c\<lparr>sent := out, tx := tx'\<rparr>)))
            (conn_write_loop (shut c) buf (sent c) (tx c)))"

text \<open>\<open>shutdown(SHUT_RDWR)\<close>: what is queued stays readable, then end of file; sends fail.\<close>

definition mcp_conn_abort :: "mcp_conn option \<Rightarrow> mcp_conn option" where
  "mcp_conn_abort conn =
     (case conn of None \<Rightarrow> None
      | Some c \<Rightarrow>
          if conn_fd c < 0 then Some c
          else Some (c\<lparr>shut := True, rx := take (queued c) (rx c)\<rparr>))"

text \<open>C's truncating division, for the nanosecond difference.\<close>

definition c_div :: "int \<Rightarrow> int \<Rightarrow> int" where
  "c_div a b = sgn a * sgn b * (\<bar>a\<bar> div \<bar>b\<bar>)"

definition elapsed_ms :: "timespec \<Rightarrow> timespec \<Rightarrow> int" where
  "elapsed_ms start t = (fst t - fst start) * 1000 + c_div (snd t - snd start) 1000000"

text \<open>One pass of the bounded loop reads the clock, gives up past the deadline, polls for
  the rest of the budget and sends.  Every way out but success aborts the connection.\<close>

fun bounded_loop ::
    "int \<Rightarrow> timespec \<Rightarrow> bytes \<Rightarrow> mcp_conn \<Rightarrow> tx_event list \<Rightarrow> (bool \<times> mcp_conn option) option" where
  "bounded_loop timeout_ms start buf c [] =
     (if buf = [] then Some (True, Some (c\<lparr>tx := []\<rparr>)) else None)"
| "bounded_loop timeout_ms start buf c (e # es) =
     (if buf = [] then Some (True, Some (c\<lparr>tx := e # es\<rparr>))
      else let c' = c\<lparr>tx := es, clock := now_ts e\<rparr> in
        if timeout_ms - elapsed_ms start (now_ts e) \<le> 0
        then Some (False, mcp_conn_abort (Some c'))
        else case poll_rc e of
          PollTimeout \<Rightarrow> Some (False, mcp_conn_abort (Some c'))
        | PollEintr \<Rightarrow> bounded_loop timeout_ms start buf c' es
        | PollErr \<Rightarrow> Some (False, mcp_conn_abort (Some c'))
        | PollReady \<Rightarrow>
            (case (if shut c then SendErr else send_rc e) of
               SendEintr \<Rightarrow> bounded_loop timeout_ms start buf c' es
             | SendErr \<Rightarrow> Some (False, mcp_conn_abort (Some c'))
             | SendOk n \<Rightarrow>
                 if n = 0 then Some (False, mcp_conn_abort (Some c'))
                 else bounded_loop timeout_ms start (drop n buf)
                        (c'\<lparr>sent := sent c @ take n buf\<rparr>) es))"

definition mcp_conn_write_bounded ::
    "mcp_conn option \<Rightarrow> bytes \<Rightarrow> int \<Rightarrow> (bool \<times> mcp_conn option) option" where
  "mcp_conn_write_bounded conn buf timeout_ms =
     (case conn of None \<Rightarrow> Some (False, None)
      | Some c \<Rightarrow> bounded_loop timeout_ms (clock c) buf c (tx c))"

text \<open>\<open>mcp_conn_close\<close> shuts the socket down, closes the descriptor and frees the object;
  the handle is gone afterwards.\<close>

definition mcp_conn_close :: "mcp_conn option \<Rightarrow> mcp_conn option" where
  "mcp_conn_close conn = None"

definition mcp_conn_fd :: "mcp_conn option \<Rightarrow> int" where
  "mcp_conn_fd conn = (case conn of None \<Rightarrow> -1 | Some c \<Rightarrow> conn_fd c)"

definition conn_sent :: "mcp_conn option \<Rightarrow> bytes" where
  "conn_sent conn = (case conn of None \<Rightarrow> [] | Some c \<Rightarrow> sent c)"

definition conn_dead :: "mcp_conn option \<Rightarrow> bool" where
  "conn_dead conn = (case conn of None \<Rightarrow> True | Some c \<Rightarrow> shut c)"

lemma conn_write_loop_spec:
  "conn_write_loop dead buf out es = Some (ok, out', es') \<Longrightarrow>
     (ok \<longrightarrow> out' = out @ buf) \<and> (\<not> ok \<longrightarrow> (\<exists>k < length buf. out' = out @ take k buf))"
proof (induction dead buf out es arbitrary: ok out' es' rule: conn_write_loop.induct)
  case (1 dead buf out)
  then show ?case by (auto split: if_splits intro!: exI [of _ 0])
next
  case (2 dead buf out e es)
  show ?case
  proof (cases "buf = [] \<or> dead")
    case True
    with "2.prems" show ?thesis by (auto split: if_splits intro!: exI [of _ 0])
  next
    case False
    then have nb: "buf \<noteq> []" and nd: "\<not> dead" by auto
    show ?thesis
    proof (cases "send_rc e")
      case (SendOk n)
      show ?thesis
      proof (cases "n = 0")
        case True
        with "2.prems" SendOk nb nd show ?thesis by (auto intro!: exI [of _ 0])
      next
        case n0: False
        with "2.prems" SendOk nb nd
        have l: "conn_write_loop dead (drop n buf) (out @ take n buf) es = Some (ok, out', es')"
          by simp
        from "2.IH"(1) [OF nb nd SendOk n0 l] show ?thesis
        proof (cases ok)
          case False
          with "2.IH"(1) [OF nb nd SendOk n0 l] obtain k where
            k: "k < length (drop n buf)" "out' = (out @ take n buf) @ take k (drop n buf)" by auto
          then have "out' = out @ take (n + k) buf" by (simp add: take_add)
          with k False show ?thesis by (auto intro!: exI [of _ "n + k"])
        qed auto
      qed
    qed (use 2 nb nd in \<open>auto intro!: exI [of _ 0]\<close>)
  qed
qed

lemma mcp_conn_abort_facts:
  "conn_sent (mcp_conn_abort s) = conn_sent s"
  "conn_valid (mcp_conn_abort s) = conn_valid s"
  "conn_valid s \<Longrightarrow> conn_dead (mcp_conn_abort s)"
  by (auto simp: mcp_conn_abort_def conn_sent_def conn_valid_def conn_dead_def split: option.splits)

lemma bounded_loop_spec:
  "bounded_loop T start buf c es = Some (ok, s') \<Longrightarrow> 0 \<le> conn_fd c \<Longrightarrow>
     conn_valid s' \<and> (ok \<longrightarrow> conn_sent s' = sent c @ buf) \<and>
     (\<not> ok \<longrightarrow> conn_dead s' \<and> (\<exists>k < length buf. conn_sent s' = sent c @ take k buf))"
proof (induction T start buf c es arbitrary: ok s' rule: bounded_loop.induct)
  case (1 T start buf c)
  then show ?case by (auto simp: conn_valid_def conn_sent_def split: if_splits)
next
  case (2 T start buf c e es)
  let ?c' = "c\<lparr>tx := es, clock := now_ts e\<rparr>"
  have quit: ?case if "Some (ok, s') = Some (False, mcp_conn_abort (Some ?c'))" and "buf \<noteq> []"
    using that "2.prems"(2)
    by (auto simp: mcp_conn_abort_def conn_valid_def conn_sent_def conn_dead_def intro!: exI [of _ 0])
  show ?case
  proof (cases "buf = []")
    case True
    with "2.prems" show ?thesis by (auto simp: conn_valid_def conn_sent_def)
  next
    case nb: False
    show ?thesis
    proof (cases "T - elapsed_ms start (now_ts e) \<le> 0")
      case True
      with "2.prems" nb show ?thesis by (intro quit) simp_all
    next
      case nt: False
      show ?thesis
      proof (cases "poll_rc e")
        case PollReady
        show ?thesis
        proof (cases "if shut c then SendErr else send_rc e")
          case (SendOk n)
          show ?thesis
          proof (cases "n = 0")
            case True
            with "2.prems" nb nt PollReady SendOk show ?thesis by (intro quit) (simp_all add: Let_def)
          next
            case n0: False
            let ?c2 = "?c'\<lparr>sent := sent c @ take n buf\<rparr>"
            from "2.prems" nb nt PollReady SendOk n0
            have l: "bounded_loop T start (drop n buf) ?c2 es = Some (ok, s')"
              by (simp add: Let_def)
            from "2.prems"(2) have fd: "0 \<le> conn_fd ?c2" by simp
            from "2.IH"(1) [OF nb refl nt PollReady SendOk n0 l fd]
            have IH: "conn_valid s' \<and> (ok \<longrightarrow> conn_sent s' = sent ?c2 @ drop n buf) \<and>
              (\<not> ok \<longrightarrow> conn_dead s' \<and> (\<exists>k < length (drop n buf). conn_sent s' = sent ?c2 @ take k (drop n buf)))" .
            have "\<exists>k < length buf. conn_sent s' = sent c @ take k buf" if "\<not> ok"
            proof -
              from IH that obtain k where "k < length (drop n buf)"
                "conn_sent s' = sent ?c2 @ take k (drop n buf)" by blast
              then show ?thesis by (intro exI [of _ "n + k"]) (auto simp: take_add)
            qed
            with IH show ?thesis by auto
          qed
        next
          case SendEintr
          with "2.prems"(1) nb nt PollReady have l: "bounded_loop T start buf ?c' es = Some (ok, s')"
            by (simp add: Let_def)
          from "2.prems"(2) have fd: "0 \<le> conn_fd ?c'" by simp
          from "2.IH"(2) [OF nb refl nt PollReady SendEintr l fd] show ?thesis by simp
        next
          case SendErr
          with "2.prems" nb nt PollReady show ?thesis by (intro quit) (simp_all add: Let_def)
        qed
      next
        case PollEintr
        with "2.prems"(1) nb nt have l: "bounded_loop T start buf ?c' es = Some (ok, s')"
          by (simp add: Let_def)
        from "2.prems"(2) have fd: "0 \<le> conn_fd ?c'" by simp
        from "2.IH"(3) [OF nb refl nt PollEintr l fd] show ?thesis by simp
      next
        case PollTimeout
        with "2.prems" nb nt show ?thesis by (intro quit) (simp_all add: Let_def)
      next
        case PollErr
        with "2.prems" nb nt show ?thesis by (intro quit) (simp_all add: Let_def)
      qed
    qed
  qed
qed

text \<open>A bounded write returns as soon as a pass sees the deadline passed or the poll time out.\<close>

lemma bounded_loop_returns:
  "\<exists>e\<in>set es. T - elapsed_ms start (now_ts e) \<le> 0 \<or> poll_rc e = PollTimeout \<Longrightarrow>
     \<exists>r. bounded_loop T start buf c es = Some r"
proof (induction T start buf c es rule: bounded_loop.induct)
  case (1 T start buf c)
  then show ?case by simp
next
  case (2 T start buf c e es)
  show ?case
  proof (cases "buf = [] \<or> T - elapsed_ms start (now_ts e) \<le> 0 \<or> poll_rc e = PollTimeout")
    case True
    then show ?thesis by (auto simp: Let_def)
  next
    case False
    with "2.prems" have ex: "\<exists>e\<in>set es. T - elapsed_ms start (now_ts e) \<le> 0 \<or> poll_rc e = PollTimeout"
      by auto
    from False have nb: "buf \<noteq> []" and nt: "\<not> T - elapsed_ms start (now_ts e) \<le> 0" by auto
    note IH = "2.IH"(1) [OF nb refl nt _ _ _ ex] "2.IH"(2) [OF nb refl nt _ _ ex] "2.IH"(3) [OF nb refl nt _ ex]
    show ?thesis
      using nb nt IH by (auto simp: Let_def split: poll_result.splits send_result.splits)
  qed
qed

section \<open>The writing interfaces\<close>

text \<open>A sink accepts the whole buffer or reports failure after a prefix of it; an exact sink never
  reports failure after the whole of it.  A bounded sink has moreover killed the connection when it
  reports failure.\<close>

locale conn_sink =
  fixes wr :: "'s \<Rightarrow> bytes \<Rightarrow> (bool \<times> 's) option"
    and out :: "'s \<Rightarrow> bytes"
    and valid :: "'s \<Rightarrow> bool"
  assumes wr_valid: "valid s \<Longrightarrow> wr s b = Some (ok, s') \<Longrightarrow> valid s'"
    and wr_true: "valid s \<Longrightarrow> wr s b = Some (True, s') \<Longrightarrow> out s' = out s @ b"
    and wr_false: "valid s \<Longrightarrow> wr s b = Some (False, s') \<Longrightarrow> \<exists>k. out s' = out s @ take k b"

locale exact_sink = conn_sink +
  assumes wr_proper: "valid s \<Longrightarrow> wr s b = Some (False, s') \<Longrightarrow> \<exists>k < length b. out s' = out s @ take k b"

locale bounded_sink = conn_sink +
  fixes dead :: "'a \<Rightarrow> bool"
  assumes wr_false_dead: "valid s \<Longrightarrow> wr s b = Some (False, s') \<Longrightarrow> dead s'"

lemma mcp_conn_write_spec:
  assumes "conn_valid s" and "mcp_conn_write s b = Some (ok, s')"
  shows "conn_valid s'" and "ok \<Longrightarrow> conn_sent s' = conn_sent s @ b"
    and "\<not> ok \<Longrightarrow> \<exists>k < length b. conn_sent s' = conn_sent s @ take k b"
  using assms
  by (auto simp: conn_valid_iff mcp_conn_write_def conn_sent_def dest!: conn_write_loop_spec) blast

lemma mcp_conn_write_bounded_spec:
  assumes "conn_valid s" and "mcp_conn_write_bounded s b t = Some (ok, s')"
  shows "conn_valid s'" and "ok \<Longrightarrow> conn_sent s' = conn_sent s @ b"
    and "\<not> ok \<Longrightarrow> \<exists>k < length b. conn_sent s' = conn_sent s @ take k b"
    and "\<not> ok \<Longrightarrow> conn_dead s'"
  using assms
  by (auto simp: conn_valid_iff mcp_conn_write_bounded_def conn_sent_def dest!: bounded_loop_spec) blast+

interpretation posix_sink: exact_sink mcp_conn_write conn_sent conn_valid
  by unfold_locales (auto dest: mcp_conn_write_spec)

interpretation posix_bounded: bounded_sink "\<lambda>s b. mcp_conn_write_bounded s b t" conn_sent conn_valid conn_dead
  for t
  by unfold_locales (auto dest: mcp_conn_write_bounded_spec)

interpretation posix_bounded_exact: exact_sink "\<lambda>s b. mcp_conn_write_bounded s b t" conn_sent conn_valid
  for t
  by unfold_locales (auto dest: mcp_conn_write_bounded_spec)

section \<open>Socket paths, listeners, connecting\<close>

text \<open>\<open>char path[128]\<close> in the callers; \<open>sun_path\<close> of a \<open>sockaddr_un\<close> holds 108 bytes.\<close>

definition SOCK_PREFIX :: bytes where "SOCK_PREFIX = ''/tmp/displayxr-mcp-''"
definition SOCK_SUFFIX :: bytes where "SOCK_SUFFIX = ''.sock''"

definition build_sock_path :: "nat \<Rightarrow> int \<Rightarrow> bytes" where
  "build_sock_path cap pid = snprintf_s cap (SOCK_PREFIX @ show_int pid @ SOCK_SUFFIX)"

definition build_sock_path_named :: "nat \<Rightarrow> bytes \<Rightarrow> bytes" where
  "build_sock_path_named cap role = snprintf_s cap (SOCK_PREFIX @ role @ SOCK_SUFFIX)"

text \<open>The part of the operating system the module changes: the socket files that exist and the
  descriptors it holds.  \<open>open_env\<close> is what the three system calls of an open answer; \<open>bind\<close>
  also fails on an address that is taken.\<close>

record unix_os =
  sock_files :: "bytes list"
  open_fds :: "int list"

record open_env =
  socket_rc :: int
  bind_fails :: bool
  listen_rc :: int

record mcp_listener =
  l_fd :: int
  l_path :: bytes

definition os_unlink :: "bytes \<Rightarrow> unix_os \<Rightarrow> unix_os" where
  "os_unlink p os = os\<lparr>sock_files := removeAll p (sock_files os)\<rparr>"

definition os_close :: "int \<Rightarrow> unix_os \<Rightarrow> unix_os" where
  "os_close fd os = os\<lparr>open_fds := removeAll fd (open_fds os)\<rparr>"

definition listener_open_path :: "open_env \<Rightarrow> bytes \<Rightarrow> unix_os \<Rightarrow> mcp_listener option \<times> unix_os" where
  "listener_open_path env path os =
     (let p = snprintf_s 128 path;
          os1 = os_unlink p os
      in if socket_rc env < 0 then (None, os1)
         else
           let fd = socket_rc env;
               os2 = os1\<lparr>open_fds := fd # open_fds os1\<rparr>;
               addr = snprintf_s 108 p
           in if bind_fails env \<or> addr \<in> set (sock_files os2) then (None, os_close fd os2)
              else
                let os3 = os2\<lparr>sock_files := addr # sock_files os2\<rparr>
                in if listen_rc env \<noteq> 0 then (None, os_unlink p (os_close fd os3))
                   else (Some \<lparr>l_fd = fd, l_path = p\<rparr>, os3))"

definition mcp_listener_open :: "open_env \<Rightarrow> int \<Rightarrow> unix_os \<Rightarrow> mcp_listener option \<times> unix_os" where
  "mcp_listener_open env pid os = listener_open_path env (build_sock_path 128 pid) os"

definition mcp_listener_open_named ::
    "open_env \<Rightarrow> bytes option \<Rightarrow> unix_os \<Rightarrow> mcp_listener option \<times> unix_os" where
  "mcp_listener_open_named env role os =
     (case role of None \<Rightarrow> (None, os)
      | Some r \<Rightarrow>
          if r = [] then (None, os)
          else listener_open_path env (build_sock_path_named 128 r) os)"

text \<open>\<open>accepted\<close> is what \<open>accept()\<close> gives: a fresh socket, or \<open>None\<close> on failure, which is
  how a closed listener wakes the caller.\<close>

definition mcp_listener_accept :: "mcp_listener option \<Rightarrow> mcp_conn option \<Rightarrow> mcp_conn option" where
  "mcp_listener_accept listener accepted =
     (case listener of None \<Rightarrow> None | Some l \<Rightarrow> if l_fd l < 0 then None else accepted)"

definition mcp_listener_close :: "mcp_listener option \<Rightarrow> unix_os \<Rightarrow> unix_os" where
  "mcp_listener_close listener os =
     (case listener of None \<Rightarrow> os
      | Some l \<Rightarrow> os_unlink (l_path l) (if 0 \<le> l_fd l then os_close (l_fd l) os else os))"

text \<open>\<open>peer\<close> is the world of endpoints: the socket a \<open>connect()\<close> to an address yields, if any.\<close>

definition conn_connect_path :: "(bytes \<Rightarrow> mcp_conn option) \<Rightarrow> bytes \<Rightarrow> mcp_conn option" where
  "conn_connect_path peer path = peer (snprintf_s 108 path)"

definition mcp_conn_connect :: "(bytes \<Rightarrow> mcp_conn option) \<Rightarrow> int \<Rightarrow> mcp_conn option" where
  "mcp_conn_connect peer pid = conn_connect_path peer (build_sock_path 128 pid)"

definition mcp_conn_connect_named :: "(bytes \<Rightarrow> mcp_conn option) \<Rightarrow> bytes option \<Rightarrow> mcp_conn option" where
  "mcp_conn_connect_named peer role =
     (case role of None \<Rightarrow> None
      | Some r \<Rightarrow> if r = [] then None else conn_connect_path peer (build_sock_path_named 128 r))"

section \<open>Session discovery\<close>

text \<open>The directory scan: names of the form \<open>displayxr-mcp-<pid>.sock\<close>; \<open>None\<close> is a failed \<open>opendir\<close>.\<close>

fun enumerate_loop :: "nat \<Rightarrow> nat \<Rightarrow> bytes list \<Rightarrow> int list" where
  "enumerate_loop cap n [] = []"
| "enumerate_loop cap n (name # names) =
     (if \<not> n < cap then []
      else if length name \<le> length ''displayxr-mcp-'' + length SOCK_SUFFIX then enumerate_loop cap n names
      else if \<not> starts_with ''displayxr-mcp-'' name then enumerate_loop cap n names
      else if drop (length name - length SOCK_SUFFIX) name \<noteq> SOCK_SUFFIX then enumerate_loop cap n names
      else
        let pid = fst (strtol 64 (drop (length ''displayxr-mcp-'') name))
        in if pid \<le> 0 then enumerate_loop cap n names
           else pid # enumerate_loop cap (Suc n) names)"

definition mcp_enumerate_sessions :: "bytes list option \<Rightarrow> nat \<Rightarrow> int list" where
  "mcp_enumerate_sessions dir cap = (case dir of None \<Rightarrow> [] | Some names \<Rightarrow> enumerate_loop cap 0 names)"

lemma enumerate_loop_bound: "n \<le> cap \<Longrightarrow> n + length (enumerate_loop cap n names) \<le> cap"
proof (induction cap n names rule: enumerate_loop.induct)
  case (1 cap n)
  then show ?case by simp
next
  case (2 cap n name names)
  then show ?case by (auto simp: Let_def)
qed

lemma enumerate_loop_pos: "p \<in> set (enumerate_loop cap n names) \<Longrightarrow> 0 < p"
  by (induction cap n names rule: enumerate_loop.induct) (auto simp: Let_def split: if_splits)


section \<open>What the transport guarantees\<close>

text \<open>C37. A bounded write that reports success has sent the whole buffer; one that reports
  failure has sent a proper prefix only and has killed the connection, so a cut frame is never
  followed by another one.\<close>

theorem bounded_write_all_or_dead:
  assumes "conn_valid s" and "mcp_conn_write_bounded s b t = Some (ok, s')"
  shows "conn_valid s' \<and> (ok \<longrightarrow> conn_sent s' = conn_sent s @ b) \<and>
    (\<not> ok \<longrightarrow> conn_dead s' \<and> (\<exists>k < length b. conn_sent s' = conn_sent s @ take k b))"
  using mcp_conn_write_bounded_spec [OF assms] by blast

definition demo_conn :: "rx_event list \<Rightarrow> tx_event list \<Rightarrow> mcp_conn" where
  "demo_conn rxs txs = \<lparr>conn_fd = 3, rx = rxs, queued = 0, tx = txs, clock = (0, 0), sent = [], shut = False\<rparr>"

text \<open>A peer that takes one byte and then never drains: poll times out on the second pass.\<close>

definition demo_stalled :: "tx_event list" where
  "demo_stalled =
     [\<lparr>now_ts = (0, 0), poll_rc = PollReady, send_rc = SendOk 1\<rparr>,
      \<lparr>now_ts = (0, 1000000), poll_rc = PollTimeout, send_rc = SendErr\<rparr>]"

theorem bounded_write_all_or_dead_witness:
  "\<exists>s'. mcp_conn_write_bounded (Some (demo_conn [] demo_stalled)) ''abc'' 250 = Some (False, s') \<and>
     conn_dead s' \<and> (\<exists>k < 3. conn_sent s' = take k ''abc'')"
proof -
  have v: "conn_valid (Some (demo_conn [] demo_stalled))" by (simp add: conn_valid_def demo_conn_def)
  have "\<exists>s'. mcp_conn_write_bounded (Some (demo_conn [] demo_stalled)) ''abc'' 250 = Some (False, s')"
    by (simp add: mcp_conn_write_bounded_def demo_conn_def demo_stalled_def elapsed_ms_def c_div_def)
  then obtain s' where s': "mcp_conn_write_bounded (Some (demo_conn [] demo_stalled)) ''abc'' 250 = Some (False, s')"
    by blast
  from bounded_write_all_or_dead [OF v s'] s' show ?thesis
    by (auto simp: conn_sent_def demo_conn_def numeral_3_eq_3)
qed

text \<open>A bounded write always comes back once one pass of its loop sees the deadline passed or
  its poll time out: a peer that stops reading cannot hold the caller.\<close>

theorem bounded_write_returns:
  assumes "\<exists>e\<in>set (tx c). t - elapsed_ms (clock c) (now_ts e) \<le> 0 \<or> poll_rc e = PollTimeout"
  shows "\<exists>ok s'. mcp_conn_write_bounded (Some c) b t = Some (ok, s')"
  using bounded_loop_returns [OF assms, of b c] by (auto simp: mcp_conn_write_bounded_def)

theorem bounded_write_returns_witness:
  "\<exists>ok s'. mcp_conn_write_bounded (Some (demo_conn [] demo_stalled)) ''abc'' 250 = Some (ok, s')"
  by (rule bounded_write_returns) (simp add: demo_conn_def demo_stalled_def)





lemma sock_path_fits:
  assumes "length role \<le> 83"
  shows "build_sock_path_named 128 role = SOCK_PREFIX @ role @ SOCK_SUFFIX"
    "snprintf_s 128 (SOCK_PREFIX @ role @ SOCK_SUFFIX) = SOCK_PREFIX @ role @ SOCK_SUFFIX"
    "snprintf_s 108 (SOCK_PREFIX @ role @ SOCK_SUFFIX) = SOCK_PREFIX @ role @ SOCK_SUFFIX"
  using assms
  by (simp_all add: build_sock_path_named_def snprintf_s_fits SOCK_PREFIX_def SOCK_SUFFIX_def)

text \<open>Opening a named endpoint and closing it again leaves neither a socket file nor a
  descriptor behind, and every way an open can fail leaves none either; this is for roles of at most
  83 bytes, whose path fits a socket address.\<close>

theorem listener_leaves_nothing:
  assumes "role \<noteq> []" and "length role \<le> 83" and "socket_rc env \<notin> set (open_fds os)"
  shows "(case mcp_listener_open_named env (Some role) os of
      (None, os') \<Rightarrow> open_fds os' = open_fds os \<and>
        sock_files os' = removeAll (SOCK_PREFIX @ role @ SOCK_SUFFIX) (sock_files os)
    | (Some l, os') \<Rightarrow> SOCK_PREFIX @ role @ SOCK_SUFFIX \<in> set (sock_files os') \<and> 0 \<le> l_fd l \<and>
        open_fds (mcp_listener_close (Some l) os') = open_fds os \<and>
        sock_files (mcp_listener_close (Some l) os') =
          removeAll (SOCK_PREFIX @ role @ SOCK_SUFFIX) (sock_files os))"
proof -
  note p = sock_path_fits [OF assms(2)]
  have fd: "removeAll (socket_rc env) (open_fds os) = open_fds os"
    using assms(3) by simp
  show ?thesis
    using assms(1) fd
    by (auto simp: mcp_listener_open_named_def listener_open_path_def p os_unlink_def os_close_def
        mcp_listener_close_def Let_def split: prod.splits)
qed

theorem listener_leaves_nothing_witness:
  "\<exists>l os'. mcp_listener_open_named \<lparr>socket_rc = 5, bind_fails = False, listen_rc = 0\<rparr> (Some ''service'')
      \<lparr>sock_files = [''/tmp/displayxr-mcp-service.sock'', ''/tmp/x''], open_fds = [3]\<rparr> = (Some l, os') \<and>
    open_fds (mcp_listener_close (Some l) os') = [3] \<and>
    sock_files (mcp_listener_close (Some l) os') = [''/tmp/x'']"
  using listener_leaves_nothing
    [of "''service''" "\<lparr>socket_rc = 5, bind_fails = False, listen_rc = 0\<rparr>"
      "\<lparr>sock_files = [''/tmp/displayxr-mcp-service.sock'', ''/tmp/x''], open_fds = [3]\<rparr>"]
  by (simp add: mcp_listener_open_named_def listener_open_path_def build_sock_path_named_def
      SOCK_PREFIX_def SOCK_SUFFIX_def snprintf_s_def os_unlink_def Let_def)

lemma show_int_nat: "0 \<le> pid \<Longrightarrow> show_int pid = show_nat (nat pid)"
  by (simp add: show_int_def)

lemma drop_own_suffix: "drop (length (a @ b) - length b) (a @ b) = b"
  by simp

lemma enumerate_loop_mem:
  assumes "0 < pid" and "pid < 2 ^ 63" and "n + length names \<le> cap"
    and "''displayxr-mcp-'' @ show_int pid @ SOCK_SUFFIX \<in> set names"
  shows "pid \<in> set (enumerate_loop cap n names)"
  using assms(3,4)
proof (induction names arbitrary: n)
  case Nil
  then show ?case by simp
next
  case (Cons name names)
  let ?own = "''displayxr-mcp-'' @ show_int pid @ SOCK_SUFFIX"
  have cap: "n < cap" using Cons.prems by simp
  have later: "pid \<in> set (enumerate_loop cap n names)" "pid \<in> set (enumerate_loop cap (Suc n) names)"
    if "?own \<in> set names"
    using Cons.IH [of n] Cons.IH [of "Suc n"] Cons.prems that by simp_all
  show ?case
  proof (cases "name = ?own")
    case True
    have si: "show_int pid = show_nat (nat pid)" "show_int pid \<noteq> []"
      using assms(1) by (simp_all add: show_int_nat)
    have "strtol 64 (show_nat (nat pid) @ SOCK_SUFFIX) = (int (nat pid), SOCK_SUFFIX)"
      using assms(1,2) by (intro strtol_show_nat) (simp_all add: SOCK_SUFFIX_def)
    moreover have "drop (length ''displayxr-mcp-'') name = show_nat (nat pid) @ SOCK_SUFFIX"
      by (simp only: True si append_eq_conv_conj) simp
    ultimately have v: "fst (strtol 64 (drop (length ''displayxr-mcp-'') name)) = pid"
      using assms(1) by simp
    have "length ''displayxr-mcp-'' + length SOCK_SUFFIX < length name"
      using si(2) by (simp add: True)
    moreover have "starts_with ''displayxr-mcp-'' name"
      unfolding starts_with_iff True by blast
    moreover have "drop (length name - length SOCK_SUFFIX) name = SOCK_SUFFIX"
      using drop_own_suffix [of "''displayxr-mcp-'' @ show_int pid" SOCK_SUFFIX]
      by (simp only: True append_assoc)
    ultimately show ?thesis using cap v assms(1) by (subst enumerate_loop.simps) (simp only: Let_def, simp)
  next
    case False
    with Cons.prems later show ?thesis by (subst enumerate_loop.simps) (auto simp: Let_def cap)
  qed
qed

text \<open>Discovery finds every running session: the socket file a server opens for process id
  \<open>pid\<close> is named so that a scan of the directory with enough room reports \<open>pid\<close>; and every
  id a scan reports is positive, never more than the room given.\<close>

theorem sessions_are_discovered:
  assumes "0 < pid" and "pid < 2 ^ 31" and "build_sock_path 128 pid = ''/tmp/'' @ name"
    and "name \<in> set names" and "length names \<le> cap"
  shows "pid \<in> set (mcp_enumerate_sessions (Some names) cap) \<and>
    (\<forall>p\<in>set (mcp_enumerate_sessions (Some names) cap). 0 < p) \<and>
    length (mcp_enumerate_sessions (Some names) cap) \<le> cap"
proof -
  have "nat pid < 2 ^ 31" using assms(1,2) by (simp add: nat_less_iff)
  also have "(2 :: nat) ^ 31 < 10 ^ 10" by simp
  finally have "nat pid < 10 ^ 10" .
  then have "length (show_nat (nat pid)) \<le> 10" by (rule length_show_nat) simp
  then have "build_sock_path 128 pid = SOCK_PREFIX @ show_int pid @ SOCK_SUFFIX"
    using assms(1) unfolding build_sock_path_def
    by (intro snprintf_s_fits) (simp add: show_int_nat SOCK_PREFIX_def SOCK_SUFFIX_def)
  with assms(3) have "name = ''displayxr-mcp-'' @ show_int pid @ SOCK_SUFFIX"
    by (simp add: SOCK_PREFIX_def)
  moreover have "pid < 2 ^ 63" using assms(2) by simp
  ultimately have "pid \<in> set (enumerate_loop cap 0 names)"
    using assms by (intro enumerate_loop_mem) simp_all
  then show ?thesis using enumerate_loop_bound [of 0 cap names] enumerate_loop_pos
    by (auto simp: mcp_enumerate_sessions_def)
qed

theorem sessions_are_discovered_witness:
  "4321 \<in> set (mcp_enumerate_sessions (Some [''.X11-unix'', ''displayxr-mcp-4321.sock'', ''displayxr-mcp-x.sock'']) 16)"
proof -
  have "show_nat 4321 = ''4321''" by (simp add: show_nat.simps)
  then have "build_sock_path 128 4321 = ''/tmp/'' @ ''displayxr-mcp-4321.sock''"
    by (simp add: build_sock_path_def show_int_def SOCK_PREFIX_def SOCK_SUFFIX_def snprintf_s_def)
  from sessions_are_discovered [OF _ _ this, of "[''.X11-unix'', ''displayxr-mcp-4321.sock'', ''displayxr-mcp-x.sock'']" 16]
  show ?thesis by simp
qed

end
