(* ===== verification/Os_Compat.thy ===== *)
theory Os_Compat
  imports Json_Number Transport
begin

text \<open>
  \<^verbatim>\<open>src/os_compat.c\<close>: the monotonic clock and the framework's own log lines; and the two other
  places that read a clock, the time stamp of \<^verbatim>\<open>src/mcp_audit.c\<close> and the deadline of
  \<^verbatim>\<open>src/mcp_capture.c\<close>.  What the system's clocks say is an argument.
\<close>

section \<open>Nanoseconds\<close>

text \<open>\<open>(uint64_t)ts.tv_sec * 1000000000ULL + (uint64_t)ts.tv_nsec\<close>.\<close>

fun timespec_ns :: "timespec \<Rightarrow> u64" where
  "timespec_ns (sec, nsec) = of_int sec * 1000000000 + of_int nsec"

definition mcp_monotonic_ns :: "timespec \<Rightarrow> u64" where
  "mcp_monotonic_ns ts = timespec_ns ts"

text \<open>The Windows branch, in double arithmetic throughout; the cast truncates.\<close>

definition double_ns :: "(dbl \<Rightarrow> u64) \<Rightarrow> int \<Rightarrow> int \<Rightarrow> u64" where
  "double_ns oob ctr freq =
     (case (round_double (of_int ctr), round_double (of_int freq)) of
        (Finite c, Finite f) \<Rightarrow>
          (case round_double (c * 10 ^ 9) of
             Finite p \<Rightarrow> if f = 0 then oob (Infinite (p < 0)) else double_to_u64 oob (round_double (p / f))
           | Infinite s \<Rightarrow> oob (Infinite s))
      | (d, _) \<Rightarrow> oob d)"

definition win_monotonic_ns :: "(dbl \<Rightarrow> u64) \<Rightarrow> int \<Rightarrow> int \<Rightarrow> u64" where
  "win_monotonic_ns oob ctr freq = double_ns oob ctr freq"

text \<open>\<open>now_ns\<close> of the audit log: zero when the clock cannot be read.\<close>

definition audit_now_ns :: "timespec option \<Rightarrow> u64" where
  "audit_now_ns ts = (case ts of None \<Rightarrow> 0 | Some t \<Rightarrow> timespec_ns t)"

definition win_audit_now_ns :: "(dbl \<Rightarrow> u64) \<Rightarrow> int option \<Rightarrow> int option \<Rightarrow> u64" where
  "win_audit_now_ns oob freq ctr =
     (case freq of None \<Rightarrow> 0
      | Some f \<Rightarrow> (case ctr of None \<Rightarrow> 0 | Some c \<Rightarrow> double_ns oob c f))"

text \<open>A time as the kernel gives it, and the years a 64-bit count of nanoseconds can hold.\<close>

definition normal_ts :: "timespec \<Rightarrow> bool" where
  "normal_ts ts \<longleftrightarrow> 0 \<le> fst ts \<and> 0 \<le> snd ts \<and> snd ts < 1000000000"

definition total_ns :: "timespec \<Rightarrow> int" where
  "total_ns ts = fst ts * 1000000000 + snd ts"

lemma uint_u64: "0 \<le> m \<Longrightarrow> m < 2 ^ 64 \<Longrightarrow> uint (of_int m :: u64) = m"
  by (simp add: uint_word_of_int)

lemma timespec_ns_exact:
  assumes "normal_ts ts" and "fst ts < 18446744073"
  shows "uint (timespec_ns ts) = total_ns ts"
proof -
  obtain s n where ts: "ts = (s, n)" by fastforce
  have "timespec_ns ts = of_int (total_ns ts)" by (simp add: ts total_ns_def)
  moreover have "0 \<le> total_ns ts" "total_ns ts < 2 ^ 64" using assms by (auto simp: normal_ts_def total_ns_def ts)
  ultimately show ?thesis by (simp only: uint_u64)
qed

text \<open>The clock never goes back: until the year 2554 the order of the times is that of the counts.\<close>

lemma timespec_ns_mono:
  assumes "normal_ts a" and "normal_ts b" and "fst b < 18446744073"
    and "fst a < fst b \<or> fst a = fst b \<and> snd a \<le> snd b"
  shows "timespec_ns a \<le> timespec_ns b"
proof -
  have "total_ns a \<le> total_ns b" using assms(1,2,4) by (auto simp: normal_ts_def total_ns_def)
  moreover have "fst a < 18446744073" using assms(3,4) by auto
  ultimately show ?thesis
    using timespec_ns_exact [OF assms(1)] timespec_ns_exact [OF assms(2,3)] by (simp add: word_le_def)
qed

text \<open>The log ring stores the count as \<open>int64_t\<close>: the same number until the year 2262.\<close>

lemma log_timestamp_exact:
  assumes "normal_ts ts" and "fst ts < 9223372036"
  shows "sint (mcp_monotonic_ns ts) = total_ns ts"
proof -
  have t: "0 \<le> total_ns ts" "total_ns ts < 2 ^ 63" using assms by (auto simp: normal_ts_def total_ns_def)
  have "uint (mcp_monotonic_ns ts) = total_ns ts"
    unfolding mcp_monotonic_ns_def using timespec_ns_exact [OF assms(1)] assms(2) by simp
  then show ?thesis using t by (simp add: sint_uint signed_take_bit_int_eq_self)
qed

text \<open>In the year 2554 the count wraps.\<close>

lemma timespec_ns_wraps: "timespec_ns (18446744073, 709551616) = 0"
  by simp

section \<open>Rounding to a double\<close>

lemma bit_length_eq:
  assumes "2 ^ k \<le> n" and "n < 2 ^ Suc k"
  shows "bit_length n = Suc k"
  using assms
proof (induction k arbitrary: n)
  case 0
  then have "n = 1" by simp
  then show ?case by (simp add: bit_length.simps)
next
  case (Suc k)
  have "bit_length (n div 2) = Suc k" using Suc.prems by (intro Suc.IH) simp_all
  moreover have "n \<noteq> 0" using Suc.prems(1) by (cases n) simp_all
  ultimately show ?case by (simp add: bit_length.simps [of n])
qed

text \<open>Up to \<open>2 ^ 53\<close> units the Windows clock is exact where the frequency divides.\<close>

lemma double_ns_exact:
  assumes "0 \<le> ctr" and "ctr * 10 ^ 9 < 2 ^ 53" and "0 < freq" and "freq < 2 ^ 53" and "freq dvd ctr * 10 ^ 9"
  shows "uint (double_ns oob ctr freq) = ctr * 10 ^ 9 div freq"
proof -
  let ?n = "ctr * 10 ^ 9 div freq"
  have c: "ctr < 2 ^ 53" using assms(1,2) by simp
  obtain k where k: "ctr * 10 ^ 9 = freq * k" using assms(5) by (rule dvdE)
  then have nk: "?n = k" using assms(3) by simp
  have n0: "0 \<le> ?n" using assms(1,3) by (simp add: pos_imp_zdiv_nonneg_iff)
  have "1 * k \<le> freq * k" using assms(3) n0 [unfolded nk] by (intro mult_right_mono) simp_all
  then have n: "0 \<le> ?n" "?n \<le> ctr * 10 ^ 9" using n0 unfolding nk unfolding k by simp_all
  then have n53: "?n < 2 ^ 53" using assms(2) by linarith
  have q: "of_int (ctr * 10 ^ 9) / of_int freq = (of_int ?n :: rat)"
    unfolding nk unfolding k using assms(3) by simp
  have r: "round_double (of_int ctr) = dbl_of_int ctr" "round_double (of_int freq) = dbl_of_int freq"
    "round_double (of_int (ctr * 10 ^ 9)) = dbl_of_int (ctr * 10 ^ 9)" "round_double (of_int ?n) = dbl_of_int ?n"
    by (intro round_double_int; use assms c n n53 in simp)+
  have p: "round_double (of_int ctr * 10 ^ 9) = dbl_of_int (ctr * 10 ^ 9)" using r(3) by simp
  have "double_ns oob ctr freq = double_to_u64 oob (dbl_of_int ?n)"
    using assms(3)
    unfolding double_ns_def r(1,2) prod.case dbl.case p unfolding q r(4) by simp
  moreover have "double_to_u64 oob (dbl_of_int m) = of_int m" if "0 \<le> m" "m < 2 ^ 53" for m :: int
  proof -
    have "(of_int m :: rat) < of_int (2 ^ 64)" unfolding of_int_less_iff using that(2) by simp
    moreover have "(0 :: rat) \<le> of_int m" using that(1) by simp
    ultimately show ?thesis by (auto simp: double_to_u64_def)
  qed
  ultimately have "double_ns oob ctr freq = of_int ?n" using n(1) n53 by simp
  moreover have "?n < 2 ^ 64" using n53 by simp
  ultimately show ?thesis using n(1) by (simp only: uint_u64)
qed

text \<open>Beyond, the two roundings and the truncation can lose a nanosecond: after four and a half hours of a
  10 MHz counter, for instance.\<close>

lemma double_ns_inexact: "uint (double_ns oob 161735787716 10000000) = 161735787716 * 10 ^ 9 div 10000000 - 1"
proof -
  have c: "round_double (of_int 161735787716) = dbl_of_int 161735787716"
    and f: "round_double (of_int 10000000) = dbl_of_int 10000000"
    by (rule round_double_int; simp)+
  have "\<lfloor>161735787716000000000 :: rat\<rfloor> = 161735787716000000000" by simp
  moreover have "bit_length 161735787716000000000 = Suc 67" by (rule bit_length_eq) simp_all
  ultimately have l1: "floor_log2 161735787716000000000 = 67" by (simp add: floor_log2_def)
  have "\<lfloor>161735787716000000000 / 32768 :: rat\<rfloor> = 4935784537231445" by (rule floor_unique) simp_all
  then have "round_half_even (161735787716000000000 / 32768) = 4935784537231445" by (simp add: round_half_even_def Let_def)
  then have p: "round_double (161735787716 * 10 ^ 9) = Finite 161735787715999989760"
    by (simp add: round_double_def round_pos_def l1 Let_def power_int2_def)
  have "\<lfloor>252712168306249984 / 15625 :: rat\<rfloor> = 16173578771599" by (rule floor_unique) simp_all
  moreover have "bit_length 16173578771599 = Suc 43" by (rule bit_length_eq) simp_all
  ultimately have l2: "floor_log2 (252712168306249984 / 15625) = 43" by (simp add: floor_log2_def)
  have "\<lfloor>252712168306249984 * 512 / 15625 :: rat\<rfloor> = 8280872331059199" by (rule floor_unique) simp_all
  then have "round_half_even (252712168306249984 * 512 / 15625) = 8280872331059199"
    by (simp add: round_half_even_def Let_def)
  then have q: "round_double (252712168306249984 / 15625) = Finite (8280872331059199 / 512)"
    by (simp add: round_double_def round_pos_def l2 Let_def power_int2_def)
  have "\<lfloor>8280872331059199 / 512 :: rat\<rfloor> = 16173578771599" by (rule floor_unique) simp_all
  then have "double_ns oob 161735787716 10000000 = 16173578771599"
    using c f p q by (simp add: double_ns_def double_to_u64_def)
  then show ?thesis by simp
qed

section \<open>The deadline of a capture\<close>

definition CAPTURE_TIMEOUT_MS :: int where
  "CAPTURE_TIMEOUT_MS = 3000"

text \<open>\<open>now\<close> plus a time-out in milliseconds, with one carry.\<close>

fun capture_deadline :: "int \<Rightarrow> timespec \<Rightarrow> timespec" where
  "capture_deadline timeout_ms (sec, nsec) =
     (let sec = sec + timeout_ms div 1000; nsec = nsec + (timeout_ms mod 1000) * 1000000
      in if 1000000000 \<le> nsec then (sec + 1, nsec - 1000000000) else (sec, nsec))"

text \<open>One carry is enough: the deadline is a normal time again, exactly the time-out later.\<close>

lemma capture_deadline_exact:
  assumes "normal_ts ts" and "0 \<le> timeout_ms"
  shows "normal_ts (capture_deadline timeout_ms ts) \<and>
    total_ns (capture_deadline timeout_ms ts) = total_ns ts + timeout_ms * 1000000"
proof -
  obtain s n where ts: "ts = (s, n)" by fastforce
  define d m where "d = timeout_ms div 1000" and "m = timeout_ms mod 1000"
  then have dm: "0 \<le> m" "m < 1000" "0 \<le> d" "timeout_ms = d * 1000 + m"
    using assms(2) by (simp_all add: pos_imp_zdiv_nonneg_iff)
  have "timeout_ms * 1000000 = d * 1000000000 + m * 1000000" unfolding dm(4) by simp
  then show ?thesis
    using assms(1) dm(1-3) by (auto simp: ts normal_ts_def total_ns_def Let_def simp flip: d_def m_def)
qed

lemma capture_waits_three_seconds:
  assumes "normal_ts ts"
  shows "total_ns (capture_deadline CAPTURE_TIMEOUT_MS ts) = total_ns ts + 3 * 1000000000"
  using capture_deadline_exact [OF assms, of CAPTURE_TIMEOUT_MS] by (simp add: CAPTURE_TIMEOUT_MS_def)

section \<open>The framework's own log\<close>

datatype mcp_internal_log_level = MCP_INTERNAL_LOG_INFO | MCP_INTERNAL_LOG_WARN | MCP_INTERNAL_LOG_ERROR

text \<open>The process-wide callback, by number, where \<open>None\<close> is \<open>default_log\<close>; standard error; and what the
  callbacks were called with.  Texts are formatted already.\<close>

record internal_log =
  g_log_fn :: "nat option"
  stderr_bytes :: bytes
  log_calls :: "(nat \<times> mcp_internal_log_level \<times> bytes) list"

fun log_prefix :: "mcp_internal_log_level \<Rightarrow> bytes" where
  "log_prefix MCP_INTERNAL_LOG_INFO = ''[mcp] ''"
| "log_prefix MCP_INTERNAL_LOG_WARN = ''[mcp WARN] ''"
| "log_prefix MCP_INTERNAL_LOG_ERROR = ''[mcp ERROR] ''"

definition default_log :: "mcp_internal_log_level \<Rightarrow> bytes \<Rightarrow> internal_log \<Rightarrow> internal_log" where
  "default_log lv formatted g = g\<lparr>stderr_bytes := stderr_bytes g @ log_prefix lv @ formatted @ [LF]\<rparr>"

definition mcp_set_log_fn :: "nat option \<Rightarrow> internal_log \<Rightarrow> internal_log" where
  "mcp_set_log_fn fn g = g\<lparr>g_log_fn := fn\<rparr>"

definition mcp_internal_log :: "mcp_internal_log_level \<Rightarrow> bytes \<Rightarrow> internal_log \<Rightarrow> internal_log" where
  "mcp_internal_log lv formatted g =
     (case g_log_fn g of
        None \<Rightarrow> default_log lv formatted g
      | Some fn \<Rightarrow> g\<lparr>log_calls := log_calls g @ [(fn, lv, formatted)]\<rparr>)"

text \<open>A line goes to exactly one place, and the last callback set decides which.\<close>

lemma internal_log_goes_to_one_place:
  "(stderr_bytes (mcp_internal_log lv t (mcp_set_log_fn fn g)), log_calls (mcp_internal_log lv t (mcp_set_log_fn fn g))) =
     (case fn of
        None \<Rightarrow> (stderr_bytes g @ log_prefix lv @ t @ [LF], log_calls g)
      | Some f \<Rightarrow> (stderr_bytes g, log_calls g @ [(f, lv, t)]))"
  by (simp add: mcp_internal_log_def mcp_set_log_fn_def default_log_def split: option.splits)

end
