(* ===== verification/Audit_Log.thy ===== *)
theory Audit_Log
  imports C_Lib
begin

text \<open>
  The audit log of \<^verbatim>\<open>src/mcp_audit.c\<close> (POSIX branch).  The file system is a map
  from paths to contents; which directories and files the process may create or open is what
  the environment decides: \<open>HOME\<close>, the clock, and \<open>can_open\<close> and \<open>can_rename\<close>, the outcomes
  of \<open>fopen\<close> and \<open>rename\<close>.
\<close>

definition MAX_FILE_BYTES :: nat where
  "MAX_FILE_BYTES = 1024 * 1024"

type_synonym files = "bytes \<rightharpoonup> bytes"

record audit_env =
  HOME :: "bytes option"
  now_ns :: u64
  can_open :: bool
  can_rename :: bool

record audit_state =
  au_initialized :: bool
  au_path :: bytes
  au_dirs :: "bytes list"
  au_files :: files

definition audit_zero :: "files \<Rightarrow> audit_state" where
  "audit_zero fs = \<lparr>au_initialized = False, au_path = [], au_dirs = [], au_files = fs\<rparr>"

definition ensure_path_locked :: "audit_env \<Rightarrow> audit_state \<Rightarrow> bool \<times> audit_state" where
  "ensure_path_locked env st =
     (if au_initialized st then (au_path st \<noteq> [], st)
      else
        let st = st\<lparr>au_initialized := True\<rparr>
        in case HOME env of
             None \<Rightarrow> (False, st\<lparr>au_path := []\<rparr>)
           | Some home \<Rightarrow>
               if home = [] then (False, st\<lparr>au_path := []\<rparr>)
               else
                 let dir1 = snprintf_s 512 (home @ ''/.config'');
                     dir2 = snprintf_s 512 (home @ ''/.config/displayxr'')
                 in (True, st\<lparr>au_dirs := au_dirs st @ [dir1, dir2],
                              au_path := snprintf_s 1024 (dir2 @ ''/mcp-audit.log'')\<rparr>))"

definition rotate_if_needed_locked :: "audit_env \<Rightarrow> audit_state \<Rightarrow> audit_state" where
  "rotate_if_needed_locked env st =
     (case au_files st (au_path st) of
        None \<Rightarrow> st
      | Some content \<Rightarrow>
          if length content < MAX_FILE_BYTES then st
          else
            let backup = snprintf_s 1024 (au_path st @ ''.1'');
                fs = (au_files st)(backup := None)
            in st\<lparr>au_files :=
                 (if can_rename env \<and> fs (au_path st) \<noteq> None
                  then fs(backup \<mapsto> content, au_path st := None) else fs)\<rparr>)"

text \<open>\<open>%016llx\<close>.\<close>

definition hex_digit :: "nat \<Rightarrow> char" where
  "hex_digit d = (if d < 10 then char_of (48 + d) else char_of (87 + d))"

definition show_hex16 :: "u64 \<Rightarrow> bytes" where
  "show_hex16 h = map (\<lambda>i. hex_digit (unat h div 16 ^ (15 - i) mod 16)) [0..<16]"

definition audit_row :: "u64 \<Rightarrow> bytes \<Rightarrow> u32 \<Rightarrow> u64 \<Rightarrow> bytes" where
  "audit_row now tool client_id args_hash =
     show_nat (unat now) @ '','' @ tool @ '','' @ show_nat (unat client_id) @ '',0x'' @
       show_hex16 args_hash @ [LF]"

definition mcp_audit_append ::
    "audit_env \<Rightarrow> bytes option \<Rightarrow> u32 \<Rightarrow> u64 \<Rightarrow> audit_state \<Rightarrow> audit_state" where
  "mcp_audit_append env tool client_id args_hash st =
     (case tool of None \<Rightarrow> st
      | Some t \<Rightarrow>
          let (ok, st) = ensure_path_locked env st
          in if \<not> ok then st
             else
               let st = rotate_if_needed_locked env st
               in if \<not> can_open env then st
                  else
                    let old = (case au_files st (au_path st) of None \<Rightarrow> [] | Some c \<Rightarrow> c)
                    in st\<lparr>au_files := (au_files st)
                         (au_path st \<mapsto> old @ audit_row (now_ns env) t client_id args_hash)\<rparr>)"

definition mcp_audit_path :: "audit_env \<Rightarrow> audit_state \<Rightarrow> bytes \<times> audit_state" where
  "mcp_audit_path env st = (let (_, st) = ensure_path_locked env st in (au_path st, st))"

section \<open>Lemmas\<close>

lemma length_show_nat_word:
  "length (show_nat (unat (x :: u64))) \<le> 20" "length (show_nat (unat (y :: u32))) \<le> 10"
proof -
  have "unat x < 2 ^ 64" by (rule unsigned_less [THEN order_less_le_trans]) simp
  also have "(2 :: nat) ^ 64 < 10 ^ 20" by simp
  finally show "length (show_nat (unat x)) \<le> 20" by (rule length_show_nat) simp
  have "unat y < 2 ^ 32" by (rule unsigned_less [THEN order_less_le_trans]) simp
  also have "(2 :: nat) ^ 32 < 10 ^ 10" by simp
  finally show "length (show_nat (unat y)) \<le> 10" by (rule length_show_nat) simp
qed

lemma length_audit_row: "length (audit_row now t c h) \<le> length t + 52"
  using length_show_nat_word(1) [of now] length_show_nat_word(2) [of c]
  by (simp add: audit_row_def show_hex16_def)

text \<open>The path and its backup differ whenever the path fits its buffer with two bytes to spare.\<close>

lemma backup_differs: "length p \<le> 1021 \<Longrightarrow> snprintf_s 1024 (p @ ''.1'') = p @ ''.1'' \<and> p @ ''.1'' \<noteq> p"
  by (simp add: snprintf_s_def)

lemma ensure_path_cases:
  assumes "ensure_path_locked env (audit_zero fs) = (ok, st)"
  shows "au_initialized st \<and> au_files st = fs \<and> (ok \<longleftrightarrow> au_path st \<noteq> []) \<and> length (au_path st) \<le> 525"
  using assms
  by (auto simp: ensure_path_locked_def audit_zero_def Let_def snprintf_s_def min_def split: option.splits if_splits)

section \<open>What the log keeps\<close>

type_synonym audit_call = "audit_env \<times> bytes option \<times> u32 \<times> u64"

fun audit_call :: "audit_call \<Rightarrow> audit_state \<Rightarrow> audit_state" where
  "audit_call (env, tool, client_id, args_hash) st = mcp_audit_append env tool client_id args_hash st"

text \<open>The row a call asks for: none without a tool, and none when \<open>fopen\<close> fails.\<close>

fun row_of :: "audit_call \<Rightarrow> bytes" where
  "row_of (env, tool, client_id, args_hash) =
     (case tool of Some t \<Rightarrow> if can_open env then audit_row (now_ns env) t client_id args_hash else [] | None \<Rightarrow> [])"

definition rows_of :: "audit_call list \<Rightarrow> bytes" where
  "rows_of calls = concat (map row_of calls)"

definition file_bytes :: "files \<Rightarrow> bytes \<Rightarrow> bytes" where
  "file_bytes fs p = (case fs p of None \<Rightarrow> [] | Some c \<Rightarrow> c)"

lemma file_bytes_upd [simp]: "file_bytes (fs(p \<mapsto> c)) q = (if q = p then c else file_bytes fs q)"
  "file_bytes (fs(p := None)) q = (if q = p then [] else file_bytes fs q)"
  by (simp_all add: file_bytes_def)

definition log_ready :: "bytes \<Rightarrow> audit_state \<Rightarrow> bool" where
  "log_ready p st \<longleftrightarrow> au_initialized st \<and> au_path st = p \<and> p \<noteq> [] \<and> length p \<le> 525"

abbreviation renames :: "audit_call \<Rightarrow> bool" where "renames e \<equiv> can_rename (fst e)"

text \<open>What calls do to the live file and its backup: \<open>lost\<close> is what rotations removed.\<close>

definition log_moved :: "bytes \<Rightarrow> bytes \<Rightarrow> audit_call list \<Rightarrow> files \<Rightarrow> files \<Rightarrow> bool" where
  "log_moved p lost es fs fs' \<longleftrightarrow>
     file_bytes fs (p @ ''.1'') @ file_bytes fs p @ rows_of es = lost @ file_bytes fs' (p @ ''.1'') @ file_bytes fs' p \<and>
     (\<forall>q. q \<noteq> p \<longrightarrow> q \<noteq> p @ ''.1'' \<longrightarrow> fs' q = fs q) \<and>
     (Ball (set es) renames \<longrightarrow>
        lost = [] \<and> file_bytes fs' (p @ ''.1'') = file_bytes fs (p @ ''.1'') \<or>
        MAX_FILE_BYTES \<le> length (file_bytes fs' (p @ ''.1''))) \<and>
     (Ball (set es) renames \<longrightarrow>
        length (file_bytes fs' p) \<le> length (file_bytes fs p) \<or>
        (\<exists>e\<in>set es. length (file_bytes fs' p) \<le> MAX_FILE_BYTES + length (row_of e)))"

lemma log_moved_refl: "log_moved p [] [] fs fs"
  by (simp add: log_moved_def rows_of_def)

lemma log_moved_trans:
  assumes "log_moved p l1 es1 fs fs1" and "log_moved p l2 es2 fs1 fs2"
  shows "log_moved p (l1 @ l2) (es1 @ es2) fs fs2"
  unfolding log_moved_def
proof (intro conjI impI allI)
  have e1: "file_bytes fs (p @ ''.1'') @ file_bytes fs p @ rows_of es1 = l1 @ file_bytes fs1 (p @ ''.1'') @ file_bytes fs1 p"
    and e2: "file_bytes fs1 (p @ ''.1'') @ file_bytes fs1 p @ rows_of es2 = l2 @ file_bytes fs2 (p @ ''.1'') @ file_bytes fs2 p"
    using assms by (simp_all only: log_moved_def)
  have "file_bytes fs (p @ ''.1'') @ file_bytes fs p @ rows_of (es1 @ es2) =
      (file_bytes fs (p @ ''.1'') @ file_bytes fs p @ rows_of es1) @ rows_of es2"
    by (simp add: rows_of_def)
  also have "\<dots> = l1 @ (file_bytes fs1 (p @ ''.1'') @ file_bytes fs1 p @ rows_of es2)"
    unfolding e1 by simp
  finally show "file_bytes fs (p @ ''.1'') @ file_bytes fs p @ rows_of (es1 @ es2) =
      (l1 @ l2) @ file_bytes fs2 (p @ ''.1'') @ file_bytes fs2 p"
    unfolding e2 by simp
  show "fs2 q = fs q" if "q \<noteq> p" "q \<noteq> p @ ''.1''" for q
    using assms that by (simp add: log_moved_def)
next
  assume "Ball (set (es1 @ es2)) renames"
  then have rn: "Ball (set es1) renames" "Ball (set es2) renames" by simp_all
  have "l1 = [] \<and> file_bytes fs1 (p @ ''.1'') = file_bytes fs (p @ ''.1'') \<or> MAX_FILE_BYTES \<le> length (file_bytes fs1 (p @ ''.1''))"
    using assms(1) rn(1) unfolding log_moved_def by blast
  moreover have "l2 = [] \<and> file_bytes fs2 (p @ ''.1'') = file_bytes fs1 (p @ ''.1'') \<or> MAX_FILE_BYTES \<le> length (file_bytes fs2 (p @ ''.1''))"
    using assms(2) rn(2) unfolding log_moved_def by blast
  ultimately show "l1 @ l2 = [] \<and> file_bytes fs2 (p @ ''.1'') = file_bytes fs (p @ ''.1'') \<or>
      MAX_FILE_BYTES \<le> length (file_bytes fs2 (p @ ''.1''))" by auto
  have "length (file_bytes fs1 p) \<le> length (file_bytes fs p) \<or>
      (\<exists>e\<in>set es1. length (file_bytes fs1 p) \<le> MAX_FILE_BYTES + length (row_of e))"
    using assms(1) rn(1) unfolding log_moved_def by blast
  moreover have "length (file_bytes fs2 p) \<le> length (file_bytes fs1 p) \<or>
      (\<exists>e\<in>set es2. length (file_bytes fs2 p) \<le> MAX_FILE_BYTES + length (row_of e))"
    using assms(2) rn(2) unfolding log_moved_def by blast
  ultimately show "length (file_bytes fs2 p) \<le> length (file_bytes fs p) \<or>
      (\<exists>e\<in>set (es1 @ es2). length (file_bytes fs2 p) \<le> MAX_FILE_BYTES + length (row_of e))"
    by (auto intro: le_trans)
qed

lemma audit_call_moves:
  assumes "log_ready p st"
  shows "log_ready p (audit_call e st) \<and> (\<exists>lost. log_moved p lost [e] (au_files st) (au_files (audit_call e st)))"
proof -
  obtain env tool c h where e: "e = (env, tool, c, h)" by (cases e) auto
  have p: "au_initialized st" "au_path st = p" "p \<noteq> []" using assms by (simp_all add: log_ready_def)
  have b: "snprintf_s 1024 (p @ ''.1'') = p @ ''.1''"
    using backup_differs [of p] assms by (simp add: log_ready_def)
  have en: "ensure_path_locked env st = (True, st)" using p by (simp add: ensure_path_locked_def)
  show ?thesis
  proof (cases tool)
    case None
    then show ?thesis using assms by (auto simp: e mcp_audit_append_def log_moved_def rows_of_def)
  next
    case (Some t)
    show ?thesis
    proof (cases "length (file_bytes (au_files st) p) < MAX_FILE_BYTES")
      case True
      then have "rotate_if_needed_locked env st = st"
        using p by (auto simp: rotate_if_needed_locked_def file_bytes_def split: option.split)
      then show ?thesis using assms p Some True
        by (auto simp: e mcp_audit_append_def en log_moved_def rows_of_def log_ready_def file_bytes_def [symmetric] Let_def
            intro!: exI [of _ "[]"])
    next
      case False
      then obtain old where old: "au_files st p = Some old" "MAX_FILE_BYTES \<le> length old"
        "file_bytes (au_files st) p = old"
        by (auto simp: file_bytes_def MAX_FILE_BYTES_def split: option.splits)
      then have "rotate_if_needed_locked env st = st\<lparr>au_files :=
          (if can_rename env then (au_files st)(p @ ''.1'' \<mapsto> old, p := None) else (au_files st)(p @ ''.1'' := None))\<rparr>"
        using p b by (simp add: rotate_if_needed_locked_def Let_def)
      then show ?thesis using assms p Some old
        by (auto simp: e mcp_audit_append_def en log_moved_def rows_of_def log_ready_def file_bytes_def [symmetric] Let_def
            intro!: exI [of _ "file_bytes (au_files st) (p @ ''.1'')"])
    qed
  qed
qed

text \<open>A whole run after the path is known.\<close>

lemma audit_calls_move:
  "log_ready p st \<Longrightarrow>
     log_ready p (fold audit_call es st) \<and> (\<exists>lost. log_moved p lost es (au_files st) (au_files (fold audit_call es st)))"
proof (induction es arbitrary: st)
  case Nil
  then show ?case using log_moved_refl by auto
next
  case (Cons e es)
  obtain l1 where r: "log_ready p (audit_call e st)" and l1: "log_moved p l1 [e] (au_files st) (au_files (audit_call e st))"
    using audit_call_moves [OF Cons.prems] by blast
  from Cons.IH [OF r] log_moved_trans [OF l1] show ?case by fastforce
qed

text \<open>The first call that names a tool settles the path, for good.\<close>

lemma audit_off: "au_initialized st \<Longrightarrow> au_path st = [] \<Longrightarrow> fold audit_call es st = st"
  by (induction es) (auto simp: mcp_audit_append_def ensure_path_locked_def split: option.split)

lemma ensure_twice: "ensure_path_locked env (snd (ensure_path_locked env st)) = ensure_path_locked env st"
  by (auto simp: ensure_path_locked_def Let_def snprintf_s_def split: option.split)

lemma audit_first:
  "audit_call (env, Some t, c, h) st =
     audit_call (env, Some t, c, h) (snd (ensure_path_locked env st))"
  by (simp add: mcp_audit_append_def ensure_twice)

lemma audit_run:
  assumes "st = fold audit_call es (audit_zero fs)"
  shows "(au_path st = [] \<longrightarrow> au_files st = fs) \<and>
    (au_path st \<noteq> [] \<longrightarrow> log_ready (au_path st) st \<and> (\<exists>lost. log_moved (au_path st) lost es fs (au_files st))) \<and>
    (\<forall>home. home \<noteq> [] \<longrightarrow> length home \<le> 400 \<longrightarrow> (\<forall>e\<in>set es. HOME (fst e) = Some home) \<longrightarrow>
      (\<exists>e\<in>set es. fst (snd e) \<noteq> None) \<longrightarrow> au_path st = home @ ''/.config/displayxr/mcp-audit.log'')"
  using assms
proof (induction es)
  case Nil
  then show ?case by (simp add: audit_zero_def)
next
  case (Cons e es)
  obtain env tool c h where e: "e = (env, tool, c, h)" by (cases e) auto
  show ?case
  proof (cases tool)
    case None
    then have same: "audit_call e (audit_zero fs) = audit_zero fs" by (simp add: e mcp_audit_append_def)
    have rows: "log_moved p lost es fs fs' \<Longrightarrow> log_moved p lost (e # es) fs fs'" for p lost fs'
      using None by (auto simp: log_moved_def rows_of_def e)
    have run: "st = fold audit_call es (audit_zero fs)" using Cons.prems same by simp
    show ?thesis using Cons.IH [OF run] rows None by (auto simp: e)
  next
    case (Some t)
    obtain ok st1 where en: "ensure_path_locked env (audit_zero fs) = (ok, st1)" by (cases "ensure_path_locked env (audit_zero fs)")
    note st1 = ensure_path_cases [OF en]
    have run: "st = fold audit_call (e # es) st1"
      using Cons.prems audit_first [of env t c h "audit_zero fs"] by (simp add: e Some en)
    have home: "au_path st1 = home @ ''/.config/displayxr/mcp-audit.log''"
      if "HOME env = Some home" "home \<noteq> []" "length home \<le> 400" for home
      using en that by (auto simp: ensure_path_locked_def audit_zero_def Let_def snprintf_s_def)
    show ?thesis
    proof (cases "au_path st1 = []")
      case True
      then have "st = st1" using run audit_off [of st1 "e # es"] st1 by simp
      then show ?thesis using True st1 home by (auto simp: e)
    next
      case False
      then have "log_ready (au_path st1) st1" using st1 by (simp add: log_ready_def)
      from audit_calls_move [OF this, of "e # es"] run st1 False home show ?thesis
        by (auto simp: log_ready_def e)
    qed
  qed
qed

text \<open>C38. Over every run of appends in a fresh process the log only grows at its end and is only cut at
  its beginning: the backup followed by the live file is what they were, followed by one row for each
  append with a tool whose \<open>fopen\<close> succeeded, in order, less a prefix.  While every \<open>rename\<close> succeeds, that
  prefix is empty or the backup holds at least 1 MiB (a rotation overwrites the earlier backup), and the live
  file stays within what it was or 1 MiB and one row.  No other file changes, and no file does while the
  path is empty; with the same \<open>HOME\<close> of 1 to 400 bytes at every call the first append that names a tool sets
  the path below \<open>HOME\<close>.\<close>

theorem audit_log_keeps_rows:
  fixes es :: "audit_call list"
  assumes "st = fold audit_call es (audit_zero fs)" and "p = au_path st"
  shows "(if p = [] then au_files st = fs
     else \<exists>lost. file_bytes fs (p @ ''.1'') @ file_bytes fs p @ rows_of es =
         lost @ file_bytes (au_files st) (p @ ''.1'') @ file_bytes (au_files st) p \<and>
       (\<forall>q. q \<noteq> p \<longrightarrow> q \<noteq> p @ ''.1'' \<longrightarrow> au_files st q = fs q) \<and>
       ((\<forall>e\<in>set es. can_rename (fst e)) \<longrightarrow>
          (lost = [] \<or> 1024 * 1024 \<le> length (file_bytes (au_files st) (p @ ''.1''))) \<and>
          (length (file_bytes (au_files st) p) \<le> length (file_bytes fs p) \<or>
           (\<exists>e\<in>set es. length (file_bytes (au_files st) p) \<le> 1024 * 1024 + length (row_of e))))) \<and>
    (\<forall>home. home \<noteq> [] \<and> length home \<le> 400 \<and> (\<forall>e\<in>set es. HOME (fst e) = Some home) \<and>
       (\<exists>e\<in>set es. fst (snd e) \<noteq> None) \<longrightarrow> p = home @ ''/.config/displayxr/mcp-audit.log'')"
proof (cases "p = []")
  case True
  then show ?thesis using audit_run [OF assms(1)] assms(2) by auto
next
  case False
  then obtain lost where "log_moved p lost es fs (au_files st)"
    using audit_run [OF assms(1)] assms(2) by blast
  then show ?thesis using False audit_run [OF assms(1)] assms(2)
    by (auto simp: log_moved_def MAX_FILE_BYTES_def intro!: exI [of _ lost])
qed

theorem audit_log_keeps_rows_witness:
  "\<exists>st lost. st = fold audit_call
      [(\<lparr>HOME = Some ''/h'', now_ns = 5, can_open = True, can_rename = True\<rparr>, Some ''t'', 1, 2)] (audit_zero Map.empty) \<and>
    au_path st = ''/h/.config/displayxr/mcp-audit.log'' \<and>
    audit_row 5 ''t'' 1 2 = lost @ file_bytes (au_files st) (au_path st @ ''.1'') @ file_bytes (au_files st) (au_path st)"
proof -
  let ?es = "[(\<lparr>HOME = Some ''/h'', now_ns = 5, can_open = True, can_rename = True\<rparr>, Some ''t'', 1, 2)] :: audit_call list"
  note t = audit_log_keeps_rows [of "fold audit_call ?es (audit_zero Map.empty)" ?es Map.empty, OF HOL.refl HOL.refl]
  have p: "au_path (fold audit_call ?es (audit_zero Map.empty)) = ''/h'' @ ''/.config/displayxr/mcp-audit.log''"
    by (rule conjunct2 [OF t, rule_format]) simp
  have "rows_of ?es = audit_row 5 ''t'' 1 2" by (simp add: rows_of_def)
  then show ?thesis using conjunct1 [OF t] p by (auto simp: file_bytes_def [of Map.empty])
qed

end
