(* ===== verification/Capture.thy ===== *)
theory Capture
  imports C_Lib
begin

text \<open>
  The capture hand-off of \<^verbatim>\<open>src/mcp_capture.c\<close> between tool threads, which block in
  \<open>mcp_capture_blocking_handler\<close>, and the compositor, which polls and completes.  Each
  operation runs under the request's mutex, so it is a function on the request; the blocking
  handler is cut at its \<open>pthread_cond_timedwait\<close> into a submission, wake-ups and a time-out.  A
  run is any interleaving of these steps, by any number of threads.
\<close>

section \<open>The request\<close>

definition MCP_CAPTURE_PATH_MAX :: nat where
  "MCP_CAPTURE_PATH_MAX = 256"

record mcp_capture_request =
  c_path :: bytes
  c_mode :: u32
  c_pending :: bool
  c_done :: bool
  c_success :: bool

definition mcp_capture_init :: mcp_capture_request where
  "mcp_capture_init = \<lparr>c_path = [], c_mode = 0, c_pending = False, c_done = False, c_success = False\<rparr>"

text \<open>The handler up to its wait: the request is filled in.\<close>

definition capture_submit :: "bytes \<Rightarrow> u32 \<Rightarrow> mcp_capture_request \<Rightarrow> mcp_capture_request" where
  "capture_submit path mode req =
     (let n = c_strlen path;
          n = (if MCP_CAPTURE_PATH_MAX \<le> n then MCP_CAPTURE_PATH_MAX - 1 else n)
      in req\<lparr>c_path := take n path, c_mode := mode, c_pending := True, c_done := False, c_success := False\<rparr>)"

text \<open>The handler when the wait reports a time-out.\<close>

definition capture_give_up :: "mcp_capture_request \<Rightarrow> mcp_capture_request" where
  "capture_give_up req = req\<lparr>c_pending := False\<rparr>"

text \<open>The handler when it is woken: \<open>Some\<close> result once \<open>done\<close> is set, otherwise it waits on.\<close>

definition capture_wake :: "mcp_capture_request \<Rightarrow> bool option \<times> mcp_capture_request" where
  "capture_wake req =
     (if c_done req then (Some (c_success req), req\<lparr>c_pending := False\<rparr>) else (None, req))"

definition mcp_capture_poll :: "mcp_capture_request \<Rightarrow> (bytes \<times> u32) option" where
  "mcp_capture_poll req =
     (if c_pending req \<and> \<not> c_done req then Some (c_path req, c_mode req) else None)"

definition mcp_capture_complete :: "bool \<Rightarrow> mcp_capture_request \<Rightarrow> mcp_capture_request" where
  "mcp_capture_complete success req = req\<lparr>c_success := success, c_done := True\<rparr>"

section \<open>Registration\<close>

text \<open>The installed request, and what the notification hooks were told: \<open>Some\<close> on install, \<open>None\<close>
  on uninstall.\<close>

record capture_globals =
  g_installed_req :: "nat option"
  g_notify_install :: bool
  g_notify_uninstall :: bool
  notified :: "nat option list"

definition mcp_capture_install :: "nat \<Rightarrow> capture_globals \<Rightarrow> capture_globals" where
  "mcp_capture_install req g =
     (let g = g\<lparr>g_installed_req := Some req\<rparr>
      in if g_notify_install g then g\<lparr>notified := notified g @ [Some req]\<rparr> else g)"

definition mcp_capture_uninstall :: "capture_globals \<Rightarrow> capture_globals" where
  "mcp_capture_uninstall g =
     (if g_notify_uninstall g then g\<lparr>notified := notified g @ [None]\<rparr> else g)\<lparr>g_installed_req := None\<rparr>"

definition mcp_capture_set_notify :: "bool \<Rightarrow> bool \<Rightarrow> capture_globals \<Rightarrow> capture_globals" where
  "mcp_capture_set_notify on_install on_uninstall g =
     g\<lparr>g_notify_install := on_install, g_notify_uninstall := on_uninstall\<rparr>"

definition mcp_capture_get_installed :: "capture_globals \<Rightarrow> nat option" where
  "mcp_capture_get_installed g = g_installed_req g"

section \<open>Interleavings\<close>

text \<open>\<open>waiting\<close> are the threads inside the handler, \<open>returned\<close> what the handler gave each call.\<close>

record capture_sys =
  req :: mcp_capture_request
  waiting :: "nat list"
  returned :: "(nat \<times> bool) list"

datatype capture_event =
    Submit nat bytes u32
  | Poll "(bytes \<times> u32) option"
  | Complete bool
  | Wake nat
  | Timeout nat

definition capture_start :: capture_sys where
  "capture_start = \<lparr>req = mcp_capture_init, waiting = [], returned = []\<rparr>"

inductive capture_step :: "capture_sys \<Rightarrow> capture_event \<Rightarrow> capture_sys \<Rightarrow> bool" where
  submit: "t \<notin> set (waiting s) \<Longrightarrow>
     capture_step s (Submit t p m) (s\<lparr>req := capture_submit p m (req s), waiting := t # waiting s\<rparr>)"
| poll: "capture_step s (Poll (mcp_capture_poll (req s))) s"
| complete: "capture_step s (Complete b) (s\<lparr>req := mcp_capture_complete b (req s)\<rparr>)"
| wake_wait: "t \<in> set (waiting s) \<Longrightarrow> capture_wake (req s) = (None, r) \<Longrightarrow>
     capture_step s (Wake t) (s\<lparr>req := r\<rparr>)"
| wake_done: "t \<in> set (waiting s) \<Longrightarrow> capture_wake (req s) = (Some b, r) \<Longrightarrow>
     capture_step s (Wake t)
       (s\<lparr>req := r, waiting := removeAll t (waiting s), returned := returned s @ [(t, b)]\<rparr>)"
| timeout: "t \<in> set (waiting s) \<Longrightarrow>
     capture_step s (Timeout t)
       (s\<lparr>req := capture_give_up (req s), waiting := removeAll t (waiting s),
          returned := returned s @ [(t, False)]\<rparr>)"

inductive capture_run :: "capture_event list \<Rightarrow> capture_sys \<Rightarrow> bool" where
  start: "capture_run [] capture_start"
| extend: "capture_run es s \<Longrightarrow> capture_step s e s' \<Longrightarrow> capture_run (es @ [e]) s'"

text \<open>A completion with result \<open>b\<close> that follows a submission of thread \<open>t\<close>.\<close>

definition completed_after :: "nat \<Rightarrow> bool \<Rightarrow> capture_event list \<Rightarrow> bool" where
  "completed_after t b es \<longleftrightarrow>
     (\<exists>i j p m. i < j \<and> j < length es \<and> es ! i = Submit t p m \<and> es ! j = Complete b)"

definition submitted_in :: "nat \<Rightarrow> capture_event list \<Rightarrow> bool" where
  "submitted_in t es \<longleftrightarrow> (\<exists>p m. Submit t p m \<in> set es)"

lemma completed_after_snoc: "completed_after t b es \<Longrightarrow> completed_after t b (es @ [e])"
proof -
  assume "completed_after t b es"
  then obtain i j p m where "i < j" "j < length es" "es ! i = Submit t p m" "es ! j = Complete b"
    unfolding completed_after_def by blast
  then have "i < j" "j < length (es @ [e])" "(es @ [e]) ! i = Submit t p m" "(es @ [e]) ! j = Complete b"
    by (simp_all add: nth_append)
  then show ?thesis unfolding completed_after_def by blast
qed

lemma completed_after_new:
  "submitted_in t es \<Longrightarrow> completed_after t b (es @ [Complete b])"
proof -
  assume "submitted_in t es"
  then obtain i p m where "i < length es" "es ! i = Submit t p m"
    unfolding submitted_in_def in_set_conv_nth by blast
  then have "i < length es" "length es < length (es @ [Complete b])"
    "(es @ [Complete b]) ! i = Submit t p m" "(es @ [Complete b]) ! length es = Complete b"
    by (simp_all add: nth_append)
  then show ?thesis unfolding completed_after_def by blast
qed

text \<open>The invariant of all runs: every waiting thread has submitted; once \<open>done\<close> is set, its
  result came from a completion after the submission of every waiting thread.\<close>

definition capture_inv :: "capture_event list \<Rightarrow> capture_sys \<Rightarrow> bool" where
  "capture_inv es s \<longleftrightarrow>
     distinct (waiting s) \<and>
     (\<forall>t\<in>set (waiting s). submitted_in t es) \<and>
     (c_done (req s) \<longrightarrow> (\<forall>t\<in>set (waiting s). completed_after t (c_success (req s)) es)) \<and>
     (\<forall>t. (t, True) \<in> set (returned s) \<longrightarrow> completed_after t True es) \<and>
     length (c_path (req s)) < MCP_CAPTURE_PATH_MAX \<and>
     (c_pending (req s) \<longrightarrow> (\<exists>t p m. Submit t p m \<in> set es \<and>
        c_path (req s) = take 255 (cstr p) \<and> c_mode (req s) = m))"

lemma capture_path: "take (if MCP_CAPTURE_PATH_MAX \<le> c_strlen p then MCP_CAPTURE_PATH_MAX - 1 else c_strlen p) p = take 255 (cstr p)"
proof -
  have "take n (cstr p) = take (min n (c_strlen p)) p" for n
    by (metis c_strlen_def cstr_def min.commute take_all_iff take_take takeWhile_eq_take order_refl)
  then show ?thesis by (cases "c_strlen p = 255") (auto simp: MCP_CAPTURE_PATH_MAX_def min_def)
qed

lemma capture_run_inv: "capture_run es s \<Longrightarrow> capture_inv es s"
proof (induction rule: capture_run.induct)
  case start
  then show ?case
    by (simp add: capture_inv_def capture_start_def mcp_capture_init_def MCP_CAPTURE_PATH_MAX_def)
next
  case (extend es s e s')
  have sub: "submitted_in t es \<Longrightarrow> submitted_in t (es @ [e])" for t by (auto simp: submitted_in_def)
  have cp: "completed_after t b es \<Longrightarrow> completed_after t b (es @ [e])" for t b
    by (rule completed_after_snoc)
  have pd: "\<exists>t p m. Submit t p m \<in> set (es @ [e]) \<and> c_path r = take 255 (cstr p) \<and> c_mode r = m"
    if "\<exists>t p m. Submit t p m \<in> set es \<and> c_path r = take 255 (cstr p) \<and> c_mode r = m"
    for r :: mcp_capture_request
    using that by auto
  from extend.hyps(2) extend.IH show ?case
  proof (cases rule: capture_step.cases)
    case (submit t p m)
    have "submitted_in t (es @ [e])" using submit by (auto simp: submitted_in_def)
    moreover have "\<exists>t' p' m'. Submit t' p' m' \<in> set (es @ [e]) \<and> take 255 (cstr p) = take 255 (cstr p') \<and> m = m'"
      using submit by auto
    ultimately show ?thesis using submit extend.IH sub cp
      by (simp add: capture_inv_def capture_submit_def Let_def capture_path)
        (simp add: MCP_CAPTURE_PATH_MAX_def)
  next
    case poll
    then show ?thesis using extend.IH sub cp pd [of "req s"] by (auto simp: capture_inv_def)
  next
    case (complete b)
    have "submitted_in t es \<Longrightarrow> completed_after t b (es @ [e])" for t
      unfolding complete(1) by (rule completed_after_new)
    with complete show ?thesis using extend.IH sub cp pd [of "req s"]
      by (simp add: capture_inv_def mcp_capture_complete_def)
  next
    case (wake_wait t r)
    then show ?thesis using extend.IH sub cp pd [of "req s"]
      by (simp add: capture_inv_def capture_wake_def split: if_splits)
  next
    case (wake_done t b r)
    then show ?thesis using extend.IH sub cp
      by (auto simp: capture_inv_def capture_wake_def distinct_removeAll split: if_splits)
  next
    case (timeout t)
    then show ?thesis using extend.IH sub cp
      by (auto simp: capture_inv_def capture_give_up_def distinct_removeAll)
  qed
qed

text \<open>C30. In every interleaving of capture calls, polls, completions, wake-ups and time-outs, a
  capture call reports success only if the compositor completed with success after that call had
  submitted its request.\<close>

theorem capture_success_sound:
  assumes "capture_run es s" and "(t, True) \<in> set (returned s)"
  shows "completed_after t True es"
  using capture_run_inv [OF assms(1)] assms(2) by (auto simp: capture_inv_def)

lemma demo_capture_run:
  "\<exists>s. capture_run [Submit 1 ''a.png'' 0, Poll (Some (''a.png'', 0)), Complete True, Wake 1] s \<and>
     (1, True) \<in> set (returned s)"
proof -
  have "capture_run ([] @ [Submit 1 ''a.png'' 0]) (capture_start\<lparr>req := capture_submit ''a.png'' 0 (req capture_start), waiting := 1 # waiting capture_start\<rparr>)"
    (is "capture_run _ ?s1")
    by (rule capture_run.extend [OF capture_run.start]) (rule capture_step.submit, simp add: capture_start_def)
  moreover have "capture_step ?s1 (Poll (mcp_capture_poll (req ?s1))) ?s1" by (rule capture_step.poll)
  ultimately have "capture_run (([] @ [Submit 1 ''a.png'' 0]) @ [Poll (mcp_capture_poll (req ?s1))]) ?s1"
    by (rule capture_run.extend)
  moreover have "capture_step ?s1 (Complete True) (?s1\<lparr>req := mcp_capture_complete True (req ?s1)\<rparr>)" (is "capture_step _ _ ?s2")
    by (rule capture_step.complete)
  ultimately have r2: "capture_run ((([] @ [Submit 1 ''a.png'' 0]) @ [Poll (mcp_capture_poll (req ?s1))]) @ [Complete True]) ?s2"
    by (rule capture_run.extend)
  have "capture_step ?s2 (Wake 1) (?s2\<lparr>req := (req ?s2)\<lparr>c_pending := False\<rparr>, waiting := removeAll 1 (waiting ?s2), returned := returned ?s2 @ [(1, True)]\<rparr>)"
    by (rule capture_step.wake_done) (simp_all add: capture_wake_def mcp_capture_complete_def)
  from capture_run.extend [OF r2 this]
  have "capture_run ([Submit 1 ''a.png'' 0, Poll (mcp_capture_poll (req ?s1)), Complete True, Wake 1])
    (?s2\<lparr>req := (req ?s2)\<lparr>c_pending := False\<rparr>, waiting := removeAll 1 (waiting ?s2), returned := returned ?s2 @ [(1, True)]\<rparr>)"
    by simp
  moreover have "mcp_capture_poll (req ?s1) = Some (''a.png'', 0)"
    by (simp add: mcp_capture_poll_def capture_submit_def c_strlen_def cstr_def MCP_CAPTURE_PATH_MAX_def)
  ultimately show ?thesis by (intro exI [of _ "?s2\<lparr>req := (req ?s2)\<lparr>c_pending := False\<rparr>, waiting := removeAll 1 (waiting ?s2), returned := returned ?s2 @ [(1, True)]\<rparr>"]) simp
qed

theorem capture_success_sound_witness:
  "completed_after 1 True [Submit 1 ''a.png'' 0, Poll (Some (''a.png'', 0)), Complete True, Wake 1]"
  using demo_capture_run capture_success_sound by blast

text \<open>What a poll hands to the compositor is a request some call submitted, its path cut to 255
  bytes so that it fits the caller's buffer, and only while that request waits for a completion.\<close>

theorem capture_poll_sound:
  assumes "capture_run es s" and "mcp_capture_poll (req s) = Some (p, m)"
  shows "length p < 256 \<and> c_pending (req s) \<and> \<not> c_done (req s) \<and>
    (\<exists>t p'. Submit t p' m \<in> set es \<and> p = take 255 (cstr p'))"
  using capture_run_inv [OF assms(1)] assms(2)
  by (auto simp: capture_inv_def mcp_capture_poll_def MCP_CAPTURE_PATH_MAX_def split: if_splits)

theorem capture_poll_sound_witness:
  "\<exists>es s. capture_run es s \<and> mcp_capture_poll (req s) = Some (''a.png'', 3) \<and>
     (\<exists>t p'. Submit t p' 3 \<in> set es \<and> ''a.png'' = take 255 (cstr p'))"
proof -
  let ?s1 = "capture_start\<lparr>req := capture_submit ''a.png'' 3 (req capture_start), waiting := 1 # waiting capture_start\<rparr>"
  have r: "capture_run ([] @ [Submit 1 ''a.png'' 3]) ?s1"
    by (rule capture_run.extend [OF capture_run.start]) (rule capture_step.submit, simp add: capture_start_def)
  have p: "mcp_capture_poll (req ?s1) = Some (''a.png'', 3)"
    by (simp add: mcp_capture_poll_def capture_submit_def c_strlen_def cstr_def MCP_CAPTURE_PATH_MAX_def)
  from capture_poll_sound [OF r p] r p show ?thesis by blast
qed

end
