(* ===== verification/Log_Ring.thy ===== *)
theory Log_Ring
  imports Json "HOL-Library.Sublist"
begin

unbundle bit_operations_syntax

text \<open>
  The log ring of \<^verbatim>\<open>src/mcp_log_ring.c\<close> with its 64-bit sequence numbers, and the
  \<open>tail_log\<close> tool of \<^verbatim>\<open>src/mcp_server.c\<close> that reads it.  The ring is shown to refine an
  abstract log (the list of every accepted entry): \<open>ring_of\<close> relates the two as long as
  fewer than \<open>2 ^ 64 - 1\<close> lines were logged.
\<close>

section \<open>The ring\<close>

definition RING_SIZE :: nat where
  "RING_SIZE = 512"

definition MCP_LOG_MAX_TEXT :: nat where
  "MCP_LOG_MAX_TEXT = 512"

record mcp_log_entry =
  seq :: u64
  timestamp_ns :: int
  level :: int
  e_text :: bytes

record log_ring =
  g_ring :: "mcp_log_entry list"
  g_next_seq :: u64
  g_started :: bool

definition log_ring_zero :: log_ring where
  "log_ring_zero =
     \<lparr>g_ring = replicate RING_SIZE \<lparr>seq = 0, timestamp_ns = 0, level = 0, e_text = []\<rparr>,
      g_next_seq = 1, g_started = False\<rparr>"

definition mcp_log_ring_start :: "log_ring \<Rightarrow> log_ring" where
  "mcp_log_ring_start r = r\<lparr>g_started := True\<rparr>"

definition mcp_log_ring_stop :: "log_ring \<Rightarrow> log_ring" where
  "mcp_log_ring_stop r = r\<lparr>g_started := False\<rparr>"

text \<open>\<open>seq & (RING_SIZE - 1)\<close>.\<close>

definition ring_slot :: "u64 \<Rightarrow> nat" where
  "ring_slot s = unat (s AND 511)"

text \<open>\<open>now\<close> is the monotonic clock; \<open>None\<close> is a null text.\<close>

definition mcp_log_ring_append_text :: "int \<Rightarrow> int \<Rightarrow> bytes option \<Rightarrow> log_ring \<Rightarrow> log_ring" where
  "mcp_log_ring_append_text now lv text r =
     (case text of None \<Rightarrow> r
      | Some t \<Rightarrow>
          if \<not> g_started r then r
          else
            let s = g_next_seq r;
                n = c_strlen t;
                copy = (if n < MCP_LOG_MAX_TEXT then n else MCP_LOG_MAX_TEXT - 1)
            in r\<lparr>g_next_seq := s + 1,
                 g_ring := (g_ring r)[ring_slot s :=
                   \<lparr>seq = s, timestamp_ns = now, level = lv, e_text = take copy t\<rparr>]\<rparr>)"

text \<open>\<open>vsnprintf\<close> into the 512-byte buffer first; \<open>None\<close> is its encoding error.\<close>

definition mcp_log_ring_append :: "int \<Rightarrow> int \<Rightarrow> bytes option \<Rightarrow> log_ring \<Rightarrow> log_ring" where
  "mcp_log_ring_append now lv formatted r =
     (case formatted of None \<Rightarrow> r
      | Some t \<Rightarrow> mcp_log_ring_append_text now lv (Some (snprintf_s MCP_LOG_MAX_TEXT t)) r)"

fun ring_read_loop :: "mcp_log_entry list \<Rightarrow> u64 \<Rightarrow> nat \<Rightarrow> u64 \<Rightarrow> mcp_log_entry list \<times> u64" where
  "ring_read_loop ring next 0 start = ([], start)"
| "ring_read_loop ring next (Suc k) start =
     (if start < next
      then let (es, s) = ring_read_loop ring next k (start + 1) in (ring ! ring_slot start # es, s)
      else ([], start))"

text \<open>The entries, the next cursor and the number dropped.\<close>

definition mcp_log_ring_read :: "u64 \<Rightarrow> nat \<Rightarrow> log_ring \<Rightarrow> mcp_log_entry list \<times> u64 \<times> u64" where
  "mcp_log_ring_read since max_entries r =
     (let next = g_next_seq r;
          oldest_in_ring = (if 512 < next then next - 512 else 1);
          start = since + 1;
          dropped = (if start < oldest_in_ring then oldest_in_ring - start else 0);
          start = (if start < oldest_in_ring then oldest_in_ring else start);
          (es, start) = ring_read_loop (g_ring r) next max_entries start
      in (es, (if 0 < start then start - 1 else 0), dropped))"

section \<open>The ring refines the list of all entries\<close>

definition ring_of :: "mcp_log_entry list \<Rightarrow> log_ring \<Rightarrow> bool" where
  "ring_of l r \<longleftrightarrow>
     length (g_ring r) = RING_SIZE \<and> length l < 2 ^ 64 - 1 \<and> unat (g_next_seq r) = Suc (length l) \<and>
     (\<forall>i<length l. seq (l ! i) = of_nat (Suc i)) \<and>
     (\<forall>i<length l. length l \<le> i + RING_SIZE \<longrightarrow> g_ring r ! (Suc i mod RING_SIZE) = l ! i)"

lemma unat_eq_of_nat: "unat (x :: u64) = n \<Longrightarrow> x = of_nat n"
  by auto

lemma ring_slot_eq: "ring_slot s = unat s mod RING_SIZE"
proof -
  have "mask 9 = (511 :: u64)" by (simp add: mask_eq_exp_minus_1)
  then have m: "s AND 511 = take_bit 9 s" by (simp only: take_bit_eq_mask)
  show ?thesis
    unfolding ring_slot_def m unsigned_take_bit_eq by (simp add: take_bit_eq_mod RING_SIZE_def)
qed

lemma ring_of_zero: "ring_of [] log_ring_zero"
  by (simp add: ring_of_def log_ring_zero_def)

lemma ring_of_start_stop [inv_pres]:
  "ring_of l r \<Longrightarrow> ring_of l (mcp_log_ring_start r)"
  "ring_of l r \<Longrightarrow> ring_of l (mcp_log_ring_stop r)"
  by (simp_all add: ring_of_def mcp_log_ring_start_def mcp_log_ring_stop_def)

text \<open>The entry an append adds to the log.\<close>

definition logged :: "int \<Rightarrow> int \<Rightarrow> bytes \<Rightarrow> mcp_log_entry list \<Rightarrow> mcp_log_entry" where
  "logged now lv t l =
     \<lparr>seq = of_nat (Suc (length l)), timestamp_ns = now, level = lv, e_text = take 511 (cstr t)\<rparr>"

lemma text_copy: "take (if c_strlen t < MCP_LOG_MAX_TEXT then c_strlen t else MCP_LOG_MAX_TEXT - 1) t = take 511 (cstr t)"
proof -
  have c: "take n (cstr t) = take (min n (c_strlen t)) t" for n
    by (metis c_strlen_def cstr_def min.commute take_all_iff take_take takeWhile_eq_take order_refl)
  show ?thesis by (cases "c_strlen t = 511") (auto simp: c MCP_LOG_MAX_TEXT_def min_def)
qed

lemma ring_of_append:
  assumes "ring_of l r" and "g_started r" and "Suc (length l) < 2 ^ 64 - 1"
  shows "ring_of (l @ [logged now lv t l]) (mcp_log_ring_append_text now lv (Some t) r)"
proof -
  let ?r' = "mcp_log_ring_append_text now lv (Some t) r"
  have n: "unat (g_next_seq r) = Suc (length l)" using assms(1) by (simp add: ring_of_def)
  then have s: "g_next_seq r = of_nat (Suc (length l))" by (rule unat_eq_of_nat)
  have "unat (g_next_seq r + 1) = Suc (Suc (length l))"
    using assms(3) n by (subst unat_add_lem [THEN iffD1]) simp_all
  then have n': "unat (g_next_seq ?r') = Suc (length (l @ [logged now lv t l]))"
    using assms(2) by (simp add: mcp_log_ring_append_text_def Let_def)
  have g: "g_ring ?r' = (g_ring r)[Suc (length l) mod RING_SIZE := logged now lv t l]"
    using assms(2) by (simp add: mcp_log_ring_append_text_def Let_def logged_def text_copy ring_slot_eq n)
      (simp add: s)
  have len: "length (g_ring r) = RING_SIZE" using assms(1) by (simp add: ring_of_def)
  have pos: "0 < RING_SIZE" by (simp add: RING_SIZE_def)
  have "g_ring ?r' ! (Suc i mod RING_SIZE) = (l @ [logged now lv t l]) ! i"
    if i: "i < Suc (length l)" "Suc (length l) \<le> i + RING_SIZE" for i
  proof (cases "i = length l")
    case True
    then show ?thesis using g len pos by simp
  next
    case False
    with i have il: "i < length l" by simp
    have "Suc i mod RING_SIZE \<noteq> Suc (length l) mod RING_SIZE"
    proof
      assume "Suc i mod RING_SIZE = Suc (length l) mod RING_SIZE"
      then have "RING_SIZE dvd length l - i" using il
        by (metis Suc_leI diff_Suc_Suc le_SucI mod_eq_dvd_iff_nat)
      with il i(2) show False by (auto dest: dvd_imp_le)
    qed
    moreover have "g_ring r ! (Suc i mod RING_SIZE) = l ! i"
      using assms(1) il i(2) by (simp add: ring_of_def)
    ultimately show ?thesis using il g by (simp add: nth_append)
  qed
  moreover have "seq ((l @ [logged now lv t l]) ! i) = of_nat (Suc i)" if "i < Suc (length l)" for i
    using assms(1) that by (cases "i = length l") (auto simp: ring_of_def nth_append logged_def)
  ultimately show ?thesis
    using n' g len assms(3) by (auto simp: ring_of_def less_Suc_eq_le)
qed

lemma ring_of_first:
  "ring_of [logged now lv t []] (mcp_log_ring_append_text now lv (Some t) (mcp_log_ring_start log_ring_zero))"
  using ring_of_append [OF ring_of_start_stop(1) [OF ring_of_zero], of now lv t]
  by (simp add: mcp_log_ring_start_def [of log_ring_zero, THEN arg_cong [of _ _ g_started]])

lemma append_text_cases:
  "mcp_log_ring_append_text now lv None r = r"
  "\<not> g_started r \<Longrightarrow> mcp_log_ring_append_text now lv msg r = r"
  by (auto simp: mcp_log_ring_append_text_def split: option.splits)

lemma append_text_started [frame_rules]:
  "g_started (mcp_log_ring_append_text now lv msg r) = g_started r"
  by (auto simp: mcp_log_ring_append_text_def Let_def split: option.splits)

lemma ring_read_loop_spec:
  assumes "ring_of l r" and "unat start = Suc lo" and "length l \<le> lo + RING_SIZE"
  shows "ring_read_loop (g_ring r) (g_next_seq r) k start =
    (take k (drop lo l), of_nat (Suc (lo + length (take k (drop lo l)))))"
  using assms
proof (induction k arbitrary: start lo)
  case 0
  have "start = of_nat (Suc lo)" using "0.prems"(2) by (rule unat_eq_of_nat)
  then show ?case by simp
next
  case (Suc k)
  have n: "unat (g_next_seq r) = Suc (length l)" using Suc.prems(1) by (simp add: ring_of_def)
  have st: "start = of_nat (Suc lo)" using Suc.prems(2) by (rule unat_eq_of_nat)
  show ?case
  proof (cases "lo < length l")
    case True
    then have lt: "start < g_next_seq r" using n Suc.prems(2) by (simp add: word_less_nat_alt)
    have bound: "Suc (Suc lo) < 2 ^ 64" using Suc.prems(1) True by (simp add: ring_of_def)
    have u: "unat (start + 1) = Suc (Suc lo)"
      using Suc.prems(2) bound by (subst unat_add_lem [THEN iffD1]) simp_all
    have e: "g_ring r ! ring_slot start = l ! lo"
      using Suc.prems True by (simp add: ring_of_def ring_slot_eq)
    have "drop lo l = l ! lo # drop (Suc lo) l" using True by (rule Cons_nth_drop_Suc [symmetric])
    then show ?thesis using Suc.IH [OF Suc.prems(1) u] Suc.prems(3) lt e by simp
  next
    case False
    then have "\<not> start < g_next_seq r" using n Suc.prems(2) by (simp add: word_less_nat_alt)
    with False st show ?thesis by simp
  qed
qed

text \<open>What a read returns, on the abstract log.\<close>

definition log_read :: "nat \<Rightarrow> nat \<Rightarrow> mcp_log_entry list \<Rightarrow> mcp_log_entry list \<times> nat \<times> nat" where
  "log_read since k l =
     (let lo = max since (length l - RING_SIZE); es = take k (drop lo l)
      in (es, lo + length es, lo - since))"

lemma ring_read_spec:
  assumes "ring_of l r" and "unat since < 2 ^ 64 - 1"
  shows "mcp_log_ring_read since k r =
    (let (es, c, d) = log_read (unat since) k l in (es, of_nat c, of_nat d))"
proof -
  let ?n = "length l" and ?s = "unat since"
  let ?lo = "max ?s (?n - RING_SIZE)"
  have n: "unat (g_next_seq r) = Suc ?n" using assms(1) by (simp add: ring_of_def)
  define oldest where "oldest = (if 512 < g_next_seq r then g_next_seq r - 512 else 1)"
  have uo: "unat oldest = Suc (?n - RING_SIZE)"
  proof (cases "512 < g_next_seq r")
    case True
    then have "512 < Suc ?n" using n by (simp add: word_less_nat_alt)
    moreover have "unat (g_next_seq r - 512) = unat (g_next_seq r) - 512"
      using True by (subst unat_sub) (auto simp: word_le_nat_alt word_less_nat_alt)
    ultimately show ?thesis using True n by (simp add: oldest_def RING_SIZE_def Suc_diff_le)
  next
    case False
    then have "\<not> 512 < Suc ?n" using n by (simp add: word_less_nat_alt)
    with False show ?thesis by (simp add: oldest_def RING_SIZE_def)
  qed
  have us: "unat (since + 1) = Suc ?s"
    using assms(2) by (subst unat_add_lem [THEN iffD1]) simp_all
  define start where "start = (if since + 1 < oldest then oldest else since + 1)"
  have lt: "since + 1 < oldest \<longleftrightarrow> ?s < ?n - RING_SIZE" by (simp add: word_less_nat_alt us uo)
  have ust: "unat start = Suc ?lo" using us uo lt by (auto simp: start_def max_def)
  have drp: "(if since + 1 < oldest then oldest - (since + 1) else 0) = of_nat (?lo - ?s)"
  proof (cases "since + 1 < oldest")
    case True
    then have "unat (oldest - (since + 1)) = unat oldest - unat (since + 1)"
      by (intro unat_sub) simp
    then have "unat (oldest - (since + 1)) = ?lo - ?s" using us uo True lt by (simp add: max_def)
    then have "oldest - (since + 1) = of_nat (?lo - ?s)" by (rule unat_eq_of_nat)
    with True show ?thesis by simp
  next
    case False
    with lt show ?thesis by (simp add: max_def)
  qed
  define es where "es = take k (drop ?lo l)"
  have loop: "ring_read_loop (g_ring r) (g_next_seq r) k start = (es, of_nat (Suc (?lo + length es)))"
    unfolding es_def by (rule ring_read_loop_spec [OF assms(1) ust]) (simp add: RING_SIZE_def)
  have fin: "Suc (?lo + length es) < 2 ^ 64"
  proof -
    have "?lo + length es \<le> max ?s ?n" by (auto simp: es_def max_def)
    then show ?thesis using assms by (auto simp: ring_of_def)
  qed
  then have "unat (of_nat (Suc (?lo + length es)) :: u64) = Suc (?lo + length es)"
    by (rule unat_u64)
  then have pos: "(0 :: u64) < of_nat (Suc (?lo + length es))" by (simp add: word_less_nat_alt)
  have "(of_nat (Suc (?lo + length es)) :: u64) - 1 = of_nat (?lo + length es)" by simp
  with pos have cur: "(if (0 :: u64) < of_nat (Suc (?lo + length es)) then of_nat (Suc (?lo + length es)) - 1 else 0)
     = (of_nat (?lo + length es) :: u64)" by simp
  show ?thesis
    unfolding mcp_log_ring_read_def log_read_def Let_def
    unfolding oldest_def [symmetric] drp
    unfolding start_def [symmetric] loop es_def [symmetric]
    by (simp only: prod.case cur)
qed


section \<open>The \<open>tail_log\<close> tool\<close>

definition level_names :: "bytes list" where
  "level_names = [''trace'', ''debug'', ''info'', ''warn'', ''error'', ''raw'']"

definition level_name :: "int \<Rightarrow> bytes" where
  "level_name lv = (if 0 \<le> lv \<and> lv < int (length level_names) then level_names ! nat lv else ''unknown'')"

text \<open>\<open>(double)\<close> of a signed 64-bit value.\<close>

definition i64_to_double :: "int \<Rightarrow> dbl" where
  "i64_to_double i = Finite (if i < 0 then - of_nat (round53 (nat (- i))) else of_nat (round53 (nat i)))"

definition entry_json :: "mcp_log_entry \<Rightarrow> json" where
  "entry_json e =
     (let j = cJSON_CreateObject;
          j = cJSON_AddNumberToObject j ''seq'' (u64_to_double (seq e));
          j = cJSON_AddNumberToObject j ''ts_ns'' (i64_to_double (timestamp_ns e));
          j = cJSON_AddStringToObject j ''level'' (level_name (level e))
      in cJSON_AddStringToObject j ''text'' (e_text e))"

definition tail_since :: "(dbl \<Rightarrow> u64) \<Rightarrow> json option \<Rightarrow> u64" where
  "tail_since oob params =
     (case valuedouble (cJSON_GetObjectItemCaseSensitive params ''since'') of
        None \<Rightarrow> 0
      | Some d \<Rightarrow> double_to_u64 oob d)"

definition tail_max :: "json option \<Rightarrow> nat" where
  "tail_max params =
     (case valuedouble (cJSON_GetObjectItemCaseSensitive params ''max'') of
        Some (Finite q) \<Rightarrow> if 0 < q \<and> q \<le> 1024 then nat \<lfloor>q\<rfloor> else 128
      | _ \<Rightarrow> 128)"

definition tool_tail_log :: "(dbl \<Rightarrow> u64) \<Rightarrow> log_ring \<Rightarrow> json option \<Rightarrow> json option" where
  "tool_tail_log oob ring params =
     (case mcp_log_ring_read (tail_since oob params) (tail_max params) ring of
        (es, next_cursor, dropped) \<Rightarrow>
          let r = cJSON_CreateObject;
              r = cJSON_AddNumberToObject r ''cursor'' (u64_to_double next_cursor);
              r = cJSON_AddNumberToObject r ''dropped'' (u64_to_double dropped);
              arr = foldl (\<lambda>a e. cJSON_AddItemToArray a (entry_json e)) cJSON_CreateArray es
          in Some (cJSON_AddItemToObject r ''entries'' arr))"

lemma foldl_AddItemToArray:
  "foldl (\<lambda>a e. cJSON_AddItemToArray a (f e)) (JArr xs) es = JArr (xs @ map f es)"
  by (induction es arbitrary: xs) auto

lemma u64_to_double_of_nat: "n < 2 ^ 53 \<Longrightarrow> u64_to_double (of_nat n) = Finite (of_nat n)"
  by (simp add: u64_to_double_def unat_u64 round53_small)

section \<open>What readers of the log see\<close>

text \<open>Appending refines appending to the list of all entries: an accepted line becomes the next
  entry, numbered in sequence and cut to 511 bytes; a stopped ring, and a null text, change nothing.\<close>

theorem log_append_refines:
  assumes "ring_of l r" and "Suc (length l) < 2 ^ 64 - 1"
  shows "ring_of (if g_started r \<and> msg \<noteq> None then l @ [logged now lv (the msg) l] else l)
    (mcp_log_ring_append_text now lv msg r)"
  using assms ring_of_append by (cases msg) (auto simp: append_text_cases)

theorem log_append_refines_witness:
  "ring_of [logged 7 2 ''hello'' []] (mcp_log_ring_append_text 7 2 (Some ''hello'') (mcp_log_ring_start log_ring_zero))"
  using log_append_refines [OF ring_of_start_stop(1) [OF ring_of_zero], of "Some ''hello''" 7 2]
  by (simp add: mcp_log_ring_start_def [of log_ring_zero, THEN arg_cong [of _ _ g_started]])

text \<open>C36. Reading refines reading the list of all entries: the result is the longest run of at most
  \<open>max_entries\<close> entries after \<open>since\<close> that the last 512 still hold, the cursor is the number of
  the last entry returned, and \<open>dropped\<close> counts exactly the entries after \<open>since\<close> that were
  overwritten.\<close>

theorem log_read_refines:
  assumes "ring_of l r" and "unat since < 2 ^ 64 - 1"
  shows "mcp_log_ring_read since k r =
    (let lo = max (unat since) (length l - 512); es = take k (drop lo l)
     in (es, of_nat (lo + length es), of_nat (lo - unat since)))"
  using ring_read_spec [OF assms, of k] by (simp add: log_read_def RING_SIZE_def Let_def)

theorem log_read_refines_witness:
  "mcp_log_ring_read 0 10 (mcp_log_ring_append_text 7 2 (Some ''hello'') (mcp_log_ring_start log_ring_zero)) =
     ([logged 7 2 ''hello'' []], 1, 0)"
proof -
  have "ring_of [logged 7 2 ''hello'' []]
      (mcp_log_ring_append_text 7 2 (Some ''hello'') (mcp_log_ring_start log_ring_zero))"
    by (rule ring_of_first)
  from log_read_refines [OF this, of 0 10] show ?thesis by simp
qed

text \<open>A reader that polls with the cursor of its last read, among lines being logged.\<close>

datatype log_op = LogLine int int bytes | TailRead nat

fun log_session ::
    "log_op list \<Rightarrow> log_ring \<times> u64 \<times> mcp_log_entry list \<times> nat \<Rightarrow> log_ring \<times> u64 \<times> mcp_log_entry list \<times> nat"
where
  "log_session [] st = st"
| "log_session (LogLine now lv t # ops) (r, cursor, got, lost) =
     log_session ops (mcp_log_ring_append_text now lv (Some t) r, cursor, got, lost)"
| "log_session (TailRead k # ops) (r, cursor, got, lost) =
     (case mcp_log_ring_read cursor k r of
        (es, cursor', d) \<Rightarrow> log_session ops (r, cursor', got @ es, lost + unat d))"

fun log_lines :: "log_op list \<Rightarrow> bytes list" where
  "log_lines [] = []"
| "log_lines (LogLine now lv t # ops) = take 511 (cstr t) # log_lines ops"
| "log_lines (TailRead k # ops) = log_lines ops"

lemma take_split: "a \<le> b \<Longrightarrow> take (b + length (take k (drop b l))) l = take a l @ drop a (take b l) @ take k (drop b l)"
proof -
  assume "a \<le> b"
  have "take (b + length (take k (drop b l))) l = take b l @ take k (drop b l)"
    by (simp add: take_add min_def)
  also have "take b l = take a l @ drop a (take b l)"
    using \<open>a \<le> b\<close> by (metis append_take_drop_id min.absorb1 take_take)
  finally show ?thesis by simp
qed

lemma log_session_inv:
  assumes "ring_of l r" and "g_started r" and "unat cursor \<le> length l"
    and "length got + lost = unat cursor" and "subseq got (take (unat cursor) l)"
    and "lost = 0 \<longrightarrow> got = take (unat cursor) l" and "length l + length ops < 2 ^ 64 - 1"
    and "log_session ops (r, cursor, got, lost) = (r', cursor', got', lost')"
  shows "\<exists>l'. ring_of l' r' \<and> map e_text l' = map e_text l @ log_lines ops \<and>
    unat cursor' \<le> length l' \<and> length got' + lost' = unat cursor' \<and>
    subseq got' (take (unat cursor') l') \<and> (lost' = 0 \<longrightarrow> got' = take (unat cursor') l')"
  using assms
proof (induction ops arbitrary: l r cursor got lost)
  case Nil
  then show ?case by (intro exI [of _ l]) simp
next
  case (Cons op ops)
  show ?case
  proof (cases op)
    case (LogLine now lv t)
    let ?l = "l @ [logged now lv t l]"
    have ro: "ring_of ?l (mcp_log_ring_append_text now lv (Some t) r)"
      using Cons.prems by (intro ring_of_append) simp_all
    have "\<exists>l'. ring_of l' r' \<and> map e_text l' = map e_text ?l @ log_lines ops \<and>
      unat cursor' \<le> length l' \<and> length got' + lost' = unat cursor' \<and>
      subseq got' (take (unat cursor') l') \<and> (lost' = 0 \<longrightarrow> got' = take (unat cursor') l')"
      by (rule Cons.IH [OF ro, of cursor got lost])
        (use Cons.prems LogLine in \<open>simp_all add: append_text_started\<close>)
    then show ?thesis by (simp add: LogLine logged_def)
  next
    case (TailRead k)
    define lo where "lo = max (unat cursor) (length l - RING_SIZE)"
    define es where "es = take k (drop lo l)"
    have le: "unat cursor \<le> lo" "lo \<le> length l" using Cons.prems(3) by (simp_all add: lo_def)
    have len: "length l < 2 ^ 64 - 1" using Cons.prems(1) by (simp add: ring_of_def)
    then have c: "unat cursor < 2 ^ 64 - 1" using Cons.prems(3) by simp
    have rd: "mcp_log_ring_read cursor k r = (es, of_nat (lo + length es), of_nat (lo - unat cursor))"
      using ring_read_spec [OF Cons.prems(1) c, of k] by (simp add: log_read_def Let_def lo_def es_def)
    have hi: "lo + length es \<le> length l" using le by (auto simp: es_def)
    have u: "unat (of_nat (lo + length es) :: u64) = lo + length es"
        "unat (of_nat (lo - unat cursor) :: u64) = lo - unat cursor"
      using hi le len by (intro unat_u64; simp)+
    have tk: "take (lo + length es) l = take (unat cursor) l @ drop (unat cursor) (take lo l) @ es"
      unfolding es_def by (rule take_split [OF le(1)])
    have sub: "subseq (got @ es) (take (lo + length es) l)"
      unfolding tk using Cons.prems(5) by (intro list_emb_append_mono) (auto intro: list_emb_append2)
    have ex: "got @ es = take (lo + length es) l" if "lost + (lo - unat cursor) = 0"
      using that Cons.prems(6) le tk by simp
    show ?thesis
      unfolding TailRead log_lines.simps
      by (rule Cons.IH [OF Cons.prems(1,2), of "of_nat (lo + length es)" "got @ es" "lost + (lo - unat cursor)"])
        (use Cons.prems TailRead rd u hi sub ex le in \<open>simp_all\<close>)
  qed
qed

text \<open>C29. A reader that passes each returned cursor to its next call streams the log: among any
  interleaving of logged lines and reads it gets a subsequence of the logged lines in order, never one
  twice; what it got and what it was told was dropped add up to its cursor; and when nothing was
  dropped it got every line up to the cursor.\<close>

theorem log_streaming:
  assumes "length ops < 2 ^ 64 - 1"
    and "log_session ops (mcp_log_ring_start log_ring_zero, 0, [], 0) = (r, cursor, got, lost)"
  shows "subseq (map e_text got) (log_lines ops) \<and> length got + lost = unat cursor \<and>
    unat cursor \<le> length (log_lines ops) \<and>
    (lost = 0 \<longrightarrow> map e_text got = take (unat cursor) (log_lines ops))"
proof -
  have "\<exists>l'. ring_of l' r \<and> map e_text l' = map e_text ([] :: mcp_log_entry list) @ log_lines ops \<and>
    unat cursor \<le> length l' \<and> length got + lost = unat cursor \<and>
    subseq got (take (unat cursor) l') \<and> (lost = 0 \<longrightarrow> got = take (unat cursor) l')"
    by (rule log_session_inv [where r = "mcp_log_ring_start log_ring_zero" and cursor = 0 and got = "[]" and lost = 0])
      (use assms ring_of_start_stop(1) [OF ring_of_zero] in \<open>simp_all add: mcp_log_ring_start_def\<close>)
  then obtain l' where l': "map e_text l' = log_lines ops" "unat cursor \<le> length l'"
    "length got + lost = unat cursor" "subseq got (take (unat cursor) l')"
    "lost = 0 \<longrightarrow> got = take (unat cursor) l'" by auto
  have "subseq (map e_text got) (take (unat cursor) (log_lines ops))"
    using subseq_map [OF l'(4), of e_text] l'(1) by (simp add: take_map [symmetric])
  also have "subseq (take (unat cursor) (log_lines ops)) (log_lines ops)"
    by (metis append_take_drop_id list_emb_append2 subseq_append' subseq_order.order_refl
        prefix_imp_subseq take_is_prefix)
  finally have "subseq (map e_text got) (log_lines ops)" .
  moreover have "length l' = length (log_lines ops)" using l'(1) by (metis length_map)
  ultimately show ?thesis using l' by (auto simp: take_map [symmetric])
qed

theorem log_streaming_witness:
  "\<exists>r cursor got lost. log_session [LogLine 1 2 ''a'', TailRead 8, LogLine 2 2 ''b'', TailRead 8]
      (mcp_log_ring_start log_ring_zero, 0, [], 0) = (r, cursor, got, lost) \<and>
    subseq (map e_text got) [''a'', ''b'']"
proof -
  let ?ops = "[LogLine 1 2 ''a'', TailRead 8, LogLine 2 2 ''b'', TailRead 8]"
  obtain r cursor got lost where s:
    "log_session ?ops (mcp_log_ring_start log_ring_zero, 0, [], 0) = (r, cursor, got, lost)"
    by (cases "log_session ?ops (mcp_log_ring_start log_ring_zero, 0, [], 0)")
  moreover have "log_lines ?ops = [''a'', ''b'']" by (simp add: cstr_def)
  ultimately show ?thesis using log_streaming [OF _ s] by auto
qed

text \<open>The \<open>tail_log\<close> tool reports that read: for a cursor \<open>n\<close> within the log, and fewer than
  \<open>2 ^ 53\<close> lines, its object carries the new cursor, the number dropped and the entries, at most 128 of
  them by default.\<close>

theorem tail_log_reports:
  assumes "ring_of l r" and "n \<le> length l" and "length l < 2 ^ 53"
  shows "tool_tail_log oob r (Some (JObj [(''since'', JInt (int n))])) =
    (let lo = max n (length l - 512); es = take 128 (drop lo l)
     in Some (JObj [(''cursor'', JInt (int (lo + length es))), (''dropped'', JInt (int (lo - n))),
                    (''entries'', JArr (map entry_json es))]))"
proof -
  have n: "n < 2 ^ 64 - 1" "n < 2 ^ 64" using assms(2,3) by simp_all
  have si: "tail_since oob (Some (JObj [(''since'', JNum (Finite (of_nat n)))])) = of_nat n"
    using double_to_u64_nat [OF n(2), of oob] by (simp add: tail_since_def)
  have mx: "tail_max (Some (JObj [(''since'', JNum (Finite (of_nat n)))])) = 128" by (simp add: tail_max_def)
  have u: "unat (of_nat n :: u64) = n" using n(2) by (rule unat_u64)
  define lo where "lo = max n (length l - 512)"
  define es where "es = take 128 (drop lo l)"
  have "mcp_log_ring_read (of_nat n) 128 r = (es, of_nat (lo + length es), of_nat (lo - n))"
    using ring_read_spec [OF assms(1), of "of_nat n" 128] n
    by (simp add: log_read_def RING_SIZE_def Let_def u lo_def es_def)
  moreover have "lo + length es < 2 ^ 53" "lo - n < 2 ^ 53"
    using assms(2,3) by (auto simp: lo_def es_def)
  ultimately show ?thesis
    unfolding Let_def lo_def [symmetric] es_def [symmetric]
    by (simp add: tool_tail_log_def si mx json_simps foldl_AddItemToArray u64_to_double_of_nat
        del: of_nat_add)
qed

theorem tail_log_reports_witness:
  "tool_tail_log (\<lambda>_. 0) (mcp_log_ring_append_text 7 2 (Some ''hi'') (mcp_log_ring_start log_ring_zero))
      (Some (JObj [(''since'', JInt 0)])) =
    Some (JObj [(''cursor'', JInt 1), (''dropped'', JInt 0), (''entries'', JArr [entry_json (logged 7 2 ''hi'' [])])])"
proof -
  have "ring_of [logged 7 2 ''hi'' []]
      (mcp_log_ring_append_text 7 2 (Some ''hi'') (mcp_log_ring_start log_ring_zero))"
    by (rule ring_of_first)
  from tail_log_reports [OF this, of 0 "\<lambda>_. 0"] show ?thesis by simp
qed

end
