(* ===== verification/Server_Rpc.thy ===== *)
theory Server_Rpc
  imports Log_Ring
begin

text \<open>
  The tool registry and the JSON-RPC dispatch of \<^verbatim>\<open>src/mcp_server.c\<close>.  A tool's
  handler is the embedder's code: a function of the call's arguments on a world \<open>'w\<close> it may
  change (its \<open>userdata\<close> is part of it).  \<open>print\<close> and \<open>parse\<close> are \<open>cJSON_PrintUnformatted\<close>
  and \<open>cJSON_Parse\<close>.
\<close>

section \<open>Tools\<close>

text \<open>\<open>t_group\<close> is the C enum's value.\<close>

record 'w mcp_tool =
  t_name :: "bytes option"
  t_description :: "bytes option"
  t_schema :: "bytes option"
  t_fn :: "('w \<Rightarrow> json option \<Rightarrow> json option \<times> 'w) option"
  t_group :: int

record 'w registry =
  tools :: "'w mcp_tool list"
  app_id :: bytes

definition MAX_TOOLS :: nat where
  "MAX_TOOLS = 64"

definition registry_zero :: "'w registry" where
  "registry_zero = \<lparr>tools = [], app_id = []\<rparr>"

definition find_tool :: "bytes \<Rightarrow> 'w registry \<Rightarrow> 'w mcp_tool option" where
  "find_tool name reg = find (\<lambda>t. t_name t = Some name) (tools reg)"

text \<open>Registration and removal say whether the registry changed, which is what triggers a
  \<open>list_changed\<close> notification.  \<open>None\<close> is a null pointer.\<close>

definition mcp_server_register_tool :: "'w mcp_tool option \<Rightarrow> 'w registry \<Rightarrow> bool \<times> 'w registry" where
  "mcp_server_register_tool tool reg =
     (case tool of None \<Rightarrow> (False, reg)
      | Some t \<Rightarrow>
          if t_name t = None \<or> t_fn t = None then (False, reg)
          else if length (tools reg) < MAX_TOOLS then (True, reg\<lparr>tools := tools reg @ [t]\<rparr>)
          else (False, reg))"

definition mcp_server_unregister_tool :: "bytes option \<Rightarrow> 'w registry \<Rightarrow> bool \<times> 'w registry" where
  "mcp_server_unregister_tool name reg =
     (case name of None \<Rightarrow> (False, reg)
      | Some n \<Rightarrow>
          (case find_index (\<lambda>t. t_name t = Some n) (tools reg) of
             None \<Rightarrow> (False, reg)
           | Some i \<Rightarrow> (True, reg\<lparr>tools := remove_at i (tools reg)\<rparr>)))"

definition is_lower_alnum :: "char \<Rightarrow> bool" where
  "is_lower_alnum c = (let n = (of_char c :: nat) in (97 \<le> n \<and> n \<le> 122) \<or> (48 \<le> n \<and> n \<le> 57))"

fun app_id_chars_ok :: "bool \<Rightarrow> bytes \<Rightarrow> bool" where
  "app_id_chars_ok first [] = True"
| "app_id_chars_ok first (c # cs) =
     (let alnum = is_lower_alnum c
      in if (if first then \<not> alnum else \<not> (alnum \<or> c = CHR ''-'')) then False
         else app_id_chars_ok False cs)"

definition app_id_valid :: "bytes option \<Rightarrow> bool" where
  "app_id_valid i =
     (case i of None \<Rightarrow> False
      | Some s \<Rightarrow> s \<noteq> [] \<and> length s \<le> 32 \<and> app_id_chars_ok True s)"

definition mcp_server_set_app_id :: "bytes option \<Rightarrow> 'w registry \<Rightarrow> bool \<times> 'w registry" where
  "mcp_server_set_app_id i reg =
     (if \<not> app_id_valid i then (False, reg)
      else if app_id reg \<noteq> the i then (True, reg\<lparr>app_id := snprintf_s 33 (the i)\<rparr>)
      else (False, reg))"

section \<open>Built-in tools\<close>

definition tool_echo :: "'w \<Rightarrow> json option \<Rightarrow> json option \<times> 'w" where
  "tool_echo w params =
     (Some (cJSON_AddItemToObject cJSON_CreateObject ''echo''
        (case params of None \<Rightarrow> JNull | Some p \<Rightarrow> p)), w)"

definition ECHO_TOOL :: "'w mcp_tool" where
  "ECHO_TOOL =
     \<lparr>t_name = Some ''echo'',
      t_description = Some ''Echoes the params back in {\"echo\": <params>}. Used for handshake testing.'',
      t_schema = Some ''{\"type\":\"object\"}'', t_fn = Some tool_echo, t_group = 0\<rparr>"

text \<open>\<open>ring\<close> picks the log ring out of the world.\<close>

definition TAIL_LOG_TOOL :: "(dbl \<Rightarrow> u64) \<Rightarrow> ('w \<Rightarrow> log_ring) \<Rightarrow> 'w mcp_tool" where
  "TAIL_LOG_TOOL oob ring =
     \<lparr>t_name = Some ''tail_log'',
      t_description = Some (''Return buffered U_LOG lines with seq > `since`. Pass the returned `cursor` as `since` '' @
        ''on the next call to stream. `dropped` indicates how many entries were evicted before '' @
        ''the caller read them (ring size is fixed).''),
      t_schema = Some (''{\"type\":\"object\",\"properties\":{\"since\":{\"type\":\"integer\",\"default\":0},'' @
        ''\"max\":{\"type\":\"integer\",\"default\":128,\"maximum\":1024}}}''),
      t_fn = Some (\<lambda>w params. (tool_tail_log oob (ring w) params, w)), t_group = 0\<rparr>"

section \<open>JSON-RPC envelopes\<close>

definition jsonrpc_envelope :: "json option \<Rightarrow> json" where
  "jsonrpc_envelope rid =
     (let env = cJSON_AddStringToObject cJSON_CreateObject ''jsonrpc'' ''2.0''
      in case rid of None \<Rightarrow> env | Some i \<Rightarrow> cJSON_AddItemToObject env ''id'' i)"

definition jsonrpc_result :: "(json \<Rightarrow> bytes) \<Rightarrow> json option \<Rightarrow> json \<Rightarrow> bytes" where
  "jsonrpc_result print rid result =
     print (cJSON_AddItemToObject (jsonrpc_envelope rid) ''result'' result)"

definition jsonrpc_error :: "(json \<Rightarrow> bytes) \<Rightarrow> json option \<Rightarrow> int \<Rightarrow> bytes \<Rightarrow> bytes" where
  "jsonrpc_error print rid code message =
     (let err = cJSON_AddNumberToObject cJSON_CreateObject ''code'' (dbl_of_int code);
          err = cJSON_AddStringToObject err ''message'' message
      in print (cJSON_AddItemToObject (jsonrpc_envelope rid) ''error'' err))"

section \<open>Methods\<close>

definition group_name :: "int \<Rightarrow> bytes" where
  "group_name g =
     (if g = 1 then ''app'' else if g = 2 then ''workspace'' else if g = 3 then ''capture'' else ''diagnostic'')"

definition tool_json :: "(bytes \<Rightarrow> json option) \<Rightarrow> 'w mcp_tool \<Rightarrow> json" where
  "tool_json parse t =
     (let e = cJSON_CreateObject;
          e = cJSON_AddStringToObject e ''name'' (case t_name t of Some n \<Rightarrow> n | None \<Rightarrow> []);
          e = (case t_description t of None \<Rightarrow> e | Some d \<Rightarrow> cJSON_AddStringToObject e ''description'' d);
          e = (case t_schema t of None \<Rightarrow> e
               | Some s \<Rightarrow> (case parse s of None \<Rightarrow> e | Some schema \<Rightarrow> cJSON_AddItemToObject e ''inputSchema'' schema));
          meta = cJSON_AddStringToObject cJSON_CreateObject ''displayxr/group'' (group_name (t_group t))
      in cJSON_AddItemToObject e ''_meta'' meta)"

definition build_tools_list :: "(bytes \<Rightarrow> json option) \<Rightarrow> 'w registry \<Rightarrow> json" where
  "build_tools_list parse reg =
     foldl (\<lambda>arr t. cJSON_AddItemToArray arr (tool_json parse t)) cJSON_CreateArray (tools reg)"

definition DISPLAYXR_MCP_VERSION :: bytes where
  "DISPLAYXR_MCP_VERSION = ''0.4.0-dev''"

definition initialize_result :: "'w registry \<Rightarrow> json" where
  "initialize_result reg =
     (let result = cJSON_AddStringToObject cJSON_CreateObject ''protocolVersion'' ''2024-11-05'';
          tools_cap = cJSON_AddBoolToObject cJSON_CreateObject ''listChanged'' True;
          caps = cJSON_AddItemToObject cJSON_CreateObject ''tools'' tools_cap;
          result = cJSON_AddItemToObject result ''capabilities'' caps;
          info = cJSON_AddStringToObject cJSON_CreateObject ''name'' ''displayxr-mcp'';
          info = cJSON_AddStringToObject info ''version'' DISPLAYXR_MCP_VERSION;
          info = (if app_id reg \<noteq> [] then cJSON_AddStringToObject info ''appId'' (app_id reg) else info)
      in cJSON_AddItemToObject result ''serverInfo'' info)"

definition tools_list_result :: "(bytes \<Rightarrow> json option) \<Rightarrow> 'w registry \<Rightarrow> json" where
  "tools_list_result parse reg =
     (let result = cJSON_AddItemToObject cJSON_CreateObject ''tools'' (build_tools_list parse reg)
      in if app_id reg \<noteq> []
         then cJSON_AddItemToObject result ''_meta''
                (cJSON_AddStringToObject cJSON_CreateObject ''displayxr/appId'' (app_id reg))
         else result)"

definition call_result :: "(json \<Rightarrow> bytes) \<Rightarrow> json \<Rightarrow> json" where
  "call_result print inner =
     (let item = cJSON_AddStringToObject cJSON_CreateObject ''type'' ''text'';
          item = cJSON_AddStringToObject item ''text'' (print inner);
          content = cJSON_AddItemToArray cJSON_CreateArray item;
          result = cJSON_AddItemToObject cJSON_CreateObject ''content'' content;
          is_error = (if cJSON_IsObject (Some inner)
                      then cJSON_GetObjectItemCaseSensitive (Some inner) ''isError'' else None);
          result = (if cJSON_IsTrue is_error then cJSON_AddBoolToObject result ''isError'' True else result)
      in cJSON_AddItemToObject result ''structured'' inner)"

definition handle_tools_call ::
    "(json \<Rightarrow> bytes) \<Rightarrow> 'w registry \<Rightarrow> json option \<Rightarrow> json option \<Rightarrow> 'w \<Rightarrow> bytes \<times> 'w" where
  "handle_tools_call print reg rid params w =
     (let tool_args = cJSON_GetObjectItemCaseSensitive params ''arguments''
      in case valuestring (cJSON_GetObjectItemCaseSensitive params ''name'') of
           None \<Rightarrow> (jsonrpc_error print rid (-32602) (''tools/call: missing string '' @ [CHR 0x27] @ ''name'' @ [CHR 0x27]), w)
         | Some name \<Rightarrow>
             (case find_tool name reg of
                None \<Rightarrow> (jsonrpc_error print rid (-32601) ''tool not found'', w)
              | Some t \<Rightarrow>
                  (case the (t_fn t) w tool_args of
                     (None, w') \<Rightarrow> (jsonrpc_error print rid (-32000) ''tool handler failed'', w')
                   | (Some inner, w') \<Rightarrow> (jsonrpc_result print rid (call_result print inner), w'))))"

text \<open>The reply text if there is one, the client's \<open>initialized\<close> flag and the world afterwards.\<close>

definition handle_request ::
    "(json \<Rightarrow> bytes) \<Rightarrow> (bytes \<Rightarrow> json option) \<Rightarrow> 'w registry \<Rightarrow> json \<Rightarrow> bool \<Rightarrow> 'w \<Rightarrow> bytes option \<times> bool \<times> 'w"
where
  "handle_request print parse reg req initialized w =
     (let rid = cJSON_GetObjectItemCaseSensitive (Some req) ''id'';
          params = cJSON_GetObjectItemCaseSensitive (Some req) ''params'';
          is_notification = (rid = None)
      in case valuestring (cJSON_GetObjectItemCaseSensitive (Some req) ''method'') of
           None \<Rightarrow>
             (if is_notification then (None, initialized, w)
              else (Some (jsonrpc_error print rid (-32600) ''invalid request: missing method''), initialized, w))
         | Some method \<Rightarrow>
             if is_notification then (None, initialized, w)
             else if method = ''initialize''
             then (Some (jsonrpc_result print rid (initialize_result reg)), True, w)
             else if method = ''ping''
             then (Some (jsonrpc_result print rid cJSON_CreateObject), initialized, w)
             else if method = ''tools/list''
             then (Some (jsonrpc_result print rid (tools_list_result parse reg)), initialized, w)
             else if method = ''tools/call''
             then (case handle_tools_call print reg rid params w of (r, w') \<Rightarrow> (Some r, initialized, w'))
             else (Some (jsonrpc_error print rid (-32601) ''method not found''), initialized, w))"

text \<open>What the serve loop does with one frame body.\<close>

definition handle_body ::
    "(json \<Rightarrow> bytes) \<Rightarrow> (bytes \<Rightarrow> json option) \<Rightarrow> 'w registry \<Rightarrow> bytes \<Rightarrow> bool \<Rightarrow> 'w \<Rightarrow> bytes option \<times> bool \<times> 'w"
where
  "handle_body print parse reg body initialized w =
     (case parse body of
        None \<Rightarrow> (Some (jsonrpc_error print None (-32700) ''parse error''), initialized, w)
      | Some req \<Rightarrow> handle_request print parse reg req initialized w)"


section \<open>The registry\<close>

text \<open>What every operation keeps: at most 64 tools, each with a name and a handler, and an app id
  that is unset or a valid slug.\<close>

definition reg_ok :: "'w registry \<Rightarrow> bool" where
  "reg_ok reg \<longleftrightarrow> length (tools reg) \<le> MAX_TOOLS \<and>
     (\<forall>t\<in>set (tools reg). t_name t \<noteq> None \<and> t_fn t \<noteq> None) \<and>
     (app_id reg = [] \<or> app_id_valid (Some (app_id reg)))"

lemma reg_ok_zero: "reg_ok registry_zero"
  by (simp add: reg_ok_def registry_zero_def)

lemma app_id_chars_ok_iff:
  "app_id_chars_ok False s \<longleftrightarrow> (\<forall>c\<in>set s. is_lower_alnum c \<or> c = CHR ''-'')"
  "app_id_chars_ok True s \<longleftrightarrow> s = [] \<or> is_lower_alnum (hd s) \<and> (\<forall>c\<in>set s. is_lower_alnum c \<or> c = CHR ''-'')"
proof -
  show f: "app_id_chars_ok False s \<longleftrightarrow> (\<forall>c\<in>set s. is_lower_alnum c \<or> c = CHR ''-'')" for s
    by (induction s) (auto simp: Let_def)
  show "app_id_chars_ok True s \<longleftrightarrow> s = [] \<or> is_lower_alnum (hd s) \<and> (\<forall>c\<in>set s. is_lower_alnum c \<or> c = CHR ''-'')"
    by (cases s) (auto simp: Let_def f)
qed

lemma set_app_id_cases:
  "mcp_server_set_app_id i reg =
     (if app_id_valid i \<and> app_id reg \<noteq> the i then (True, reg\<lparr>app_id := the i\<rparr>) else (False, reg))"
  by (auto simp: mcp_server_set_app_id_def app_id_valid_def snprintf_s_def split: option.splits)

lemma unregister_cases:
  "mcp_server_unregister_tool (Some n) reg =
     (case find_index (\<lambda>t. t_name t = Some n) (tools reg) of None \<Rightarrow> (False, reg)
      | Some i \<Rightarrow> (True, reg\<lparr>tools := remove_at i (tools reg)\<rparr>))"
  by (simp add: mcp_server_unregister_tool_def)

lemma registry_eqI: "tools r = tools r' \<Longrightarrow> app_id r = app_id r' \<Longrightarrow> (r :: 'w registry) = r'"
  by simp

text \<open>Registration, removal and the app id keep the registry well-formed, and report a change, so
  that clients are notified, exactly when the registry is no longer the same.\<close>

theorem registry_invariant:
  assumes "reg_ok reg"
  shows "(\<forall>t. (case mcp_server_register_tool t reg of (ch, reg') \<Rightarrow> reg_ok reg' \<and> (ch \<longleftrightarrow> reg' \<noteq> reg))) \<and>
    (\<forall>n. (case mcp_server_unregister_tool n reg of (ch, reg') \<Rightarrow> reg_ok reg' \<and> (ch \<longleftrightarrow> reg' \<noteq> reg))) \<and>
    (\<forall>i. (case mcp_server_set_app_id i reg of (ch, reg') \<Rightarrow> reg_ok reg' \<and> (ch \<longleftrightarrow> reg' \<noteq> reg)))"
proof (intro conjI allI)
  fix t
  have ne: "reg\<lparr>tools := tools reg @ [x]\<rparr> \<noteq> reg" for x :: "'a mcp_tool"
  proof
    assume "reg\<lparr>tools := tools reg @ [x]\<rparr> = reg"
    then have "tools (reg\<lparr>tools := tools reg @ [x]\<rparr>) = tools reg" by (rule arg_cong)
    then show False by simp
  qed
  show "case mcp_server_register_tool t reg of (ch, reg') \<Rightarrow> reg_ok reg' \<and> (ch \<longleftrightarrow> reg' \<noteq> reg)"
    using assms ne by (auto simp: mcp_server_register_tool_def reg_ok_def MAX_TOOLS_def split: option.splits)
next
  fix n
  have ne: "reg\<lparr>tools := remove_at i (tools reg)\<rparr> \<noteq> reg" if "i < length (tools reg)" for i
  proof
    assume "reg\<lparr>tools := remove_at i (tools reg)\<rparr> = reg"
    then have "tools (reg\<lparr>tools := remove_at i (tools reg)\<rparr>) = tools reg" by (rule arg_cong)
    then have "length (remove_at i (tools reg)) = length (tools reg)" by simp
    with that show False by (simp add: length_remove_at)
  qed
  have sub: "x \<in> set (remove_at i (tools reg)) \<Longrightarrow> x \<in> set (tools reg)" for x i
    by (rule subsetD [OF set_remove_at_subset])
  show "case mcp_server_unregister_tool n reg of (ch, reg') \<Rightarrow> reg_ok reg' \<and> (ch \<longleftrightarrow> reg' \<noteq> reg)"
  proof (cases n)
    case None
    then show ?thesis using assms by (simp add: mcp_server_unregister_tool_def)
  next
    case (Some nm)
    show ?thesis
    proof (cases "find_index (\<lambda>t. t_name t = Some nm) (tools reg)")
      case None
      with Some assms show ?thesis by (simp add: unregister_cases)
    next
      case (Some i)
      then have i: "i < length (tools reg)" by (rule find_index_SomeD)
      with Some \<open>n = Some nm\<close> ne [OF i] assms sub show ?thesis
        by (auto simp: unregister_cases reg_ok_def length_remove_at)
    qed
  qed
next
  fix i
  have ne: "reg\<lparr>app_id := x\<rparr> \<noteq> reg" if "app_id reg \<noteq> x" for x
    using that by (metis registry.select_convs(2) registry.surjective registry.update_convs(2))
  show "case mcp_server_set_app_id i reg of (ch, reg') \<Rightarrow> reg_ok reg' \<and> (ch \<longleftrightarrow> reg' \<noteq> reg)"
    using assms ne by (cases i) (auto simp: set_app_id_cases reg_ok_def app_id_valid_def)
qed

theorem registry_invariant_witness:
  "case mcp_server_set_app_id (Some ''viewer-2'') (registry_zero :: nat registry) of
     (ch, reg') \<Rightarrow> reg_ok reg' \<and> (ch \<longleftrightarrow> reg' \<noteq> registry_zero)"
  by (rule registry_invariant [OF reg_ok_zero, THEN conjunct2, THEN conjunct2, THEN spec])

text \<open>A tool registered under a new name is found under it, no other name is affected, and
  unregistering it restores the registry; a full registry refuses it.\<close>

theorem register_roundtrip:
  assumes "t_name t = Some n" and "t_fn t \<noteq> None" and "find_tool n reg = None"
  shows "(if length (tools reg) < 64
     then (\<exists>reg'. mcp_server_register_tool (Some t) reg = (True, reg') \<and> find_tool n reg' = Some t \<and>
       (\<forall>m. m \<noteq> n \<longrightarrow> find_tool m reg' = find_tool m reg) \<and>
       mcp_server_unregister_tool (Some n) reg' = (True, reg))
     else mcp_server_register_tool (Some t) reg = (False, reg))"
proof (cases "length (tools reg) < 64")
  case False
  then show ?thesis by (simp add: mcp_server_register_tool_def MAX_TOOLS_def)
next
  case True
  let ?reg = "reg\<lparr>tools := tools reg @ [t]\<rparr>"
  have none: "\<forall>u\<in>set (tools reg). t_name u \<noteq> Some n"
    using assms(3) by (auto simp: find_tool_def find_None_iff)
  then have "find_index (\<lambda>u. t_name u = Some n) (tools ?reg) = Some (length (tools reg))"
    using assms(1) by (auto simp: find_index_Some_iff nth_append)
  then have un: "mcp_server_unregister_tool (Some n) ?reg = (True, reg)"
    by (simp add: unregister_cases remove_at_def)
  have "mcp_server_register_tool (Some t) reg = (True, ?reg)"
    using True assms(1,2) by (simp add: mcp_server_register_tool_def MAX_TOOLS_def)
  moreover have "find_tool n ?reg = Some t" "m \<noteq> n \<Longrightarrow> find_tool m ?reg = find_tool m reg" for m
    using assms by (auto simp: find_tool_def find_append split: option.splits)
  ultimately show ?thesis using True un by auto
qed

theorem register_roundtrip_witness:
  "\<exists>reg'. mcp_server_register_tool (Some ECHO_TOOL) (registry_zero :: nat registry) = (True, reg') \<and>
     find_tool ''echo'' reg' = Some ECHO_TOOL"
  using register_roundtrip [of "ECHO_TOOL :: nat mcp_tool" "''echo''" registry_zero]
  by (auto simp: ECHO_TOOL_def registry_zero_def find_tool_def)

lemma of_char_mem_image: "(of_char c :: nat) \<in> of_char ` A \<longleftrightarrow> c \<in> A"
  by (auto simp: image_iff)

text \<open>An app id is accepted exactly when it matches \<open>^[a-z0-9][a-z0-9-]{0,31}$\<close>.\<close>

theorem app_id_regex:
  "app_id_valid (Some s) \<longleftrightarrow>
     (\<exists>c r. s = c # r \<and> length r \<le> 31 \<and> c \<in> set ''abcdefghijklmnopqrstuvwxyz0123456789'' \<and>
        set r \<subseteq> set ''abcdefghijklmnopqrstuvwxyz0123456789-'')"
proof -
  define L where "L = set ''abcdefghijklmnopqrstuvwxyz0123456789''"
  have codes: "of_char ` L = set ([97..<123] @ [48..<(58 :: nat)])"
    unfolding L_def set_map [symmetric] by (simp add: upt_rec_numeral)
  have al: "is_lower_alnum c \<longleftrightarrow> c \<in> L" for c
  proof -
    have "is_lower_alnum c \<longleftrightarrow> (of_char c :: nat) \<in> of_char ` L"
      unfolding codes set_append set_upt by (auto simp: is_lower_alnum_def Let_def)
    then show ?thesis by (simp add: of_char_mem_image)
  qed
  have "''abcdefghijklmnopqrstuvwxyz0123456789-'' = ''abcdefghijklmnopqrstuvwxyz0123456789'' @ ''-''" by simp
  then have dash: "set ''abcdefghijklmnopqrstuvwxyz0123456789-'' = L \<union> {CHR ''-''}"
    unfolding L_def by (simp only: set_append list.set)
  show ?thesis
    unfolding dash L_def [symmetric]
  proof (cases s)
    case Nil
    then show "app_id_valid (Some s) \<longleftrightarrow> (\<exists>c r. s = c # r \<and> length r \<le> 31 \<and> c \<in> L \<and> set r \<subseteq> L \<union> {CHR ''-''})"
      by (simp add: app_id_valid_def)
  next
    case (Cons c r)
    have "set r \<subseteq> L \<union> {CHR ''-''} \<longleftrightarrow> (\<forall>c\<in>set r. is_lower_alnum c \<or> c = CHR ''-'')"
      unfolding al by blast
    with Cons show "app_id_valid (Some s) \<longleftrightarrow> (\<exists>c r. s = c # r \<and> length r \<le> 31 \<and> c \<in> L \<and> set r \<subseteq> L \<union> {CHR ''-''})"
      by (auto simp: app_id_valid_def app_id_chars_ok_iff al)
  qed
qed

section \<open>Replies\<close>

text \<open>A reply envelope for request id \<open>i\<close>: version, id and exactly one of \<open>result\<close> and \<open>error\<close>.\<close>

definition reply_for :: "json option \<Rightarrow> json \<Rightarrow> bool" where
  "reply_for i env \<longleftrightarrow>
     cJSON_GetObjectItemCaseSensitive (Some env) ''jsonrpc'' = Some (JStr ''2.0'') \<and>
     cJSON_GetObjectItemCaseSensitive (Some env) ''id'' = i \<and>
     (cJSON_GetObjectItemCaseSensitive (Some env) ''result'' \<noteq> None) \<noteq>
     (cJSON_GetObjectItemCaseSensitive (Some env) ''error'' \<noteq> None)"

definition is_reply :: "(json \<Rightarrow> bytes) \<Rightarrow> json option \<Rightarrow> bytes \<Rightarrow> bool" where
  "is_reply print i r \<longleftrightarrow> (\<exists>env. r = print env \<and> reply_for i env)"

lemma reply_for_add: "k = ''result'' \<or> k = ''error'' \<Longrightarrow> reply_for i (cJSON_AddItemToObject (jsonrpc_envelope i) k v)"
  by (cases i) (auto simp: reply_for_def jsonrpc_envelope_def json_simps)

lemma is_reply_result: "is_reply print i (jsonrpc_result print i r)"
  unfolding is_reply_def jsonrpc_result_def using reply_for_add by blast

lemma is_reply_error: "is_reply print i (jsonrpc_error print i c m)"
  unfolding is_reply_def jsonrpc_error_def Let_def using reply_for_add by blast

lemma is_reply_tools_call: "is_reply print i (fst (handle_tools_call print reg i params w))"
  by (simp add: handle_tools_call_def Let_def is_reply_error is_reply_result split: option.splits prod.splits)

lemma handle_request_replies:
  assumes "cJSON_GetObjectItemCaseSensitive (Some req) ''id'' = Some i"
  shows "\<exists>r ini' w'. handle_request print parse reg req ini w = (Some r, ini', w') \<and> is_reply print (Some i) r"
proof -
  obtain r' w2 where call: "handle_tools_call print reg (Some i)
      (cJSON_GetObjectItemCaseSensitive (Some req) ''params'') w = (r', w2)" by fastforce
  then have "is_reply print (Some i) r'" by (metis fst_conv is_reply_tools_call)
  with assms call show ?thesis
    by (auto simp: handle_request_def Let_def is_reply_error is_reply_result split: option.splits)
qed

text \<open>C24. Every request with an id, whatever its method and parameters, gets exactly one reply: a
  2.0 envelope that carries the same id and either a result or an error, never both.  A message without
  an id gets none and changes nothing.\<close>

theorem request_gets_one_reply:
  "(case cJSON_GetObjectItemCaseSensitive (Some req) ''id'' of
      None \<Rightarrow> handle_request print parse reg req ini w = (None, ini, w)
    | Some i \<Rightarrow> \<exists>env ini' w'. handle_request print parse reg req ini w = (Some (print env), ini', w') \<and>
        reply_for (Some i) env)"
proof (cases "cJSON_GetObjectItemCaseSensitive (Some req) ''id''")
  case None
  then show ?thesis by (simp add: handle_request_def Let_def split: option.splits)
next
  case (Some i)
  from handle_request_replies [OF Some, of print parse reg ini w] show ?thesis
    by (auto simp: Some is_reply_def)
qed

lemma handle_body_prints:
  assumes "handle_body print parse reg body ini w = (Some r, ini', w')"
  shows "\<exists>j. r = print j"
proof (cases "parse body")
  case None
  with assms is_reply_error [of print None "-32700" "''parse error''"] show ?thesis
    by (auto simp: handle_body_def is_reply_def)
next
  case (Some req)
  show ?thesis
  proof (cases "cJSON_GetObjectItemCaseSensitive (Some req) ''id''")
    case None
    with Some assms show ?thesis
      by (simp add: handle_body_def handle_request_def Let_def split: option.splits)
  next
    case (Some i)
    from handle_request_replies [OF this, of print parse reg ini w] \<open>parse body = Some req\<close> assms show ?thesis
      by (auto simp: handle_body_def is_reply_def)
  qed
qed

text \<open>The error object of a code and message.\<close>

definition error_for :: "(json \<Rightarrow> bytes) \<Rightarrow> json \<Rightarrow> int \<Rightarrow> bytes \<Rightarrow> bytes" where
  "error_for print i code message =
     print (JObj [(''jsonrpc'', JStr ''2.0''), (''id'', i),
       (''error'', JObj [(''code'', JInt code), (''message'', JStr message)])])"

lemma jsonrpc_error_eq: "jsonrpc_error print (Some i) c m = error_for print i c m"
  by (simp add: jsonrpc_error_def error_for_def jsonrpc_envelope_def json_simps)

text \<open>C39. The error of every failing request: no method is -32600, an unknown method -32601, a call
  without a tool name -32602, a call of an unregistered tool -32601 and a handler that gives nothing
  -32000; none of them touches the client.\<close>

theorem request_errors:
  assumes "cJSON_GetObjectItemCaseSensitive (Some req) ''id'' = Some i"
    and "m = valuestring (cJSON_GetObjectItemCaseSensitive (Some req) ''method'')"
    and "params = cJSON_GetObjectItemCaseSensitive (Some req) ''params''"
    and "tool = valuestring (cJSON_GetObjectItemCaseSensitive params ''name'')"
  shows "(m = None \<longrightarrow> handle_request print parse reg req ini w =
       (Some (error_for print i (-32600) ''invalid request: missing method''), ini, w)) \<and>
    (m \<notin> {None, Some ''initialize'', Some ''ping'', Some ''tools/list'', Some ''tools/call''} \<longrightarrow>
       handle_request print parse reg req ini w = (Some (error_for print i (-32601) ''method not found''), ini, w)) \<and>
    (m = Some ''tools/call'' \<and> tool = None \<longrightarrow> handle_request print parse reg req ini w =
       (Some (error_for print i (-32602) (''tools/call: missing string '' @ [CHR 0x27] @ ''name'' @ [CHR 0x27])), ini, w)) \<and>
    (\<forall>n. m = Some ''tools/call'' \<and> tool = Some n \<and> find_tool n reg = None \<longrightarrow>
       handle_request print parse reg req ini w = (Some (error_for print i (-32601) ''tool not found''), ini, w)) \<and>
    (\<forall>n t f w'. m = Some ''tools/call'' \<and> tool = Some n \<and> find_tool n reg = Some t \<and> t_fn t = Some f \<and>
       f w (cJSON_GetObjectItemCaseSensitive params ''arguments'') = (None, w') \<longrightarrow>
       handle_request print parse reg req ini w = (Some (error_for print i (-32000) ''tool handler failed''), ini, w'))"
  using assms
  by (auto simp: handle_request_def Let_def handle_tools_call_def jsonrpc_error_eq split: option.splits)

theorem request_errors_witness:
  "handle_request (\<lambda>_. []) (\<lambda>_. None) (registry_zero :: nat registry)
      (JObj [(''id'', JInt 7), (''method'', JStr ''resources/list'')]) False 0 =
    (Some (error_for (\<lambda>_. []) (JInt 7) (-32601) ''method not found''), False, 0)"
  using request_errors [of "JObj [(''id'', JInt 7), (''method'', JStr ''resources/list'')]" "JInt 7"
      "Some ''resources/list''" None None "\<lambda>_. []" "\<lambda>_. None" "registry_zero :: nat registry" False 0]
  by simp

text \<open>C40. A call of a registered tool runs exactly that tool's handler on the call's arguments and
  returns its object twice, as text and as \<open>structured\<close>, flagged \<open>isError\<close> exactly when the
  handler's object says so at its top level.\<close>

theorem tools_call_reply:
  assumes "cJSON_GetObjectItemCaseSensitive (Some req) ''id'' = Some i"
    and "cJSON_GetObjectItemCaseSensitive (Some req) ''method'' = Some (JStr ''tools/call'')"
    and "cJSON_GetObjectItemCaseSensitive (Some req) ''params'' = Some params"
    and "cJSON_GetObjectItemCaseSensitive (Some params) ''name'' = Some (JStr n)"
    and "find_tool n reg = Some t" and "t_fn t = Some f"
    and "f w (cJSON_GetObjectItemCaseSensitive (Some params) ''arguments'') = (Some inner, w')"
  shows "handle_request print parse reg req ini w =
    (Some (print (JObj [(''jsonrpc'', JStr ''2.0''), (''id'', i), (''result'', JObj
       ([(''content'', JArr [JObj [(''type'', JStr ''text''), (''text'', JStr (print inner))]])] @
        (if cJSON_GetObjectItemCaseSensitive (Some inner) ''isError'' = Some (JBool True)
         then [(''isError'', JBool True)] else []) @
        [(''structured'', inner)]))])), ini, w')"
proof -
  have tr: "cJSON_IsTrue x \<longleftrightarrow> x = Some (JBool True)" for x
    by (cases x rule: cJSON_IsTrue.cases) auto
  have ob: "cJSON_GetObjectItemCaseSensitive (Some inner) ''isError'' = Some (JBool True) \<Longrightarrow> cJSON_IsObject (Some inner)"
    by (cases inner) auto
  have "call_result print inner = JObj
       ([(''content'', JArr [JObj [(''type'', JStr ''text''), (''text'', JStr (print inner))]])] @
        (if cJSON_GetObjectItemCaseSensitive (Some inner) ''isError'' = Some (JBool True)
         then [(''isError'', JBool True)] else []) @
        [(''structured'', inner)])"
    using ob by (auto simp: call_result_def Let_def json_simps tr)
  with assms show ?thesis
    by (simp add: handle_request_def Let_def handle_tools_call_def jsonrpc_result_def jsonrpc_envelope_def json_simps)
qed

theorem tools_call_reply_witness:
  "\<exists>r. handle_request (\<lambda>_. ''T'') (\<lambda>_. None) \<lparr>tools = [ECHO_TOOL], app_id = []\<rparr>
      (JObj [(''id'', JInt 1), (''method'', JStr ''tools/call''),
        (''params'', JObj [(''name'', JStr ''echo''), (''arguments'', JInt 5)])]) True (0 :: nat) = (Some r, True, 0)"
proof -
  let ?params = "JObj [(''name'', JStr ''echo''), (''arguments'', JInt 5)]"
  let ?req = "JObj [(''id'', JInt 1), (''method'', JStr ''tools/call''), (''params'', ?params)]"
  have "t_fn (ECHO_TOOL :: nat mcp_tool) = Some tool_echo" by (simp add: ECHO_TOOL_def)
  from tools_call_reply [of ?req "JInt 1" ?params "''echo''" "\<lparr>tools = [ECHO_TOOL], app_id = []\<rparr>", OF _ _ _ _ _ this]
  show ?thesis by (simp add: find_tool_def ECHO_TOOL_def tool_echo_def json_simps)
qed

text \<open>\<open>tools/list\<close> lists every registered tool once, in registration order, with its name,
  description, parsed schema and group, and carries the app id when one is set.\<close>

theorem tools_list_reply:
  assumes "cJSON_GetObjectItemCaseSensitive (Some req) ''id'' = Some i"
    and "cJSON_GetObjectItemCaseSensitive (Some req) ''method'' = Some (JStr ''tools/list'')"
  shows "handle_request print parse reg req ini w =
    (Some (print (JObj [(''jsonrpc'', JStr ''2.0''), (''id'', i), (''result'', JObj
       ((''tools'', JArr (map (\<lambda>t. JObj
           ([(''name'', JStr (case t_name t of Some n \<Rightarrow> n | None \<Rightarrow> []))] @
            (case t_description t of None \<Rightarrow> [] | Some d \<Rightarrow> [(''description'', JStr d)]) @
            (case t_schema t of None \<Rightarrow> []
             | Some s \<Rightarrow> (case parse s of None \<Rightarrow> [] | Some j \<Rightarrow> [(''inputSchema'', j)])) @
            [(''_meta'', JObj [(''displayxr/group'', JStr (group_name (t_group t)))])])) (tools reg))) #
        (if app_id reg = [] then []
         else [(''_meta'', JObj [(''displayxr/appId'', JStr (app_id reg))])])))])), ini, w)"
proof -
  have tj: "tool_json parse t = JObj
           ([(''name'', JStr (case t_name t of Some n \<Rightarrow> n | None \<Rightarrow> []))] @
            (case t_description t of None \<Rightarrow> [] | Some d \<Rightarrow> [(''description'', JStr d)]) @
            (case t_schema t of None \<Rightarrow> []
             | Some s \<Rightarrow> (case parse s of None \<Rightarrow> [] | Some j \<Rightarrow> [(''inputSchema'', j)])) @
            [(''_meta'', JObj [(''displayxr/group'', JStr (group_name (t_group t)))])])" for t :: "'a mcp_tool"
    by (simp add: tool_json_def Let_def json_simps split: option.splits)
  have "build_tools_list parse reg = JArr (map (tool_json parse) (tools reg))"
    by (simp add: build_tools_list_def json_simps foldl_AddItemToArray)
  with assms have "handle_request print parse reg req ini w =
    (Some (print (JObj [(''jsonrpc'', JStr ''2.0''), (''id'', i), (''result'', JObj
       ((''tools'', JArr (map (tool_json parse) (tools reg))) #
        (if app_id reg = [] then []
         else [(''_meta'', JObj [(''displayxr/appId'', JStr (app_id reg))])])))])), ini, w)"
    by (simp add: handle_request_def Let_def tools_list_result_def jsonrpc_result_def jsonrpc_envelope_def json_simps)
  moreover have "tool_json parse = (\<lambda>t :: 'a mcp_tool. JObj
           ([(''name'', JStr (case t_name t of Some n \<Rightarrow> n | None \<Rightarrow> []))] @
            (case t_description t of None \<Rightarrow> [] | Some d \<Rightarrow> [(''description'', JStr d)]) @
            (case t_schema t of None \<Rightarrow> []
             | Some s \<Rightarrow> (case parse s of None \<Rightarrow> [] | Some j \<Rightarrow> [(''inputSchema'', j)])) @
            [(''_meta'', JObj [(''displayxr/group'', JStr (group_name (t_group t)))])]))"
    by (rule ext) (rule tj)
  ultimately show ?thesis by (simp only:)
qed

theorem tools_list_reply_witness:
  "\<exists>j. handle_request (\<lambda>_. ''T'') (\<lambda>_. None) \<lparr>tools = [ECHO_TOOL], app_id = ''viewer''\<rparr>
      (JObj [(''id'', JInt 1), (''method'', JStr ''tools/list'')]) True (0 :: nat) = (Some ''T'', True, 0)"
  using tools_list_reply [of "JObj [(''id'', JInt 1), (''method'', JStr ''tools/list'')]" "JInt 1" "\<lambda>_. ''T''"]
  by simp

end
