(* ===== verification/Agg_Prefix.thy ===== *)
theory Agg_Prefix
  imports Server_Rpc
begin

text \<open>
  Tool-name prefixes of the workspace aggregator (\<^verbatim>\<open>adapter/workspace_aggregator.c\<close>): slugs,
  the executable's base name, and the registry of prefixes that were ever handed out.  The registry
  is the list \<open>used\<close> of the array's first \<open>used_prefix_count\<close> entries.  The locale
  \<open>name_probe\<close> is the argument that probing numbered candidates finds a free name.
\<close>

declare upt_rec_numeral [simp del]

section \<open>Slugs and base names\<close>

text \<open>\<open>out\<close> holds the \<open>n\<close> bytes written so far.\<close>

fun slug_loop :: "nat \<Rightarrow> bytes \<Rightarrow> bytes \<Rightarrow> bytes" where
  "slug_loop cap [] out = out"
| "slug_loop cap (p # ps) out =
     (if length out + 1 < cap \<and> length out < 32
      then let c = tolower_ascii p
           in if is_lower_alnum c then slug_loop cap ps (out @ [c])
              else if out \<noteq> [] \<and> last out \<noteq> CHR ''-'' then slug_loop cap ps (out @ [CHR ''-''])
              else slug_loop cap ps out
      else out)"

definition slugify :: "bytes \<Rightarrow> nat \<Rightarrow> bytes" where
  "slugify s cap =
     (let out = rev (dropWhile (\<lambda>c. c = CHR ''-'') (rev (slug_loop cap (cstr s) [])))
      in if out = [] then snprintf_s cap ''app'' else out)"

text \<open>\<open>base\<close> is the text after the last separator seen.\<close>

fun path_base :: "bytes \<Rightarrow> bytes \<Rightarrow> bytes" where
  "path_base base [] = base"
| "path_base base (c # cs) = path_base (if c = CHR ''/'' \<or> c = CHR 0x5C then cs else base) cs"

text \<open>\<open>path\<close> is what the system gives for the process (empty when it gives nothing).\<close>

definition exe_basename_for_pid :: "bytes \<Rightarrow> nat \<Rightarrow> bytes" where
  "exe_basename_for_pid path cap =
     (if path = [] then []
      else
        let out = snprintf_s cap (path_base path path);
            blen = length out
        in if 4 < blen \<and> map tolower_ascii (drop (blen - 4) out) = ''.exe''
           then take (blen - 4) out else out)"

section \<open>The prefix registry\<close>

definition MAX_PREFIXES :: nat where
  "MAX_PREFIXES = 128"

definition prefix_in_use :: "bytes \<Rightarrow> bytes list \<Rightarrow> bool" where
  "prefix_in_use p used \<longleftrightarrow> list_ex (\<lambda>q. q = p) used"

definition reserve_prefix :: "bytes \<Rightarrow> bytes list \<Rightarrow> bytes list" where
  "reserve_prefix p used = (if length used < MAX_PREFIXES then used @ [p] else used)"

definition prefix_candidate :: "bytes \<Rightarrow> nat \<Rightarrow> bytes" where
  "prefix_candidate desired n = snprintf_s 48 (desired @ ''-'' @ show_nat n)"

definition assign_prefix :: "bytes \<Rightarrow> nat \<Rightarrow> bytes list \<Rightarrow> bytes \<times> bytes list" where
  "assign_prefix desired cap used =
     (if \<not> prefix_in_use desired used
      then let out = snprintf_s cap desired in (out, reserve_prefix out used)
      else
        case find (\<lambda>n. \<not> prefix_in_use (prefix_candidate desired n) used) [2..<100] of
          Some n \<Rightarrow> let out = snprintf_s cap (prefix_candidate desired n) in (out, reserve_prefix out used)
        | None \<Rightarrow> (snprintf_s cap (desired @ ''-x''), used))"

section \<open>What a slug is\<close>

text \<open>The app id charset, without a dash at the end and without two dashes in a row.\<close>

definition no_dd :: "bytes \<Rightarrow> bool" where
  "no_dd s \<longleftrightarrow> successively (\<lambda>a b. a \<noteq> CHR ''-'' \<or> b \<noteq> CHR ''-'') s"

definition is_slug :: "bytes \<Rightarrow> bool" where
  "is_slug s \<longleftrightarrow> app_id_valid (Some s) \<and> last s \<noteq> CHR ''-'' \<and>
     no_dd s"

definition slug_prefix :: "bytes \<Rightarrow> bool" where
  "slug_prefix s \<longleftrightarrow> length s \<le> 32 \<and> (s = [] \<or> is_lower_alnum (hd s)) \<and>
     (\<forall>c\<in>set s. is_lower_alnum c \<or> c = CHR ''-'') \<and>
     no_dd s"

lemma is_slug_iff: "is_slug s \<longleftrightarrow> s \<noteq> [] \<and> slug_prefix s \<and> last s \<noteq> CHR ''-''"
  by (auto simp: is_slug_def slug_prefix_def app_id_valid_def app_id_chars_ok_iff)

lemma no_dd_simps [simp]:
  "no_dd []" "no_dd [x]"
  "no_dd (xs @ [x]) \<longleftrightarrow> no_dd xs \<and> (xs = [] \<or> last xs \<noteq> CHR ''-'' \<or> x \<noteq> CHR ''-'')"
  by (auto simp: no_dd_def successively_append_iff)

lemma no_dd_append:
  "no_dd (xs @ ys) \<Longrightarrow> no_dd xs \<and> (xs = [] \<or> ys = [] \<or> last xs \<noteq> CHR ''-'' \<or> hd ys \<noteq> CHR ''-'')"
  by (auto simp: no_dd_def successively_append_iff)

lemma dash_not_alnum [simp]: "\<not> is_lower_alnum CHR ''-''" "\<not> is_lower_alnum NUL"
  by (simp_all add: is_lower_alnum_def)

lemma slug_prefix_snoc:
  "slug_prefix (s @ [c]) \<longleftrightarrow> slug_prefix s \<and> length s < 32 \<and>
     (is_lower_alnum c \<or> c = CHR ''-'' \<and> s \<noteq> [] \<and> last s \<noteq> CHR ''-'')"
  by (auto simp: slug_prefix_def hd_append)

lemma slug_loop_prefix: "slug_prefix out \<Longrightarrow> slug_prefix (slug_loop cap s out)"
proof (induction cap s out rule: slug_loop.induct)
  case (1 cap out)
  then show ?case by simp
next
  case (2 cap p ps out)
  then show ?case
    by (simp add: Let_def slug_prefix_snoc)
qed

lemma tolower_slug: "is_lower_alnum c \<or> c = CHR ''-'' \<Longrightarrow> tolower_ascii c = c"
  by (auto simp: is_lower_alnum_def tolower_ascii_def Let_def)

lemma slug_loop_id:
  "slug_prefix (out @ s) \<Longrightarrow> length (out @ s) + 1 \<le> cap \<Longrightarrow> slug_loop cap s out = out @ s"
proof (induction cap s out rule: slug_loop.induct)
  case (1 cap out)
  then show ?case by simp
next
  case (2 cap p ps out)
  have p: "tolower_ascii p = p"
    using "2.prems"(1) by (intro tolower_slug) (auto simp: slug_prefix_def)
  have len: "length out + 1 < cap" "length out < 32"
    using "2.prems" by (auto simp: slug_prefix_def)
  have sp: "slug_prefix ((out @ [p]) @ ps)" "length ((out @ [p]) @ ps) + 1 \<le> cap"
    using "2.prems" by simp_all
  show ?case
  proof (cases "is_lower_alnum p")
    case True
    with "2.IH"(1) [OF _ refl] p len sp show ?thesis by simp
  next
    case False
    with "2.prems"(1) have d: "p = CHR ''-''" by (auto simp: slug_prefix_def)
    have "out \<noteq> []" using "2.prems"(1) False by (auto simp: slug_prefix_def)
    moreover have "last out \<noteq> CHR ''-''"
      using "2.prems"(1) d \<open>out \<noteq> []\<close> no_dd_append [of out "p # ps"] by (auto simp: slug_prefix_def)
    ultimately show ?thesis
      using "2.IH"(2) [OF _ refl] p len sp False d by simp
  qed
qed

lemma rstrip_prefix: "\<exists>r. s = rev (dropWhile P (rev s)) @ r"
  by (metis rev_append rev_rev_ident takeWhile_dropWhile_id)

lemma slug_prefix_append: "slug_prefix (a @ b) \<Longrightarrow> slug_prefix a"
  using no_dd_append [of a b] by (cases a) (auto simp: slug_prefix_def)

lemma rstrip_slug:
  assumes "slug_prefix s" and "rev (dropWhile (\<lambda>c. c = CHR ''-'') (rev s)) \<noteq> []"
  shows "is_slug (rev (dropWhile (\<lambda>c. c = CHR ''-'') (rev s)))"
proof -
  obtain r where "s = rev (dropWhile (\<lambda>c. c = CHR ''-'') (rev s)) @ r" using rstrip_prefix by blast
  with assms(1) have "slug_prefix (rev (dropWhile (\<lambda>c. c = CHR ''-'') (rev s)))"
    by (metis slug_prefix_append)
  moreover have "last (rev (dropWhile (\<lambda>c. c = CHR ''-'') (rev s))) \<noteq> CHR ''-''"
    using assms(2) hd_dropWhile [of "\<lambda>c. c = CHR ''-''" "rev s"] by (simp only: last_rev rev_is_Nil_conv) blast
  ultimately show ?thesis using assms(2) by (simp add: is_slug_iff)
qed

lemma is_slug_app: "is_slug ''app''"
  by (simp add: is_slug_iff slug_prefix_def is_lower_alnum_def no_dd_def)

lemma slugify_is_slug: "is_slug (slugify s 40)"
  using rstrip_slug [OF slug_loop_prefix, of "[]" 40 "cstr s"] is_slug_app
  by (simp add: slugify_def Let_def snprintf_s_def slug_prefix_def)

text \<open>Whatever a process reports as its name, its slug is a valid app id with neither a trailing dash
  nor two dashes in a row; and exactly the names that are such slugs already stay as they are.\<close>

theorem slugify_slug: "is_slug (slugify s 40) \<and> (slugify s 40 = s \<longleftrightarrow> is_slug s)"
proof -
  have "slugify s 40 = s" if s: "is_slug s"
  proof -
    have "NUL \<notin> set s" using s by (auto simp: is_slug_iff slug_prefix_def)
    then have "slug_loop 40 (cstr s) [] = s"
      using s slug_loop_id [of "[]" s 40] by (auto simp: cstr_id is_slug_iff slug_prefix_def)
    moreover have "dropWhile (\<lambda>c. c = CHR ''-'') (rev s) = rev s"
      using s by (cases s rule: rev_cases) (auto simp: is_slug_iff)
    ultimately show ?thesis using s by (simp add: slugify_def Let_def is_slug_iff)
  qed
  then show ?thesis using slugify_is_slug [of s] by metis
qed

section \<open>Probing for a free name\<close>

locale name_probe =
  fixes candidate :: "nat \<Rightarrow> 'a"
    and first last_n :: nat
  assumes candidate_inj: "candidate i = candidate j \<Longrightarrow> first \<le> i \<Longrightarrow> i < last_n \<Longrightarrow> first \<le> j \<Longrightarrow> j < last_n \<Longrightarrow> i = j"
begin

lemma probe_finds:
  assumes "length used < last_n - first"
  shows "\<exists>n. find (\<lambda>n. candidate n \<notin> set used) [first..<last_n] = Some n \<and> candidate n \<notin> set used \<and>
    first \<le> n \<and> n < last_n"
proof (cases "find (\<lambda>n. candidate n \<notin> set used) [first..<last_n]")
  case None
  then have sub: "candidate ` {first..<last_n} \<subseteq> set used"
    by (auto simp: find_None_iff)
  have "inj_on candidate {first..<last_n}" using candidate_inj by (auto intro!: inj_onI)
  then have "last_n - first = card (candidate ` {first..<last_n})" by (simp add: card_image)
  also have "\<dots> \<le> card (set used)" using sub by (rule card_mono [rotated]) simp
  also have "\<dots> \<le> length used" by (rule card_length)
  finally show ?thesis using assms by simp
next
  case (Some n)
  then show ?thesis by (auto simp: find_Some_iff dest: nth_mem)
qed

end

lemma prefix_candidate_eq:
  assumes "length d \<le> 32" and "n < 100"
  shows "prefix_candidate d n = d @ ''-'' @ show_nat n" "length (prefix_candidate d n) \<le> length d + 3"
proof -
  have "length (show_nat n) \<le> 2" using assms(2) by (intro length_show_nat) simp_all
  with assms show "prefix_candidate d n = d @ ''-'' @ show_nat n" "length (prefix_candidate d n) \<le> length d + 3"
    by (simp_all add: prefix_candidate_def snprintf_s_def)
qed

interpretation slug_probe: name_probe "\<lambda>n. prefix_candidate (take 32 d) n" 2 100 for d
  by unfold_locales (auto simp: prefix_candidate_eq show_nat_inj)

lemma prefix_in_use_iff: "prefix_in_use p used \<longleftrightarrow> p \<in> set used"
  by (auto simp: prefix_in_use_def list_ex_iff)

text \<open>What an aggregator prefix looks like: a slug, or a slug with a number.  It has no underscore,
  so it cannot contain the separator.\<close>

definition prefix_chars :: "bytes \<Rightarrow> bool" where
  "prefix_chars p \<longleftrightarrow> p \<noteq> [] \<and> length p < 40 \<and> (\<forall>c\<in>set p. is_lower_alnum c \<or> c = CHR ''-'')"

lemma isdigit_alnum: "isdigit c \<Longrightarrow> is_lower_alnum c"
  by (auto simp: isdigit_def is_lower_alnum_def Let_def)

lemma assign_prefix_chars:
  assumes "is_slug d"
  shows "prefix_chars (fst (assign_prefix d 40 used))"
proof -
  have d: "d \<noteq> []" "length d \<le> 32" "\<forall>c\<in>set d. is_lower_alnum c \<or> c = CHR ''-''"
    using assms by (auto simp: is_slug_iff slug_prefix_def)
  have p: "prefix_chars (snprintf_s 40 d)" "prefix_chars (snprintf_s 40 (d @ ''-x''))"
    using d by (auto simp: prefix_chars_def snprintf_s_def is_lower_alnum_def)
  have c: "prefix_chars (snprintf_s 40 (prefix_candidate d n))" if n: "n < 100" for n
    using d prefix_candidate_eq [OF d(2) n] show_nat_digits [of n]
    by (auto simp: prefix_chars_def snprintf_s_def dest: isdigit_alnum)
  have f: "n < 100" if "find P [2..<100] = Some n" for n P
    using that by (auto simp: find_Some_iff)
  show ?thesis
    using p by (auto simp: assign_prefix_def Let_def intro: c dest: f split: option.splits)
qed

lemma assign_prefix_new:
  assumes "is_slug d" and "length used < 98"
  shows "\<exists>p. assign_prefix d 40 used = (p, used @ [p]) \<and> p \<notin> set used \<and> prefix_chars p \<and>
    (if d \<notin> set used then p = d
     else \<exists>n. 2 \<le> n \<and> n < 100 \<and> p = d @ ''-'' @ show_nat n \<and>
       (\<forall>m. 2 \<le> m \<and> m < n \<longrightarrow> d @ ''-'' @ show_nat m \<in> set used))"
proof -
  have d: "length d \<le> 32" using assms(1) by (auto simp: is_slug_iff slug_prefix_def)
  note pc = assign_prefix_chars [OF assms(1), of used]
  show ?thesis
  proof (cases "d \<in> set used")
    case False
    with d assms(2) pc show ?thesis
      by (simp add: assign_prefix_def prefix_in_use_iff reserve_prefix_def MAX_PREFIXES_def snprintf_s_def)
  next
    case True
    have "length used < 100 - 2" "take 32 d = d" using assms(2) d by simp_all
    with slug_probe.probe_finds [of used d] obtain n where
      n: "find (\<lambda>n. prefix_candidate d n \<notin> set used) [2..<100] = Some n" "prefix_candidate d n \<notin> set used"
        "2 \<le> n" "n < 100" by metis
    have e: "prefix_candidate d n = d @ ''-'' @ show_nat n" "length (prefix_candidate d n) < 40"
      using prefix_candidate_eq [OF d n(4)] d by auto
    have "d @ ''-'' @ show_nat m \<in> set used" if m: "2 \<le> m" "m < n" for m
    proof -
      from n(1) obtain i where i: "i < 98" "n = [2..<100] ! i"
        "\<And>j. j < i \<Longrightarrow> prefix_candidate d ([2..<100] ! j) \<in> set used"
        by (auto simp: find_Some_iff)
      with m have "m - 2 < i" "[2..<100] ! (m - 2) = m" by (auto simp: nth_upt)
      with i(3) [of "m - 2"] prefix_candidate_eq(1) [OF d, of m] n(4) m show ?thesis by simp
    qed
    moreover have "assign_prefix d 40 used = (prefix_candidate d n, used @ [prefix_candidate d n])"
      using True n e assms(2)
      by (simp add: assign_prefix_def prefix_in_use_iff reserve_prefix_def MAX_PREFIXES_def snprintf_s_fits Let_def)
    ultimately show ?thesis using True n e pc by (metis fst_conv)
  qed
qed

text \<open>Prefixes are sticky: while fewer than 98 were handed out, assigning one to a slug gives a
  name nobody had before, and reserves it; it is the slug itself when that is free, and otherwise the
  slug with the first free number from 2 on.\<close>

theorem assign_prefix_fresh:
  assumes "is_slug d" and "length used < 98"
  shows "\<exists>p. assign_prefix d 40 used = (p, used @ [p]) \<and> p \<notin> set used \<and> prefix_chars p \<and>
    (if d \<notin> set used then p = d
     else \<exists>n. 2 \<le> n \<and> n < 100 \<and> p = d @ ''-'' @ show_nat n \<and>
       (\<forall>m. 2 \<le> m \<and> m < n \<longrightarrow> d @ ''-'' @ show_nat m \<in> set used))"
  using assms by (rule assign_prefix_new)

theorem assign_prefix_fresh_witness:
  "\<exists>p. assign_prefix ''app'' 40 [''app'', ''app-2''] = (p, [''app'', ''app-2'', p]) \<and> p \<notin> {''app'', ''app-2''} \<and>
    (\<exists>n. p = ''app-'' @ show_nat n)"
  using assign_prefix_fresh [OF is_slug_app, of "[''app'', ''app-2'']"] by auto

end
