(* ===== verification/Frames.thy ===== *)
theory Frames
  imports Transport
begin

text \<open>
  Content-Length framing on the private adapter/server wire: \<open>read_line\<close>, \<open>read_frame\<close>
  and \<open>write_frame\<close> of \<^verbatim>\<open>src/mcp_server.c\<close>, and \<open>conn_read_line\<close>,
  \<open>dxr_conn_read_frame\<close> and \<open>dxr_conn_write_frame\<close> of \<^verbatim>\<open>adapter/stdio_framing.c\<close>.
  The definitions take the connection's read or write operation as an argument; what
  they compute is proved inside the transport's locales against a parser on the flat
  byte stream, and then for the POSIX transport.
\<close>

section \<open>Constants and header text\<close>

definition MAX_FRAME_BYTES :: nat where
  "MAX_FRAME_BYTES = 4 * 1024 * 1024"

definition DXR_STDIO_MAX_MESSAGE_BYTES :: nat where
  "DXR_STDIO_MAX_MESSAGE_BYTES = 16 * 1024 * 1024"

definition CL_KEY :: bytes where
  "CL_KEY = ''content-length:''"

definition CL_KEY_LEN :: nat where
  "CL_KEY_LEN = 15"

lemma length_CL_KEY [simp]: "length CL_KEY = 15"
  by (simp add: CL_KEY_def)

lemma CL_KEY_LEN_eq [simp]: "CL_KEY_LEN = 15"
  by (simp add: CL_KEY_LEN_def)

definition CRLF2 :: bytes where
  "CRLF2 = [CR, LF, CR, LF]"

text \<open>\<open>snprintf(header, 64, "Content-Length: %zu\r\n\r\n", len)\<close>.\<close>

definition cl_header :: "nat \<Rightarrow> bytes" where
  "cl_header len = snprintf_s 64 (''Content-Length: '' @ show_nat len @ CRLF2)"

text \<open>\<open>lower\<close> of the adapter.\<close>

definition lower :: "char \<Rightarrow> char" where
  "lower c = (let n = (of_char c :: nat) in if 65 \<le> n \<and> n \<le> 90 then char_of (n + (97 - 65)) else c)"

lemma lower_eq: "lower c = tolower_ascii c"
  by (simp add: lower_def tolower_ascii_def Let_def)

section \<open>Reading one header line\<close>

text \<open>One byte at a time; \<open>k\<close> passes are left before the buffer is full.\<close>

fun read_line_loop :: "('s \<Rightarrow> nat \<Rightarrow> 's \<times> bytes option) \<Rightarrow> nat \<Rightarrow> bytes \<Rightarrow> 's \<Rightarrow> 's \<times> bytes option" where
  "read_line_loop rd 0 buf s = (s, None)"
| "read_line_loop rd (Suc k) buf s =
     (case rd s 1 of
        (s', None) \<Rightarrow> (s', None)
      | (s', Some c) \<Rightarrow>
          if c = [LF] then (s', Some (buf @ c)) else read_line_loop rd k (buf @ c) s')"

definition read_line :: "('s \<Rightarrow> nat \<Rightarrow> 's \<times> bytes option) \<Rightarrow> 's \<Rightarrow> nat \<Rightarrow> 's \<times> bytes option" where
  "read_line rd s cap = read_line_loop rd (cap - 1) [] s"

definition conn_read_line :: "('s \<Rightarrow> nat \<Rightarrow> 's \<times> bytes option) \<Rightarrow> 's \<Rightarrow> nat \<Rightarrow> 's \<times> bytes option" where
  "conn_read_line rd s cap = read_line_loop rd (cap - 1) [] s"

section \<open>Reading a frame\<close>

text \<open>\<open>strncasecmp(line, "Content-Length:", key_len) == 0\<close> in the server.\<close>

definition server_key_match :: "bytes \<Rightarrow> bool" where
  "server_key_match line = has_prefix_ci CL_KEY line"

text \<open>The adapter's test: long enough as a C string, and the key in any case.\<close>

definition adapter_key_match :: "bytes \<Rightarrow> bool" where
  "adapter_key_match line = (CL_KEY_LEN < c_strlen line \<and> map lower (take CL_KEY_LEN line) = CL_KEY)"

text \<open>The header loop both readers have, over their key test: it ends at a blank line or when
  no line can be read.  It may not end on an endless stream, hence the \<open>option\<close>.\<close>

partial_function (option) header_loop ::
    "(bytes \<Rightarrow> bool) \<Rightarrow> ('s \<Rightarrow> nat \<Rightarrow> 's \<times> bytes option) \<Rightarrow> bool \<Rightarrow> nat \<Rightarrow> 's \<Rightarrow> ('s \<times> bool \<times> nat) option"
where
  "header_loop key rd have_length content_length s =
     (case read_line rd s 256 of
        (s', None) \<Rightarrow> Some (s', have_length, content_length)
      | (s', Some line) \<Rightarrow>
          if hd line = CR \<or> hd line = LF then Some (s', have_length, content_length)
          else if key line then header_loop key rd True (strtoul 64 (drop 15 line)) s'
          else header_loop key rd have_length content_length s')"

definition read_frame ::
    "('s \<Rightarrow> nat \<Rightarrow> 's \<times> bytes option) \<Rightarrow> 's \<Rightarrow> ('s \<times> bytes option) option" where
  "read_frame rd s =
     (case header_loop server_key_match rd False 0 s of
        None \<Rightarrow> None
      | Some (s', have_length, content_length) \<Rightarrow>
          if \<not> have_length \<or> content_length = 0 \<or> MAX_FRAME_BYTES < content_length
          then Some (s', None)
          else Some (rd s' content_length))"

definition dxr_conn_read_frame ::
    "('s \<Rightarrow> nat \<Rightarrow> 's \<times> bytes option) \<Rightarrow> 's \<Rightarrow> ('s \<times> bytes option) option" where
  "dxr_conn_read_frame rd s =
     (case header_loop adapter_key_match rd False 0 s of
        None \<Rightarrow> None
      | Some (s', have_length, content_length) \<Rightarrow>
          if \<not> have_length \<or> content_length = 0 \<or> DXR_STDIO_MAX_MESSAGE_BYTES < content_length
          then Some (s', None)
          else Some (rd s' content_length))"

section \<open>Writing a frame\<close>

text \<open>Header and body are two writes; the second is skipped when the first fails.\<close>

definition write_parts ::
    "('s \<Rightarrow> bytes \<Rightarrow> (bool \<times> 's) option) \<Rightarrow> 's \<Rightarrow> bytes \<Rightarrow> bytes \<Rightarrow> (bool \<times> 's) option" where
  "write_parts wr s header body =
     (case wr s header of
        None \<Rightarrow> None
      | Some (False, s') \<Rightarrow> Some (False, s')
      | Some (True, s') \<Rightarrow> wr s' body)"

definition write_frame ::
    "('s \<Rightarrow> bytes \<Rightarrow> (bool \<times> 's) option) \<Rightarrow> 's \<Rightarrow> bytes option \<Rightarrow> (bool \<times> 's) option" where
  "write_frame wr s body =
     (case body of None \<Rightarrow> Some (False, s)
      | Some b \<Rightarrow> let len = c_strlen b in write_parts wr s (cl_header len) (take len b))"

definition dxr_conn_write_frame ::
    "('s \<Rightarrow> bytes \<Rightarrow> (bool \<times> 's) option) \<Rightarrow> 's \<Rightarrow> bytes \<Rightarrow> nat \<Rightarrow> (bool \<times> 's) option" where
  "dxr_conn_write_frame wr s body len = write_parts wr s (cl_header len) (take len body)"

text \<open>The bytes of one frame.\<close>

definition encode_frame :: "bytes \<Rightarrow> bytes" where
  "encode_frame body = ''Content-Length: '' @ show_nat (length body) @ CRLF2 @ body"

lemma cl_header_eq: "len < 10 ^ 40 \<Longrightarrow> cl_header len = ''Content-Length: '' @ show_nat len @ CRLF2"
  unfolding cl_header_def
  by (rule snprintf_s_fits) (use length_show_nat [of len 40] in \<open>simp add: CRLF2_def\<close>)

section \<open>The flat-stream specification\<close>

text \<open>One line of at most \<open>k\<close> bytes off the front of a byte stream, and what is left.\<close>

fun split_line :: "nat \<Rightarrow> bytes \<Rightarrow> bytes option \<times> bytes" where
  "split_line 0 b = (None, b)"
| "split_line (Suc k) [] = (None, [])"
| "split_line (Suc k) (c # b) =
     (if c = LF then (Some [LF], b)
      else let (r, rest) = split_line k b in (map_option (Cons c) r, rest))"

lemma split_line_Some:
  "split_line k b = (Some line, rest) \<Longrightarrow> b = line @ rest \<and> line \<noteq> [] \<and> length line \<le> k"
proof (induction k b arbitrary: line rule: split_line.induct)
  case (3 k c b)
  show ?case
  proof (cases "c = LF")
    case True
    with "3.prems" show ?thesis by auto
  next
    case False
    obtain r t where sl: "split_line k b = (r, t)" by fastforce
    with "3.prems" False obtain l where "r = Some l" "line = c # l" "t = rest" by auto
    with "3.IH" [OF False, of l] sl show ?thesis by simp
  qed
qed auto

lemma split_line_shorter: "split_line k b = (Some line, rest) \<Longrightarrow> length rest < length b"
  by (auto dest!: split_line_Some)

lemma split_line_found:
  "LF \<notin> set l \<Longrightarrow> length l < k \<Longrightarrow> split_line k (l @ LF # rest) = (Some (l @ [LF]), rest)"
proof (induction l arbitrary: k)
  case Nil
  then show ?case by (cases k) auto
next
  case (Cons c l)
  then show ?case by (cases k) auto
qed

function parse_headers :: "(bytes \<Rightarrow> bool) \<Rightarrow> bool \<Rightarrow> nat \<Rightarrow> bytes \<Rightarrow> (bytes \<times> bool \<times> nat) option" where
  "parse_headers key have_length content_length b =
     (case split_line 255 b of
        (None, rest) \<Rightarrow> if length b < 255 then None else Some (rest, have_length, content_length)
      | (Some line, rest) \<Rightarrow>
          if hd line = CR \<or> hd line = LF then Some (rest, have_length, content_length)
          else if key line then parse_headers key True (strtoul 64 (drop 15 line)) rest
          else parse_headers key have_length content_length rest)"
  by pat_completeness auto
termination
proof (relation "measure (\<lambda>(_, _, _, b). length b)", goal_cases)
  case 1
  then show ?case by simp
next
  case (2 key h l b x y line)
  then show ?case using split_line_shorter [of 255 b line y] by simp
next
  case (3 key h l b x y line)
  then show ?case using split_line_shorter [of 255 b line y] by simp
qed

declare parse_headers.simps [simp del]

definition decode_frame :: "(bytes \<Rightarrow> bool) \<Rightarrow> nat \<Rightarrow> bytes \<Rightarrow> (bytes \<times> bytes) option" where
  "decode_frame key limit b =
     (case parse_headers key False 0 b of
        None \<Rightarrow> None
      | Some (rest, have_length, n) \<Rightarrow>
          if \<not> have_length \<or> n = 0 \<or> limit < n \<or> length rest < n then None
          else Some (take n rest, drop n rest))"

context conn_source
begin

lemma read_line_loop_spec:
  assumes "valid s"
  shows "\<exists>s'. read_line_loop rd k buf s = (s', map_option ((@) buf) (fst (split_line k (pending s)))) \<and>
     valid s' \<and> (fst (split_line k (pending s)) \<noteq> None \<or> k \<le> length (pending s) \<longrightarrow>
       pending s' = snd (split_line k (pending s)))"
  using assms
proof (induction k arbitrary: buf s)
  case 0
  then show ?case by simp
next
  case (Suc k)
  from \<open>valid s\<close> show ?case
  proof (cases rule: rd_cases [of s 1])
    case (short s')
    then have "pending s = []" by simp
    with short show ?thesis by simp
  next
    case (enough s')
    then obtain c b where cb: "pending s = c # b" by (cases "pending s") auto
    with enough have rd: "rd s 1 = (s', Some [c])" and p: "pending s' = b" by auto
    obtain r rest where sl: "split_line k b = (r, rest)" by fastforce
    have r: "map_option ((@) (buf @ [c])) r = map_option ((@) buf) (map_option ((#) c) r)"
      by (cases r) auto
    from Suc.IH [OF enough(4), of "buf @ [c]"]
    have "\<exists>s2. read_line_loop rd k (buf @ [c]) s' = (s2, map_option ((@) (buf @ [c])) r) \<and>
      valid s2 \<and> (r \<noteq> None \<or> k \<le> length b \<longrightarrow> pending s2 = rest)"
      by (simp only: p sl fst_conv snd_conv)
    then obtain s2 where "read_line_loop rd k (buf @ [c]) s' = (s2, map_option ((@) (buf @ [c])) r)"
      "valid s2" "r \<noteq> None \<or> k \<le> length b \<longrightarrow> pending s2 = rest" by blast
    with rd cb sl p enough(4) show ?thesis by (auto simp: r)
  qed
qed

lemma read_line_spec:
  assumes "valid s"
  obtains (found) s' line where "split_line 255 (pending s) = (Some line, pending s')"
      "read_line rd s 256 = (s', Some line)" "valid s'"
  | (overlong) s' where "fst (split_line 255 (pending s)) = None" "255 \<le> length (pending s)"
      "read_line rd s 256 = (s', None)" "valid s'" "pending s' = snd (split_line 255 (pending s))"
  | (eof) s' where "fst (split_line 255 (pending s)) = None" "length (pending s) < 255"
      "read_line rd s 256 = (s', None)" "valid s'"
proof -
  obtain r rest where sl: "split_line 255 (pending s) = (r, rest)" by fastforce
  have id: "map_option ((@) []) r = r" by (cases r) auto
  from read_line_loop_spec [OF assms, of 255 "[]"] sl
  have "\<exists>s'. read_line rd s 256 = (s', r) \<and> valid s' \<and>
    (r \<noteq> None \<or> 255 \<le> length (pending s) \<longrightarrow> pending s' = rest)"
    by (simp add: read_line_def id)
  then obtain s' where s': "read_line rd s 256 = (s', r)" "valid s'"
    "r \<noteq> None \<or> 255 \<le> length (pending s) \<longrightarrow> pending s' = rest" by blast
  show thesis
  proof (cases r)
    case None
    with s' sl overlong eof show thesis by (cases "255 \<le> length (pending s)") auto
  next
    case (Some line)
    with s' sl found show thesis by auto
  qed
qed

lemma header_loop_spec:
  assumes "valid s"
  shows "\<exists>s' h l. header_loop key rd have_length content_length s = Some (s', h, l) \<and> valid s' \<and>
    (\<forall>rest h' l'. parse_headers key have_length content_length (pending s) = Some (rest, h', l') \<longrightarrow>
       h = h' \<and> l = l' \<and> pending s' = rest)"
  using assms
proof (induction "length (pending s)" arbitrary: s have_length content_length rule: less_induct)
  case less
  note unf = header_loop.simps [of key rd have_length content_length s]
    parse_headers.simps [of key have_length content_length "pending s"]
  from less.prems show ?case
  proof (cases rule: read_line_spec)
    case (found s' line)
    from split_line_shorter [OF found(1)] have lt: "length (pending s') < length (pending s)" .
    show ?thesis
    proof (cases "hd line = CR \<or> hd line = LF")
      case True
      with found show ?thesis by (simp add: unf)
    next
      case False
      with found less.hyps [OF lt found(3)] show ?thesis by (simp add: unf)
    qed
  next
    case (overlong s')
    then show ?thesis by (cases "split_line 255 (pending s)") (simp add: unf)
  next
    case (eof s')
    then show ?thesis by (cases "split_line 255 (pending s)") (simp add: unf)
  qed
qed

lemma header_loop_returns:
  "valid s \<Longrightarrow> \<exists>s' h l. header_loop key rd hv len s = Some (s', h, l) \<and> valid s'"
  using header_loop_spec by blast

lemma frame_tail:
  assumes "valid s" and "decode_frame key limit (pending s) = Some (body, rest)"
  obtains s1 h n s' where "header_loop key rd False 0 s = Some (s1, h, n)" "h" "n \<noteq> 0" "n \<le> limit"
    "rd s1 n = (s', Some body)" "valid s'" "pending s' = rest"
proof -
  from assms(2) obtain r h n where ph: "parse_headers key False 0 (pending s) = Some (r, h, n)"
    and ok: "h" "n \<noteq> 0" "n \<le> limit" "n \<le> length r" "body = take n r" "rest = drop n r"
    by (auto simp: decode_frame_def split: option.splits if_splits)
  from header_loop_spec [OF assms(1), of key False 0] ph
  obtain s1 where hl: "header_loop key rd False 0 s = Some (s1, h, n)" "valid s1" "pending s1 = r"
    by auto
  from hl(2) show thesis
  proof (cases rule: rd_cases [of s1 n])
    case (enough s')
    with hl ok that show thesis by blast
  next
    case (short s')
    with hl ok show thesis by simp
  qed
qed

lemma read_frame_decodes:
  assumes "valid s" and "decode_frame server_key_match MAX_FRAME_BYTES (pending s) = Some (body, rest)"
  shows "\<exists>s'. read_frame rd s = Some (s', Some body) \<and> valid s' \<and> pending s' = rest"
  by (rule frame_tail [OF assms]) (auto simp: read_frame_def)

lemma dxr_conn_read_frame_decodes:
  assumes "valid s"
    and "decode_frame adapter_key_match DXR_STDIO_MAX_MESSAGE_BYTES (pending s) = Some (body, rest)"
  shows "\<exists>s'. dxr_conn_read_frame rd s = Some (s', Some body) \<and> valid s' \<and> pending s' = rest"
  by (rule frame_tail [OF assms]) (auto simp: dxr_conn_read_frame_def)

lemma read_frame_returns:
  assumes "valid s"
  shows "\<exists>s' r. read_frame rd s = Some (s', r) \<and> valid s'"
proof -
  from header_loop_returns [OF assms] obtain s1 h n where
    hl: "header_loop server_key_match rd False 0 s = Some (s1, h, n)" "valid s1" by blast
  obtain s' r where "rd s1 n = (s', r)" by fastforce
  with hl rd_valid [of s1 n] show ?thesis by (simp add: read_frame_def)
qed

lemma dxr_conn_read_frame_returns:
  assumes "valid s"
  shows "\<exists>s' r. dxr_conn_read_frame rd s = Some (s', r) \<and> valid s'"
proof -
  from header_loop_returns [OF assms] obtain s1 h n where
    hl: "header_loop adapter_key_match rd False 0 s = Some (s1, h, n)" "valid s1" by blast
  obtain s' r where "rd s1 n = (s', r)" by fastforce
  with hl rd_valid [of s1 n] show ?thesis by (simp add: dxr_conn_read_frame_def)
qed

end

section \<open>Encoded frames decode\<close>

lemma key_matches_header:
  "server_key_match (''Content-Length:'' @ r)"
  "r \<noteq> [] \<Longrightarrow> hd r \<noteq> NUL \<Longrightarrow> adapter_key_match (''Content-Length:'' @ r)"
proof -
  have c: "cstr (''Content-Length:'' @ r) = ''Content-Length:'' @ cstr r"
    by (rule cstr_append) simp
  have k: "map tolower_ascii ''Content-Length:'' = CL_KEY"
    by code_simp
  have t: "take 15 (''Content-Length:'' @ x) = ''Content-Length:''" for x :: bytes by simp
  show "server_key_match (''Content-Length:'' @ r)"
    by (simp only: server_key_match_def has_prefix_ci_def c t k length_CL_KEY)
  show "adapter_key_match (''Content-Length:'' @ r)" if "r \<noteq> []" "hd r \<noteq> NUL"
  proof -
    from that obtain x y where r: "r = x # y" "x \<noteq> NUL" by (cases r) auto
    then have "0 < length (cstr r)" by (simp add: cstr_def)
    then have "CL_KEY_LEN < c_strlen (''Content-Length:'' @ r)"
      by (simp only: c_strlen_def c length_append CL_KEY_LEN_eq) simp
    then show ?thesis
      unfolding adapter_key_match_def CL_KEY_LEN_eq t using k
      by (simp add: lower_eq [abs_def])
  qed
qed

text \<open>Both key tests agree on every line without a NUL byte that is longer than the key.\<close>

lemma key_tests_agree_aux:
  assumes "NUL \<notin> set line"
  shows "adapter_key_match line \<longleftrightarrow> server_key_match line \<and> 15 < length line"
  using assms
  by (auto simp: adapter_key_match_def server_key_match_def has_prefix_ci_def c_strlen_def cstr_id lower_eq [abs_def])

lemma parse_headers_encode:
  assumes key: "\<And>r. r \<noteq> [] \<Longrightarrow> hd r \<noteq> NUL \<Longrightarrow> key (''Content-Length:'' @ r)"
    and bound: "length body < 2 ^ 64"
  shows "parse_headers key False 0 (encode_frame body @ rest) = Some (body @ rest, True, length body)"
proof -
  let ?n = "length body"
  let ?line = "''Content-Length: '' @ show_nat ?n @ [CR, LF]"
  note bound
  also have "(2 :: nat) ^ 64 < 10 ^ 40" by simp
  finally have len: "length (show_nat ?n) \<le> 40" by (rule length_show_nat) simp
  have nolf: "LF \<notin> set (''Content-Length: '' @ show_nat ?n @ [CR])"
    by (simp add: show_nat_no)
  have "split_line 255 ((''Content-Length: '' @ show_nat ?n @ [CR]) @ LF # (CR # LF # body @ rest)) =
     (Some ((''Content-Length: '' @ show_nat ?n @ [CR]) @ [LF]), CR # LF # body @ rest)"
    using len by (intro split_line_found nolf) simp
  then have sl: "split_line 255 (encode_frame body @ rest) = (Some ?line, CR # LF # body @ rest)"
    by (simp add: encode_frame_def CRLF2_def)
  have k: "key ?line" using key [of "SPC # show_nat ?n @ [CR, LF]"] by simp
  have val: "strtoul 64 (drop 15 ?line) = ?n"
    using bound by (simp add: strtoul_skip_space strtoul_show_nat)
  have blank: "split_line 255 (CR # LF # body @ rest) = (Some [CR, LF], body @ rest)"
    using split_line_found [of "[CR]" 255 "body @ rest"] by simp
  have "parse_headers key True ?n (CR # LF # body @ rest) = Some (body @ rest, True, ?n)"
    by (subst parse_headers.simps) (simp add: blank)
  then show ?thesis
    by (subst parse_headers.simps) (use sl k val in simp)
qed

lemma decode_encode:
  assumes key: "\<And>r. r \<noteq> [] \<Longrightarrow> hd r \<noteq> NUL \<Longrightarrow> key (''Content-Length:'' @ r)"
    and n: "0 < length body" "length body \<le> limit" "limit < 2 ^ 64"
  shows "decode_frame key limit (encode_frame body @ rest) = Some (body, rest)"
proof -
  have "length body < 2 ^ 64" using n by linarith
  then have "parse_headers key False 0 (encode_frame body @ rest) = Some (body @ rest, True, length body)"
    by (intro parse_headers_encode key)
  with n show ?thesis by (simp add: decode_frame_def)
qed

lemma frame_limits: "MAX_FRAME_BYTES < 2 ^ 64" "DXR_STDIO_MAX_MESSAGE_BYTES < 2 ^ 64"
  by (simp_all add: MAX_FRAME_BYTES_def DXR_STDIO_MAX_MESSAGE_BYTES_def)

lemma decode_encode_server:
  "0 < length body \<Longrightarrow> length body \<le> MAX_FRAME_BYTES \<Longrightarrow>
     decode_frame server_key_match MAX_FRAME_BYTES (encode_frame body @ rest) = Some (body, rest)"
  by (rule decode_encode) (simp_all only: key_matches_header frame_limits)

lemma decode_encode_adapter:
  "0 < length body \<Longrightarrow> length body \<le> DXR_STDIO_MAX_MESSAGE_BYTES \<Longrightarrow>
     decode_frame adapter_key_match DXR_STDIO_MAX_MESSAGE_BYTES (encode_frame body @ rest) = Some (body, rest)"
  by (rule decode_encode) (simp_all only: key_matches_header frame_limits not_False_eq_True)

section \<open>What a frame write leaves on the wire\<close>

context conn_sink
begin

lemma write_parts_weak:
  assumes "valid s" and "write_parts wr s h b = Some (ok, s')"
  shows "valid s' \<and> (ok \<longrightarrow> out s' = out s @ h @ b) \<and> (\<exists>k. out s' = out s @ take k (h @ b))"
proof -
  from assms(2) obtain ok1 s1 where w1: "wr s h = Some (ok1, s1)"
    by (auto simp: write_parts_def split: option.splits)
  have v1: "valid s1" by (rule wr_valid [OF assms(1) w1])
  show ?thesis
  proof (cases ok1)
    case False
    with w1 have w1': "wr s h = Some (False, s1)" by simp
    with assms(2) have "ok = False" "s' = s1" by (auto simp: write_parts_def)
    moreover from wr_false [OF assms(1) w1'] obtain k where "out s1 = out s @ take k h" by blast
    then have "out s1 = out s @ take (min k (length h)) (h @ b)" by (simp add: min_def)
    ultimately show ?thesis using v1 by blast
  next
    case True
    with w1 have w1': "wr s h = Some (True, s1)" by simp
    with assms(2) have w2: "wr s1 b = Some (ok, s')" by (auto simp: write_parts_def)
    from wr_true [OF assms(1) w1'] have o1: "out s1 = out s @ h" .
    show ?thesis
    proof (cases ok)
      case True
      with w2 have "wr s1 b = Some (True, s')" by simp
      from wr_true [OF v1 this] o1 have "out s' = out s @ h @ b" by simp
      with wr_valid [OF v1 w2] show ?thesis by (auto intro: exI [of _ "length (h @ b)"])
    next
      case False
      with w2 have "wr s1 b = Some (False, s')" by simp
      from wr_false [OF v1 this] obtain k where "out s' = out s1 @ take k b" by blast
      with o1 False wr_valid [OF v1 w2] show ?thesis by (auto intro!: exI [of _ "length h + k"])
    qed
  qed
qed

end

context exact_sink
begin

lemma write_parts_cases:
  assumes "valid s" and "write_parts wr s h b = Some (ok, s')"
  shows "valid s' \<and> (ok \<longrightarrow> out s' = out s @ h @ b) \<and>
    (\<not> ok \<longrightarrow> (\<exists>k < length (h @ b). out s' = out s @ take k (h @ b)))"
proof -
  from assms(2) obtain ok1 s1 where w1: "wr s h = Some (ok1, s1)"
    by (auto simp: write_parts_def split: option.splits)
  have v1: "valid s1" by (rule wr_valid [OF assms(1) w1])
  show ?thesis
  proof (cases ok1)
    case False
    with w1 have w1': "wr s h = Some (False, s1)" by simp
    with assms(2) have "ok = False" "s' = s1" by (auto simp: write_parts_def)
    moreover from wr_proper [OF assms(1) w1']
    obtain k where "k < length h" "out s1 = out s @ take k h" by blast
    ultimately show ?thesis using v1 by (auto intro!: exI [of _ k])
  next
    case True
    with w1 have w1': "wr s h = Some (True, s1)" by simp
    with assms(2) have w2: "wr s1 b = Some (ok, s')" by (auto simp: write_parts_def)
    from wr_true [OF assms(1) w1'] have o1: "out s1 = out s @ h" .
    show ?thesis
    proof (cases ok)
      case True
      with w2 have "wr s1 b = Some (True, s')" by simp
      from wr_true [OF v1 this] o1 True wr_valid [OF v1 w2] show ?thesis by auto
    next
      case False
      with w2 have "wr s1 b = Some (False, s')" by simp
      from wr_proper [OF v1 this] obtain k where "k < length b" "out s' = out s1 @ take k b" by blast
      with o1 False wr_valid [OF v1 w2] show ?thesis
        by (auto intro!: exI [of _ "length h + k"])
    qed
  qed
qed

end

context bounded_sink
begin

lemma write_parts_false_dead:
  assumes "valid s" and "write_parts wr s h b = Some (False, s')"
  shows "dead s'"
proof -
  from assms(2) obtain ok1 s1 where w1: "wr s h = Some (ok1, s1)"
    by (auto simp: write_parts_def split: option.splits)
  show ?thesis
  proof (cases ok1)
    case True
    with assms(2) w1 have "wr s1 b = Some (False, s')" by (simp add: write_parts_def)
    with wr_valid [OF assms(1) w1] show ?thesis by (rule wr_false_dead)
  next
    case False
    with assms(2) w1 have "wr s h = Some (False, s')" by (simp add: write_parts_def)
    with assms(1) show ?thesis by (rule wr_false_dead)
  qed
qed

end

lemma encode_frame_parts:
  "length b < 10 ^ 40 \<Longrightarrow> encode_frame b = cl_header (length b) @ b"
  by (simp add: encode_frame_def cl_header_eq)


section \<open>Frames across the wire\<close>

lemma encode_frame_written:
  assumes "valid s" and "write_parts wr s (cl_header (length b)) b = Some (True, s')"
    and sink: "conn_sink wr out valid" and "length b \<le> DXR_STDIO_MAX_MESSAGE_BYTES"
  shows "out s' = out s @ encode_frame b"
proof -
  have "length b < 10 ^ 40" using assms(4) frame_limits(2) by simp
  then show ?thesis
    using conn_sink.write_parts_weak [OF sink assms(1,2)] by (simp add: encode_frame_parts)
qed

lemma write_frame_text:
  "NUL \<notin> set b \<Longrightarrow> write_frame wr s (Some b) = write_parts wr s (cl_header (length b)) b"
  by (simp add: write_frame_def c_strlen_def cstr_id)

text \<open>C27. Adapter to server: whatever message of 1 byte to 4 MiB the adapter writes as a frame, the
  server reads back unchanged, from however the kernel cut the bytes, and what follows it stays
  unread.\<close>

theorem frame_adapter_to_server:
  assumes "conn_valid s" and "dxr_conn_write_frame mcp_conn_write s body (length body) = Some (True, s')"
    and "0 < length body" and "length body \<le> MAX_FRAME_BYTES"
    and "conn_valid t" and "conn_sent s @ conn_pending t = conn_sent s' @ rest"
  shows "\<exists>t'. read_frame mcp_conn_read t = Some (t', Some body) \<and> conn_pending t' = rest"
proof -
  have "length body \<le> DXR_STDIO_MAX_MESSAGE_BYTES"
    using assms(4) by (simp add: MAX_FRAME_BYTES_def DXR_STDIO_MAX_MESSAGE_BYTES_def)
  from encode_frame_written [OF assms(1) _ posix_sink.conn_sink_axioms this] assms(2,6)
  have "conn_pending t = encode_frame body @ rest" by (simp add: dxr_conn_write_frame_def)
  with decode_encode_server [OF assms(3,4)] posix_src.read_frame_decodes [OF assms(5)]
  show ?thesis by fastforce
qed

definition demo_send :: "nat \<Rightarrow> tx_event" where
  "demo_send n = \<lparr>now_ts = (0, 0), poll_rc = PollReady, send_rc = SendOk n\<rparr>"

theorem frame_adapter_to_server_witness:
  "\<exists>t'. read_frame mcp_conn_read
      (Some (demo_conn [RxData ''Content-Le'', RxEintr, RxData (''ngth: 2'' @ CRLF2 @ ''{''), RxData ''}XY''] [])) =
     Some (t', Some ''{}'') \<and> conn_pending t' = ''XY''"
proof -
  let ?s = "Some (demo_conn [] [demo_send 9, demo_send 100, demo_send 2])"
  let ?s' = "Some (demo_conn [] [] \<lparr>sent := ''Content-Length: 2'' @ CRLF2 @ ''{}''\<rparr>)"
  let ?t = "Some (demo_conn [RxData ''Content-Le'', RxEintr, RxData (''ngth: 2'' @ CRLF2 @ ''{''), RxData ''}XY''] [])"
  have h: "cl_header 2 = ''Content-Length: 2'' @ CRLF2"
    by (simp add: cl_header_eq show_nat.simps)
  have w: "dxr_conn_write_frame mcp_conn_write ?s ''{}'' (length ''{}'') = Some (True, ?s')"
    by (simp add: dxr_conn_write_frame_def write_parts_def h [unfolded numeral_2_eq_2] mcp_conn_write_def demo_conn_def
        demo_send_def CRLF2_def)
  show ?thesis
    by (rule frame_adapter_to_server [OF _ w])
      (simp_all add: conn_valid_def demo_conn_def MAX_FRAME_BYTES_def conn_sent_def conn_pending_def CRLF2_def)
qed

text \<open>C32. Server to adapter: every reply text the server writes (no NUL byte, at most 16 MiB) is read
  back unchanged by the adapter.\<close>

theorem frame_server_to_adapter:
  assumes "conn_valid s" and "write_frame mcp_conn_write s (Some body) = Some (True, s')"
    and "body \<noteq> []" and "NUL \<notin> set body" and "length body \<le> DXR_STDIO_MAX_MESSAGE_BYTES"
    and "conn_valid t" and "conn_sent s @ conn_pending t = conn_sent s' @ rest"
  shows "\<exists>t'. dxr_conn_read_frame mcp_conn_read t = Some (t', Some body) \<and> conn_pending t' = rest"
proof -
  from encode_frame_written [OF assms(1) _ posix_sink.conn_sink_axioms assms(5)] assms(2,4,7)
  have "conn_pending t = encode_frame body @ rest" by (simp add: write_frame_text)
  with decode_encode_adapter [OF _ assms(5)] assms(3) posix_src.dxr_conn_read_frame_decodes [OF assms(6)]
  show ?thesis by fastforce
qed

theorem frame_server_to_adapter_witness:
  "\<exists>t'. dxr_conn_read_frame mcp_conn_read
      (Some (demo_conn [RxData (''Content-Length: 2'' @ [CR]), RxData [LF, CR], RxData (LF # ''[]'')] [])) =
     Some (t', Some ''[]'') \<and> conn_pending t' = []"
proof -
  let ?s = "Some (demo_conn [] [demo_send 100, demo_send 1, demo_send 1])"
  let ?s' = "Some (demo_conn [] [] \<lparr>sent := ''Content-Length: 2'' @ CRLF2 @ ''[]''\<rparr>)"
  have h: "cl_header 2 = ''Content-Length: 2'' @ CRLF2"
    by (simp add: cl_header_eq show_nat.simps)
  have w: "write_frame mcp_conn_write ?s (Some ''[]'') = Some (True, ?s')"
    by (simp add: write_frame_text write_parts_def h [unfolded numeral_2_eq_2] mcp_conn_write_def demo_conn_def
        demo_send_def CRLF2_def)
  show ?thesis
    by (rule frame_server_to_adapter [OF _ w])
      (simp_all add: conn_valid_def demo_conn_def DXR_STDIO_MAX_MESSAGE_BYTES_def conn_sent_def conn_pending_def CRLF2_def)
qed

text \<open>The two ends do not accept the same sizes: a message between 4 and 16 MiB, which the
  adapter takes from its agent and forwards, is refused by the server, whose read fails.\<close>

theorem server_refuses_large_frames:
  assumes "conn_valid t" and "MAX_FRAME_BYTES < length body" and "length body < 2 ^ 64"
    and "conn_pending t = encode_frame body @ rest"
  shows "\<exists>t'. read_frame mcp_conn_read t = Some (t', None) \<and> conn_pending t' = body @ rest"
proof -
  have ph: "parse_headers server_key_match False 0 (encode_frame body @ rest) = Some (body @ rest, True, length body)"
    using assms(3) by (intro parse_headers_encode key_matches_header)
  with posix_src.header_loop_spec [OF assms(1), of server_key_match False 0] assms(4)
  obtain t' where "header_loop server_key_match mcp_conn_read False 0 t = Some (t', True, length body)"
    "conn_pending t' = body @ rest" by auto
  with assms(2) show ?thesis by (simp add: read_frame_def)
qed

theorem server_refuses_large_frames_witness:
  "\<exists>body t t'. length body = 5000000 \<and>
     dxr_conn_read_frame mcp_conn_read t \<noteq> read_frame mcp_conn_read t \<and>
     read_frame mcp_conn_read t = Some (t', None) \<and> conn_pending t' = body"
proof -
  define body where "body = replicate 5000000 (CHR ''x'')"
  define t where "t = Some (demo_conn [RxData (encode_frame body)] [])"
  have len: "length body = 5000000" unfolding body_def by (rule length_replicate)
  have t: "conn_valid t" "conn_pending t = encode_frame body @ []"
    by (simp_all add: t_def conn_valid_def demo_conn_def conn_pending_def encode_frame_def)
  from server_refuses_large_frames [OF t(1) _ _ t(2)] len obtain t' where
    t': "read_frame mcp_conn_read t = Some (t', None)" "conn_pending t' = body"
    by (auto simp: MAX_FRAME_BYTES_def)
  have "0 < length body" "length body \<le> DXR_STDIO_MAX_MESSAGE_BYTES"
    by (simp_all add: len DXR_STDIO_MAX_MESSAGE_BYTES_def)
  from posix_src.dxr_conn_read_frame_decodes [OF t(1)] decode_encode_adapter [OF this, of "[]"] t(2)
  have "dxr_conn_read_frame mcp_conn_read t \<noteq> read_frame mcp_conn_read t" using t' by fastforce
  with len t' show ?thesis by blast
qed

text \<open>Both frame readers always come back, on any connection: with a frame, or with failure at
  the end of the stream.\<close>

theorem frame_reads_return:
  assumes "conn_valid t"
  shows "(\<exists>t' r. read_frame mcp_conn_read t = Some (t', r) \<and> conn_valid t') \<and>
    (\<exists>t' r. dxr_conn_read_frame mcp_conn_read t = Some (t', r) \<and> conn_valid t')"
  using posix_src.read_frame_returns [OF assms] posix_src.dxr_conn_read_frame_returns [OF assms] by blast

theorem frame_reads_return_witness:
  "\<exists>t' r. read_frame mcp_conn_read (Some (demo_conn [RxData ''X-Header: 1'', RxErr] [])) = Some (t', r)"
proof -
  have "conn_valid (Some (demo_conn [RxData ''X-Header: 1'', RxErr] []))"
    by (simp add: conn_valid_def demo_conn_def)
  from frame_reads_return [OF this] show ?thesis by blast
qed

section \<open>Peers that take bytes\<close>

text \<open>A connection whose kernel never refuses bytes.\<close>

definition sending :: "mcp_conn option \<Rightarrow> bool" where
  "sending c \<longleftrightarrow> (case c of None \<Rightarrow> False
     | Some d \<Rightarrow> \<not> shut d \<and> (\<forall>e\<in>set (tx d). send_rc e = SendEintr \<or> (\<exists>n>0. send_rc e = SendOk n)))"

lemma write_loop_sending:
  assumes "\<forall>e\<in>set es. send_rc e = SendEintr \<or> (\<exists>n>0. send_rc e = SendOk n)"
    and "conn_write_loop False buf out es = Some (ok, out', es')"
  shows "ok \<and> set es' \<subseteq> set es"
  using assms
proof (induction es arbitrary: buf out)
  case Nil
  then show ?case by (auto split: if_splits)
next
  case (Cons e es)
  show ?case
  proof (cases "buf = []")
    case True
    with Cons.prems show ?thesis by auto
  next
    case False
    from Cons.prems(1) consider "send_rc e = SendEintr" | n where "0 < n" "send_rc e = SendOk n" by auto
    then show ?thesis
    proof cases
      case 1
      with Cons.IH [of buf out] Cons.prems False show ?thesis by auto
    next
      case (2 n)
      with Cons.IH [of "drop n buf" "out @ take n buf"] Cons.prems False show ?thesis by auto
    qed
  qed
qed

lemma write_sending:
  assumes "sending c" and "mcp_conn_write c b = Some (ok, c')"
  shows "ok \<and> sending c'"
proof -
  from assms(1) obtain d where d: "c = Some d" "\<not> shut d"
    "\<forall>e\<in>set (tx d). send_rc e = SendEintr \<or> (\<exists>n>0. send_rc e = SendOk n)"
    by (auto simp: sending_def split: option.splits)
  with assms(2) obtain out es where l: "conn_write_loop False b (sent d) (tx d) = Some (ok, out, es)"
    "c' = Some (d\<lparr>sent := out, tx := es\<rparr>)" by (auto simp: mcp_conn_write_def)
  from write_loop_sending [OF d(3) l(1)] d l(2) show ?thesis by (auto simp: sending_def)
qed

text \<open>A connection whose kernel takes \<open>n\<close> bytes at least, however few it takes at a time.\<close>

abbreviation takes :: "tx_event list \<Rightarrow> nat" where
  "takes es \<equiv> length (filter (\<lambda>e. send_rc e \<noteq> SendEintr) es)"

definition can_take :: "nat \<Rightarrow> mcp_conn option \<Rightarrow> bool" where
  "can_take n c \<longleftrightarrow> sending c \<and> (case c of None \<Rightarrow> False | Some d \<Rightarrow> n \<le> takes (tx d))"

lemma can_take_sending: "can_take n c \<Longrightarrow> sending c"
  by (simp add: can_take_def)

lemma can_take_mono: "can_take n c \<Longrightarrow> m \<le> n \<Longrightarrow> can_take m c"
  by (auto simp: can_take_def split: option.splits)

lemma write_loop_takes:
  assumes "\<forall>e\<in>set es. send_rc e = SendEintr \<or> (\<exists>n>0. send_rc e = SendOk n)"
    and "n + length buf \<le> takes es"
  shows "\<exists>out' es'. conn_write_loop False buf out es = Some (True, out', es') \<and> n \<le> takes es'"
  using assms
proof (induction es arbitrary: buf out)
  case (Cons e es)
  show ?case
  proof (cases "buf = []")
    case False
    from Cons.prems(1) consider "send_rc e = SendEintr" | k where "0 < k" "send_rc e = SendOk k" by auto
    then show ?thesis
    proof cases
      case 1
      with Cons.IH [of buf out] Cons.prems False show ?thesis by auto
    next
      case (2 k)
      have "n + length (drop k buf) \<le> takes es" using Cons.prems(2) 2 False by (cases buf) auto
      with Cons.IH [of "drop k buf" "out @ take k buf"] Cons.prems(1) 2 False show ?thesis by auto
    qed
  qed (use Cons.prems in auto)
qed simp

lemma write_takes:
  assumes "can_take (n + length b) c"
  shows "\<exists>c'. mcp_conn_write c b = Some (True, c') \<and> can_take n c'"
proof -
  from assms obtain d where d: "c = Some d" "\<not> shut d" "n + length b \<le> takes (tx d)"
    "\<forall>e\<in>set (tx d). send_rc e = SendEintr \<or> (\<exists>n>0. send_rc e = SendOk n)"
    by (auto simp: can_take_def sending_def split: option.splits)
  from write_loop_takes [OF d(4,3)] obtain out es where
    l: "conn_write_loop False b (sent d) (tx d) = Some (True, out, es)" "n \<le> takes es" by blast
  with d have w: "mcp_conn_write c b = Some (True, Some (d\<lparr>sent := out, tx := es\<rparr>))"
    by (simp add: mcp_conn_write_def)
  from write_sending [OF can_take_sending [OF assms] w] l w show ?thesis by (auto simp: can_take_def)
qed

lemma parts_take:
  assumes "can_take (n + length (h @ b)) c"
  shows "\<exists>c'. write_parts mcp_conn_write c h b = Some (True, c') \<and> can_take n c'"
proof -
  from assms have "can_take (n + length b + length h) c" by (simp add: ac_simps)
  from write_takes [OF this] obtain c1 where
    c1: "mcp_conn_write c h = Some (True, c1)" "can_take (n + length b) c1" by blast
  from write_takes [OF c1(2)] c1(1) show ?thesis by (auto simp: write_parts_def)
qed

lemma parts_sending:
  assumes "sending c" and "write_parts mcp_conn_write c h b = Some (ok, c')"
  shows "ok \<and> sending c'"
proof -
  from assms(2) obtain ok1 c1 where w1: "mcp_conn_write c h = Some (ok1, c1)"
    by (auto simp: write_parts_def split: option.splits)
  from write_sending [OF assms(1) w1] have o1: "ok1" "sending c1" by auto
  with w1 assms(2) have "mcp_conn_write c1 b = Some (ok, c')" by (simp add: write_parts_def)
  from write_sending [OF o1(2) this] show ?thesis .
qed

lemma parts_pending:
  assumes "write_parts mcp_conn_write c h b = Some (ok, c')"
  shows "conn_pending c' = conn_pending c"
proof -
  have w: "conn_pending s' = conn_pending s" if "mcp_conn_write s b = Some (ok, s')" for s b ok s'
    using that by (auto simp: mcp_conn_write_def conn_pending_def split: option.splits)
  from assms show ?thesis by (auto simp: write_parts_def split: option.splits if_splits bool.splits dest!: w)
qed

end
