(* ===== verification/Stdio_Framing.thy ===== *)
theory Stdio_Framing
  imports Frames
begin

text \<open>
  The adapter's agent-side framing, \<^verbatim>\<open>adapter/stdio_framing.c\<close>: the incremental
  reader that detects the framing and cuts messages out of arbitrarily split reads, the
  encoder, the framing latch and the stdin source.  The reader takes its byte source
  as an argument, as the C reader takes a function pointer.  Its loops are
  \<open>partial_function\<close>s; that they return is part of what is proved, inside the locale
  \<open>byte_source\<close>, where the reader is shown to compute a parser on the flat stream.
\<close>

section \<open>State\<close>

datatype dxr_stdio_framing = FRAMING_UNKNOWN | FRAMING_NDJSON | FRAMING_CONTENT_LENGTH

text \<open>\<open>r_buf\<close> is the valid part of the buffer, so the C field \<open>len\<close> is its length.\<close>

record 's dxr_stdio_reader =
  r_ctx :: 's
  r_buf :: bytes
  r_pos :: nat
  r_cap :: nat
  r_eof :: bool
  r_framing :: dxr_stdio_framing

definition dxr_stdio_reader_init :: "'s \<Rightarrow> 's dxr_stdio_reader" where
  "dxr_stdio_reader_init ctx =
     \<lparr>r_ctx = ctx, r_buf = [], r_pos = 0, r_cap = 0, r_eof = False, r_framing = FRAMING_UNKNOWN\<rparr>"

definition dxr_stdio_reader_fini :: "'s dxr_stdio_reader \<Rightarrow> 's dxr_stdio_reader" where
  "dxr_stdio_reader_fini r = r\<lparr>r_buf := [], r_pos := 0, r_cap := 0\<rparr>"

abbreviation unread :: "'s dxr_stdio_reader \<Rightarrow> bytes" where
  "unread r \<equiv> drop (r_pos r) (r_buf r)"

section \<open>Pulling bytes\<close>

definition fill ::
    "('s \<Rightarrow> nat \<Rightarrow> 's \<times> bytes) \<Rightarrow> 's dxr_stdio_reader \<Rightarrow> 's dxr_stdio_reader \<times> bool" where
  "fill rd r =
     (if r_eof r then (r, False)
      else
        let r1 = r\<lparr>r_buf := unread r, r_pos := 0\<rparr>;
            full = (length (r_buf r1) = r_cap r1);
            ncap = (if r_cap r1 \<noteq> 0 then r_cap r1 * 2 else 4096)
        in if full \<and> DXR_STDIO_MAX_MESSAGE_BYTES + 4096 < ncap then (r1, False)
           else
             let r2 = (if full then r1\<lparr>r_cap := ncap\<rparr> else r1);
                 (ctx', bs) = rd (r_ctx r2) (r_cap r2 - length (r_buf r2))
             in if bs = [] then (r2\<lparr>r_ctx := ctx', r_eof := True\<rparr>, False)
                else (r2\<lparr>r_ctx := ctx', r_buf := r_buf r2 @ bs\<rparr>, True))"

definition is_ws :: "char \<Rightarrow> bool" where
  "is_ws c = (c = SPC \<or> c = TAB \<or> c = CR \<or> c = LF)"

text \<open>White space off both ends of a line.\<close>

definition trim_ws :: "bytes \<Rightarrow> bytes" where
  "trim_ws b = rev (dropWhile is_ws (rev (dropWhile is_ws b)))"

definition BOM :: bytes where
  "BOM = [CHR 0xEF, CHR 0xBB, CHR 0xBF]"

section \<open>Detecting the framing\<close>

partial_function (option) detect ::
    "('s \<Rightarrow> nat \<Rightarrow> 's \<times> bytes) \<Rightarrow> 's dxr_stdio_reader \<Rightarrow> ('s dxr_stdio_reader \<times> bool) option" where
  "detect rd r0 =
     (let r = r0\<lparr>r_pos := r_pos r0 + length (takeWhile is_ws (unread r0))\<rparr>;
          u = unread r;
          avail = length u;
          n = min avail CL_KEY_LEN
      in if 3 \<le> avail \<and> take 3 u = BOM then detect rd (r\<lparr>r_pos := r_pos r + 3\<rparr>)
         else if 0 < avail \<and> \<not> (avail < 3 \<and> u = take avail BOM) \<and> map lower (take n u) \<noteq> take n CL_KEY
         then Some (r\<lparr>r_framing := FRAMING_NDJSON\<rparr>, True)
         else if 0 < avail \<and> \<not> (avail < 3 \<and> u = take avail BOM) \<and> n = CL_KEY_LEN
         then Some (r\<lparr>r_framing := FRAMING_CONTENT_LENGTH\<rparr>, True)
         else
           (case fill rd r of (r', ok) \<Rightarrow>
              if ok then detect rd r'
              else if r_pos r' < length (r_buf r')
              then Some (r'\<lparr>r_framing := FRAMING_NDJSON\<rparr>, True)
              else Some (r', False)))"

section \<open>Newline-delimited messages\<close>

text \<open>\<open>scan\<close> is where the search for the terminator goes on.\<close>

partial_function (option) next_ndjson ::
    "('s \<Rightarrow> nat \<Rightarrow> 's \<times> bytes) \<Rightarrow> nat \<Rightarrow> 's dxr_stdio_reader \<Rightarrow> ('s dxr_stdio_reader \<times> bytes option) option"
where
  "next_ndjson rd scan r =
     (case find_index (\<lambda>c. c = LF) (drop scan (r_buf r)) of
        Some i \<Rightarrow>
          let line_end = scan + i;
              line = trim_ws (take (line_end - r_pos r) (unread r));
              r' = r\<lparr>r_pos := line_end + 1\<rparr>
          in if line = [] then next_ndjson rd (line_end + 1) r'
             else if DXR_STDIO_MAX_MESSAGE_BYTES < length line then Some (r', None)
             else Some (r', Some line)
      | None \<Rightarrow>
          let scanned = length (r_buf r) - r_pos r
          in (case fill rd r of (r', ok) \<Rightarrow>
                if ok then next_ndjson rd (r_pos r' + scanned) r'
                else
                  let line = trim_ws (unread r');
                      r2 = r'\<lparr>r_pos := length (r_buf r')\<rparr>
                  in if line = [] \<or> \<not> r_eof r' then Some (r2, None) else Some (r2, Some line)))"

section \<open>Content-Length messages\<close>

text \<open>Length of the next header line with its terminator, or 0.\<close>

partial_function (option) header_line ::
    "('s \<Rightarrow> nat \<Rightarrow> 's \<times> bytes) \<Rightarrow> 's dxr_stdio_reader \<Rightarrow> ('s dxr_stdio_reader \<times> nat) option" where
  "header_line rd r =
     (case find_index (\<lambda>c. c = LF) (unread r) of
        Some i \<Rightarrow> Some (r, i + 1)
      | None \<Rightarrow>
          if 1024 < length (unread r) then Some (r, 0)
          else (case fill rd r of (r', ok) \<Rightarrow> if ok then header_line rd r' else Some (r', 0)))"

text \<open>The key test on a line of the buffer: no NUL check here, the length is known.\<close>

definition reader_key_match :: "bytes \<Rightarrow> bool" where
  "reader_key_match line = (CL_KEY_LEN < length line \<and> map lower (take CL_KEY_LEN line) = CL_KEY)"

text \<open>The length is scanned in the buffer itself, so a header with a blank value is read on into
  the bytes that follow its line (here up to the end of the valid bytes).\<close>

partial_function (option) cl_header_loop ::
    "('s \<Rightarrow> nat \<Rightarrow> 's \<times> bytes) \<Rightarrow> bool \<Rightarrow> bool \<Rightarrow> nat \<Rightarrow> 's dxr_stdio_reader \<Rightarrow>
       ('s dxr_stdio_reader \<times> (bool \<times> nat) option) option"
where
  "cl_header_loop rd any_header have_length content_length r0 =
     (case header_line rd r0 of
        None \<Rightarrow> None
      | Some (r, n) \<Rightarrow>
          let line = take n (unread r);
              r' = r\<lparr>r_pos := r_pos r + n\<rparr>
          in if n = 0 then Some (r, None)
             else if n = 1 \<or> (n = 2 \<and> hd line = CR)
             then (if any_header then Some (r', Some (have_length, content_length))
                   else cl_header_loop rd any_header have_length content_length r')
             else if reader_key_match line
             then cl_header_loop rd True True (strtoul 64 (drop CL_KEY_LEN (unread r))) r'
             else cl_header_loop rd True have_length content_length r')"

partial_function (option) fill_until ::
    "('s \<Rightarrow> nat \<Rightarrow> 's \<times> bytes) \<Rightarrow> nat \<Rightarrow> 's dxr_stdio_reader \<Rightarrow> ('s dxr_stdio_reader \<times> bool) option" where
  "fill_until rd n r =
     (if n \<le> length (unread r) then Some (r, True)
      else (case fill rd r of (r', ok) \<Rightarrow> if ok then fill_until rd n r' else Some (r', False)))"

definition next_content_length ::
    "('s \<Rightarrow> nat \<Rightarrow> 's \<times> bytes) \<Rightarrow> 's dxr_stdio_reader \<Rightarrow> ('s dxr_stdio_reader \<times> bytes option) option" where
  "next_content_length rd r =
     (case cl_header_loop rd False False 0 r of
        None \<Rightarrow> None
      | Some (r1, None) \<Rightarrow> Some (r1, None)
      | Some (r1, Some (have_length, content_length)) \<Rightarrow>
          if \<not> have_length \<or> content_length = 0 \<or> DXR_STDIO_MAX_MESSAGE_BYTES < content_length
          then Some (r1, None)
          else (case fill_until rd content_length r1 of
                  None \<Rightarrow> None
                | Some (r2, False) \<Rightarrow> Some (r2, None)
                | Some (r2, True) \<Rightarrow>
                    Some (r2\<lparr>r_pos := r_pos r2 + content_length\<rparr>,
                          Some (take content_length (unread r2)))))"

definition dxr_stdio_reader_next ::
    "('s \<Rightarrow> nat \<Rightarrow> 's \<times> bytes) \<Rightarrow> 's dxr_stdio_reader \<Rightarrow> ('s dxr_stdio_reader \<times> bytes option) option" where
  "dxr_stdio_reader_next rd r =
     (case (if r_framing r = FRAMING_UNKNOWN then detect rd r else Some (r, True)) of
        None \<Rightarrow> None
      | Some (r1, False) \<Rightarrow> Some (r1, None)
      | Some (r1, True) \<Rightarrow>
          if r_framing r1 = FRAMING_CONTENT_LENGTH then next_content_length rd r1
          else next_ndjson rd (r_pos r1) r1)"

section \<open>Encoding, latch, stdin\<close>

definition dxr_stdio_encode :: "dxr_stdio_framing \<Rightarrow> bytes \<Rightarrow> bytes" where
  "dxr_stdio_encode framing body =
     (if framing = FRAMING_CONTENT_LENGTH then cl_header (length body) @ body
      else map (\<lambda>c. if c = LF \<or> c = CR then SPC else c) body @ [LF])"

text \<open>The latch is its \<open>framing\<close> field; a wait on it returns only once it is set, so the model
  of the wait is \<open>None\<close> (blocked) before that.\<close>

definition dxr_stdio_framing_latch_init :: dxr_stdio_framing where
  "dxr_stdio_framing_latch_init = FRAMING_UNKNOWN"

definition dxr_stdio_framing_latch_set :: "dxr_stdio_framing \<Rightarrow> dxr_stdio_framing \<Rightarrow> dxr_stdio_framing" where
  "dxr_stdio_framing_latch_set l framing = (if l = FRAMING_UNKNOWN then framing else l)"

definition dxr_stdio_framing_latch_wait :: "dxr_stdio_framing \<Rightarrow> dxr_stdio_framing option" where
  "dxr_stdio_framing_latch_wait l = (if l = FRAMING_UNKNOWN then None else Some l)"

text \<open>Standard input as the chunks successive \<open>read()\<close> calls find: an empty chunk, or no chunk
  left, is end of file or an error and stays so.\<close>

definition dxr_stdio_read_stdin :: "bytes list \<Rightarrow> nat \<Rightarrow> bytes list \<times> bytes" where
  "dxr_stdio_read_stdin chunks cap =
     (case chunks of [] \<Rightarrow> ([], [])
      | c # cs \<Rightarrow>
          if c = [] then (chunks, [])
          else if length c \<le> cap then (cs, c)
          else (drop cap c # cs, take cap c))"

end
