(* ===== verification/Agg_State.thy ===== *)
theory Agg_State
  imports Agg_Prefix Stdio_Framing "HOL-Library.Monad_Syntax"
begin

text \<open>
  The state of the workspace aggregator (\<^verbatim>\<open>adapter/workspace_aggregator.c\<close>) and the operations on
  it that its threads share: output to the agent, the in-flight table, tool exposure, backend
  teardown and refresh.  An operation that may block (on the framing latch, or on a backend that
  does not take bytes) gives an \<open>option\<close>, \<open>None\<close> for blocked.  \<open>stdout\<close> is the list of
  encoded messages handed to standard output.  An operation under the aggregator's lock is one
  definition on the state.
\<close>

section \<open>State\<close>

definition MAX_BACKENDS :: nat where
  "MAX_BACKENDS = 32"

definition MAX_INFLIGHT :: nat where
  "MAX_INFLIGHT = 128"

definition NS_SEP :: bytes where
  "NS_SEP = ''__''"

record backend =
  b_used :: bool
  b_alive :: bool
  b_is_shell :: bool
  b_pid :: int
  b_prefix :: bytes
  b_app_id :: bytes
  b_conn :: "mcp_conn option"
  b_tools :: "json option"

datatype inflight_kind = INFLIGHT_AGENT | INFLIGHT_TOOLS_REFRESH

record inflight =
  f_used :: bool
  f_local_id :: u64
  f_backend :: nat
  f_kind :: inflight_kind
  f_orig_id :: "json option"

record aggregator =
  expose_diagnostics :: bool
  agent_initialized :: bool
  backends :: "backend list"
  inflights :: "inflight list"
  next_local_id :: u64
  used_prefixes :: "bytes list"
  connecting :: "int list"
  shell_connecting :: bool
  framing :: dxr_stdio_framing
  stdout :: "bytes list"

text \<open>\<open>memset\<close> to zero.\<close>

definition backend_zero :: backend where
  "backend_zero = \<lparr>b_used = False, b_alive = False, b_is_shell = False, b_pid = 0, b_prefix = [],
     b_app_id = [], b_conn = None, b_tools = None\<rparr>"

definition inflight_zero :: inflight where
  "inflight_zero = \<lparr>f_used = False, f_local_id = 0, f_backend = 0, f_kind = INFLIGHT_AGENT, f_orig_id = None\<rparr>"

definition aggregator_zero :: "bool \<Rightarrow> aggregator" where
  "aggregator_zero expose =
     \<lparr>expose_diagnostics = expose, agent_initialized = False,
      backends = replicate MAX_BACKENDS backend_zero, inflights = replicate MAX_INFLIGHT inflight_zero,
      next_local_id = 0, used_prefixes = [], connecting = [], shell_connecting = False,
      framing = dxr_stdio_framing_latch_init, stdout = []\<rparr>"

section \<open>Frames\<close>

definition write_frame_stdout :: "bytes \<Rightarrow> aggregator \<Rightarrow> aggregator option" where
  "write_frame_stdout body s = do {
     f \<leftarrow> dxr_stdio_framing_latch_wait (framing s);
     Some (s\<lparr>stdout := stdout s @ [dxr_stdio_encode f (cstr body)]\<rparr>)
   }"

definition read_frame_conn :: "mcp_conn option \<Rightarrow> (mcp_conn option \<times> bytes option) option" where
  "read_frame_conn conn = dxr_conn_read_frame mcp_conn_read conn"

definition write_frame_conn :: "mcp_conn option \<Rightarrow> bytes \<Rightarrow> (bool \<times> mcp_conn option) option" where
  "write_frame_conn conn body = dxr_conn_write_frame mcp_conn_write conn body (c_strlen body)"

text \<open>A write on a backend's connection, with the write mutex of that backend.\<close>

definition backend_write :: "nat \<Rightarrow> bytes \<Rightarrow> aggregator \<Rightarrow> (bool \<times> aggregator) option" where
  "backend_write idx body s = do {
     (ok, c) \<leftarrow> write_frame_conn (b_conn (backends s ! idx)) body;
     Some (ok, s\<lparr>backends := (backends s)[idx := (backends s ! idx)\<lparr>b_conn := c\<rparr>]\<rparr>)
   }"

section \<open>JSON-RPC helpers\<close>

definition jsonrpc_error_str :: "(json \<Rightarrow> bytes) \<Rightarrow> json option \<Rightarrow> int \<Rightarrow> bytes \<Rightarrow> bytes" where
  "jsonrpc_error_str print rid code message =
     (let env = cJSON_AddStringToObject cJSON_CreateObject ''jsonrpc'' ''2.0'';
          env = (case rid of None \<Rightarrow> env | Some i \<Rightarrow> cJSON_AddItemToObject env ''id'' i);
          err = cJSON_AddNumberToObject cJSON_CreateObject ''code'' (dbl_of_int code);
          err = cJSON_AddStringToObject err ''message'' message
      in print (cJSON_AddItemToObject env ''error'' err))"

definition jsonrpc_result_str :: "(json \<Rightarrow> bytes) \<Rightarrow> json option \<Rightarrow> json option \<Rightarrow> bytes" where
  "jsonrpc_result_str print rid result =
     (let env = cJSON_AddStringToObject cJSON_CreateObject ''jsonrpc'' ''2.0'';
          env = (case rid of None \<Rightarrow> env | Some i \<Rightarrow> cJSON_AddItemToObject env ''id'' i)
      in print (cJSON_AddItemToObject env ''result''
           (case result of Some r \<Rightarrow> r | None \<Rightarrow> cJSON_CreateObject)))"

definition wrap_tool_result :: "(json \<Rightarrow> bytes) \<Rightarrow> json \<Rightarrow> json" where
  "wrap_tool_result print inner =
     (let item = cJSON_AddStringToObject cJSON_CreateObject ''type'' ''text'';
          item = cJSON_AddStringToObject item ''text'' (print inner);
          content = cJSON_AddItemToArray cJSON_CreateArray item;
          result = cJSON_AddItemToObject cJSON_CreateObject ''content'' content
      in cJSON_AddItemToObject result ''structured'' inner)"

definition LIST_CHANGED :: bytes where
  "LIST_CHANGED = ''{\"jsonrpc\":\"2.0\",\"method\":\"notifications/tools/list_changed\"}''"

definition emit_list_changed_upstream :: "aggregator \<Rightarrow> aggregator option" where
  "emit_list_changed_upstream s =
     (if agent_initialized s then write_frame_stdout LIST_CHANGED s else Some s)"

section \<open>The in-flight table\<close>

definition inflight_alloc ::
    "nat \<Rightarrow> inflight_kind \<Rightarrow> json option \<Rightarrow> aggregator \<Rightarrow> (nat \<times> aggregator) option" where
  "inflight_alloc idx kind orig_id s =
     (case find_index (\<lambda>f. \<not> f_used f) (inflights s) of
        None \<Rightarrow> None
      | Some i \<Rightarrow>
          let n = next_local_id s + 1;
              f = \<lparr>f_used = True, f_local_id = n, f_backend = idx, f_kind = kind, f_orig_id = orig_id\<rparr>
          in Some (i, s\<lparr>next_local_id := n, inflights := (inflights s)[i := f]\<rparr>))"

definition inflight_find :: "u64 \<Rightarrow> aggregator \<Rightarrow> nat option" where
  "inflight_find local_id s = find_index (\<lambda>f. f_used f \<and> f_local_id f = local_id) (inflights s)"

definition inflight_release :: "nat \<Rightarrow> aggregator \<Rightarrow> aggregator" where
  "inflight_release i s = s\<lparr>inflights := (inflights s)[i := inflight_zero]\<rparr>"

section \<open>Exposure\<close>

definition tool_group :: "json \<Rightarrow> bytes" where
  "tool_group t =
     (let meta = cJSON_GetObjectItemCaseSensitive (Some t) ''_meta'';
          group = cJSON_GetObjectItemCaseSensitive meta ''displayxr/group''
      in case valuestring group of
           Some g \<Rightarrow> g
         | None \<Rightarrow>
             if valuestring (cJSON_GetObjectItemCaseSensitive (Some t) ''name'') = Some ''capture_frame''
             then ''capture'' else ''diagnostic'')"

definition tool_exposed :: "bool \<Rightarrow> json \<Rightarrow> bool" where
  "tool_exposed expose t = (expose \<or> tool_group t \<noteq> ''diagnostic'')"

section \<open>Teardown and refresh of a backend\<close>

text \<open>The loop over the in-flight table, by the indices still to visit.\<close>

fun teardown_inflight ::
    "(json \<Rightarrow> bytes) \<Rightarrow> nat \<Rightarrow> nat list \<Rightarrow> aggregator \<Rightarrow> aggregator option" where
  "teardown_inflight print idx [] s = Some s"
| "teardown_inflight print idx (i # is) s =
     (let fl = inflights s ! i
      in if \<not> f_used fl \<or> f_backend fl \<noteq> idx then teardown_inflight print idx is s
         else do {
           s' \<leftarrow> (if f_kind fl = INFLIGHT_AGENT
                 then write_frame_stdout
                        (jsonrpc_error_str print (f_orig_id fl) (-32000)
                           ''backend exited with the call in flight'') s
                 else Some s);
           teardown_inflight print idx is (inflight_release i s')
         })"

definition backend_teardown_locked :: "(json \<Rightarrow> bytes) \<Rightarrow> nat \<Rightarrow> aggregator \<Rightarrow> aggregator option" where
  "backend_teardown_locked print idx s = do {
     s' \<leftarrow> teardown_inflight print idx [0..<MAX_INFLIGHT] s;
     Some (s'\<lparr>backends := (backends s')[idx := backend_zero]\<rparr>)
   }"

definition refresh_request :: "u64 \<Rightarrow> bytes" where
  "refresh_request local_id =
     snprintf_s 128 (''{\"jsonrpc\":\"2.0\",\"id\":'' @ show_nat (unat local_id) @ '',\"method\":\"tools/list\"}'')"

definition refresh_backend_tools :: "nat \<Rightarrow> aggregator \<Rightarrow> aggregator option" where
  "refresh_backend_tools idx s =
     (let b = backends s ! idx
      in if \<not> b_used b \<or> \<not> b_alive b then Some s
         else case inflight_alloc idx INFLIGHT_TOOLS_REFRESH None s of
                None \<Rightarrow> Some s
              | Some (i, s1) \<Rightarrow> do {
                  (ok, s2) \<leftarrow> backend_write idx (refresh_request (f_local_id (inflights s1 ! i))) s1;
                  Some (if ok then s2 else inflight_release i s2)
                })"

text \<open>\<open>cJSON_IsArray(tools) ? cJSON_Duplicate(tools, 1) : cJSON_CreateArray()\<close>.\<close>

definition tools_cache :: "json option \<Rightarrow> json option" where
  "tools_cache tool_list = (if cJSON_IsArray tool_list then tool_list else Some cJSON_CreateArray)"

definition apply_tools_result :: "nat \<Rightarrow> json option \<Rightarrow> aggregator \<Rightarrow> bool \<times> aggregator" where
  "apply_tools_result idx result s =
     (let tool_list = cJSON_GetObjectItemCaseSensitive result ''tools'';
          meta = cJSON_GetObjectItemCaseSensitive result ''_meta'';
          aid = valuestring (cJSON_GetObjectItemCaseSensitive meta ''displayxr/appId'');
          b = backends s ! idx
      in if \<not> b_used b then (False, s)
         else
           let b = b\<lparr>b_tools := tools_cache tool_list\<rparr>
           in case aid of
                Some a \<Rightarrow>
                  if \<not> b_is_shell b \<and> b_app_id b \<noteq> a
                  then
                    let b = b\<lparr>b_app_id := snprintf_s 33 a\<rparr>;
                        slug = slugify (b_app_id b) 40;
                        (p, used) = assign_prefix slug 40 (used_prefixes s)
                    in (True, s\<lparr>backends := (backends s)[idx := b\<lparr>b_prefix := p\<rparr>], used_prefixes := used\<rparr>)
                  else (True, s\<lparr>backends := (backends s)[idx := b]\<rparr>)
              | None \<Rightarrow> (True, s\<lparr>backends := (backends s)[idx := b]\<rparr>))"

end
