(* ===== verification/Agg_Members.thy ===== *)
theory Agg_Members
  imports Agg_State
begin

text \<open>
  The backend side of the workspace aggregator: the reader of a backend's messages, the setup of a
  new backend, and the membership poll.  What the operating system answers comes in as arguments:
  the connection a connect gives, whether a thread could be created, a process's executable path
  and the enumerated process ids.  \<open>parse\<close> is \<open>cJSON_Parse\<close>, \<open>print\<close> is
  \<open>cJSON_PrintUnformatted\<close>, \<open>oob\<close> what an out-of-range number converts to.
\<close>

section \<open>Backend reader\<close>

definition reader_response ::
    "(json \<Rightarrow> bytes) \<Rightarrow> (dbl \<Rightarrow> u64) \<Rightarrow> nat \<Rightarrow> json \<Rightarrow> dbl \<Rightarrow> aggregator \<Rightarrow> aggregator option" where
  "reader_response print oob idx msg d s =
     (case inflight_find (double_to_u64 oob d) s of
        None \<Rightarrow> Some s
      | Some i \<Rightarrow>
          let fl = inflights s ! i;
              s1 = inflight_release i s
          in if f_backend fl \<noteq> idx then Some s1
             else if f_kind fl = INFLIGHT_TOOLS_REFRESH
             then (case cJSON_GetObjectItemCaseSensitive (Some msg) ''result'' of
                     None \<Rightarrow> Some s1
                   | Some r \<Rightarrow>
                       (case apply_tools_result idx (Some r) s1 of
                          (changed, s2) \<Rightarrow> if changed then emit_list_changed_upstream s2 else Some s2))
             else
               let out = (case f_orig_id fl of None \<Rightarrow> msg
                          | Some i \<Rightarrow> cJSON_ReplaceItemInObjectCaseSensitive msg ''id'' i)
               in write_frame_stdout (print out) s1)"

definition reader_message ::
    "(json \<Rightarrow> bytes) \<Rightarrow> (dbl \<Rightarrow> u64) \<Rightarrow> nat \<Rightarrow> json \<Rightarrow> aggregator \<Rightarrow> aggregator option" where
  "reader_message print oob idx msg s =
     (let rid = cJSON_GetObjectItemCaseSensitive (Some msg) ''id'';
          method = cJSON_GetObjectItemCaseSensitive (Some msg) ''method''
      in if rid = None \<and> cJSON_IsString method
         then (if valuestring method = Some ''notifications/tools/list_changed''
               then refresh_backend_tools idx s else Some s)
         else case valuedouble rid of
                Some d \<Rightarrow> reader_response print oob idx msg d s
              | None \<Rightarrow> Some s)"

text \<open>One pass of the reader's loop: the flag says whether it goes on.  The pass that ends it fails the
  calls in flight, frees the slot and tells the agent.\<close>

definition backend_reader_pass ::
    "(json \<Rightarrow> bytes) \<Rightarrow> (bytes \<Rightarrow> json option) \<Rightarrow> (dbl \<Rightarrow> u64) \<Rightarrow> nat \<Rightarrow> aggregator \<Rightarrow> (bool \<times> aggregator) option"
where
  "backend_reader_pass print parse oob idx s = do {
     (c, body) \<leftarrow> (if b_conn (backends s ! idx) = None then Some (None, None)
                   else read_frame_conn (b_conn (backends s ! idx)));
     let s1 = s\<lparr>backends := (backends s)[idx := (backends s ! idx)\<lparr>b_conn := c\<rparr>]\<rparr>;
     case body of
       None \<Rightarrow> do {
         s2 \<leftarrow> backend_teardown_locked print idx s1;
         s3 \<leftarrow> emit_list_changed_upstream s2;
         Some (False, s3)
       }
     | Some b \<Rightarrow>
         (case parse (cstr b) of
            None \<Rightarrow> Some (True, s1)
          | Some msg \<Rightarrow> map_option (Pair True) (reader_message print oob idx msg s1))
   }"

section \<open>Backend setup\<close>

fun sync_loop ::
    "(bytes \<Rightarrow> json option) \<Rightarrow> dbl \<Rightarrow> nat \<Rightarrow> mcp_conn option \<Rightarrow> (mcp_conn option \<times> json option) option" where
  "sync_loop parse want_id 0 conn = Some (conn, None)"
| "sync_loop parse want_id (Suc guard) conn =
     (case read_frame_conn conn of
        None \<Rightarrow> None
      | Some (c, None) \<Rightarrow> Some (c, None)
      | Some (c, Some body) \<Rightarrow>
          (case parse (cstr body) of
             None \<Rightarrow> Some (c, None)
           | Some msg \<Rightarrow>
               if valuedouble (cJSON_GetObjectItemCaseSensitive (Some msg) ''id'') = Some want_id
               then Some (c, Some msg) else sync_loop parse want_id guard c))"

definition sync_request ::
    "(bytes \<Rightarrow> json option) \<Rightarrow> mcp_conn option \<Rightarrow> bytes \<Rightarrow> dbl \<Rightarrow> (mcp_conn option \<times> json option) option" where
  "sync_request parse conn req want_id = do {
     (ok, c) \<leftarrow> write_frame_conn conn req;
     if \<not> ok then Some (c, None) else sync_loop parse want_id 16 c
   }"

definition INITIALIZE_REQUEST :: bytes where
  "INITIALIZE_REQUEST =
     ''{\"jsonrpc\":\"2.0\",\"id\":1,\"method\":\"initialize\",\"params\":'' @
     ''{\"protocolVersion\":\"2024-11-05\",\"clientInfo\":{\"name\":\"displayxr-mcp-workspace\"}}}''"

definition INITIALIZED_NOTE :: bytes where
  "INITIALIZED_NOTE = ''{\"jsonrpc\":\"2.0\",\"method\":\"notifications/initialized\"}''"

definition TOOLS_LIST_REQUEST :: bytes where
  "TOOLS_LIST_REQUEST = ''{\"jsonrpc\":\"2.0\",\"id\":2,\"method\":\"tools/list\"}''"

text \<open>The handshake on a fresh connection: the app id and the tools it gave, or \<open>None\<close>.\<close>

definition setup_handshake ::
    "(bytes \<Rightarrow> json option) \<Rightarrow> mcp_conn option \<Rightarrow> (mcp_conn option \<times> bytes \<times> json option) option option" where
  "setup_handshake parse conn = do {
     (c1, init) \<leftarrow> sync_request parse conn INITIALIZE_REQUEST (dbl_of_int 1);
     if init = None then Some None
     else do {
       let result = cJSON_GetObjectItemCaseSensitive init ''result'';
       let sinfo = cJSON_GetObjectItemCaseSensitive result ''serverInfo'';
       let aid = (case valuestring (cJSON_GetObjectItemCaseSensitive sinfo ''appId'') of
                    Some a \<Rightarrow> snprintf_s 33 a | None \<Rightarrow> []);
       (_, c2) \<leftarrow> write_frame_conn c1 INITIALIZED_NOTE;
       (c3, resp) \<leftarrow> sync_request parse c2 TOOLS_LIST_REQUEST (dbl_of_int 2);
       if resp = None then Some None
       else
         let tresult = cJSON_GetObjectItemCaseSensitive resp ''result'';
             tool_list = cJSON_GetObjectItemCaseSensitive tresult ''tools'';
             tmeta = cJSON_GetObjectItemCaseSensitive tresult ''_meta'';
             taid = valuestring (cJSON_GetObjectItemCaseSensitive tmeta ''displayxr/appId'');
             aid = (case taid of Some a \<Rightarrow> if aid = [] then snprintf_s 33 a else aid | None \<Rightarrow> aid)
         in Some (Some (c3, aid, tool_list))
     }
   }"

definition connecting_remove :: "bool \<Rightarrow> int \<Rightarrow> aggregator \<Rightarrow> aggregator" where
  "connecting_remove is_shell pid s =
     (if is_shell then s\<lparr>shell_connecting := False\<rparr>
      else
        case find_index (\<lambda>p. p = pid) (connecting s) of
          None \<Rightarrow> s
        | Some i \<Rightarrow> s\<lparr>connecting := butlast ((connecting s)[i := last (connecting s)])\<rparr>)"

definition desired_prefix :: "bytes \<Rightarrow> bytes \<Rightarrow> bytes" where
  "desired_prefix path aid =
     (if aid \<noteq> [] then slugify aid 40
      else let base = exe_basename_for_pid path 64
           in if base \<noteq> [] then slugify base 40 else snprintf_s 40 ''app'')"

text \<open>Registration under the lock.  The flag says whether the backend's reader runs;
  \<open>create_ok\<close> is whether its thread could be created.\<close>

definition backend_register ::
    "(json \<Rightarrow> bytes) \<Rightarrow> (int \<Rightarrow> bytes) \<Rightarrow> bool \<Rightarrow> bool \<Rightarrow> int \<Rightarrow> mcp_conn option \<Rightarrow> bytes \<Rightarrow> json option \<Rightarrow>
       aggregator \<Rightarrow> (bool \<times> aggregator) option"
where
  "backend_register print exe_path create_ok is_shell pid conn aid tool_list s =
     (case find_index (\<lambda>b. \<not> b_used b) (backends s) of
        None \<Rightarrow> Some (False, s)
      | Some idx \<Rightarrow>
          let (p, used) =
                (if is_shell then (snprintf_s 40 ''shell'', used_prefixes s)
                 else assign_prefix (desired_prefix (exe_path pid) aid) 40 (used_prefixes s));
              b = \<lparr>b_used = True, b_alive = True, b_is_shell = is_shell, b_pid = pid, b_prefix = p,
                   b_app_id = snprintf_s 33 aid, b_conn = conn, b_tools = tools_cache tool_list\<rparr>;
              s1 = s\<lparr>backends := (backends s)[idx := b], used_prefixes := used\<rparr>
          in if create_ok then Some (True, s1)
             else map_option (Pair False) (backend_teardown_locked print idx s1))"

text \<open>The setup thread from the connection it got to its end.\<close>

definition backend_setup ::
    "(json \<Rightarrow> bytes) \<Rightarrow> (bytes \<Rightarrow> json option) \<Rightarrow> (int \<Rightarrow> bytes) \<Rightarrow> bool \<Rightarrow> mcp_conn option \<Rightarrow> bool \<Rightarrow> int \<Rightarrow>
       aggregator \<Rightarrow> aggregator option"
where
  "backend_setup print parse exe_path create_ok conn is_shell pid s =
     (if conn = None then Some (connecting_remove is_shell pid s)
      else do {
        r \<leftarrow> setup_handshake parse conn;
        case r of
          None \<Rightarrow> Some (connecting_remove is_shell pid s)
        | Some (c, aid, tool_list) \<Rightarrow> do {
            (registered, s1) \<leftarrow> backend_register print exe_path create_ok is_shell pid c aid tool_list s;
            let s2 = connecting_remove is_shell pid s1;
            if registered then emit_list_changed_upstream s2 else Some s2
          }
      })"

section \<open>Membership poll\<close>

definition backend_known :: "bool \<Rightarrow> int \<Rightarrow> aggregator \<Rightarrow> bool" where
  "backend_known is_shell pid s =
     (if list_ex (\<lambda>b. b_used b \<and> (if is_shell then b_is_shell b else \<not> b_is_shell b \<and> b_pid b = pid)) (backends s)
      then True
      else if is_shell then shell_connecting s
      else list_ex (\<lambda>p. p = pid) (connecting s))"

text \<open>The scan of the enumerated ids: the fresh ones, which are marked as connecting.\<close>

fun poll_scan :: "int \<Rightarrow> int list \<Rightarrow> aggregator \<Rightarrow> int list \<times> aggregator" where
  "poll_scan self [] s = ([], s)"
| "poll_scan self (p # pids) s =
     (if p = self then poll_scan self pids s
      else if \<not> backend_known False p s \<and> length (connecting s) < MAX_BACKENDS
      then let (fresh, s') = poll_scan self pids (s\<lparr>connecting := connecting s @ [p]\<rparr>) in (p # fresh, s')
      else poll_scan self pids s)"

definition spawn_setup :: "bool \<Rightarrow> bool \<Rightarrow> int \<Rightarrow> aggregator \<Rightarrow> aggregator" where
  "spawn_setup create_ok is_shell pid s =
     (if create_ok then s else connecting_remove is_shell pid s)"

text \<open>One round under the lock: the ids to set up, and whether to try the shell.\<close>

definition poll_round :: "int \<Rightarrow> int list \<Rightarrow> aggregator \<Rightarrow> int list \<times> bool \<times> aggregator" where
  "poll_round self pids s =
     (let (fresh, s1) = poll_scan self (take 64 pids) s;
          try_shell = (\<not> backend_known True 0 s1);
          s2 = (if try_shell then s1\<lparr>shell_connecting := True\<rparr> else s1)
      in (fresh, try_shell, s2))"

end
