(* ===== verification/Agg_Agent.thy ===== *)
theory Agg_Agent
  imports Agg_Members
begin

text \<open>
  The agent side of the workspace aggregator: the merged tool list, the list of apps, the routing of
  tool calls, the dispatch of one agent message and the main loop; and the step relation that
  interleaves the agent loop with the readers, the setup threads and the poll thread.
\<close>

section \<open>Listing\<close>

definition app_entry :: "bool \<Rightarrow> backend \<Rightarrow> json" where
  "app_entry expose b =
     (let e = cJSON_AddStringToObject cJSON_CreateObject ''prefix'' (b_prefix b);
          e = cJSON_AddNumberToObject e ''pid'' (i64_to_double (b_pid b));
          e = (if b_app_id b \<noteq> [] then cJSON_AddStringToObject e ''app_id'' (b_app_id b) else e);
          ts = (case b_tools b of None \<Rightarrow> [] | Some t \<Rightarrow> cJSON_children t);
          e = cJSON_AddNumberToObject e ''tools_exposed'' (dbl_of_int (int (length (filter (tool_exposed expose) ts))))
      in cJSON_AddNumberToObject e ''tools_total'' (dbl_of_int (int (length ts))))"

definition build_list_apps :: "aggregator \<Rightarrow> json" where
  "build_list_apps s =
     (let live = filter (\<lambda>b. b_used b \<and> b_alive b) (backends s);
          apps = foldl (\<lambda>arr b. cJSON_AddItemToArray arr (app_entry (expose_diagnostics s) b)) cJSON_CreateArray
                   (filter (\<lambda>b. \<not> b_is_shell b) live);
          r = cJSON_AddItemToObject cJSON_CreateObject ''apps'' apps;
          r = cJSON_AddStringToObject r ''shell''
                (if list_ex b_is_shell live then ''running'' else ''not_running'')
      in cJSON_AddBoolToObject r ''diagnostics_exposed'' (expose_diagnostics s))"

definition LIST_APPS :: bytes where
  "LIST_APPS = ''workspace'' @ NS_SEP @ ''list_apps''"

definition list_apps_tool :: json where
  "list_apps_tool =
     (let m = cJSON_AddStringToObject cJSON_CreateObject ''name'' LIST_APPS;
          m = cJSON_AddStringToObject m ''description''
            (''List aggregated workspace members: tool-name prefix, pid, app id, and tool counts '' @
             ''per app, plus whether the shell is running. The prefix joins app tools '' @
             ''(<prefix>__<tool>) to shell window operations.'');
          schema = cJSON_AddStringToObject cJSON_CreateObject ''type'' ''object''
      in cJSON_AddItemToObject m ''inputSchema'' schema)"

text \<open>The entry of one backend tool, or nothing for a tool that is hidden or has no name.\<close>

definition prefixed_tool :: "bytes \<Rightarrow> bytes \<Rightarrow> bytes" where
  "prefixed_tool p name = snprintf_s 128 (p @ NS_SEP @ name)"

definition merged_entry :: "bool \<Rightarrow> bytes \<Rightarrow> json \<Rightarrow> json option" where
  "merged_entry expose p t =
     (if \<not> tool_exposed expose t then None
      else
        case valuestring (cJSON_GetObjectItemCaseSensitive (Some t) ''name'') of
          None \<Rightarrow> None
        | Some name \<Rightarrow>
            let e = cJSON_ReplaceItemInObjectCaseSensitive t ''name'' (JStr (prefixed_tool p name))
            in Some (case cJSON_GetObjectItemCaseSensitive (Some e) ''_meta'' of
                 None \<Rightarrow> cJSON_AddItemToObject e ''_meta''
                           (cJSON_AddStringToObject cJSON_CreateObject ''displayxr/source'' p)
               | Some m \<Rightarrow> cJSON_ReplaceItemInObjectCaseSensitive e ''_meta''
                             (cJSON_AddStringToObject m ''displayxr/source'' p)))"

definition backend_entries :: "bool \<Rightarrow> backend \<Rightarrow> json list" where
  "backend_entries expose b =
     (case b_tools b of
        None \<Rightarrow> []
      | Some ts \<Rightarrow> if b_used b \<and> b_alive b then List.map_filter (merged_entry expose (b_prefix b)) (cJSON_children ts) else [])"

definition build_merged_tools :: "aggregator \<Rightarrow> json" where
  "build_merged_tools s =
     foldl cJSON_AddItemToArray (cJSON_AddItemToArray cJSON_CreateArray list_apps_tool)
       (concat (map (backend_entries (expose_diagnostics s)) (backends s)))"

section \<open>Routing a tool call\<close>

definition reply_error ::
    "(json \<Rightarrow> bytes) \<Rightarrow> json option \<Rightarrow> int \<Rightarrow> bytes \<Rightarrow> aggregator \<Rightarrow> aggregator option" where
  "reply_error print rid code message s = write_frame_stdout (jsonrpc_error_str print rid code message) s"

definition forward_request :: "u64 \<Rightarrow> bytes \<Rightarrow> json option \<Rightarrow> json" where
  "forward_request local_id bare tool_args =
     (let fwd = cJSON_AddStringToObject cJSON_CreateObject ''jsonrpc'' ''2.0'';
          fwd = cJSON_AddNumberToObject fwd ''id'' (u64_to_double local_id);
          fwd = cJSON_AddStringToObject fwd ''method'' ''tools/call'';
          fparams = cJSON_AddStringToObject cJSON_CreateObject ''name'' bare;
          fparams = (case tool_args of None \<Rightarrow> fparams
                     | Some a \<Rightarrow> cJSON_AddItemToObject fparams ''arguments'' a)
      in cJSON_AddItemToObject fwd ''params'' fparams)"

text \<open>The first live backend whose prefix is the text before the separator.\<close>

definition route :: "bytes \<Rightarrow> nat \<Rightarrow> aggregator \<Rightarrow> nat option" where
  "route full plen s =
     find_index (\<lambda>b. b_used b \<and> b_alive b \<and> length (b_prefix b) = plen \<and> b_prefix b = take plen full) (backends s)"

definition agg_tools_call ::
    "(json \<Rightarrow> bytes) \<Rightarrow> json option \<Rightarrow> json option \<Rightarrow> aggregator \<Rightarrow> aggregator option" where
  "agg_tools_call print rid params s =
     (case valuestring (cJSON_GetObjectItemCaseSensitive params ''name'') of
        None \<Rightarrow> reply_error print rid (-32602) (''tools/call: missing string '' @ [CHR 0x27] @ ''name'' @ [CHR 0x27]) s
      | Some full \<Rightarrow>
          if full = LIST_APPS
          then write_frame_stdout (jsonrpc_result_str print rid (Some (wrap_tool_result print (build_list_apps s)))) s
          else
            case strstr full NS_SEP of
              None \<Rightarrow> reply_error print rid (-32601) ''tool not found (expected <prefix>__<tool>)'' s
            | Some plen \<Rightarrow>
                if plen = 0 \<or> drop (plen + 2) full = []
                then reply_error print rid (-32601) ''tool not found (expected <prefix>__<tool>)'' s
                else
                  case route full plen s of
                    None \<Rightarrow> reply_error print rid (-32601) ''tool not found (no such app prefix)'' s
                  | Some idx \<Rightarrow>
                      (case inflight_alloc idx INFLIGHT_AGENT rid s of
                         None \<Rightarrow> reply_error print rid (-32000) ''too many calls in flight'' s
                       | Some (i, s1) \<Rightarrow> do {
                           let tool_args = cJSON_GetObjectItemCaseSensitive params ''arguments'';
                           let fwd = forward_request (f_local_id (inflights s1 ! i)) (drop (plen + 2) full) tool_args;
                           (ok, s2) \<leftarrow> backend_write idx (print fwd) s1;
                           if ok then Some s2
                           else reply_error print rid (-32000) ''backend write failed'' (inflight_release i s2)
                         }))"

section \<open>One agent message\<close>

definition agg_initialize_result :: json where
  "agg_initialize_result =
     (let result = cJSON_AddStringToObject cJSON_CreateObject ''protocolVersion'' ''2024-11-05'';
          tools_cap = cJSON_AddBoolToObject cJSON_CreateObject ''listChanged'' True;
          caps = cJSON_AddItemToObject cJSON_CreateObject ''tools'' tools_cap;
          result = cJSON_AddItemToObject result ''capabilities'' caps;
          info = cJSON_AddStringToObject cJSON_CreateObject ''name'' ''displayxr-mcp-workspace'';
          info = cJSON_AddStringToObject info ''version'' DISPLAYXR_MCP_VERSION
      in cJSON_AddItemToObject result ''serverInfo'' info)"

definition agent_request ::
    "(json \<Rightarrow> bytes) \<Rightarrow> bytes \<Rightarrow> json option \<Rightarrow> json option \<Rightarrow> aggregator \<Rightarrow> aggregator option" where
  "agent_request print method rid params s =
     (if method = ''initialize''
      then map_option (\<lambda>s. s\<lparr>agent_initialized := True\<rparr>)
             (write_frame_stdout (jsonrpc_result_str print rid (Some agg_initialize_result)) s)
      else if method = ''ping'' then write_frame_stdout (jsonrpc_result_str print rid None) s
      else if method = ''tools/list''
      then write_frame_stdout (jsonrpc_result_str print rid
             (Some (cJSON_AddItemToObject cJSON_CreateObject ''tools'' (build_merged_tools s)))) s
      else if method = ''tools/call'' then agg_tools_call print rid params s
      else reply_error print rid (-32601) ''method not found'' s)"

definition handle_agent_frame ::
    "(json \<Rightarrow> bytes) \<Rightarrow> (bytes \<Rightarrow> json option) \<Rightarrow> bytes \<Rightarrow> aggregator \<Rightarrow> aggregator option" where
  "handle_agent_frame print parse body s =
     (case parse body of
        None \<Rightarrow> reply_error print None (-32700) ''parse error'' s
      | Some req \<Rightarrow>
          let rid = cJSON_GetObjectItemCaseSensitive (Some req) ''id'';
              params = cJSON_GetObjectItemCaseSensitive (Some req) ''params''
          in case valuestring (cJSON_GetObjectItemCaseSensitive (Some req) ''method'') of
               None \<Rightarrow> Some s
             | Some method \<Rightarrow> if rid = None then Some s else agent_request print method rid params s)"

section \<open>The main loop\<close>

definition agent_step ::
    "(json \<Rightarrow> bytes) \<Rightarrow> (bytes \<Rightarrow> json option) \<Rightarrow> dxr_stdio_framing \<Rightarrow> bytes \<Rightarrow> aggregator \<Rightarrow> aggregator option" where
  "agent_step print parse f body s =
     handle_agent_frame print parse body (s\<lparr>framing := dxr_stdio_framing_latch_set (framing s) f\<rparr>)"

text \<open>The loop while no other thread interferes.\<close>

partial_function (option) agent_loop ::
    "(json \<Rightarrow> bytes) \<Rightarrow> (bytes \<Rightarrow> json option) \<Rightarrow> bytes list dxr_stdio_reader \<Rightarrow> aggregator \<Rightarrow> aggregator option" where
  "agent_loop print parse r s =
     Option.bind (dxr_stdio_reader_next dxr_stdio_read_stdin r) (\<lambda>(r', m).
       case m of
         None \<Rightarrow> Some s
       | Some body \<Rightarrow>
           Option.bind (agent_step print parse (r_framing r') body s) (\<lambda>s'. agent_loop print parse r' s'))"

definition abort_backend :: "backend \<Rightarrow> backend" where
  "abort_backend b = (if b_used b \<and> b_conn b \<noteq> None then b\<lparr>b_conn := mcp_conn_abort (b_conn b)\<rparr> else b)"

text \<open>The exit code and the final state; \<open>poll_ok\<close> is whether the poll thread could be created.\<close>

definition workspace_aggregator_run ::
    "(json \<Rightarrow> bytes) \<Rightarrow> (bytes \<Rightarrow> json option) \<Rightarrow> bool \<Rightarrow> bool \<Rightarrow> bytes list \<Rightarrow> (int \<times> aggregator) option" where
  "workspace_aggregator_run print parse expose poll_ok chunks =
     (let s = aggregator_zero expose
      in if \<not> poll_ok then Some (1, s)
         else map_option (\<lambda>s'. (0, s'\<lparr>backends := map abort_backend (backends s')\<rparr>))
                (agent_loop print parse (dxr_stdio_reader_init chunks) s))"

end
