(* ===== verification/Agg_Calls.thy ===== *)
theory Agg_Calls
  imports Agg_Agent
begin

text \<open>
  What the aggregator's in-flight table, routing and relaying compute.  The table refines a finite
  map from local ids to calls: the locale \<open>call_table\<close> states that interface, and the
  round trip of a call through a backend is proved from it.
\<close>

section \<open>The in-flight table as a map\<close>

type_synonym call = "nat \<times> inflight_kind \<times> json option"

definition call_of :: "inflight \<Rightarrow> call" where
  "call_of f = (f_backend f, f_kind f, f_orig_id f)"

definition calls :: "aggregator \<Rightarrow> u64 \<Rightarrow> call option" where
  "calls s n = map_option (\<lambda>i. call_of (inflights s ! i)) (inflight_find n s)"

text \<open>The used entries have distinct ids, none above the last id given out.\<close>

definition table_ok :: "aggregator \<Rightarrow> bool" where
  "table_ok s \<longleftrightarrow> length (inflights s) = MAX_INFLIGHT \<and>
     (\<forall>i<length (inflights s). f_used (inflights s ! i) \<longrightarrow> f_local_id (inflights s ! i) \<le> next_local_id s) \<and>
     (\<forall>i<length (inflights s). \<forall>j<length (inflights s). f_used (inflights s ! i) \<longrightarrow> f_used (inflights s ! j) \<longrightarrow>
        f_local_id (inflights s ! i) = f_local_id (inflights s ! j) \<longrightarrow> i = j)"

lemma inflight_find_iff:
  assumes "table_ok s"
  shows "inflight_find n s = Some i \<longleftrightarrow>
    i < length (inflights s) \<and> f_used (inflights s ! i) \<and> f_local_id (inflights s ! i) = n"
proof
  assume "inflight_find n s = Some i"
  then show "i < length (inflights s) \<and> f_used (inflights s ! i) \<and> f_local_id (inflights s ! i) = n"
    by (auto simp: inflight_find_def find_index_Some_iff)
next
  assume a: "i < length (inflights s) \<and> f_used (inflights s ! i) \<and> f_local_id (inflights s ! i) = n"
  have "\<not> (f_used (inflights s ! j) \<and> f_local_id (inflights s ! j) = n)" if "j < i" for j
  proof
    assume "f_used (inflights s ! j) \<and> f_local_id (inflights s ! j) = n"
    moreover have "j < length (inflights s)" using a that by simp
    ultimately have "j = i" using a assms unfolding table_ok_def by blast
    with that show False by simp
  qed
  with a show "inflight_find n s = Some i" by (simp add: inflight_find_def find_index_Some_iff)
qed

lemma inflight_find_None:
  "inflight_find n s = None \<longleftrightarrow>
     (\<forall>i<length (inflights s). f_used (inflights s ! i) \<longrightarrow> f_local_id (inflights s ! i) \<noteq> n)"
  by (auto simp: inflight_find_def find_index_None_iff all_set_conv_all_nth)

lemma calls_cong:
  "inflights s' = inflights s \<Longrightarrow> calls s' = calls s"
  by (rule ext) (simp add: calls_def inflight_find_def)

lemma table_ok_cong [inv_pres]:
  "inflights s' = inflights s \<Longrightarrow> next_local_id s' = next_local_id s \<Longrightarrow> table_ok s' = table_ok s"
  by (simp add: table_ok_def)

lemma calls_Some_iff:
  assumes "table_ok s"
  shows "calls s n = Some c \<longleftrightarrow>
    (\<exists>i<length (inflights s). f_used (inflights s ! i) \<and> f_local_id (inflights s ! i) = n \<and>
       c = call_of (inflights s ! i))"
  using inflight_find_iff [OF assms] by (auto simp: calls_def)

lemma alloc_cases:
  "inflight_alloc idx k orig s = None \<Longrightarrow> \<forall>f\<in>set (inflights s). f_used f"
  "inflight_alloc idx k orig s = Some (i, s') \<Longrightarrow> i < length (inflights s) \<and> \<not> f_used (inflights s ! i) \<and>
     s' = s\<lparr>next_local_id := next_local_id s + 1,
            inflights := (inflights s)[i := \<lparr>f_used = True, f_local_id = next_local_id s + 1,
              f_backend = idx, f_kind = k, f_orig_id = orig\<rparr>]\<rparr>"
  by (auto simp: inflight_alloc_def find_index_None_iff find_index_Some_iff Let_def split: option.splits)

lemma next_id_greater: "n < - 1 \<Longrightarrow> (n :: u64) < n + 1"
proof -
  assume "n < - 1"
  then have "1 + n \<noteq> 0" by (metis add.commute add_eq_0_iff order_less_irrefl)
  then show ?thesis by (simp add: word_less_nat_alt unatSuc add.commute [of n])
qed

lemma alloc_table:
  assumes "table_ok s" and "inflight_alloc idx k orig s = Some (i, s')" and "next_local_id s < - 1"
  shows "table_ok s' \<and> calls s (next_local_id s + 1) = None \<and>
    calls s' = (calls s)(next_local_id s + 1 \<mapsto> (idx, k, orig)) \<and>
    f_local_id (inflights s' ! i) = next_local_id s + 1"
proof -
  let ?n = "next_local_id s + 1"
  from alloc_cases(2) [OF assms(2)] have i: "i < length (inflights s)" "\<not> f_used (inflights s ! i)"
    and s': "s' = s\<lparr>next_local_id := ?n, inflights := (inflights s)[i := \<lparr>f_used = True, f_local_id = ?n,
              f_backend = idx, f_kind = k, f_orig_id = orig\<rparr>]\<rparr>" by auto
  have lt: "next_local_id s < ?n" using assms(3) by (rule next_id_greater)
  have le: "f_local_id (inflights s ! j) \<le> next_local_id s"
    if "j < length (inflights s)" "f_used (inflights s ! j)" for j
    using assms(1) that by (simp add: table_ok_def)
  have new: "f_local_id (inflights s ! j) \<noteq> ?n" if "j < length (inflights s)" "f_used (inflights s ! j)" for j
    using le [OF that] lt by auto
  have ok: "table_ok s'"
    unfolding table_ok_def
  proof (intro conjI allI impI, goal_cases)
    case 1
    then show ?case using assms(1) by (simp add: s' table_ok_def)
  next
    case (2 j)
    then show ?case using i le [of j] lt by (auto simp: s' nth_list_update split: if_splits)
  next
    case (3 j l)
    then show ?case using i assms(1) new [of j] new [of l]
      by (auto simp: s' nth_list_update table_ok_def split: if_splits)
  qed
  have none: "calls s ?n = None" using new by (auto simp: calls_def inflight_find_None)
  have "calls s' m = ((calls s)(?n \<mapsto> (idx, k, orig))) m" for m
  proof (cases "m = ?n")
    case True
    have "calls s' m = Some (idx, k, orig)"
      using i True by (subst calls_Some_iff [OF ok]) (auto simp: s' call_of_def intro!: exI [of _ i])
    with True show ?thesis by simp
  next
    case False
    have "calls s' m = Some c \<longleftrightarrow> calls s m = Some c" for c
      using i False unfolding calls_Some_iff [OF ok] calls_Some_iff [OF assms(1)]
      by (auto simp: s' nth_list_update split: if_splits)
    with False show ?thesis by (metis fun_upd_other not_None_eq)
  qed
  with ok none i show ?thesis by (auto simp: s')
qed

lemma release_table:
  assumes "table_ok s" and "i < length (inflights s)" and "f_used (inflights s ! i)"
  shows "table_ok (inflight_release i s) \<and>
    calls (inflight_release i s) = (calls s)(f_local_id (inflights s ! i) := None)"
proof -
  have ok: "table_ok (inflight_release i s)"
    unfolding table_ok_def
  proof (intro conjI allI impI, goal_cases)
    case 1
    then show ?case using assms(1) by (simp add: inflight_release_def table_ok_def)
  next
    case (2 j)
    then show ?case using assms(1,2)
      by (auto simp: inflight_release_def inflight_zero_def table_ok_def nth_list_update split: if_splits)
  next
    case (3 j l)
    then show ?case using assms(1,2)
      by (auto simp: inflight_release_def inflight_zero_def nth_list_update table_ok_def split: if_splits)
  qed
  have "calls (inflight_release i s) m = Some c \<longleftrightarrow> ((calls s)(f_local_id (inflights s ! i) := None)) m = Some c"
    for m c
  proof (cases "m = f_local_id (inflights s ! i)")
    case True
    have "\<not> (j < length (inflights s) \<and> j \<noteq> i \<and> f_used (inflights s ! j) \<and> f_local_id (inflights s ! j) = m)" for j
      using assms True unfolding table_ok_def by metis
    then show ?thesis using True assms(2)
      unfolding calls_Some_iff [OF ok]
      by (auto simp: inflight_release_def inflight_zero_def nth_list_update split: if_splits)
  next
    case False
    then show ?thesis using assms(2)
      unfolding calls_Some_iff [OF ok]
      by (auto simp: inflight_release_def inflight_zero_def nth_list_update calls_Some_iff [OF assms(1)] split: if_splits)
  qed
  then have "calls (inflight_release i s) = (calls s)(f_local_id (inflights s ! i) := None)"
    by (intro ext) (metis not_None_eq)
  with ok show ?thesis by simp
qed


text \<open>The interface the routing relies on.\<close>

locale call_table =
  fixes alloc :: "'c \<Rightarrow> 's \<Rightarrow> ('k \<times> 's) option"
    and look :: "'s \<Rightarrow> 'k \<Rightarrow> 'c option"
    and release :: "'k \<Rightarrow> 's \<Rightarrow> 's"
    and ok :: "'s \<Rightarrow> bool"
    and room :: "'s \<Rightarrow> bool"
  assumes alloc_ok: "ok s \<Longrightarrow> room s \<Longrightarrow> alloc c s = Some (n, s') \<Longrightarrow> ok s'"
    and alloc_fresh: "ok s \<Longrightarrow> room s \<Longrightarrow> alloc c s = Some (n, s') \<Longrightarrow> look s n = None"
    and alloc_look: "ok s \<Longrightarrow> room s \<Longrightarrow> alloc c s = Some (n, s') \<Longrightarrow> look s' = (look s)(n \<mapsto> c)"
    and release_ok: "ok s \<Longrightarrow> ok (release n s)"
    and release_look: "ok s \<Longrightarrow> look (release n s) = (look s)(n := None)"
begin

lemma alloc_release:
  assumes "ok s" and "room s" and "alloc c s = Some (n, s')"
  shows "look (release n s') = look s"
proof -
  have "look (release n s') = (look s)(n := None)"
    using release_look [OF alloc_ok [OF assms]] alloc_look [OF assms] by simp
  with alloc_fresh [OF assms] show ?thesis by auto
qed

lemma alloc_keeps:
  assumes "ok s" and "room s" and "alloc c s = Some (n, s')" and "look s m = Some c'"
  shows "m \<noteq> n" and "look s' m = Some c'" and "look (release n s') m = Some c'"
  using alloc_fresh [OF assms(1-3)] alloc_look [OF assms(1-3)] alloc_release [OF assms(1-3)] assms(4) by auto

end

definition alloc_call :: "call \<Rightarrow> aggregator \<Rightarrow> (u64 \<times> aggregator) option" where
  "alloc_call c s = map_option (\<lambda>(i, s'). (f_local_id (inflights s' ! i), s'))
     (inflight_alloc (fst c) (fst (snd c)) (snd (snd c)) s)"

definition release_call :: "u64 \<Rightarrow> aggregator \<Rightarrow> aggregator" where
  "release_call n s = (case inflight_find n s of None \<Rightarrow> s | Some i \<Rightarrow> inflight_release i s)"

lemma release_call_table:
  assumes "table_ok s"
  shows "table_ok (release_call n s)" and "calls (release_call n s) = (calls s)(n := None)"
proof -
  have "table_ok (release_call n s) \<and> calls (release_call n s) = (calls s)(n := None)"
  proof (cases "inflight_find n s")
    case None
    then have "calls s n = None" by (simp add: calls_def)
    with None assms show ?thesis by (auto simp: release_call_def)
  next
    case (Some i)
    with inflight_find_iff [OF assms, of n i] release_table [OF assms, of i] show ?thesis
      unfolding release_call_def Some by simp
  qed
  then show "table_ok (release_call n s)" and "calls (release_call n s) = (calls s)(n := None)" by auto
qed

interpretation agg_calls: call_table alloc_call calls release_call table_ok "\<lambda>s. next_local_id s < - 1"
proof
  fix s s' :: aggregator and n c
  assume s: "table_ok s" "next_local_id s < - 1" and a: "alloc_call c s = Some (n, s')"
  obtain i where i: "inflight_alloc (fst c) (fst (snd c)) (snd (snd c)) s = Some (i, s')"
    and n: "n = f_local_id (inflights s' ! i)"
    using a by (auto simp: alloc_call_def)
  from alloc_table [OF s(1) i s(2)] n
  show "table_ok s'" and "calls s n = None" and "calls s' = (calls s)(n \<mapsto> c)" by simp_all
qed (rule release_call_table, assumption)+

section \<open>Output and backend writes\<close>

text \<open>A message to the agent, as it is written out.\<close>

definition upstream :: "aggregator \<Rightarrow> bytes \<Rightarrow> bytes" where
  "upstream s b = dxr_stdio_encode (framing s) (cstr b)"

lemma write_frame_stdout_eq:
  "write_frame_stdout b s =
     (if framing s = FRAMING_UNKNOWN then None else Some (s\<lparr>stdout := stdout s @ [upstream s b]\<rparr>))"
  by (simp add: write_frame_stdout_def dxr_stdio_framing_latch_wait_def upstream_def)

lemma backend_write_eq:
  "backend_write idx body s = Some (ok, s') \<longleftrightarrow>
     (\<exists>c. write_frame_conn (b_conn (backends s ! idx)) body = Some (ok, c) \<and>
        s' = s\<lparr>backends := (backends s)[idx := (backends s ! idx)\<lparr>b_conn := c\<rparr>]\<rparr>)"
  by (auto simp: backend_write_def bind_eq_Some_conv)

lemma write_frame_conn_sent:
  assumes "conn_valid c" and "NUL \<notin> set body" and "length body < 10 ^ 40"
    and "write_frame_conn c body = Some (ok, c')"
  shows "conn_valid c'" and "ok \<Longrightarrow> conn_sent c' = conn_sent c @ encode_frame body"
proof -
  have b: "c_strlen body = length body" using assms(2) by (simp add: c_strlen_def cstr_id)
  with assms(4) have w: "write_parts mcp_conn_write c (cl_header (length body)) body = Some (ok, c')"
    by (simp add: write_frame_conn_def dxr_conn_write_frame_def)
  from posix_sink.write_parts_cases [OF assms(1) w] encode_frame_parts [OF assms(3)]
  show "conn_valid c'" and "ok \<Longrightarrow> conn_sent c' = conn_sent c @ encode_frame body" by auto
qed


section \<open>Every request is answered or in flight\<close>

definition answered :: "(json \<Rightarrow> bytes) \<Rightarrow> json option \<Rightarrow> aggregator \<Rightarrow> aggregator \<Rightarrow> bool" where
  "answered print i s s' \<longleftrightarrow> (\<exists>env. reply_for i env \<and> stdout s' = stdout s @ [upstream s (print env)]) \<and>
     calls s' = calls s"

text \<open>Forwarded to backend \<open>idx\<close> under the local id \<open>n\<close>.\<close>

definition forwarded :: "nat \<Rightarrow> u64 \<Rightarrow> json option \<Rightarrow> aggregator \<Rightarrow> aggregator \<Rightarrow> bool" where
  "forwarded idx n i s s' \<longleftrightarrow> idx < length (backends s) \<and> b_used (backends s ! idx) \<and>
     calls s n = None \<and> calls s' = (calls s)(n \<mapsto> (idx, INFLIGHT_AGENT, i)) \<and> stdout s' = stdout s"

lemma is_reply_agg:
  "is_reply print i (jsonrpc_error_str print i c m)" "is_reply print i (jsonrpc_result_str print i r)"
proof -
  have "jsonrpc_error_str print i c m = jsonrpc_error print i c m"
    by (simp add: jsonrpc_error_str_def jsonrpc_error_def jsonrpc_envelope_def Let_def)
  then show "is_reply print i (jsonrpc_error_str print i c m)" by (simp add: is_reply_error)
  have "jsonrpc_result_str print i r =
      jsonrpc_result print i (case r of Some r \<Rightarrow> r | None \<Rightarrow> cJSON_CreateObject)"
    by (simp add: jsonrpc_result_str_def jsonrpc_result_def jsonrpc_envelope_def Let_def)
  then show "is_reply print i (jsonrpc_result_str print i r)" by (simp add: is_reply_result)
qed

lemma write_reply:
  assumes "write_frame_stdout r t = Some s'" and "is_reply print i r"
    and "stdout t = stdout s" and "framing t = framing s" and "calls t = calls s" and "table_ok t"
  shows "answered print i s s' \<and> table_ok s' \<and> framing s' = framing s"
proof -
  from assms(1) have s': "s' = t\<lparr>stdout := stdout t @ [upstream t r]\<rparr>"
    by (auto simp: write_frame_stdout_eq split: if_splits)
  have "calls s' = calls t" unfolding s' by (rule calls_cong) simp
  moreover have "table_ok s' = table_ok t" unfolding s' by (rule table_ok_cong) simp_all
  ultimately show ?thesis
    using assms(2-6) by (auto simp: answered_def is_reply_def s' upstream_def)
qed

lemma agg_tools_call_accounted:
  assumes "table_ok s" and "next_local_id s < - 1" and "agg_tools_call print i params s = Some s'"
  shows "(answered print i s s' \<or> (\<exists>idx. forwarded idx (next_local_id s + 1) i s s')) \<and>
    table_ok s' \<and> framing s' = framing s"
proof -
  have reply: ?thesis if "write_frame_stdout r s = Some s'" "is_reply print i r" for r
    using write_reply [OF that] assms(1) by blast
  note [simp] = reply_error_def
  show ?thesis
  proof (cases "valuestring (cJSON_GetObjectItemCaseSensitive params ''name'')")
    case None
    with assms(3) show ?thesis by (intro reply [OF _ is_reply_agg(1)]) (simp add: agg_tools_call_def)
  next
    case (Some full)
    note nm = Some
    show ?thesis
    proof (cases "full = LIST_APPS")
      case True
      with assms(3) nm show ?thesis by (intro reply [OF _ is_reply_agg(2)]) (simp add: agg_tools_call_def)
    next
      case notlist: False
      show ?thesis
      proof (cases "strstr full NS_SEP")
        case None
        with assms(3) nm notlist show ?thesis
          by (intro reply [OF _ is_reply_agg(1)]) (simp add: agg_tools_call_def)
      next
        case (Some plen)
        note sep = Some
        show ?thesis
        proof (cases "plen = 0 \<or> drop (plen + 2) full = [] \<or> route full plen s = None \<or>
            (\<exists>idx. route full plen s = Some idx \<and> inflight_alloc idx INFLIGHT_AGENT i s = None)")
          case True
          with assms(3) nm notlist sep
          have "\<exists>c m. write_frame_stdout (jsonrpc_error_str print i c m) s = Some s'"
            unfolding agg_tools_call_def by (auto split: if_splits) blast+
          then show ?thesis using reply [OF _ is_reply_agg(1)] by blast
        next
          case False
          then obtain idx k s1 where
            idx: "route full plen s = Some idx" and k: "inflight_alloc idx INFLIGHT_AGENT i s = Some (k, s1)"
            by auto
          from alloc_table [OF assms(1) k assms(2)]
          have t1: "table_ok s1" "calls s (next_local_id s + 1) = None"
            "calls s1 = (calls s)(next_local_id s + 1 \<mapsto> (idx, INFLIGHT_AGENT, i))"
            "f_local_id (inflights s1 ! k) = next_local_id s + 1" by auto
          from alloc_cases(2) [OF k]
          have s1: "stdout s1 = stdout s" "framing s1 = framing s" "k < length (inflights s1)" "f_used (inflights s1 ! k)"
            by auto
          let ?fwd = "forward_request (f_local_id (inflights s1 ! k)) (drop (plen + 2) full)
            (cJSON_GetObjectItemCaseSensitive params ''arguments'')"
          from assms(3) nm notlist sep False idx k obtain ok s2 where
            w: "backend_write idx (print ?fwd) s1 = Some (ok, s2)"
            and fin: "(if ok then Some s2 else reply_error print i (-32000) ''backend write failed''
                (inflight_release k s2)) = Some s'"
            by (auto simp: agg_tools_call_def bind_eq_Some_conv Let_def split: if_splits)
          from w have s2: "inflights s2 = inflights s1" "next_local_id s2 = next_local_id s1"
            "stdout s2 = stdout s1" "framing s2 = framing s1"
            by (auto simp: backend_write_eq)
          note t2 = calls_cong [OF s2(1)] table_ok_cong [OF s2(1,2)]
          show ?thesis
          proof (cases ok)
            case True
            have "idx < length (backends s) \<and> b_used (backends s ! idx)"
              using idx by (auto simp: route_def find_index_Some_iff)
            with True fin t1 t2 s1 s2 show ?thesis by (auto simp: forwarded_def)
          next
            case notok: False
            have r: "table_ok (inflight_release k s2)"
              "calls (inflight_release k s2) = (calls s2)(f_local_id (inflights s2 ! k) := None)"
              using release_table [of s2 k] t1(1) t2(2) s1(3,4) s2(1) by auto
            have c: "calls (inflight_release k s2) = calls s"
              unfolding r(2) t2(1) s2(1) t1(3,4) using t1(2) by auto
            have "write_frame_stdout (jsonrpc_error_str print i (-32000) ''backend write failed'')
                (inflight_release k s2) = Some s'"
              using fin notok by simp
            from write_reply [OF this is_reply_agg(1) _ _ c r(1)] s1 s2
            show ?thesis by (simp add: inflight_release_def)
          qed
        qed
      qed
    qed
  qed
qed

text \<open>C7. Every request of the agent (a message with an id and a method) is either answered at once, by
  exactly one message with its id and either a result or an error, with the table of calls in flight as it
  was; or it is a tool call that is now in flight at a live backend, under a local id nothing else has,
  and nothing was written yet.\<close>

theorem agent_request_accounted:
  assumes "table_ok s" and "next_local_id s < - 1"
    and "parse body = Some req" and "cJSON_GetObjectItemCaseSensitive (Some req) ''id'' = Some i"
    and "cJSON_GetObjectItemCaseSensitive (Some req) ''method'' = Some (JStr m)"
    and "handle_agent_frame print parse body s = Some s'"
  shows "((\<exists>env. reply_for (Some i) env \<and> stdout s' = stdout s @ [dxr_stdio_encode (framing s) (cstr (print env))]) \<and>
      calls s' = calls s \<or>
    m = ''tools/call'' \<and> stdout s' = stdout s \<and>
    (\<exists>idx<length (backends s). b_used (backends s ! idx) \<and> calls s (next_local_id s + 1) = None \<and>
       calls s' = (calls s)(next_local_id s + 1 \<mapsto> (idx, INFLIGHT_AGENT, Some i)))) \<and> table_ok s'"
proof -
  have ag: "agent_request print m (Some i) (cJSON_GetObjectItemCaseSensitive (Some req) ''params'') s = Some s'"
    using assms(3-6) by (simp add: handle_agent_frame_def Let_def)
  have "((answered print (Some i) s s' \<or> m = ''tools/call'' \<and> (\<exists>idx. forwarded idx (next_local_id s + 1) (Some i) s s')) \<and>
      table_ok s' \<and> framing s' = framing s)"
  proof (cases "m = ''tools/call''")
    case True
    with ag have "agg_tools_call print (Some i) (cJSON_GetObjectItemCaseSensitive (Some req) ''params'') s = Some s'"
      by (simp add: agent_request_def)
    from agg_tools_call_accounted [OF assms(1,2) this] True show ?thesis by blast
  next
    case False
    show ?thesis
    proof (cases "m = ''initialize''")
      case True
      with ag obtain t where
        t: "write_frame_stdout (jsonrpc_result_str print (Some i) (Some agg_initialize_result)) s = Some t"
        "s' = t\<lparr>agent_initialized := True\<rparr>"
        by (auto simp: agent_request_def)
      from write_reply [OF t(1) is_reply_agg(2) refl refl refl assms(1)] show ?thesis
        using calls_cong [of s' t] table_ok_cong [of s' t] t(2) by (simp add: answered_def)
    next
      case ni: False
      then obtain r where "write_frame_stdout r s = Some s'" "is_reply print (Some i) r"
        using ag False is_reply_agg [of print "Some i"]
        by (auto simp: agent_request_def reply_error_def split: if_splits)
      from write_reply [OF this refl refl refl assms(1)] show ?thesis by blast
    qed
  qed
  then show ?thesis by (auto simp: answered_def forwarded_def upstream_def)
qed


section \<open>A small aggregator for the instances\<close>

definition demo_backend :: "mcp_conn option \<Rightarrow> backend" where
  "demo_backend c = \<lparr>b_used = True, b_alive = True, b_is_shell = False, b_pid = 42, b_prefix = ''app'',
     b_app_id = ''app'', b_conn = c, b_tools = Some (JArr [JObj [(''name'', JStr ''tap'')]])\<rparr>"

text \<open>One backend, and one agent call with the string id \<open>q\<close> in flight at it under local id 1.\<close>

definition demo_call :: inflight where
  "demo_call = \<lparr>f_used = True, f_local_id = 1, f_backend = 0, f_kind = INFLIGHT_AGENT, f_orig_id = Some (JStr ''q'')\<rparr>"

definition demo_agg :: "mcp_conn option \<Rightarrow> aggregator" where
  "demo_agg c = (aggregator_zero True)\<lparr>framing := FRAMING_NDJSON, backends := demo_backend c # replicate 31 backend_zero,
     inflights := demo_call # replicate 127 inflight_zero, next_local_id := 1, used_prefixes := [''app'']\<rparr>"

lemma demo_agg_simps [simp]:
  "framing (demo_agg c) = FRAMING_NDJSON" "backends (demo_agg c) = demo_backend c # replicate 31 backend_zero"
  "inflights (demo_agg c) = demo_call # replicate 127 inflight_zero" "next_local_id (demo_agg c) = 1"
  "stdout (demo_agg c) = []" "expose_diagnostics (demo_agg c)" "used_prefixes (demo_agg c) = [''app'']"
  by (simp_all add: demo_agg_def aggregator_zero_def)

lemma demo_agg_table: "table_ok (demo_agg c)"
  by (auto simp: table_ok_def MAX_INFLIGHT_def demo_call_def inflight_zero_def nth_Cons split: nat.splits)

lemma demo_agg_calls: "calls (demo_agg c) = [1 \<mapsto> (0, INFLIGHT_AGENT, Some (JStr ''q''))]"
proof
  fix n
  have "find_index (\<lambda>f. f_used f \<and> f_local_id f = n) (replicate 127 inflight_zero) = None"
    by (auto simp: find_index_None_iff inflight_zero_def)
  then show "calls (demo_agg c) n = [1 \<mapsto> (0, INFLIGHT_AGENT, Some (JStr ''q''))] n"
    by (auto simp: calls_def inflight_find_def call_of_def demo_call_def)
qed

theorem agent_request_accounted_witness:
  "\<exists>s'. handle_agent_frame (\<lambda>_. ''{}'') (\<lambda>_. Some (JObj [(''id'', JInt 7), (''method'', JStr ''ping'')])) ''?'' (demo_agg None) = Some s' \<and>
     stdout s' = [''{}'' @ [LF]] \<and> calls s' = calls (demo_agg None) \<and> table_ok s'"
proof -
  let ?print = "\<lambda>_ :: json. ''{}''" and ?parse = "\<lambda>_ :: bytes. Some (JObj [(''id'', JInt 7), (''method'', JStr ''ping'')])"
  have "\<exists>s'. handle_agent_frame ?print ?parse ''?'' (demo_agg None) = Some s'"
    by (simp add: handle_agent_frame_def agent_request_def write_frame_stdout_eq)
  then obtain s' where s': "handle_agent_frame ?print ?parse ''?'' (demo_agg None) = Some s'" by blast
  have one: "(1 :: u64) < - 1"
    by (simp add: word_less_nat_alt unsigned_minus_1_eq_mask mask_eq_exp_minus_1)
  from agent_request_accounted [OF demo_agg_table _ refl _ _ s', of "JInt 7" "''ping''"] one show ?thesis
    by (intro exI [of _ s'] conjI s') (simp_all add: dxr_stdio_encode_def cstr_def)
qed

section \<open>Responses\<close>

lemma reader_message_response:
  assumes "map_of kvs ''id'' = Some (JNum (u64_to_double n))" and "unat n < 2 ^ 53"
  shows "reader_message print oob idx (JObj kvs) s =
    (case inflight_find n s of None \<Rightarrow> Some s
     | Some i \<Rightarrow> reader_response print oob idx (JObj kvs) (u64_to_double n) s)"
  using assms by (auto simp: reader_message_def reader_response_def double_u64_roundtrip Let_def split: option.splits)

lemma reader_response_found:
  assumes "table_ok s" and "calls s n = Some (owner, k, orig)" and "unat n < 2 ^ 53"
  shows "\<exists>i. inflight_find n s = Some i \<and> inflight_release i s = release_call n s \<and>
    f_backend (inflights s ! i) = owner \<and> f_kind (inflights s ! i) = k \<and> f_orig_id (inflights s ! i) = orig \<and>
    double_to_u64 oob (u64_to_double n) = n"
  using assms by (auto simp: calls_def call_of_def release_call_def double_u64_roundtrip)

lemma release_call_frame [simp]:
  "stdout (release_call n s) = stdout s" "framing (release_call n s) = framing s"
  "backends (release_call n s) = backends s" "agent_initialized (release_call n s) = agent_initialized s"
  "next_local_id (release_call n s) = next_local_id s"
  by (auto simp: release_call_def inflight_release_def split: option.splits)

text \<open>C8. The response of the right backend to a call in flight reaches the agent as one message that
  differs from the backend's only in its id, which is the agent's own again, and ends the call; no other
  call in flight is touched.\<close>

theorem response_relayed:
  assumes "table_ok s" and "framing s \<noteq> FRAMING_UNKNOWN"
    and "calls s n = Some (idx, INFLIGHT_AGENT, Some i)" and "unat n < 2 ^ 53"
    and "map_of kvs ''id'' = Some (JNum (u64_to_double n))"
  shows "\<exists>s' kvs'. reader_message print oob idx (JObj kvs) s = Some s' \<and>
    stdout s' = stdout s @ [dxr_stdio_encode (framing s) (cstr (print (JObj kvs')))] \<and>
    map fst kvs' = map fst kvs \<and> map_of kvs' = (map_of kvs)(''id'' \<mapsto> i) \<and>
    calls s' = (calls s)(n := None) \<and> table_ok s'"
proof -
  let ?m = "replace_member ''id'' i kvs"
  obtain k where k: "inflight_find n s = Some k" "inflight_release k s = release_call n s"
    "f_backend (inflights s ! k) = idx" "f_kind (inflights s ! k) = INFLIGHT_AGENT"
    "f_orig_id (inflights s ! k) = Some i" "double_to_u64 oob (u64_to_double n) = n"
    using reader_response_found [OF assms(1,3,4)] by blast
  let ?s' = "(release_call n s)\<lparr>stdout := stdout s @ [upstream s (print (JObj ?m))]\<rparr>"
  have r: "reader_message print oob idx (JObj kvs) s = Some ?s'"
    unfolding reader_message_response [OF assms(5,4)] reader_response_def
    using k assms(2) by (simp add: write_frame_stdout_eq upstream_def)
  have c: "calls ?s' = calls (release_call n s)" by (rule calls_cong) simp
  have t: "table_ok ?s' = table_ok (release_call n s)" by (rule table_ok_cong) simp_all
  show ?thesis
    using r c t release_call_table [OF assms(1), of n] assms(5) map_of_replace_member [of "''id''" i kvs]
    by (intro exI [of _ ?s'] exI [of _ ?m] conjI) (auto simp: replace_member_fst upstream_def)
qed

theorem response_relayed_witness:
  "\<exists>s' kvs'. reader_message (\<lambda>_. ''{}'') (\<lambda>_. 0) 0 (JObj [(''result'', JNull), (''id'', JNum (u64_to_double 1))]) (demo_agg None) = Some s' \<and>
     stdout s' = [''{}'' @ [LF]] \<and> map_of kvs' = [''result'' \<mapsto> JNull, ''id'' \<mapsto> JStr ''q''] \<and> calls s' = (\<lambda>_. None)"
proof -
  have "\<exists>s' kvs'. reader_message (\<lambda>_. ''{}'') (\<lambda>_. 0) 0 (JObj [(''result'', JNull), (''id'', JNum (u64_to_double 1))]) (demo_agg None) = Some s' \<and>
    stdout s' = stdout (demo_agg None) @ [dxr_stdio_encode (framing (demo_agg None)) (cstr ''{}'')] \<and>
    map fst kvs' = map fst [(''result'', JNull), (''id'', JNum (u64_to_double 1))] \<and>
    map_of kvs' = (map_of [(''result'', JNull), (''id'', JNum (u64_to_double 1))])(''id'' \<mapsto> JStr ''q'') \<and>
    calls s' = (calls (demo_agg None))(1 := None) \<and> table_ok s'"
    by (rule response_relayed [OF demo_agg_table]) (simp_all add: demo_agg_calls)
  then show ?thesis
    by (auto simp: dxr_stdio_encode_def cstr_def demo_agg_calls fun_upd_twist)
qed

text \<open>C13. A response with the id of a call in flight at another backend is not relayed, but it ends that
  call: nothing is written, and the agent's request, still unanswered, is no longer in flight.\<close>

theorem response_cross_wired:
  assumes "table_ok s" and "calls s n = Some (owner, INFLIGHT_AGENT, Some i)" and "owner \<noteq> idx"
    and "unat n < 2 ^ 53" and "map_of kvs ''id'' = Some (JNum (u64_to_double n))"
  shows "\<exists>s'. reader_message print oob idx (JObj kvs) s = Some s' \<and> stdout s' = stdout s \<and>
    calls s' = (calls s)(n := None)"
proof -
  obtain k where k: "inflight_find n s = Some k" "inflight_release k s = release_call n s"
    "f_backend (inflights s ! k) = owner" "double_to_u64 oob (u64_to_double n) = n"
    using reader_response_found [OF assms(1,2,4)] by blast
  then have "reader_message print oob idx (JObj kvs) s = Some (release_call n s)"
    unfolding reader_message_response [OF assms(5,4)] reader_response_def
    using assms(3) by simp
  with release_call_table [OF assms(1)] show ?thesis by auto
qed

theorem response_cross_wired_witness:
  "\<exists>s'. reader_message (\<lambda>_. ''{}'') (\<lambda>_. 0) 5 (JObj [(''id'', JNum (u64_to_double 1))]) (demo_agg None) = Some s' \<and>
     stdout s' = [] \<and> calls s' = (\<lambda>_. None)"
proof -
  have "\<exists>s'. reader_message (\<lambda>_. ''{}'') (\<lambda>_. 0) 5 (JObj [(''id'', JNum (u64_to_double 1))]) (demo_agg None) = Some s' \<and>
    stdout s' = stdout (demo_agg None) \<and> calls s' = (calls (demo_agg None))(1 := None)"
    by (rule response_cross_wired [OF demo_agg_table, where owner = 0 and i = "JStr ''q''"]) (simp_all add: demo_agg_calls)
  then show ?thesis by (simp add: demo_agg_calls)
qed

end
