(* ===== verification/Agg_Routing.thy ===== *)
theory Agg_Routing
  imports Agg_Calls
begin

text \<open>
  Teardown of a backend, the merged tool list, and the route a listed tool name takes back to the
  backend that offers the tool.
\<close>

section \<open>Teardown\<close>

abbreviation held_by :: "nat \<Rightarrow> inflight \<Rightarrow> bool" where
  "held_by idx f \<equiv> f_used f \<and> f_backend f = idx"

definition exit_error :: "(json \<Rightarrow> bytes) \<Rightarrow> aggregator \<Rightarrow> inflight \<Rightarrow> bytes" where
  "exit_error print s f = upstream s (jsonrpc_error_str print (f_orig_id f) (-32000) ''backend exited with the call in flight'')"

definition clear_held :: "nat \<Rightarrow> nat list \<Rightarrow> inflight list \<Rightarrow> inflight list" where
  "clear_held idx is fs = foldl (\<lambda>fs i. if held_by idx (fs ! i) then fs[i := inflight_zero] else fs) fs is"

lemma length_clear_held: "length (clear_held idx is fs) = length fs"
  by (induction "is" arbitrary: fs) (auto simp: clear_held_def)

lemma nth_clear_held:
  "j < length fs \<Longrightarrow> clear_held idx is fs ! j = (if j \<in> set is \<and> held_by idx (fs ! j) then inflight_zero else fs ! j)"
proof (induction "is" arbitrary: fs)
  case Nil
  then show ?case by (simp add: clear_held_def)
next
  case (Cons i "is")
  let ?fs = "if held_by idx (fs ! i) then fs[i := inflight_zero] else fs"
  have "clear_held idx (i # is) fs = clear_held idx is ?fs" by (simp add: clear_held_def)
  with Cons.IH [of ?fs] Cons.prems show ?case
    by (cases "j = i") (auto simp: inflight_zero_def)
qed

lemma teardown_inflight_eq:
  assumes "distinct is" and "framing s \<noteq> FRAMING_UNKNOWN" and "set is \<subseteq> {..<length (inflights s)}"
  shows "teardown_inflight print idx is s =
    Some (s\<lparr>inflights := clear_held idx is (inflights s),
            stdout := stdout s @ map (exit_error print s)
              (filter (\<lambda>f. held_by idx f \<and> f_kind f = INFLIGHT_AGENT) (map ((!) (inflights s)) is))\<rparr>)"
  using assms
proof (induction "is" arbitrary: s)
  case Nil
  then show ?case by (simp add: clear_held_def)
next
  case (Cons i "is")
  let ?fl = "inflights s ! i"
  show ?case
  proof (cases "held_by idx ?fl")
    case False
    have "teardown_inflight print idx (i # is) s = teardown_inflight print idx is s"
      using False by (auto simp: Let_def)
    moreover have "clear_held idx (i # is) (inflights s) = clear_held idx is (inflights s)"
      using False by (auto simp: clear_held_def)
    moreover have "distinct is" "set is \<subseteq> {..<length (inflights s)}" using Cons.prems by auto
    moreover have "filter (\<lambda>f. held_by idx f \<and> f_kind f = INFLIGHT_AGENT) (map ((!) (inflights s)) (i # is)) =
        filter (\<lambda>f. held_by idx f \<and> f_kind f = INFLIGHT_AGENT) (map ((!) (inflights s)) is)"
      using False by auto
    ultimately show ?thesis using Cons.IH [OF _ Cons.prems(2)] by presburger
  next
    case True
    let ?s1 = "if f_kind ?fl = INFLIGHT_AGENT then s\<lparr>stdout := stdout s @ [exit_error print s ?fl]\<rparr> else s"
    let ?s2 = "inflight_release i ?s1"
    have step: "teardown_inflight print idx (i # is) s = teardown_inflight print idx is ?s2"
      using True Cons.prems(2) by (simp add: Let_def write_frame_stdout_eq exit_error_def)
    have s2: "inflights ?s2 = (inflights s)[i := inflight_zero]" "framing ?s2 = framing s"
      by (simp_all add: inflight_release_def)
    have m: "map ((!) ((inflights s)[i := inflight_zero])) is = map ((!) (inflights s)) is"
      using Cons.prems(1) by (intro map_cong refl nth_list_update_neq) auto
    have e: "exit_error print ?s2 = exit_error print s"
      by (rule ext) (simp add: exit_error_def upstream_def s2(2))
    have ih: "teardown_inflight print idx is ?s2 =
      Some (?s2\<lparr>inflights := clear_held idx is (inflights ?s2),
            stdout := stdout ?s2 @ map (exit_error print ?s2)
              (filter (\<lambda>f. held_by idx f \<and> f_kind f = INFLIGHT_AGENT) (map ((!) (inflights ?s2)) is))\<rparr>)"
      by (rule Cons.IH) (use Cons.prems s2 in auto)
    have c: "clear_held idx (i # is) (inflights s) = clear_held idx is ((inflights s)[i := inflight_zero])"
      using True by (simp add: clear_held_def)
    show ?thesis unfolding step ih e s2(1) m c using True by (simp add: inflight_release_def)
  qed
qed

lemma teardown_eq:
  assumes "framing s \<noteq> FRAMING_UNKNOWN" and "length (inflights s) = MAX_INFLIGHT"
  shows "backend_teardown_locked print idx s =
    Some (s\<lparr>backends := (backends s)[idx := backend_zero],
            inflights := map (\<lambda>f. if held_by idx f then inflight_zero else f) (inflights s),
            stdout := stdout s @ map (exit_error print s)
              (filter (\<lambda>f. held_by idx f \<and> f_kind f = INFLIGHT_AGENT) (inflights s))\<rparr>)"
proof -
  have "map ((!) (inflights s)) [0..<MAX_INFLIGHT] = inflights s"
    using map_nth [of "inflights s"] assms(2) by simp
  moreover have "clear_held idx [0..<MAX_INFLIGHT] (inflights s) =
      map (\<lambda>f. if held_by idx f then inflight_zero else f) (inflights s)"
    using assms(2) by (intro nth_equalityI) (simp_all add: length_clear_held nth_clear_held)
  ultimately show ?thesis
    using assms by (simp add: backend_teardown_locked_def teardown_inflight_eq lessThan_atLeast0)
qed

lemma option_filter_eq:
  assumes "\<And>c. a = Some c \<longleftrightarrow> b = Some c \<and> \<not> P c"
  shows "a = (case b of Some c \<Rightarrow> if P c then None else Some c | None \<Rightarrow> None)"
proof (cases b)
  case None
  with assms have "a \<noteq> Some c" for c by simp
  with None show ?thesis by (cases a) auto
next
  case (Some c)
  show ?thesis
  proof (cases "P c")
    case True
    with assms Some have "a \<noteq> Some d" for d by auto
    with True Some show ?thesis by (cases a) auto
  next
    case False
    with assms [of c] Some show ?thesis by simp
  qed
qed

lemma calls_teardown:
  assumes "table_ok s"
  shows "table_ok (s\<lparr>backends := bs, inflights := map (\<lambda>f. if held_by idx f then inflight_zero else f) (inflights s), stdout := out\<rparr>)"
    (is "table_ok ?s'")
    and "calls (s\<lparr>backends := bs, inflights := map (\<lambda>f. if held_by idx f then inflight_zero else f) (inflights s), stdout := out\<rparr>) n =
      (case calls s n of Some c \<Rightarrow> if fst c = idx then None else Some c | None \<Rightarrow> None)"
proof -
  show ok: "table_ok ?s'"
    using assms by (auto simp: table_ok_def inflight_zero_def)
  have "calls ?s' n = Some c \<longleftrightarrow> calls s n = Some c \<and> \<not> fst c = idx" for c
    unfolding calls_Some_iff [OF ok] calls_Some_iff [OF assms]
    by (auto simp: call_of_def inflight_zero_def split: if_splits)
  then show "calls ?s' n = (case calls s n of Some c \<Rightarrow> if fst c = idx then None else Some c | None \<Rightarrow> None)"
    by (rule option_filter_eq)
qed

text \<open>C10. When a backend dies, each agent call in flight at it is failed exactly once, by an error that
  carries the agent's id, in the order of the table; afterwards nothing is in flight at it, every other
  call is in flight as before, and its slot is free.\<close>

theorem teardown_fails_calls:
  assumes "table_ok s" and "framing s \<noteq> FRAMING_UNKNOWN" and "idx < length (backends s)"
    and "backend_teardown_locked print idx s = Some s'"
  shows "stdout s' = stdout s @ map (\<lambda>f. dxr_stdio_encode (framing s) (cstr
        (jsonrpc_error_str print (f_orig_id f) (-32000) ''backend exited with the call in flight'')))
      (filter (\<lambda>f. f_used f \<and> f_backend f = idx \<and> f_kind f = INFLIGHT_AGENT) (inflights s)) \<and>
    calls s' = (\<lambda>n. case calls s n of Some c \<Rightarrow> if fst c = idx then None else Some c | None \<Rightarrow> None) \<and>
    backends s' = (backends s)[idx := backend_zero] \<and> table_ok s'"
proof -
  have l: "length (inflights s) = MAX_INFLIGHT" using assms(1) by (simp add: table_ok_def)
  from teardown_eq [OF assms(2) l, of print idx] assms(4)
  have s': "s' = s\<lparr>backends := (backends s)[idx := backend_zero],
            inflights := map (\<lambda>f. if held_by idx f then inflight_zero else f) (inflights s),
            stdout := stdout s @ map (exit_error print s)
              (filter (\<lambda>f. held_by idx f \<and> f_kind f = INFLIGHT_AGENT) (inflights s))\<rparr>" by simp
  show ?thesis
    using calls_teardown [OF assms(1)] by (auto simp: s' exit_error_def upstream_def conj_assoc)
qed

lemma demo_teardown:
  "filter (\<lambda>f. f_used f \<and> f_backend f = 0 \<and> f_kind f = INFLIGHT_AGENT) (inflights (demo_agg c)) = [demo_call]"
  by (simp add: demo_call_def inflight_zero_def)

theorem teardown_fails_calls_witness:
  "\<exists>s'. backend_teardown_locked (\<lambda>_. ''{}'') 0 (demo_agg None) = Some s' \<and> stdout s' = [''{}'' @ [LF]] \<and>
     calls s' = (\<lambda>_. None) \<and> b_used (backends s' ! 0) = False"
proof -
  have l: "length (inflights (demo_agg None)) = MAX_INFLIGHT" by (simp add: MAX_INFLIGHT_def)
  obtain s' where s': "backend_teardown_locked (\<lambda>_. ''{}'') 0 (demo_agg None) = Some s'"
    using teardown_eq [of "demo_agg None", OF _ l] by simp
  from teardown_fails_calls [OF demo_agg_table _ _ s', unfolded demo_teardown]
  have r: "stdout s' = [''{}'' @ [LF]]" "backends s' = backend_zero # replicate 31 backend_zero"
    "calls s' = (\<lambda>n. case calls (demo_agg None) n of Some c \<Rightarrow> if fst c = 0 then None else Some c | None \<Rightarrow> None)"
    by (simp_all add: dxr_stdio_encode_def cstr_def jsonrpc_error_str_def)
  have "calls s' = (\<lambda>_. None)" unfolding r(3) demo_agg_calls by auto
  with r s' show ?thesis by (simp add: backend_zero_def)
qed


section \<open>From the tool list back to the backend\<close>

lemma build_merged_tools_eq:
  "build_merged_tools s =
     JArr (list_apps_tool # concat (map (backend_entries (expose_diagnostics s)) (backends s)))"
proof -
  have "foldl cJSON_AddItemToArray (JArr ys) xs = JArr (ys @ xs)" for xs ys
    by (induction xs arbitrary: ys) auto
  then show ?thesis by (simp add: build_merged_tools_def json_simps)
qed

lemma merged_entry_name:
  assumes "tool_exposed expose t" and "cJSON_GetObjectItemCaseSensitive (Some t) ''name'' = Some (JStr nm)"
  shows "\<exists>e. merged_entry expose p t = Some e \<and>
    cJSON_GetObjectItemCaseSensitive (Some e) ''name'' = Some (JStr (prefixed_tool p nm))"
proof -
  obtain kvs where t: "t = JObj kvs" using assms(2) by (cases t) auto
  let ?kvs = "replace_member ''name'' (JStr (prefixed_tool p nm)) kvs"
  have n: "map_of ?kvs ''name'' = Some (JStr (prefixed_tool p nm))"
    using assms(2) t by (simp add: map_of_replace_member)
  show ?thesis
  proof (cases "map_of ?kvs ''_meta''")
    case None
    then show ?thesis using assms t n by (simp add: merged_entry_def Let_def map_of_append map_add_def)
  next
    case (Some m)
    then show ?thesis using assms t n
      by (simp add: merged_entry_def Let_def map_of_replace_member [of "''_meta''"])
  qed
qed

lemma strstr_after_prefix:
  "CHR ''_'' \<notin> set p \<Longrightarrow> strstr (p @ NS_SEP @ r) NS_SEP = Some (length p)"
  by (induction p) (auto simp: NS_SEP_def)

lemma prefix_no_sep: "prefix_chars p \<Longrightarrow> CHR ''_'' \<notin> set p"
  by (auto simp: prefix_chars_def is_lower_alnum_def)

text \<open>A tool of a live backend is in the list under its prefixed name.\<close>

lemma listed_entry:
  assumes "b \<in> set (backends s)" and "b_used b" and "b_alive b" and "b_tools b = Some (JArr ts)" and "t \<in> set ts"
    and "tool_exposed (expose_diagnostics s) t" and "cJSON_GetObjectItemCaseSensitive (Some t) ''name'' = Some (JStr nm)"
  shows "\<exists>es. build_merged_tools s = JArr es \<and>
    (\<exists>e\<in>set es. cJSON_GetObjectItemCaseSensitive (Some e) ''name'' = Some (JStr (prefixed_tool (b_prefix b) nm)))"
proof -
  obtain e where e: "merged_entry (expose_diagnostics s) (b_prefix b) t = Some e"
    "cJSON_GetObjectItemCaseSensitive (Some e) ''name'' = Some (JStr (prefixed_tool (b_prefix b) nm))"
    using merged_entry_name [OF assms(6,7), of "b_prefix b"] by blast
  have "e \<in> set (backend_entries (expose_diagnostics s) b)"
    using e(1) assms(2-5) by (force simp: backend_entries_def List.map_filter_def)
  then have "e \<in> set (concat (map (backend_entries (expose_diagnostics s)) (backends s)))"
    using assms(1) by auto
  with e(2) show ?thesis unfolding build_merged_tools_eq by auto
qed

text \<open>A call of a prefixed name goes to the backend \<open>route\<close> finds, under the bare name.\<close>

lemma tools_call_routed:
  assumes "valuestring (cJSON_GetObjectItemCaseSensitive params ''name'') = Some (p @ NS_SEP @ nm)"
    and "p @ NS_SEP @ nm \<noteq> LIST_APPS" and "prefix_chars p" and "nm \<noteq> []" and "route (p @ NS_SEP @ nm) (length p) s = Some idx"
  shows "agg_tools_call print rid params s =
    (case inflight_alloc idx INFLIGHT_AGENT rid s of
       None \<Rightarrow> reply_error print rid (-32000) ''too many calls in flight'' s
     | Some (i, s1) \<Rightarrow>
         Option.bind (backend_write idx (print (forward_request (f_local_id (inflights s1 ! i)) nm
             (cJSON_GetObjectItemCaseSensitive params ''arguments''))) s1)
           (\<lambda>(ok, s2). if ok then Some s2
              else reply_error print rid (-32000) ''backend write failed'' (inflight_release i s2)))"
proof -
  have sep: "strstr (p @ NS_SEP @ nm) NS_SEP = Some (length p)"
    using prefix_no_sep [OF assms(3)] by (rule strstr_after_prefix)
  have bare: "drop (length p + 2) (p @ NS_SEP @ nm) = nm" by (simp add: NS_SEP_def)
  have pl: "length p \<noteq> 0" using assms(3) by (simp add: prefix_chars_def)
  show ?thesis
    unfolding agg_tools_call_def assms(1) option.case
    by (simp only: assms(2,4,5) sep pl bare Let_def option.case if_False simp_thms)
qed

text \<open>What such a call can do to the whole state: nothing but one error to the agent when all call slots are
  taken; else the frame reaches the backend and the call takes a slot; or the write fails behind a part
  of the frame, the slot is given back and the agent gets one error.\<close>

definition refused :: "(json \<Rightarrow> bytes) \<Rightarrow> json option \<Rightarrow> aggregator \<Rightarrow> aggregator \<Rightarrow> bool" where
  "refused print rid s s' \<longleftrightarrow>
     s' = s\<lparr>stdout := stdout s @ [upstream s (jsonrpc_error_str print rid (-32000) ''too many calls in flight'')]\<rparr>"

definition sent_call :: "bytes \<Rightarrow> json option \<Rightarrow> nat \<Rightarrow> aggregator \<Rightarrow> aggregator \<Rightarrow> bool" where
  "sent_call fwd rid idx s s' \<longleftrightarrow>
     (\<exists>i c. i < length (inflights s) \<and> \<not> f_used (inflights s ! i) \<and>
        conn_sent c = conn_sent (b_conn (backends s ! idx)) @ encode_frame fwd \<and>
        s' = s\<lparr>next_local_id := next_local_id s + 1,
               inflights := (inflights s)[i := \<lparr>f_used = True, f_local_id = next_local_id s + 1, f_backend = idx,
                 f_kind = INFLIGHT_AGENT, f_orig_id = rid\<rparr>],
               backends := (backends s)[idx := (backends s ! idx)\<lparr>b_conn := c\<rparr>]\<rparr>)"

definition write_failed :: "(json \<Rightarrow> bytes) \<Rightarrow> bytes \<Rightarrow> json option \<Rightarrow> nat \<Rightarrow> aggregator \<Rightarrow> aggregator \<Rightarrow> bool" where
  "write_failed print fwd rid idx s s' \<longleftrightarrow>
     (\<exists>i c k. i < length (inflights s) \<and> \<not> f_used (inflights s ! i) \<and> k < length (encode_frame fwd) \<and>
        conn_sent c = conn_sent (b_conn (backends s ! idx)) @ take k (encode_frame fwd) \<and>
        s' = s\<lparr>next_local_id := next_local_id s + 1,
               inflights := (inflights s)[i := inflight_zero],
               backends := (backends s)[idx := (backends s ! idx)\<lparr>b_conn := c\<rparr>],
               stdout := stdout s @ [upstream s (jsonrpc_error_str print rid (-32000) ''backend write failed'')]\<rparr>)"

lemma write_frame_conn_cases:
  assumes "conn_valid c" and "NUL \<notin> set body" and "length body < 10 ^ 40"
    and "write_frame_conn c body = Some (ok, c')"
  shows "if ok then conn_sent c' = conn_sent c @ encode_frame body
    else \<not> sending c \<and> (\<exists>k < length (encode_frame body). conn_sent c' = conn_sent c @ take k (encode_frame body))"
proof -
  have b: "c_strlen body = length body" using assms(2) by (simp add: c_strlen_def cstr_id)
  with assms(4) have w: "write_parts mcp_conn_write c (cl_header (length body)) body = Some (ok, c')"
    by (simp add: write_frame_conn_def dxr_conn_write_frame_def)
  show ?thesis
    using posix_sink.write_parts_cases [OF assms(1) w] parts_sending [OF _ w] encode_frame_parts [OF assms(3)]
    by (cases ok) auto
qed

lemma write_frame_conn_takes:
  assumes "NUL \<notin> set body" and "length body < 10 ^ 40" and "can_take (length (encode_frame body)) c"
  shows "\<exists>c'. write_frame_conn c body = Some (True, c')"
proof -
  have b: "c_strlen body = length body" using assms(1) by (simp add: c_strlen_def cstr_id)
  have "can_take (0 + length (cl_header (length body) @ body)) c"
    using assms(3) encode_frame_parts [OF assms(2)] by simp
  from parts_take [OF this] b show ?thesis by (auto simp: write_frame_conn_def dxr_conn_write_frame_def)
qed

lemma tools_call_sends:
  assumes "valuestring (cJSON_GetObjectItemCaseSensitive params ''name'') = Some (p @ NS_SEP @ nm)"
    and "p @ NS_SEP @ nm \<noteq> LIST_APPS" and "prefix_chars p" and "nm \<noteq> []" and "route (p @ NS_SEP @ nm) (length p) s = Some idx"
    and "conn_valid (b_conn (backends s ! idx))"
    and "fwd = print (forward_request (next_local_id s + 1) nm (cJSON_GetObjectItemCaseSensitive params ''arguments''))"
    and "NUL \<notin> set fwd" and "length fwd < 10 ^ 40"
    and "agg_tools_call print rid params s = Some s'"
  shows "if \<forall>f\<in>set (inflights s). f_used f then refused print rid s s'
    else sent_call fwd rid idx s s' \<or>
      \<not> sending (b_conn (backends s ! idx)) \<and> write_failed print fwd rid idx s s'"
proof (cases "inflight_alloc idx INFLIGHT_AGENT rid s")
  case None
  then show ?thesis
    using assms(10) [unfolded tools_call_routed [OF assms(1-5)]] alloc_cases(1) [OF None]
    by (auto simp: refused_def reply_error_def write_frame_stdout_eq split: if_splits)
next
  case (Some r)
  obtain i s1 where r: "r = (i, s1)" by (cases r)
  from alloc_cases(2) [OF Some [unfolded r]]
  have i: "i < length (inflights s)" "\<not> f_used (inflights s ! i)"
    and s1: "s1 = s\<lparr>next_local_id := next_local_id s + 1,
            inflights := (inflights s)[i := \<lparr>f_used = True, f_local_id = next_local_id s + 1,
              f_backend = idx, f_kind = INFLIGHT_AGENT, f_orig_id = rid\<rparr>]\<rparr>" by auto
  then have id: "f_local_id (inflights s1 ! i) = next_local_id s + 1" by simp
  have free: "\<not> (\<forall>f\<in>set (inflights s). f_used f)" using i by auto
  obtain ok s2 where w: "backend_write idx fwd s1 = Some (ok, s2)"
    and fin: "(if ok then Some s2 else reply_error print rid (-32000) ''backend write failed'' (inflight_release i s2)) = Some s'"
    using assms(10)
    unfolding tools_call_routed [OF assms(1-5)] Some r option.case prod.case id assms(7) [symmetric] bind_eq_Some_conv
    by auto
  from w s1 obtain c where c: "write_frame_conn (b_conn (backends s ! idx)) fwd = Some (ok, c)"
    and s2: "s2 = s1\<lparr>backends := (backends s)[idx := (backends s ! idx)\<lparr>b_conn := c\<rparr>]\<rparr>"
    by (auto simp: backend_write_eq)
  note wc = write_frame_conn_cases [OF assms(6,8,9) c]
  show ?thesis
  proof (cases ok)
    case True
    then have "s' = s2" "conn_sent c = conn_sent (b_conn (backends s ! idx)) @ encode_frame fwd"
      using fin wc by simp_all
    then have "sent_call fwd rid idx s s'"
      unfolding sent_call_def using i by (intro exI [of _ i] exI [of _ c]) (simp add: s2 s1)
    then show ?thesis unfolding if_not_P [OF free] by (rule disjI1)
  next
    case False
    then obtain k where k: "\<not> sending (b_conn (backends s ! idx))" "k < length (encode_frame fwd)"
      "conn_sent c = conn_sent (b_conn (backends s ! idx)) @ take k (encode_frame fwd)" using wc by auto
    have "s' = s\<lparr>next_local_id := next_local_id s + 1, inflights := (inflights s)[i := inflight_zero],
        backends := (backends s)[idx := (backends s ! idx)\<lparr>b_conn := c\<rparr>],
        stdout := stdout s @ [upstream s (jsonrpc_error_str print rid (-32000) ''backend write failed'')]\<rparr>"
      using fin False
      by (auto simp: reply_error_def write_frame_stdout_eq upstream_def inflight_release_def s2 s1 split: if_splits)
    then have "write_failed print fwd rid idx s s'" using i k(2,3) by (auto simp: write_failed_def)
    then show ?thesis unfolding if_not_P [OF free] using k(1) by blast
  qed
qed

text \<open>A call blocks only while the agent's framing is unknown or the backend does not take the frame.\<close>

lemma tools_call_returns:
  assumes "valuestring (cJSON_GetObjectItemCaseSensitive params ''name'') = Some (p @ NS_SEP @ nm)"
    and "p @ NS_SEP @ nm \<noteq> LIST_APPS" and "prefix_chars p" and "nm \<noteq> []" and "route (p @ NS_SEP @ nm) (length p) s = Some idx"
    and "fwd = print (forward_request (next_local_id s + 1) nm (cJSON_GetObjectItemCaseSensitive params ''arguments''))"
    and "NUL \<notin> set fwd" and "length fwd < 10 ^ 40"
    and "can_take (length (encode_frame fwd)) (b_conn (backends s ! idx))" and "framing s \<noteq> FRAMING_UNKNOWN"
  shows "\<exists>s'. agg_tools_call print rid params s = Some s'"
proof (cases "inflight_alloc idx INFLIGHT_AGENT rid s")
  case None
  then show ?thesis
    unfolding tools_call_routed [OF assms(1-5)] using assms(10) by (simp add: reply_error_def write_frame_stdout_eq)
next
  case (Some r)
  obtain i s1 where r: "r = (i, s1)" by (cases r)
  from alloc_cases(2) [OF Some [unfolded r]]
  have s1: "backends s1 = backends s" "f_local_id (inflights s1 ! i) = next_local_id s + 1" by auto
  obtain c where "write_frame_conn (b_conn (backends s ! idx)) fwd = Some (True, c)"
    using write_frame_conn_takes [OF assms(7-9)] by blast
  then have "\<exists>s2. backend_write idx fwd s1 = Some (True, s2)" by (simp add: backend_write_def s1(1))
  then show ?thesis
    unfolding tools_call_routed [OF assms(1-5)] Some r option.case prod.case s1(2) assms(6) [symmetric] by auto
qed

end
