(* ===== verification/Agg_System.thy ===== *)
theory Agg_System
  imports Agg_Routing
begin

text \<open>
  The aggregator as a whole: the step relation that interleaves the agent loop, the backends' readers,
  the poll thread and the setup threads, and the invariants of its reachable states.  One step is one
  agent message, one pass of a reader, one poll, or one of the critical sections of a setup thread.
\<close>

section \<open>Interleavings\<close>

text \<open>A setup thread: whether it is for the shell, its process id, and, once it has been through the
  registration, whether it registered a backend.\<close>

type_synonym setup_thread = "bool \<times> int \<times> bool option"

datatype agg_event =
    AgentMessage dxr_stdio_framing bytes
  | ReaderPass nat
  | Poll "int list"
  | SetupGiveUp nat
  | SetupRegister nat bool "mcp_conn option" bytes "json option"
  | SetupFinish nat

inductive agg_step ::
    "(json \<Rightarrow> bytes) \<Rightarrow> (bytes \<Rightarrow> json option) \<Rightarrow> (dbl \<Rightarrow> u64) \<Rightarrow> (int \<Rightarrow> bytes) \<Rightarrow> int \<Rightarrow>
       aggregator \<times> setup_thread list \<Rightarrow> agg_event \<Rightarrow> aggregator \<times> setup_thread list \<Rightarrow> bool"
  for print parse oob exe_path self where
  agent: "f \<noteq> FRAMING_UNKNOWN \<Longrightarrow> agent_step print parse f body s = Some s' \<Longrightarrow>
     agg_step print parse oob exe_path self (s, ts) (AgentMessage f body) (s', ts)"
| reader: "idx < length (backends s) \<Longrightarrow> b_used (backends s ! idx) \<Longrightarrow>
     backend_reader_pass print parse oob idx s = Some (go, s') \<Longrightarrow>
     agg_step print parse oob exe_path self (s, ts) (ReaderPass idx) (s', ts)"
| poll: "poll_round self pids s = (fresh, try_shell, s') \<Longrightarrow>
     agg_step print parse oob exe_path self (s, ts) (Poll pids)
       (s', ts @ map (\<lambda>p. (False, p, None)) fresh @ (if try_shell then [(True, 0, None)] else []))"
| give_up: "k < length ts \<Longrightarrow> ts ! k = (sh, p, None) \<Longrightarrow>
     agg_step print parse oob exe_path self (s, ts) (SetupGiveUp k) (connecting_remove sh p s, remove_at k ts)"
| register: "k < length ts \<Longrightarrow> ts ! k = (sh, p, None) \<Longrightarrow> conn_valid c \<Longrightarrow>
     backend_register print exe_path ok sh p c aid tool_list s = Some (registered, s') \<Longrightarrow>
     agg_step print parse oob exe_path self (s, ts) (SetupRegister k ok c aid tool_list) (s', ts[k := (sh, p, Some registered)])"
| finish: "k < length ts \<Longrightarrow> ts ! k = (sh, p, Some registered) \<Longrightarrow>
     (if registered then emit_list_changed_upstream (connecting_remove sh p s) else Some (connecting_remove sh p s)) = Some s' \<Longrightarrow>
     agg_step print parse oob exe_path self (s, ts) (SetupFinish k) (s', remove_at k ts)"

text \<open>Runs, with the number of their steps.\<close>

inductive agg_run ::
    "(json \<Rightarrow> bytes) \<Rightarrow> (bytes \<Rightarrow> json option) \<Rightarrow> (dbl \<Rightarrow> u64) \<Rightarrow> (int \<Rightarrow> bytes) \<Rightarrow> int \<Rightarrow> bool \<Rightarrow> nat \<Rightarrow>
       aggregator \<times> setup_thread list \<Rightarrow> bool"
  for print parse oob exe_path self expose where
  init: "agg_run print parse oob exe_path self expose 0 (aggregator_zero expose, [])"
| step: "agg_run print parse oob exe_path self expose n x \<Longrightarrow> agg_step print parse oob exe_path self x e y \<Longrightarrow>
     agg_run print parse oob exe_path self expose (Suc n) y"

inductive_cases agg_stepE: "agg_step print parse oob exe_path self (s, ts) e y"

section \<open>What the operations leave unchanged\<close>

definition ident :: "backend \<Rightarrow> bool \<times> bool \<times> bool \<times> int \<times> bytes" where
  "ident b = (b_used b, b_alive b, b_is_shell b, b_pid b, b_prefix b)"

text \<open>Membership and prefixes are the same.\<close>

definition same_members :: "aggregator \<Rightarrow> aggregator \<Rightarrow> bool" where
  "same_members s s' \<longleftrightarrow> map ident (backends s') = map ident (backends s) \<and>
     connecting s' = connecting s \<and> shell_connecting s' = shell_connecting s \<and>
     used_prefixes s' = used_prefixes s"

lemma same_members_refl: "same_members s s"
  by (simp add: same_members_def)

lemma same_members_trans: "same_members a b \<Longrightarrow> same_members b c \<Longrightarrow> same_members a c"
  by (simp add: same_members_def)

lemma same_membersI [frame_rules]:
  "backends s' = backends s \<Longrightarrow> connecting s' = connecting s \<Longrightarrow> shell_connecting s' = shell_connecting s \<Longrightarrow>
     used_prefixes s' = used_prefixes s \<Longrightarrow> same_members s s'"
  by (simp add: same_members_def)

lemma map_ident_update: "ident b = ident (bs ! i) \<Longrightarrow> map ident (bs[i := b]) = map ident bs"
  by (cases "i < length bs") (simp_all add: map_update list_update_same_conv list_update_beyond)

lemma write_frame_stdout_frame:
  "write_frame_stdout b s = Some s' \<Longrightarrow> s' = s\<lparr>stdout := stdout s @ [upstream s b]\<rparr>"
  by (auto simp: write_frame_stdout_eq split: if_splits)

lemma emit_frame: "emit_list_changed_upstream s = Some s' \<Longrightarrow> \<exists>out. s' = s\<lparr>stdout := out\<rparr>"
proof (cases "agent_initialized s")
  case True
  assume "emit_list_changed_upstream s = Some s'"
  with True show ?thesis by (auto simp: emit_list_changed_upstream_def dest: write_frame_stdout_frame)
next
  case False
  assume "emit_list_changed_upstream s = Some s'"
  with False have "s' = s\<lparr>stdout := stdout s\<rparr>" by (simp add: emit_list_changed_upstream_def)
  then show ?thesis by blast
qed

lemma backend_write_frame:
  assumes "backend_write idx body s = Some (ok, s')"
  shows "same_members s s'" "inflights s' = inflights s" "next_local_id s' = next_local_id s"
    "framing s' = framing s" "agent_initialized s' = agent_initialized s" "stdout s' = stdout s"
proof -
  obtain c where s': "s' = s\<lparr>backends := (backends s)[idx := (backends s ! idx)\<lparr>b_conn := c\<rparr>]\<rparr>"
    using assms by (auto simp: backend_write_eq)
  have "map ident ((backends s)[idx := (backends s ! idx)\<lparr>b_conn := c\<rparr>]) = map ident (backends s)"
    by (rule map_ident_update) (simp add: ident_def)
  then show "same_members s s'" by (simp add: s' same_members_def)
qed (use assms in \<open>auto simp: backend_write_eq\<close>)

lemma same_members_at:
  assumes "same_members s s'"
  shows "length (backends s') = length (backends s)"
    and "i < length (backends s) \<Longrightarrow> ident (backends s' ! i) = ident (backends s ! i)"
proof -
  show l: "length (backends s') = length (backends s)"
    using assms by (metis same_members_def length_map)
  show "ident (backends s' ! i) = ident (backends s ! i)" if "i < length (backends s)"
    using assms that l by (metis same_members_def nth_map)
qed


section \<open>The table of calls in every reachable state\<close>

text \<open>Every call in flight is at a live backend, and agent calls have an id and an agent whose framing is known.\<close>

definition table_inv :: "nat \<Rightarrow> aggregator \<Rightarrow> bool" where
  "table_inv n s \<longleftrightarrow> table_ok s \<and> unat (next_local_id s) \<le> n \<and>
     (\<forall>m idx k orig. calls s m = Some (idx, k, orig) \<longrightarrow>
        idx < length (backends s) \<and> b_used (backends s ! idx) \<and>
        (k = INFLIGHT_AGENT \<longrightarrow> orig \<noteq> None \<and> framing s \<noteq> FRAMING_UNKNOWN)) \<and>
     (agent_initialized s \<longrightarrow> framing s \<noteq> FRAMING_UNKNOWN)"

lemma table_invD:
  assumes "table_inv n s"
  shows "table_ok s" "unat (next_local_id s) \<le> n"
    "calls s m = Some (idx, k, orig) \<Longrightarrow> idx < length (backends s)"
    "calls s m = Some (idx, k, orig) \<Longrightarrow> b_used (backends s ! idx)"
    "calls s m = Some (idx, INFLIGHT_AGENT, orig) \<Longrightarrow> orig \<noteq> None \<and> framing s \<noteq> FRAMING_UNKNOWN"
    "agent_initialized s \<Longrightarrow> framing s \<noteq> FRAMING_UNKNOWN"
  using assms by (auto simp: table_inv_def)

lemma table_inv_mono: "table_inv n s \<Longrightarrow> n \<le> n' \<Longrightarrow> table_inv n' s"
  by (auto simp: table_inv_def)

text \<open>It depends on the table, the framing, and which slots are used.\<close>

lemma table_inv_cong:
  assumes "table_inv n s" and "inflights s' = inflights s" and "next_local_id s' = next_local_id s"
    and "framing s' = framing s" and "agent_initialized s' \<longrightarrow> agent_initialized s \<or> framing s \<noteq> FRAMING_UNKNOWN"
    and "length (backends s') = length (backends s)"
    and "\<And>i. i < length (backends s) \<Longrightarrow> b_used (backends s ! i) \<Longrightarrow> b_used (backends s' ! i)"
  shows "table_inv n s'"
  unfolding table_inv_def
proof (intro conjI allI impI)
  show "table_ok s'" using table_ok_cong [OF assms(2,3)] table_invD(1) [OF assms(1)] by simp
  show "unat (next_local_id s') \<le> n" using assms(3) table_invD(2) [OF assms(1)] by simp
  show "framing s' \<noteq> FRAMING_UNKNOWN" if "agent_initialized s'"
    using that assms(4,5) table_invD(6) [OF assms(1)] by auto
  fix m idx k orig
  assume c: "calls s' m = Some (idx, k, orig)"
  then have c0: "calls s m = Some (idx, k, orig)" by (simp add: calls_cong [OF assms(2)])
  show "idx < length (backends s')" using table_invD(3) [OF assms(1) c0] assms(6) by simp
  show "b_used (backends s' ! idx)" using table_invD(3,4) [OF assms(1) c0] assms(7) by blast
  show "orig \<noteq> None" "framing s' \<noteq> FRAMING_UNKNOWN" if "k = INFLIGHT_AGENT"
    using table_invD(5) [OF assms(1)] c0 that assms(4) by auto
qed

lemma same_members_used:
  assumes "same_members s s'" and "i < length (backends s)"
  shows "b_used (backends s' ! i) = b_used (backends s ! i)"
  using same_members_at(2) [OF assms] by (simp add: ident_def)

lemma table_inv_alloc:
  assumes "table_inv n s" and "n < 2 ^ 53" and "inflight_alloc idx k orig s = Some (i, s')"
    and "idx < length (backends s)" and "b_used (backends s ! idx)"
    and "k = INFLIGHT_AGENT \<Longrightarrow> orig \<noteq> None \<and> framing s \<noteq> FRAMING_UNKNOWN"
  shows "table_inv (Suc n) s'" "same_members s s'" "framing s' = framing s"
    "agent_initialized s' = agent_initialized s" "stdout s' = stdout s" "i < length (inflights s')"
    "f_used (inflights s' ! i)"
proof -
  have lt: "next_local_id s < - 1"
    using table_invD(2) [OF assms(1)] assms(2)
    by (simp add: word_less_nat_alt unsigned_minus_1_eq_mask mask_eq_exp_minus_1)
  from alloc_cases(2) [OF assms(3)] have s': "s' = s\<lparr>next_local_id := next_local_id s + 1,
            inflights := (inflights s)[i := \<lparr>f_used = True, f_local_id = next_local_id s + 1,
              f_backend = idx, f_kind = k, f_orig_id = orig\<rparr>]\<rparr>" and i: "i < length (inflights s)" by auto
  note t = alloc_table [OF table_invD(1) [OF assms(1)] assms(3) lt]
  have "unat (next_local_id s + 1) \<le> Suc n"
    using table_invD(2) [OF assms(1)] assms(2) lt
    by (metis Suc_le_mono add.commute add_eq_0_iff order_less_irrefl unatSuc)
  with t assms(1,4-6) show "table_inv (Suc n) s'"
    unfolding table_inv_def by (auto simp: s' split: if_splits)
  show "same_members s s'" by (simp add: s' same_members_def)
  show "framing s' = framing s" "agent_initialized s' = agent_initialized s" "stdout s' = stdout s"
    "i < length (inflights s')" "f_used (inflights s' ! i)"
    using i by (simp_all add: s')
qed

lemma table_inv_release:
  assumes "table_inv n s" and "i < length (inflights s)" and "f_used (inflights s ! i)"
  shows "table_inv n (inflight_release i s)" "same_members s (inflight_release i s)"
proof -
  note t = release_table [OF table_invD(1) [OF assms(1)] assms(2,3)]
  then show "table_inv n (inflight_release i s)"
    using assms(1) unfolding table_inv_def by (auto simp: inflight_release_def split: if_splits)
  show "same_members s (inflight_release i s)" by (simp add: inflight_release_def same_members_def)
qed

lemma table_inv_write:
  assumes "table_inv n s" and "backend_write idx body s = Some (ok, s')"
  shows "table_inv n s'"
  using backend_write_frame [OF assms(2)] same_members_at(1) same_members_used
  by (intro table_inv_cong [OF assms(1)]) auto

lemma table_inv_out: "table_inv n s \<Longrightarrow> table_inv n (s\<lparr>stdout := out\<rparr>)"
  by (rule table_inv_cong) auto

section \<open>Refresh and agent messages\<close>

lemma refresh_inv:
  assumes "table_inv n s" and "n < 2 ^ 53" and "idx < length (backends s)" and "refresh_backend_tools idx s = Some s'"
  shows "table_inv (Suc n) s' \<and> same_members s s'"
proof (cases "b_used (backends s ! idx) \<and> b_alive (backends s ! idx) \<and> inflight_alloc idx INFLIGHT_TOOLS_REFRESH None s \<noteq> None")
  case False
  with assms(4) have "s' = s" by (auto simp: refresh_backend_tools_def Let_def split: if_splits option.splits)
  then show ?thesis using table_inv_mono [OF assms(1)] same_members_refl by simp
next
  case True
  then obtain i s1 where a: "inflight_alloc idx INFLIGHT_TOOLS_REFRESH None s = Some (i, s1)" by auto
  note al = table_inv_alloc [OF assms(1,2) a assms(3)]
  from True assms(4) a obtain ok s2 where
    w: "backend_write idx (refresh_request (f_local_id (inflights s1 ! i))) s1 = Some (ok, s2)"
    and s': "s' = (if ok then s2 else inflight_release i s2)"
    by (auto simp: refresh_backend_tools_def Let_def bind_eq_Some_conv)
  have t2: "table_inv (Suc n) s2" using al True w by (auto intro: table_inv_write)
  have m2: "same_members s s2" using al(2) True backend_write_frame(1) [OF w] same_members_trans by auto
  have "i < length (inflights s2)" "f_used (inflights s2 ! i)"
    using al True backend_write_frame(2) [OF w] by auto
  from table_inv_release [OF t2 this] t2 m2 s' same_members_trans show ?thesis by auto
qed

lemma agg_tools_call_inv:
  assumes "table_inv n s" and "n < 2 ^ 53" and "framing s \<noteq> FRAMING_UNKNOWN" and "rid \<noteq> None"
    and "agg_tools_call print rid params s = Some s'"
  shows "table_inv (Suc n) s' \<and> same_members s s'"
proof -
  have out: ?thesis if "write_frame_stdout r t = Some s'" "table_inv (Suc n) t" "same_members s t" for r t
    using write_frame_stdout_frame [OF that(1)] table_inv_out [OF that(2)] that(3)
    by (auto intro: same_members_trans simp: same_members_def)
  have out0: ?thesis if "write_frame_stdout r s = Some s'" for r
    by (rule out [OF that table_inv_mono [OF assms(1)] same_members_refl]) simp
  show ?thesis
  proof (cases "\<exists>full plen idx i s1. valuestring (cJSON_GetObjectItemCaseSensitive params ''name'') = Some full \<and>
      full \<noteq> LIST_APPS \<and> strstr full NS_SEP = Some plen \<and> plen \<noteq> 0 \<and> drop (plen + 2) full \<noteq> [] \<and>
      route full plen s = Some idx \<and> inflight_alloc idx INFLIGHT_AGENT rid s = Some (i, s1)")
    case False
    with assms(5) have "\<exists>r. write_frame_stdout r s = Some s'"
      unfolding agg_tools_call_def reply_error_def
      by (auto split: option.splits if_splits prod.splits)
    then show ?thesis using out0 by blast
  next
    case True
    then obtain full plen idx i s1 where
      c: "valuestring (cJSON_GetObjectItemCaseSensitive params ''name'') = Some full"
      "full \<noteq> LIST_APPS" "strstr full NS_SEP = Some plen" "plen \<noteq> 0" "drop (plen + 2) full \<noteq> []"
      "route full plen s = Some idx" and a: "inflight_alloc idx INFLIGHT_AGENT rid s = Some (i, s1)" by blast
    have u: "idx < length (backends s)" "b_used (backends s ! idx)"
      using c(6) by (auto simp: route_def find_index_Some_iff)
    note al = table_inv_alloc [OF assms(1,2) a u] assms(3,4)
    let ?r = "print (forward_request (f_local_id (inflights s1 ! i)) (drop (plen + 2) full)
      (cJSON_GetObjectItemCaseSensitive params ''arguments''))"
    have "Option.bind (backend_write idx ?r s1) (\<lambda>(ok, s2). if ok then Some s2
        else reply_error print rid (-32000) ''backend write failed'' (inflight_release i s2)) = Some s'"
      using assms(5) unfolding agg_tools_call_def option.case c a Let_def prod.case
      by (simp only: c if_False simp_thms)
    then obtain ok s2 where w: "backend_write idx ?r s1 = Some (ok, s2)"
      and fin: "(if ok then Some s2 else reply_error print rid (-32000) ''backend write failed'' (inflight_release i s2)) = Some s'"
      unfolding bind_eq_Some_conv by auto
    have t2: "table_inv (Suc n) s2" using al by (intro table_inv_write [OF _ w]) auto
    have m2: "same_members s s2" using al backend_write_frame(1) [OF w] same_members_trans by auto
    have i2: "i < length (inflights s2)" "f_used (inflights s2 ! i)"
      using al backend_write_frame(2) [OF w] by auto
    note rl = table_inv_release [OF t2 i2]
    show ?thesis
    proof (cases ok)
      case True
      with fin t2 m2 show ?thesis by simp
    next
      case False
      with fin have "write_frame_stdout (jsonrpc_error_str print rid (-32000) ''backend write failed'')
          (inflight_release i s2) = Some s'" by (simp add: reply_error_def)
      from out [OF this rl(1) same_members_trans [OF m2 rl(2)]] show ?thesis .
    qed
  qed
qed


lemma agent_step_inv:
  assumes "table_inv n s" and "n < 2 ^ 53" and "f \<noteq> FRAMING_UNKNOWN" and "agent_step print parse f body s = Some s'"
  shows "table_inv (Suc n) s' \<and> same_members s s'"
proof -
  let ?s = "s\<lparr>framing := dxr_stdio_framing_latch_set (framing s) f\<rparr>"
  have fr: "framing ?s \<noteq> FRAMING_UNKNOWN" using assms(3) by (simp add: dxr_stdio_framing_latch_set_def)
  have ti: "table_inv n ?s"
  proof (cases "framing s = FRAMING_UNKNOWN")
    case True
    have "calls ?s = calls s" by (rule calls_cong) simp
    moreover have "table_ok ?s = table_ok s" by (rule table_ok_cong) simp_all
    ultimately show ?thesis using assms(1) fr unfolding table_inv_def by auto
  next
    case False
    then show ?thesis using assms(1) by (simp add: dxr_stdio_framing_latch_set_def)
  qed
  have sm: "same_members s ?s" by (simp add: same_members_def)
  have out: ?thesis if "write_frame_stdout r ?s = Some s'" for r
    using write_frame_stdout_frame [OF that] table_inv_out [OF table_inv_mono [OF ti]]
    by (auto simp: same_members_def)
  have h: "handle_agent_frame print parse body ?s = Some s'" using assms(4) by (simp add: agent_step_def)
  show ?thesis
  proof (cases "\<exists>req i m. parse body = Some req \<and> cJSON_GetObjectItemCaseSensitive (Some req) ''id'' = Some i \<and>
      valuestring (cJSON_GetObjectItemCaseSensitive (Some req) ''method'') = Some m")
    case False
    have "(\<exists>r. write_frame_stdout r ?s = Some s') \<or> s' = ?s"
    proof (cases "parse body")
      case None
      with h show ?thesis by (auto simp: handle_agent_frame_def reply_error_def)
    next
      case (Some req)
      with False h have "s' = ?s"
        unfolding handle_agent_frame_def Let_def by (auto split: option.splits if_splits)
      then show ?thesis ..
    qed
    then show ?thesis using out table_inv_mono [OF ti, of "Suc n"] sm by auto
  next
    case True
    then obtain req i m where r: "parse body = Some req" "cJSON_GetObjectItemCaseSensitive (Some req) ''id'' = Some i"
      "valuestring (cJSON_GetObjectItemCaseSensitive (Some req) ''method'') = Some m" by blast
    with h have ag: "agent_request print m (Some i) (cJSON_GetObjectItemCaseSensitive (Some req) ''params'') ?s = Some s'"
      by (simp add: handle_agent_frame_def Let_def)
    show ?thesis
    proof (cases "m = ''tools/call''")
      case True
      with ag have "agg_tools_call print (Some i) (cJSON_GetObjectItemCaseSensitive (Some req) ''params'') ?s = Some s'"
        by (simp add: agent_request_def)
      from agg_tools_call_inv [OF ti assms(2) fr _ this] sm show ?thesis by (auto intro: same_members_trans)
    next
      case nc: False
      show ?thesis
      proof (cases "m = ''initialize''")
        case True
        with ag obtain t r where t: "write_frame_stdout r ?s = Some t" "s' = t\<lparr>agent_initialized := True\<rparr>"
          by (auto simp: agent_request_def)
        from write_frame_stdout_frame [OF t(1)] have e: "s' = ?s\<lparr>stdout := stdout ?s @ [upstream ?s r], agent_initialized := True\<rparr>"
          using t(2) by simp
        have "table_inv n s'" unfolding e by (rule table_inv_cong [OF ti]) (use fr in auto)
        moreover have "same_members s s'" unfolding e by (simp add: same_members_def)
        ultimately show ?thesis by (auto intro: table_inv_mono)
      next
        case False
        with ag nc have "\<exists>r. write_frame_stdout r ?s = Some s'"
          unfolding agent_request_def reply_error_def by (auto split: if_splits)
        then show ?thesis using out by blast
      qed
    qed
  qed
qed

section \<open>Reader passes\<close>

text \<open>Everything but the prefixes is the same.\<close>

definition same_sessions :: "aggregator \<Rightarrow> aggregator \<Rightarrow> bool" where
  "same_sessions s s' \<longleftrightarrow> length (backends s') = length (backends s) \<and>
     (\<forall>i<length (backends s). b_used (backends s' ! i) = b_used (backends s ! i) \<and>
        b_alive (backends s' ! i) = b_alive (backends s ! i) \<and>
        b_is_shell (backends s' ! i) = b_is_shell (backends s ! i) \<and> b_pid (backends s' ! i) = b_pid (backends s ! i)) \<and>
     connecting s' = connecting s \<and> shell_connecting s' = shell_connecting s"

text \<open>Slot \<open>idx\<close> got the prefix that \<open>assign_prefix\<close> gives for some slug; nothing else happened to prefixes.\<close>

definition reprefixed :: "nat \<Rightarrow> aggregator \<Rightarrow> aggregator \<Rightarrow> bool" where
  "reprefixed idx s s' \<longleftrightarrow> (\<exists>d. is_slug d \<and> \<not> b_is_shell (backends s ! idx) \<and>
     (b_prefix (backends s' ! idx), used_prefixes s') = assign_prefix d 40 (used_prefixes s)) \<and>
     (\<forall>i<length (backends s). i \<noteq> idx \<longrightarrow> b_prefix (backends s' ! i) = b_prefix (backends s ! i))"

lemma same_members_sessions: "same_members s s' \<Longrightarrow> same_sessions s s'"
  using same_members_at [of s s'] by (auto simp: same_sessions_def same_members_def ident_def)

lemma same_sessions_trans: "same_sessions a b \<Longrightarrow> same_sessions b c \<Longrightarrow> same_sessions a c"
  by (simp add: same_sessions_def)

lemma apply_tools_frame:
  assumes "apply_tools_result idx r s = (changed, s')" and "idx < length (backends s)"
  shows "same_sessions s s' \<and> (same_members s s' \<or> reprefixed idx s s')" and
    "inflights s' = inflights s" "next_local_id s' = next_local_id s" "framing s' = framing s"
    "agent_initialized s' = agent_initialized s" "stdout s' = stdout s"
proof -
  define b where "b = (backends s ! idx)\<lparr>b_tools := tools_cache (cJSON_GetObjectItemCaseSensitive r ''tools'')\<rparr>"
  define aid where "aid = valuestring (cJSON_GetObjectItemCaseSensitive (cJSON_GetObjectItemCaseSensitive r ''_meta'') ''displayxr/appId'')"
  have keep: "map ident ((backends s)[idx := b]) = map ident (backends s)"
    by (rule map_ident_update) (simp add: b_def ident_def)
  have cases: "s' = s \<or> s' = s\<lparr>backends := (backends s)[idx := b]\<rparr> \<or>
    (\<exists>a p used. \<not> b_is_shell b \<and> (p, used) = assign_prefix (slugify a 40) 40 (used_prefixes s) \<and>
       s' = s\<lparr>backends := (backends s)[idx := b\<lparr>b_app_id := a, b_prefix := p\<rparr>], used_prefixes := used\<rparr>)"
  proof (cases "\<exists>a. b_used (backends s ! idx) \<and> aid = Some a \<and> \<not> b_is_shell b \<and> b_app_id b \<noteq> a")
    case True
    then obtain a where a: "b_used (backends s ! idx)" "aid = Some a" "\<not> b_is_shell b" "b_app_id b \<noteq> a" by blast
    obtain p used where p: "assign_prefix (slugify (snprintf_s 33 a) 40) 40 (used_prefixes s) = (p, used)" by fastforce
    have "s' = s\<lparr>backends := (backends s)[idx := b\<lparr>b_app_id := snprintf_s 33 a, b_prefix := p\<rparr>], used_prefixes := used\<rparr>"
      using assms(1) a p unfolding apply_tools_result_def Let_def b_def [symmetric] aid_def [symmetric] by simp
    with a(3) p [symmetric] show ?thesis by blast
  next
    case False
    with assms(1) show ?thesis
      unfolding apply_tools_result_def Let_def b_def [symmetric] aid_def [symmetric]
      by (auto split: if_splits option.splits)
  qed
  then show "same_sessions s s' \<and> (same_members s s' \<or> reprefixed idx s s')"
  proof (elim disjE exE conjE)
    assume "s' = s"
    then show ?thesis by (simp add: same_members_refl same_members_sessions)
  next
    assume "s' = s\<lparr>backends := (backends s)[idx := b]\<rparr>"
    with keep have "same_members s s'" by (simp add: same_members_def)
    then show ?thesis by (simp add: same_members_sessions)
  next
    fix a p used
    assume x: "\<not> b_is_shell b" "(p, used) = assign_prefix (slugify a 40) 40 (used_prefixes s)"
      "s' = s\<lparr>backends := (backends s)[idx := b\<lparr>b_app_id := a, b_prefix := p\<rparr>], used_prefixes := used\<rparr>"
    then have "same_sessions s s'"
      using assms(2) by (auto simp: same_sessions_def b_def nth_list_update)
    moreover have "reprefixed idx s s'"
      using x assms(2) slugify_is_slug [of a] by (auto simp: reprefixed_def b_def)
    ultimately show ?thesis by simp
  qed
  from cases show "inflights s' = inflights s" "next_local_id s' = next_local_id s" "framing s' = framing s"
    "agent_initialized s' = agent_initialized s" "stdout s' = stdout s"
    by auto
qed

lemma reprefixed_cong:
  "same_members a s \<Longrightarrow> reprefixed idx s s' \<Longrightarrow> idx < length (backends a) \<Longrightarrow> reprefixed idx a s'"
  using same_members_at [of a s] by (auto simp: reprefixed_def same_members_def ident_def)

lemma reader_response_inv:
  assumes "table_inv n s" and "idx < length (backends s)" and "reader_response print oob idx msg d s = Some s'"
  shows "table_inv n s' \<and> same_sessions s s' \<and> (same_members s s' \<or> reprefixed idx s s')"
proof (cases "inflight_find (double_to_u64 oob d) s")
  case None
  with assms show ?thesis
    by (auto simp: reader_response_def same_members_refl same_members_sessions)
next
  case (Some i)
  then have i: "i < length (inflights s)" "f_used (inflights s ! i)"
    using inflight_find_iff [OF table_invD(1) [OF assms(1)]] by auto
  note rl = table_inv_release [OF assms(1) i]
  let ?s1 = "inflight_release i s"
  have ends: ?thesis if "s' = ?s1\<lparr>stdout := out\<rparr>" for out
  proof -
    have "same_members s s'" using rl(2) that by (simp add: same_members_def)
    with table_inv_out [OF rl(1)] that show ?thesis by (simp add: same_members_sessions)
  qed
  have l1: "idx < length (backends ?s1)" using assms(2) by (simp add: inflight_release_def)
  show ?thesis
  proof (cases "\<exists>r. f_backend (inflights s ! i) = idx \<and> f_kind (inflights s ! i) = INFLIGHT_TOOLS_REFRESH \<and>
      cJSON_GetObjectItemCaseSensitive (Some msg) ''result'' = Some r")
    case False
    have "s' = ?s1 \<or> (\<exists>r. write_frame_stdout r ?s1 = Some s')"
      using assms(3) False Some unfolding reader_response_def
      by (auto simp: Let_def split: if_splits option.splits)
    then have "\<exists>out. s' = ?s1\<lparr>stdout := out\<rparr>"
    proof
      assume "s' = ?s1"
      then have "s' = ?s1\<lparr>stdout := stdout ?s1\<rparr>" by simp
      then show ?thesis by blast
    qed (auto dest: write_frame_stdout_frame)
    then show ?thesis using ends by blast
  next
    case True
    then obtain r where r: "f_backend (inflights s ! i) = idx" "f_kind (inflights s ! i) = INFLIGHT_TOOLS_REFRESH"
      "cJSON_GetObjectItemCaseSensitive (Some msg) ''result'' = Some r" by blast
    obtain ch s2 where ap: "apply_tools_result idx (Some r) ?s1 = (ch, s2)" by fastforce
    have "(if ch then emit_list_changed_upstream s2 else Some s2) = Some s'"
      using assms(3) Some r ap by (simp add: reader_response_def Let_def)
    then obtain out where s': "s' = s2\<lparr>stdout := out\<rparr>"
      using emit_frame [of s2 s'] by (cases ch) (auto, metis aggregator.surjective aggregator.update_convs(10))
    note fr = apply_tools_frame [OF ap l1]
    have "table_inv n s2"
      by (rule table_inv_cong [OF rl(1) fr(2-4)]) (use fr(1,5) in \<open>auto simp: same_sessions_def\<close>)
    then have t: "table_inv n s'" unfolding s' by (rule table_inv_out)
    have m2: "same_members s2 s'" by (simp add: s' same_members_def)
    have "same_sessions s s'"
      using fr(1) same_members_sessions [OF rl(2)] same_members_sessions [OF m2] same_sessions_trans by blast
    moreover have "same_members s s' \<or> reprefixed idx s s'"
    proof (cases "same_members ?s1 s2")
      case True
      with rl(2) m2 show ?thesis by (meson same_members_trans)
    next
      case False
      with fr(1) have "reprefixed idx ?s1 s2" by simp
      then have "reprefixed idx s s2" by (rule reprefixed_cong [OF rl(2) _ assms(2)])
      then show ?thesis by (simp add: s' reprefixed_def)
    qed
    ultimately show ?thesis using t by simp
  qed
qed

end
