(* ===== verification/Agg_Invariants.thy ===== *)
theory Agg_Invariants
  imports Agg_System
begin

text \<open>
  Invariants of the running aggregator: every call in flight belongs to a live backend, every session
  is served at most once, and the prefixes of the live backends differ.  Each is kept by every step of
  \<open>agg_step\<close>, and the properties are their readings for all runs.
\<close>

section \<open>Teardown and reader passes\<close>

lemma teardown_inflight_frame:
  "teardown_inflight print idx is s = Some s' \<Longrightarrow>
     \<exists>out. s' = s\<lparr>inflights := clear_held idx is (inflights s), stdout := out\<rparr>"
proof (induction "is" arbitrary: s)
  case Nil
  then have "s' = s\<lparr>inflights := clear_held idx [] (inflights s), stdout := stdout s\<rparr>"
    by (simp add: clear_held_def)
  then show ?case by blast
next
  case (Cons i "is")
  show ?case
  proof (cases "held_by idx (inflights s ! i)")
    case False
    then have "teardown_inflight print idx is s = Some s'" "clear_held idx (i # is) (inflights s) = clear_held idx is (inflights s)"
      using Cons.prems by (auto simp: Let_def clear_held_def)
    with Cons.IH show ?thesis by simp
  next
    case True
    with Cons.prems obtain s1 where
      w: "(if f_kind (inflights s ! i) = INFLIGHT_AGENT
           then write_frame_stdout (jsonrpc_error_str print (f_orig_id (inflights s ! i)) (-32000)
                  ''backend exited with the call in flight'') s else Some s) = Some s1"
      and t: "teardown_inflight print idx is (inflight_release i s1) = Some s'"
      by (auto simp: Let_def bind_eq_Some_conv)
    from w obtain out where s1: "s1 = s\<lparr>stdout := out\<rparr>"
    proof (cases "f_kind (inflights s ! i) = INFLIGHT_AGENT")
      case True
      with w show ?thesis using that write_frame_stdout_frame by fastforce
    next
      case False
      with w have "s1 = s\<lparr>stdout := stdout s\<rparr>" by simp
      then show ?thesis by (rule that)
    qed
    from Cons.IH [OF t] True show ?thesis
      by (auto simp: s1 inflight_release_def clear_held_def)
  qed
qed

lemma teardown_frame:
  assumes "backend_teardown_locked print idx s = Some s'" and "length (inflights s) = MAX_INFLIGHT"
  shows "\<exists>out. s' = s\<lparr>backends := (backends s)[idx := backend_zero],
    inflights := map (\<lambda>f. if held_by idx f then inflight_zero else f) (inflights s), stdout := out\<rparr>"
proof -
  from assms(1) obtain t where t: "teardown_inflight print idx [0..<MAX_INFLIGHT] s = Some t"
    "s' = t\<lparr>backends := (backends t)[idx := backend_zero]\<rparr>"
    by (auto simp: backend_teardown_locked_def bind_eq_Some_conv)
  from teardown_inflight_frame [OF t(1)] obtain out where
    o: "t = s\<lparr>inflights := clear_held idx [0..<MAX_INFLIGHT] (inflights s), stdout := out\<rparr>" by blast
  have "clear_held idx [0..<MAX_INFLIGHT] (inflights s) =
      map (\<lambda>f. if held_by idx f then inflight_zero else f) (inflights s)"
    using assms(2) by (intro nth_equalityI) (simp_all add: length_clear_held nth_clear_held)
  with t(2) o show ?thesis by (intro exI [of _ out]) simp
qed

text \<open>Slot \<open>idx\<close> was freed, everything else about the members is as before.\<close>

definition freed :: "nat \<Rightarrow> aggregator \<Rightarrow> aggregator \<Rightarrow> bool" where
  "freed idx s s' \<longleftrightarrow> map ident (backends s') = (map ident (backends s))[idx := ident backend_zero] \<and>
     connecting s' = connecting s \<and> shell_connecting s' = shell_connecting s \<and> used_prefixes s' = used_prefixes s"

lemma teardown_inv:
  assumes "table_inv n s" and "backend_teardown_locked print idx s = Some s'"
  shows "table_inv n s' \<and> freed idx s s'"
proof -
  note ok = table_invD(1) [OF assms(1)]
  then have l: "length (inflights s) = MAX_INFLIGHT" by (simp add: table_ok_def)
  from teardown_frame [OF assms(2) l] obtain out where
    s': "s' = s\<lparr>backends := (backends s)[idx := backend_zero],
      inflights := map (\<lambda>f. if held_by idx f then inflight_zero else f) (inflights s), stdout := out\<rparr>" by blast
  have c: "calls s' m = Some (b, k, orig) \<Longrightarrow> calls s m = Some (b, k, orig) \<and> b \<noteq> idx" for m b k orig
    using calls_teardown(2) [OF ok, where bs = "(backends s)[idx := backend_zero]" and idx = idx and out = out and n = m]
    by (auto simp: s' split: option.splits if_splits)
  have "table_ok s'" unfolding s' by (rule calls_teardown(1) [OF ok])
  then have "table_inv n s'"
    using c assms(1) unfolding table_inv_def by (fastforce simp: s')
  then show ?thesis by (simp add: s' freed_def map_update)
qed

lemma reader_pass_inv:
  assumes "table_inv n s" and "n < 2 ^ 53" and "idx < length (backends s)"
    and "backend_reader_pass print parse oob idx s = Some (go, s')"
  shows "table_inv (Suc n) s' \<and> (same_sessions s s' \<and> (same_members s s' \<or> reprefixed idx s s') \<or> freed idx s s')"
proof -
  from assms(4) obtain c body where
    rd: "(if b_conn (backends s ! idx) = None then Some (None, None)
          else read_frame_conn (b_conn (backends s ! idx))) = Some (c, body)"
    and rest: "(let s1 = s\<lparr>backends := (backends s)[idx := (backends s ! idx)\<lparr>b_conn := c\<rparr>]\<rparr> in
      case body of
        None \<Rightarrow> Option.bind (backend_teardown_locked print idx s1)
                 (\<lambda>s2. Option.bind (emit_list_changed_upstream s2) (\<lambda>s3. Some (False, s3)))
      | Some b \<Rightarrow> (case parse (cstr b) of None \<Rightarrow> Some (True, s1)
                   | Some msg \<Rightarrow> map_option (Pair True) (reader_message print oob idx msg s1))) = Some (go, s')"
    unfolding backend_reader_pass_def bind_eq_Some_conv by auto
  define s1 where "s1 = s\<lparr>backends := (backends s)[idx := (backends s ! idx)\<lparr>b_conn := c\<rparr>]\<rparr>"
  note rest = rest [unfolded Let_def, folded s1_def]
  have keep: "map ident ((backends s)[idx := (backends s ! idx)\<lparr>b_conn := c\<rparr>]) = map ident (backends s)"
    by (rule map_ident_update) (simp add: ident_def)
  then have m1: "same_members s s1" by (simp add: s1_def same_members_def)
  have t1: "table_inv n s1"
    by (rule table_inv_cong [OF assms(1)])
      (use same_members_used [OF m1] in \<open>auto simp: s1_def\<close>)
  have l1: "idx < length (backends s1)" using assms(3) by (simp add: s1_def)
  note up = table_inv_mono [of n _ "Suc n"]
  show ?thesis
  proof (cases body)
    case None
    with rest obtain s2 where td: "backend_teardown_locked print idx s1 = Some s2"
      and em: "emit_list_changed_upstream s2 = Some s'"
      by (auto simp: bind_eq_Some_conv)
    from emit_frame [OF em] obtain out where s': "s' = s2\<lparr>stdout := out\<rparr>" by blast
    from teardown_inv [OF t1 td] table_inv_out have "table_inv n s'" "freed idx s1 s'"
      by (auto simp: s' freed_def)
    with m1 up show ?thesis by (simp add: freed_def same_members_def)
  next
    case (Some b)
    show ?thesis
    proof (cases "parse (cstr b)")
      case None
      with rest Some have "s' = s1" by simp
      with t1 m1 up show ?thesis by (simp add: same_members_sessions)
    next
      case msg: (Some msg)
      with rest Some have rm: "reader_message print oob idx msg s1 = Some s'" by auto
      have "s' = s1 \<or> refresh_backend_tools idx s1 = Some s' \<or>
          (\<exists>d. reader_response print oob idx msg d s1 = Some s')"
        using rm unfolding reader_message_def Let_def by (auto split: if_splits option.splits)
      then show ?thesis
      proof (elim disjE exE)
        assume "s' = s1"
        with t1 m1 up show ?thesis by (simp add: same_members_sessions)
      next
        assume "refresh_backend_tools idx s1 = Some s'"
        from refresh_inv [OF t1 assms(2) l1 this] m1 same_members_trans
        show ?thesis by (blast intro: same_members_sessions)
      next
        fix d
        assume "reader_response print oob idx msg d s1 = Some s'"
        from reader_response_inv [OF t1 l1 this] m1 up reprefixed_cong [OF m1 _ assms(3)]
        show ?thesis
          by (meson le_SucI order_refl same_members_sessions same_members_trans same_sessions_trans)
      qed
    qed
  qed
qed


section \<open>Sessions are served once\<close>

text \<open>Is the shell, or the session of a process, served by a registered backend?\<close>

definition serves :: "aggregator \<Rightarrow> bool \<Rightarrow> int \<Rightarrow> nat \<Rightarrow> bool" where
  "serves s sh p i \<longleftrightarrow> i < length (backends s) \<and> b_used (backends s ! i) \<and>
     (if sh then b_is_shell (backends s ! i) else \<not> b_is_shell (backends s ! i) \<and> b_pid (backends s ! i) = p)"

definition setup_pids :: "setup_thread list \<Rightarrow> int list" where
  "setup_pids ts = map (\<lambda>t. fst (snd t)) (filter (\<lambda>t. \<not> fst t) ts)"

definition members_ok :: "int \<Rightarrow> aggregator \<Rightarrow> setup_thread list \<Rightarrow> bool" where
  "members_ok self s ts \<longleftrightarrow> length (backends s) = MAX_BACKENDS \<and>
     (\<forall>sh p i j. serves s sh p i \<longrightarrow> serves s sh p j \<longrightarrow> i = j) \<and>
     (\<forall>sh p i. serves s sh p i \<longrightarrow> b_alive (backends s ! i)) \<and>
     distinct (connecting s) \<and> length (connecting s) \<le> MAX_BACKENDS \<and>
     distinct (setup_pids ts) \<and> set (setup_pids ts) = set (connecting s) \<and>
     length (filter fst ts) = (if shell_connecting s then 1 else 0) \<and>
     (\<forall>sh p. (sh, p, None) \<in> set ts \<longrightarrow> (\<forall>i. \<not> serves s sh p i)) \<and>
     self \<notin> set (connecting s) \<and> (\<forall>i. \<not> serves s False self i)"

lemma serves_cong: "same_sessions s s' \<Longrightarrow> serves s' = serves s"
  by (intro ext) (auto simp: serves_def same_sessions_def)

lemma members_ok_sessions:
  assumes "members_ok self s ts" and "same_sessions s s'"
  shows "members_ok self s' ts"
proof -
  have "b_alive (backends s' ! i) = b_alive (backends s ! i)" if "serves s sh p i" for sh p i
    using that assms(2) by (simp add: serves_def same_sessions_def)
  then show ?thesis
    using assms unfolding members_ok_def serves_cong [OF assms(2)]
    by (simp add: same_sessions_def)
qed

lemma freed_at:
  assumes "freed idx s s'"
  shows "length (backends s') = length (backends s)"
    and "i < length (backends s) \<Longrightarrow> ident (backends s' ! i) = (if i = idx then ident backend_zero else ident (backends s ! i))"
proof -
  show l: "length (backends s') = length (backends s)"
    using assms by (metis freed_def length_map length_list_update)
  assume i: "i < length (backends s)"
  then have "ident (backends s' ! i) = map ident (backends s') ! i" using l by simp
  also have "\<dots> = (map ident (backends s))[idx := ident backend_zero] ! i" using assms by (simp add: freed_def)
  also have "\<dots> = (if i = idx then ident backend_zero else ident (backends s ! i))"
    using i by (auto simp: nth_list_update)
  finally show "ident (backends s' ! i) = (if i = idx then ident backend_zero else ident (backends s ! i))" .
qed

lemma freed_serves:
  assumes "freed idx s s'"
  shows "serves s' sh p i \<longleftrightarrow> serves s sh p i \<and> i \<noteq> idx"
proof (cases "i < length (backends s)")
  case True
  from freed_at(2) [OF assms True] freed_at(1) [OF assms] show ?thesis
    by (cases "i = idx") (simp_all add: serves_def ident_def backend_zero_def)
next
  case False
  with freed_at(1) [OF assms] show ?thesis by (simp add: serves_def)
qed

lemma members_ok_freed:
  assumes "members_ok self s ts" and "freed idx s s'"
  shows "members_ok self s' ts"
proof -
  have "b_alive (backends s' ! i) = b_alive (backends s ! i)" if "serves s sh p i" "i \<noteq> idx" for sh p i
    using that freed_at(2) [OF assms(2), of i] by (simp add: serves_def ident_def)
  then show ?thesis
    using assms freed_at(1) [OF assms(2)] unfolding members_ok_def freed_serves [OF assms(2)]
    by (auto simp: freed_def)
qed

lemma backend_known_iff:
  "backend_known sh p s \<longleftrightarrow> (\<exists>i. serves s sh p i) \<or> (if sh then shell_connecting s else p \<in> set (connecting s))"
  by (auto simp: backend_known_def serves_def list_ex_length in_set_conv_nth)

lemma poll_scan_spec:
  "poll_scan self pids s = (fresh, s') \<Longrightarrow> length (connecting s) \<le> MAX_BACKENDS \<Longrightarrow>
     s' = s\<lparr>connecting := connecting s @ fresh\<rparr> \<and> distinct fresh \<and> length (connecting s @ fresh) \<le> MAX_BACKENDS \<and>
     (\<forall>p\<in>set fresh. p \<noteq> self \<and> p \<notin> set (connecting s) \<and> (\<forall>i. \<not> serves s False p i))"
proof (induction self pids s arbitrary: fresh s' rule: poll_scan.induct)
  case (1 self s)
  then show ?case by simp
next
  case (2 self p pids s)
  let ?s1 = "s\<lparr>connecting := connecting s @ [p]\<rparr>"
  show ?case
  proof (cases "p \<noteq> self \<and> \<not> backend_known False p s \<and> length (connecting s) < MAX_BACKENDS")
    case False
    with "2.prems" have "poll_scan self pids s = (fresh, s')" by (auto split: if_splits)
    moreover have "p = self \<or> p \<noteq> self \<and> \<not> (\<not> backend_known False p s \<and> length (connecting s) < MAX_BACKENDS)"
      using False by blast
    ultimately show ?thesis using "2.IH"(1,3) "2.prems"(2) by blast
  next
    case True
    obtain fr s2 where r: "poll_scan self pids ?s1 = (fr, s2)" by fastforce
    with "2.prems" True have f: "fresh = p # fr" "s' = s2" by auto
    have "s2 = ?s1\<lparr>connecting := connecting ?s1 @ fr\<rparr> \<and> distinct fr \<and> length (connecting ?s1 @ fr) \<le> MAX_BACKENDS \<and>
     (\<forall>q\<in>set fr. q \<noteq> self \<and> q \<notin> set (connecting ?s1) \<and> (\<forall>i. \<not> serves ?s1 False q i))"
      using "2.IH"(2) r True by simp
    moreover have "serves ?s1 = serves s" by (intro ext) (simp add: serves_def)
    ultimately show ?thesis using True by (auto simp: f backend_known_iff)
  qed
qed

lemma setup_pids_simps [simp]:
  "setup_pids [] = []" "setup_pids ((False, p, ph) # ts) = p # setup_pids ts"
  "setup_pids ((True, p, ph) # ts) = setup_pids ts" "setup_pids (ts @ us) = setup_pids ts @ setup_pids us"
  "setup_pids (map (\<lambda>p. (False, p, None)) ps) = ps" "filter fst (map (\<lambda>p. (False, p, ph)) ps) = []"
  by (simp_all add: setup_pids_def filter_map comp_def)

lemma members_ok_poll:
  assumes "members_ok self s ts" and "poll_round self pids s = (fresh, try_shell, s')"
  shows "members_ok self s' (ts @ map (\<lambda>p. (False, p, None)) fresh @ (if try_shell then [(True, 0, None)] else []))"
proof -
  obtain s1 where sc: "poll_scan self (take 64 pids) s = (fresh, s1)"
    using assms(2) by (cases "poll_scan self (take 64 pids) s") (simp add: poll_round_def Let_def)
  have len: "length (connecting s) \<le> MAX_BACKENDS" using assms(1) by (simp add: members_ok_def)
  note sp = poll_scan_spec [OF sc len]
  have ts: "try_shell = (\<not> backend_known True 0 s1)"
    "s' = (if try_shell then s1\<lparr>shell_connecting := True\<rparr> else s1)"
    using assms(2) unfolding poll_round_def sc Let_def prod.case prod.inject by blast+
  have sv: "serves s1 = serves s" "serves s' = serves s"
    using sp ts(2) by (simp_all add: serves_def fun_eq_iff)
  have bk: "backends s' = backends s" "connecting s' = connecting s @ fresh"
    "shell_connecting s' = (shell_connecting s \<or> try_shell)"
    using sp ts(2) by auto
  have sh: "try_shell \<longleftrightarrow> (\<forall>i. \<not> serves s True 0 i) \<and> \<not> shell_connecting s"
  proof -
    have "shell_connecting s1 = shell_connecting s" using sp by simp
    then show ?thesis unfolding ts(1) backend_known_iff sv by simp
  qed
  let ?ts = "ts @ map (\<lambda>p. (False, p, None)) fresh @ (if try_shell then [(True, 0, None)] else [])"
  note m = assms(1) [unfolded members_ok_def]
  have pids: "setup_pids ?ts = setup_pids ts @ fresh" by simp
  have "distinct (connecting s @ fresh) \<and> length (connecting s @ fresh) \<le> MAX_BACKENDS \<and>
      distinct (setup_pids ?ts) \<and> set (setup_pids ?ts) = set (connecting s @ fresh) \<and> self \<notin> set (connecting s @ fresh)"
    unfolding pids using m sp by auto
  moreover have "length (filter fst ?ts) = (if shell_connecting s \<or> try_shell then 1 else 0)"
    using m sh by auto
  moreover have "\<forall>i. \<not> serves s sh' p i" if mem: "(sh', p, None) \<in> set ?ts" for sh' p
  proof -
    consider "(sh', p, None) \<in> set ts" | "\<not> sh'" "p \<in> set fresh" | "sh'" "p = 0" "try_shell"
      using mem by (auto split: if_splits)
    then show ?thesis using m sp sh by cases (blast, simp, simp)
  qed
  ultimately show ?thesis using m unfolding members_ok_def sv bk by blast
qed


lemma connecting_remove_spec:
  assumes "distinct (connecting s)"
  shows "connecting_remove True p s = s\<lparr>shell_connecting := False\<rparr>"
    and "\<exists>cs. connecting_remove False p s = s\<lparr>connecting := cs\<rparr> \<and> distinct cs \<and> set cs = set (connecting s) - {p} \<and>
      length cs \<le> length (connecting s)"
proof -
  show "connecting_remove True p s = s\<lparr>shell_connecting := False\<rparr>" by (simp add: connecting_remove_def)
  show "\<exists>cs. connecting_remove False p s = s\<lparr>connecting := cs\<rparr> \<and> distinct cs \<and> set cs = set (connecting s) - {p} \<and>
      length cs \<le> length (connecting s)"
  proof (cases "find_index (\<lambda>q. q = p) (connecting s)")
    case None
    then have "connecting_remove False p s = s" "p \<notin> set (connecting s)"
      by (simp add: connecting_remove_def, auto simp: find_index_None_iff)
    with assms show ?thesis by (intro exI [of _ "connecting s"]) auto
  next
    case (Some i)
    then have i: "i < length (connecting s)" "connecting s ! i = p" by (auto simp: find_index_Some_iff)
    then obtain ys z where c: "connecting s = ys @ [z]" by (cases "connecting s" rule: rev_cases) auto
    have r: "connecting_remove False p s = s\<lparr>connecting := butlast ((connecting s)[i := last (connecting s)])\<rparr>"
      using Some by (simp add: connecting_remove_def)
    show ?thesis
    proof (cases "i = length ys")
      case True
      with c i assms r show ?thesis by (intro exI [of _ ys]) (auto simp: nth_append list_update_append)
    next
      case False
      with i c have l: "i < length ys" "ys ! i = p" by (auto simp: nth_append)
      have "butlast ((connecting s)[i := last (connecting s)]) = ys[i := z]"
        using l by (simp add: c list_update_append)
      moreover have "distinct (ys[i := z])" "set (ys[i := z]) = set (connecting s) - {p}"
        using assms l by (auto simp: c distinct_list_update set_update_distinct)
      ultimately show ?thesis using r by (intro exI [of _ "ys[i := z]"]) (simp add: c)
    qed
  qed
qed

text \<open>A setup thread that ends: its entry goes, and so does its mark in the aggregator.\<close>

lemma members_ok_leave:
  assumes "members_ok self s ts" and "k < length ts" and "ts ! k = (sh, p, ph)"
  shows "members_ok self (connecting_remove sh p s) (remove_at k ts)"
proof -
  note m = assms(1) [unfolded members_ok_def]
  have ts: "ts = take k ts @ (sh, p, ph) # drop (Suc k) ts" "remove_at k ts = take k ts @ drop (Suc k) ts"
    using assms(2,3) id_take_nth_drop [of k ts] by (simp_all add: remove_at_def)
  have sub: "set (remove_at k ts) \<subseteq> set ts" by (rule set_remove_at_subset)
  have d: "distinct (connecting s)" using m by blast
  have al: "backends (connecting_remove sh p s) = backends s"
    by (simp add: connecting_remove_def split: option.split)
  have sv: "serves (connecting_remove sh p s) = serves s"
    by (intro ext) (simp add: serves_def al)
  show ?thesis
  proof (cases sh)
    case True
    have "setup_pids (remove_at k ts) = setup_pids ts"
      using arg_cong [OF ts(1), of setup_pids] True by (simp add: ts(2))
    moreover have "length (filter fst ts) = Suc (length (filter fst (remove_at k ts)))"
      using arg_cong [OF ts(1), of "\<lambda>ts. length (filter fst ts)"] True by (simp add: ts(2))
    moreover have "length (filter fst ts) = (if shell_connecting s then 1 else 0)" using m by blast
    ultimately have "setup_pids (remove_at k ts) = setup_pids ts" "length (filter fst (remove_at k ts)) = 0"
      by (simp_all split: if_splits)
    moreover have "connecting (connecting_remove sh p s) = connecting s" "shell_connecting (connecting_remove sh p s) = False"
      using connecting_remove_spec(1) [OF d, of p] True by simp_all
    moreover have "\<forall>i. \<not> serves s sh' p' i" if "(sh', p', None) \<in> set (remove_at k ts)" for sh' p'
      using m that sub by blast
    ultimately show ?thesis using m unfolding members_ok_def sv al by presburger
  next
    case False
    have sp: "setup_pids ts = setup_pids (take k ts) @ p # setup_pids (drop (Suc k) ts)"
      using arg_cong [OF ts(1), of setup_pids] False by simp
    have sp': "setup_pids (remove_at k ts) = setup_pids (take k ts) @ setup_pids (drop (Suc k) ts)"
      by (simp add: ts(2))
    have "distinct (setup_pids ts)" "set (setup_pids ts) = set (connecting s)" using m by blast+
    then have pids: "distinct (setup_pids (remove_at k ts))" "set (setup_pids (remove_at k ts)) = set (connecting s) - {p}"
      unfolding sp sp' by auto
    have sh: "length (filter fst (remove_at k ts)) = length (filter fst ts)"
      using arg_cong [OF ts(1), of "\<lambda>ts. length (filter fst ts)"] False by (simp add: ts(2))
    obtain cs where cs: "connecting_remove sh p s = s\<lparr>connecting := cs\<rparr>" "distinct cs"
      "set cs = set (connecting s) - {p}" "length cs \<le> length (connecting s)"
      using connecting_remove_spec(2) [OF d, of p] False by auto
    have c: "connecting (connecting_remove sh p s) = cs" "shell_connecting (connecting_remove sh p s) = shell_connecting s"
      using cs(1) by simp_all
    have rm: "\<forall>sh' p'. (sh', p', None) \<in> set (remove_at k ts) \<longrightarrow> (\<forall>i. \<not> serves s sh' p' i)"
      using m sub by blast
    have cl: "length cs \<le> MAX_BACKENDS" "self \<notin> set cs" using m cs by auto
    have ss: "set (setup_pids (remove_at k ts)) = set cs" using pids cs by simp
    show ?thesis unfolding members_ok_def sv al c sh using m rm cl ss pids(1) cs(2) by blast
  qed
qed

text \<open>What registration does to the members.\<close>

definition registered_at :: "nat \<Rightarrow> bool \<Rightarrow> int \<Rightarrow> aggregator \<Rightarrow> aggregator \<Rightarrow> bool" where
  "registered_at idx sh p s s' \<longleftrightarrow> idx < length (backends s) \<and> \<not> b_used (backends s ! idx) \<and>
     (\<exists>b. backends s' = (backends s)[idx := b] \<and> b_used b \<and> b_alive b \<and> b_is_shell b = sh \<and> b_pid b = p \<and>
        (if sh then b_prefix b = ''shell'' \<and> used_prefixes s' = used_prefixes s
         else \<exists>d. is_slug d \<and> (b_prefix b, used_prefixes s') = assign_prefix d 40 (used_prefixes s))) \<and>
     connecting s' = connecting s \<and> shell_connecting s' = shell_connecting s \<and>
     inflights s' = inflights s \<and> next_local_id s' = next_local_id s \<and> framing s' = framing s \<and>
     agent_initialized s' = agent_initialized s"

lemma desired_prefix_slug: "is_slug (desired_prefix path aid)"
  using slugify_is_slug is_slug_app by (simp add: desired_prefix_def Let_def snprintf_s_def)

lemma register_cases:
  assumes "backend_register print exe_path ok sh p c aid tool_list s = Some (registered, s')"
  shows "s' = s \<or> (\<exists>idx s1. registered_at idx sh p s s1 \<and>
    (s' = s1 \<or> backend_teardown_locked print idx s1 = Some s'))"
proof (cases "find_index (\<lambda>b. \<not> b_used b) (backends s)")
  case None
  with assms show ?thesis by (simp add: backend_register_def)
next
  case (Some idx)
  obtain px used where px: "(if sh then (snprintf_s 40 ''shell'', used_prefixes s)
      else assign_prefix (desired_prefix (exe_path p) aid) 40 (used_prefixes s)) = (px, used)" by fastforce
  define b where "b = \<lparr>b_used = True, b_alive = True, b_is_shell = sh, b_pid = p, b_prefix = px,
     b_app_id = snprintf_s 33 aid, b_conn = c, b_tools = tools_cache tool_list\<rparr>"
  define s1 where "s1 = s\<lparr>backends := (backends s)[idx := b], used_prefixes := used\<rparr>"
  have "(if ok then Some (True, s1) else map_option (Pair False) (backend_teardown_locked print idx s1)) = Some (registered, s')"
    using assms unfolding backend_register_def Some option.case px Let_def prod.case b_def [symmetric] s1_def [symmetric] .
  then have "s' = s1 \<or> backend_teardown_locked print idx s1 = Some s'" by (auto split: if_splits)
  moreover have "registered_at idx sh p s s1"
  proof -
    have "(if sh then px = ''shell'' \<and> used = used_prefixes s
         else \<exists>d. is_slug d \<and> (px, used) = assign_prefix d 40 (used_prefixes s))"
      using px desired_prefix_slug [of "exe_path p" aid]
      by (cases sh) (auto simp: snprintf_s_def intro!: exI [of _ "desired_prefix (exe_path p) aid"])
    then show ?thesis
      using find_index_SomeD [OF Some] unfolding registered_at_def
      by (intro conjI exI [of _ b]) (simp_all add: s1_def b_def)
  qed
  ultimately show ?thesis by blast
qed

lemma members_ok_registered:
  assumes "members_ok self s ts" and "k < length ts" and "ts ! k = (sh, p, None)" and "registered_at idx sh p s s'"
  shows "members_ok self s' (ts[k := (sh, p, Some r)])"
proof -
  note m = assms(1) [unfolded members_ok_def]
  have mem: "(sh, p, None) \<in> set ts" using assms(2,3) by (metis nth_mem)
  let ?ts = "ts[k := (sh, p, Some r)]"
  have ts: "ts = take k ts @ (sh, p, None) # drop (Suc k) ts" "?ts = take k ts @ (sh, p, Some r) # drop (Suc k) ts"
    using assms(2,3) id_take_nth_drop [of k ts] upd_conv_take_nth_drop [OF assms(2)] by simp_all
  have pids: "setup_pids ?ts = setup_pids ts" "length (filter fst ?ts) = length (filter fst ts)"
    using arg_cong [OF ts(1), of setup_pids] arg_cong [OF ts(1), of "\<lambda>ts. length (filter fst ts)"]
    unfolding ts(2) by (cases sh; simp)+
  obtain b where b: "idx < length (backends s)" "\<not> b_used (backends s ! idx)" "backends s' = (backends s)[idx := b]"
    "b_used b" "b_alive b" "b_is_shell b = sh" "b_pid b = p"
    and fr: "connecting s' = connecting s" "shell_connecting s' = shell_connecting s"
    using assms(4) unfolding registered_at_def by blast
  have sv: "serves s' sh' p' i \<longleftrightarrow> serves s sh' p' i \<or> (i = idx \<and> sh' = sh \<and> (sh \<or> p' = p))" for sh' p' i
    using b by (cases "i = idx") (auto simp: serves_def)
  have none: "\<not> serves s sh p i" for i using m mem by blast
  have none': "\<not> serves s sh p' i" if "sh" for i p'
    using none [of i] that by (simp add: serves_def)
  have al: "b_alive (backends s' ! i)" if "serves s' sh' p' i" for sh' p' i
    using that m b unfolding sv by (cases "i = idx") (auto simp: serves_def)
  have pn: "(sh', p', None) \<in> set ts \<and> \<not> (sh' = sh \<and> (sh \<or> p' = p))" if x: "(sh', p', None) \<in> set ?ts" for sh' p'
  proof -
    have x': "(sh', p', None) \<in> set (take k ts) \<union> set (drop (Suc k) ts)" using x unfolding ts(2) by auto
    then have "(sh', p', None) \<in> set ts" by (auto dest: in_set_takeD in_set_dropD)
    moreover have "\<not> (sh' = sh \<and> (sh \<or> p' = p))"
    proof
      assume a: "sh' = sh \<and> (sh \<or> p' = p)"
      show False
      proof (cases sh)
        case True
        with x' a have "(True, p', None) \<in> set (filter fst (take k ts)) \<union> set (filter fst (drop (Suc k) ts))"
          by auto
        then have "filter fst (take k ts) \<noteq> [] \<or> filter fst (drop (Suc k) ts) \<noteq> []"
          by (metis Un_iff empty_iff empty_set)
        moreover have "length (filter fst ts) = (if shell_connecting s then 1 else 0)" using m by blast
        then have "length (filter fst ts) \<le> 1" by simp
        ultimately show False using arg_cong [OF ts(1), of "\<lambda>ts. length (filter fst ts)"] True
          by (auto simp: length_greater_0_conv [symmetric] simp del: length_greater_0_conv)
      next
        case False
        with x' a have "p \<in> set (setup_pids (take k ts)) \<union> set (setup_pids (drop (Suc k) ts))"
          by (force simp: setup_pids_def)
        moreover have "distinct (setup_pids ts)" using m by blast
        ultimately show False using arg_cong [OF ts(1), of setup_pids] False by auto
      qed
    qed
    ultimately show ?thesis by blast
  qed
  have self: "sh \<or> p \<noteq> self"
  proof -
    have "p \<in> set (setup_pids ts)" if "\<not> sh" using mem that by (force simp: setup_pids_def)
    then show ?thesis using m by auto
  qed
  show ?thesis
    unfolding members_ok_def pids fr
    using m none none' al pn self b(3) unfolding sv by auto
qed


lemma members_ok_mark:
  assumes "members_ok self s ts" and "k < length ts" and "ts ! k = (sh, p, None)"
  shows "members_ok self s (ts[k := (sh, p, Some r)])"
proof -
  note m = assms(1) [unfolded members_ok_def]
  let ?ts = "ts[k := (sh, p, Some r)]"
  have ts: "ts = take k ts @ (sh, p, None) # drop (Suc k) ts" "?ts = take k ts @ (sh, p, Some r) # drop (Suc k) ts"
    using assms(2,3) id_take_nth_drop [of k ts] upd_conv_take_nth_drop [OF assms(2)] by simp_all
  have pids: "setup_pids ?ts = setup_pids ts" "length (filter fst ?ts) = length (filter fst ts)"
    using arg_cong [OF ts(1), of setup_pids] arg_cong [OF ts(1), of "\<lambda>ts. length (filter fst ts)"]
    unfolding ts(2) by (cases sh; simp)+
  have "\<forall>sh' p'. (sh', p', None) \<in> set ?ts \<longrightarrow> (sh', p', None) \<in> set ts"
    unfolding ts(2) by (auto dest: in_set_takeD in_set_dropD)
  with m show ?thesis unfolding members_ok_def pids by blast
qed

lemma table_inv_registered:
  assumes "table_inv n s" and "registered_at idx sh p s s'"
  shows "table_inv n s'"
proof -
  from assms(2) obtain b where b: "idx < length (backends s)" "backends s' = (backends s)[idx := b]" "b_used b"
    and "inflights s' = inflights s" "next_local_id s' = next_local_id s" "framing s' = framing s"
      "agent_initialized s' = agent_initialized s"
    unfolding registered_at_def by blast
  then show ?thesis
    by (intro table_inv_cong [OF assms(1)]) (auto simp: nth_list_update)
qed

section \<open>Prefixes of live backends differ\<close>

definition prefix_inv :: "aggregator \<Rightarrow> bool" where
  "prefix_inv s \<longleftrightarrow>
     (\<forall>i<length (backends s). b_used (backends s ! i) \<longrightarrow> prefix_chars (b_prefix (backends s ! i))) \<and>
     (length (used_prefixes s) < 98 \<longrightarrow>
        (\<forall>i<length (backends s). b_used (backends s ! i) \<and> \<not> b_is_shell (backends s ! i) \<longrightarrow>
           b_prefix (backends s ! i) \<in> set (used_prefixes s)) \<and>
        (\<forall>i<length (backends s). \<forall>j<length (backends s).
           b_used (backends s ! i) \<and> \<not> b_is_shell (backends s ! i) \<and>
           b_used (backends s ! j) \<and> \<not> b_is_shell (backends s ! j) \<and>
           b_prefix (backends s ! i) = b_prefix (backends s ! j) \<longrightarrow> i = j))"

lemma prefix_inv_distinct:
  assumes "prefix_inv s" and "length (used_prefixes s) < 98"
    and "i < length (backends s)" "b_used (backends s ! i)" "\<not> b_is_shell (backends s ! i)"
    and "j < length (backends s)" "b_used (backends s ! j)" "\<not> b_is_shell (backends s ! j)"
    and "b_prefix (backends s ! i) = b_prefix (backends s ! j)"
  shows "i = j"
  using assms unfolding prefix_inv_def by blast

lemma prefix_inv_fewer:
  assumes "prefix_inv s" and "length (backends s') = length (backends s)" and "used_prefixes s' = used_prefixes s"
    and "\<And>i. i < length (backends s) \<Longrightarrow> b_used (backends s' ! i) \<Longrightarrow> b_used (backends s ! i) \<and>
      b_is_shell (backends s' ! i) = b_is_shell (backends s ! i) \<and> b_prefix (backends s' ! i) = b_prefix (backends s ! i)"
  shows "prefix_inv s'"
  unfolding prefix_inv_def
proof (intro conjI allI impI, goal_cases)
  case (1 i)
  then show ?case using assms(1,2) assms(4) [of i] unfolding prefix_inv_def by simp
next
  case (2 i)
  then show ?case using assms(1-3) assms(4) [of i] unfolding prefix_inv_def by simp
next
  case (3 i j)
  have "b_prefix (backends s ! i) = b_prefix (backends s ! j)" using 3 assms(2) assms(4) [of i] assms(4) [of j] by simp
  moreover have "length (used_prefixes s) < 98" using 3(1) assms(3) by simp
  moreover have "b_used (backends s ! k) \<and> \<not> b_is_shell (backends s ! k)"
    if "k < length (backends s)" "b_used (backends s' ! k)" "\<not> b_is_shell (backends s' ! k)" for k
    using assms(4) [of k] that by blast
  ultimately show ?case
    using 3(2-4) assms(2) prefix_inv_distinct [OF assms(1), of i j] by metis
qed

lemma prefix_inv_members: "prefix_inv s \<Longrightarrow> same_members s s' \<Longrightarrow> prefix_inv s'"
  using same_members_at [of s s'] by (elim prefix_inv_fewer) (auto simp: ident_def same_members_def)

lemma prefix_inv_freed:
  assumes "prefix_inv s" and "freed idx s s'"
  shows "prefix_inv s'"
proof (rule prefix_inv_fewer [OF assms(1)])
  show "length (backends s') = length (backends s)" by (rule freed_at(1) [OF assms(2)])
  show "used_prefixes s' = used_prefixes s" using assms(2) by (simp add: freed_def)
  fix i
  assume i: "i < length (backends s)" "b_used (backends s' ! i)"
  with freed_at(2) [OF assms(2) i(1)]
  show "b_used (backends s ! i) \<and> b_is_shell (backends s' ! i) = b_is_shell (backends s ! i) \<and>
      b_prefix (backends s' ! i) = b_prefix (backends s ! i)"
    by (cases "i = idx") (simp_all add: ident_def backend_zero_def)
qed

lemma assign_prefix_grows:
  assumes "assign_prefix d c used = (p, used')"
  shows "length used \<le> length used'"
proof -
  have "length used \<le> length (snd (assign_prefix d c used))"
    by (simp add: assign_prefix_def reserve_prefix_def Let_def split: option.split)
  with assms show ?thesis by simp
qed

lemma prefix_inv_assign:
  assumes "prefix_inv s" and "is_slug d" and "length (backends s') = length (backends s)"
    and "(b_prefix (backends s' ! idx), used_prefixes s') = assign_prefix d 40 (used_prefixes s)"
    and "\<And>i. i < length (backends s) \<Longrightarrow> i \<noteq> idx \<Longrightarrow> b_used (backends s' ! i) \<Longrightarrow> b_used (backends s ! i) \<and>
      b_is_shell (backends s' ! i) = b_is_shell (backends s ! i) \<and> b_prefix (backends s' ! i) = b_prefix (backends s ! i)"
  shows "prefix_inv s'"
proof -
  let ?p = "b_prefix (backends s' ! idx)"
  have ch: "prefix_chars ?p" using assign_prefix_chars [OF assms(2), of "used_prefixes s"] assms(4) by (metis fst_conv)
  have new: "used_prefixes s' = used_prefixes s @ [?p]" "?p \<notin> set (used_prefixes s)" "length (used_prefixes s) < 98"
    if l: "length (used_prefixes s') < 98"
  proof -
    show less: "length (used_prefixes s) < 98"
      using assign_prefix_grows [OF assms(4) [symmetric]] l by simp
    from assign_prefix_new [OF assms(2) less] assms(4)
    show "used_prefixes s' = used_prefixes s @ [?p]" "?p \<notin> set (used_prefixes s)" by auto
  qed
  show ?thesis
    unfolding prefix_inv_def
  proof (intro conjI allI impI, goal_cases)
    case (1 i)
    then show ?case using assms(1,3) ch assms(5) [of i] unfolding prefix_inv_def by (cases "i = idx") auto
  next
    case (2 i)
    then show ?case using assms(1,3) new assms(5) [of i] unfolding prefix_inv_def by (cases "i = idx") auto
  next
    case (3 i j)
    have mem: "b_prefix (backends s ! k) \<in> set (used_prefixes s)"
      if "k < length (backends s)" "b_used (backends s ! k)" "\<not> b_is_shell (backends s ! k)" for k
      using that assms(1) new(3) [OF 3(1)] unfolding prefix_inv_def by blast
    have k: "b_used (backends s ! k) \<and> \<not> b_is_shell (backends s ! k) \<and> b_prefix (backends s' ! k) = b_prefix (backends s ! k) \<and>
        b_prefix (backends s ! k) \<noteq> ?p"
      if "k < length (backends s)" "k \<noteq> idx" "b_used (backends s' ! k)" "\<not> b_is_shell (backends s' ! k)" for k
      using that assms(5) [of k] mem [of k] new(2) [OF 3(1)] by metis
    show ?case
    proof (cases "i = idx \<or> j = idx")
      case True
      then show ?thesis using 3 k [of i] k [of j] assms(3) by metis
    next
      case False
      then have "b_prefix (backends s ! i) = b_prefix (backends s ! j)"
        using 3 k [of i] k [of j] assms(3) by simp
      then show ?thesis
        using False 3(2-4) k [of i] k [of j] assms(3) prefix_inv_distinct [OF assms(1) new(3) [OF 3(1)]] by simp
    qed
  qed
qed

lemma prefix_inv_registered:
  assumes "prefix_inv s" and "registered_at idx sh p s s'"
  shows "prefix_inv s'"
proof -
  obtain b where b: "idx < length (backends s)" "backends s' = (backends s)[idx := b]" "b_is_shell b = sh"
    "if sh then b_prefix b = ''shell'' \<and> used_prefixes s' = used_prefixes s
     else \<exists>d. is_slug d \<and> (b_prefix b, used_prefixes s') = assign_prefix d 40 (used_prefixes s)"
    using assms(2) unfolding registered_at_def by blast
  show ?thesis
  proof (cases sh)
    case True
    have "prefix_chars ''shell''" by (simp add: prefix_chars_def is_lower_alnum_def)
    with assms(1) b True show ?thesis
      unfolding prefix_inv_def by (auto simp: nth_list_update)
  next
    case False
    with b(4) obtain d where d: "is_slug d" "(b_prefix b, used_prefixes s') = assign_prefix d 40 (used_prefixes s)"
      by auto
    show ?thesis
      by (rule prefix_inv_assign [OF assms(1) d(1), where idx = idx]) (use b d in auto)
  qed
qed

lemma prefix_inv_reader:
  assumes "prefix_inv s" and "idx < length (backends s)"
    and "same_sessions s s' \<and> (same_members s s' \<or> reprefixed idx s s') \<or> freed idx s s'"
  shows "prefix_inv s'"
  using assms(3)
proof (elim disjE conjE)
  assume r: "same_sessions s s'" "reprefixed idx s s'"
  from r(2) obtain d where d: "is_slug d" "(b_prefix (backends s' ! idx), used_prefixes s') = assign_prefix d 40 (used_prefixes s)"
    unfolding reprefixed_def by blast
  show ?thesis
    by (rule prefix_inv_assign [OF assms(1) d(1) _ d(2)])
      (use r in \<open>auto simp: same_sessions_def reprefixed_def\<close>)
qed (use assms(1) in \<open>auto intro: prefix_inv_members prefix_inv_freed\<close>)

lemma strstr_absent: "c \<notin> set s \<Longrightarrow> strstr s (c # n) = None"
  by (induction s) auto

section \<open>Runs\<close>

definition agg_inv :: "int \<Rightarrow> nat \<Rightarrow> aggregator \<times> setup_thread list \<Rightarrow> bool" where
  "agg_inv self n x \<longleftrightarrow> table_inv n (fst x) \<and> members_ok self (fst x) (snd x) \<and> prefix_inv (fst x)"

lemma agg_inv_init: "agg_inv self 0 (aggregator_zero expose, [])"
proof -
  have "table_ok (aggregator_zero expose)" "calls (aggregator_zero expose) = (\<lambda>_. None)"
  proof -
    show ok: "table_ok (aggregator_zero expose)"
      by (simp add: table_ok_def aggregator_zero_def inflight_zero_def)
    have "calls (aggregator_zero expose) m \<noteq> Some c" for m c
      unfolding calls_Some_iff [OF ok] by (auto simp: aggregator_zero_def inflight_zero_def)
    then show "calls (aggregator_zero expose) = (\<lambda>_. None)" by (intro ext) (metis not_None_eq)
  qed
  moreover have sv: "\<not> serves (aggregator_zero expose) sh p i" for sh p i
    by (auto simp: serves_def aggregator_zero_def backend_zero_def)
  moreover have "members_ok self (aggregator_zero expose) []"
    using sv by (simp add: members_ok_def aggregator_zero_def)
  ultimately show ?thesis
    by (simp add: agg_inv_def table_inv_def prefix_inv_def aggregator_zero_def backend_zero_def)
qed

lemma agg_inv_step:
  assumes "agg_inv self n x" and "n < 2 ^ 53" and "agg_step print parse oob exe_path self x e y"
  shows "agg_inv self (Suc n) y"
  using assms(3)
proof cases
  case (agent f body s s' ts)
  with assms(1) agent_step_inv [of n s f print parse body s'] assms(2) show ?thesis
    by (auto simp: agg_inv_def intro: members_ok_sessions same_members_sessions prefix_inv_members)
next
  case (reader idx s go s' ts)
  with assms(1) reader_pass_inv [of n s idx print parse oob go s'] assms(2)
  have r: "table_inv (Suc n) s'" "same_sessions s s' \<and> (same_members s s' \<or> reprefixed idx s s') \<or> freed idx s s'"
    by (auto simp: agg_inv_def)
  with reader assms(1) prefix_inv_reader [of s idx s'] show ?thesis
    by (auto simp: agg_inv_def intro: members_ok_sessions members_ok_freed)
next
  case (poll pids s fresh try_shell s' ts)
  have fr: "s' = s\<lparr>connecting := connecting s', shell_connecting := shell_connecting s'\<rparr>"
  proof -
    have len: "length (connecting s) \<le> MAX_BACKENDS" using assms(1) poll by (simp add: agg_inv_def members_ok_def)
    obtain s1 where sc: "poll_scan self (take 64 pids) s = (fresh, s1)"
      using poll(4) by (cases "poll_scan self (take 64 pids) s") (simp add: poll_round_def Let_def)
    from poll_scan_spec [OF sc len] have s1: "s1 = s\<lparr>connecting := connecting s @ fresh\<rparr>" by blast
    show ?thesis
      using poll(4) unfolding poll_round_def sc Let_def prod.case prod.inject s1 by auto
  qed
  have "table_inv n s'" by (subst fr, rule table_inv_cong [of n s]) (use assms(1) poll in \<open>auto simp: agg_inv_def\<close>)
  moreover have "prefix_inv s'" by (subst fr, rule prefix_inv_fewer [of s]) (use assms(1) poll in \<open>auto simp: agg_inv_def\<close>)
  ultimately show ?thesis
    using assms(1) poll members_ok_poll [of self s ts pids fresh try_shell s'] table_inv_mono [of n s' "Suc n"]
    by (simp add: agg_inv_def)
next
  case (give_up k ts sh p s)
  let ?s = "connecting_remove sh p s"
  have fr: "backends ?s = backends s" "inflights ?s = inflights s" "next_local_id ?s = next_local_id s"
    "framing ?s = framing s" "agent_initialized ?s = agent_initialized s" "used_prefixes ?s = used_prefixes s"
    by (auto simp: connecting_remove_def split: option.splits)
  have "table_inv n ?s" by (rule table_inv_cong [of n s]) (use assms(1) give_up fr in \<open>auto simp: agg_inv_def\<close>)
  moreover have "prefix_inv ?s" by (rule prefix_inv_fewer [of s]) (use assms(1) give_up fr in \<open>auto simp: agg_inv_def\<close>)
  ultimately show ?thesis
    using assms(1) give_up members_ok_leave [of self s ts k sh p None] table_inv_mono [of n ?s "Suc n"]
    by (simp add: agg_inv_def)
next
  case (register k ts sh p c ok aid tool_list s registered s')
  from assms(1) register have i: "table_inv n s" "members_ok self s ts" "prefix_inv s" by (auto simp: agg_inv_def)
  consider "s' = s" | idx s1 where "registered_at idx sh p s s1" "s' = s1 \<or> backend_teardown_locked print idx s1 = Some s'"
    using register_cases [OF register(7)] by blast
  then show ?thesis
  proof cases
    case 1
    with i register members_ok_mark [OF i(2) register(4,5)] table_inv_mono [OF i(1), of "Suc n"] show ?thesis
      by (simp add: agg_inv_def)
  next
    case (2 idx s1)
    have i1: "table_inv n s1" "members_ok self s1 (ts[k := (sh, p, Some registered)])" "prefix_inv s1"
      using table_inv_registered [OF i(1) 2(1)] members_ok_registered [OF i(2) register(4,5) 2(1)]
        prefix_inv_registered [OF i(3) 2(1)] by auto
    have "table_inv n s' \<and> members_ok self s' (ts[k := (sh, p, Some registered)]) \<and> prefix_inv s'"
      using 2(2)
    proof
      assume td: "backend_teardown_locked print idx s1 = Some s'"
      from teardown_inv [OF i1(1) td] members_ok_freed [OF i1(2)] prefix_inv_freed [OF i1(3)] show ?thesis by blast
    qed (use i1 in simp)
    with register table_inv_mono [of n s' "Suc n"] show ?thesis by (simp add: agg_inv_def)
  qed
next
  case (finish k ts sh p registered s s')
  let ?s = "connecting_remove sh p s"
  have fr: "backends ?s = backends s" "inflights ?s = inflights s" "next_local_id ?s = next_local_id s"
    "framing ?s = framing s" "agent_initialized ?s = agent_initialized s" "used_prefixes ?s = used_prefixes s"
    by (auto simp: connecting_remove_def split: option.splits)
  have t: "table_inv n ?s" by (rule table_inv_cong [of n s]) (use assms(1) finish fr in \<open>auto simp: agg_inv_def\<close>)
  have p: "prefix_inv ?s" by (rule prefix_inv_fewer [of s]) (use assms(1) finish fr in \<open>auto simp: agg_inv_def\<close>)
  have m: "members_ok self ?s (remove_at k ts)"
    using assms(1) finish members_ok_leave [of self s ts k sh p "Some registered"] by (simp add: agg_inv_def)
  have "\<exists>out. s' = ?s\<lparr>stdout := out\<rparr>"
  proof (cases registered)
    case True
    with finish(6) show ?thesis using emit_frame by simp
  next
    case False
    with finish(6) have "s' = ?s\<lparr>stdout := stdout ?s\<rparr>" by simp
    then show ?thesis by blast
  qed
  then obtain out where s': "s' = ?s\<lparr>stdout := out\<rparr>" by blast
  then have sm: "same_members ?s s'" by (simp add: same_members_def)
  have "table_inv (Suc n) s'" unfolding s' using table_inv_out [OF table_inv_mono [OF t]] by simp
  with finish sm m p show ?thesis
    by (auto simp: agg_inv_def intro: members_ok_sessions same_members_sessions prefix_inv_members)
qed


lemma agg_run_inv:
  "agg_run print parse oob exe_path self expose n x \<Longrightarrow> n \<le> 2 ^ 53 \<Longrightarrow> agg_inv self n x"
proof (induction rule: agg_run.induct)
  case init
  show ?case by (rule agg_inv_init)
next
  case (step n x e y)
  then show ?case by (intro agg_inv_step [of self n x]) auto
qed

text \<open>The first poll of a workspace where the processes 42 and 43 run servers, and their registration.\<close>

definition demo_pids :: "int list" where
  "demo_pids = [42, 43]"

definition demo_agg_print :: "json \<Rightarrow> bytes" where
  "demo_agg_print _ = ''{}''"

definition demo_parse :: "bytes \<Rightarrow> json option" where
  "demo_parse _ = None"

definition demo_oob :: "dbl \<Rightarrow> u64" where
  "demo_oob _ = 0"

definition demo_exe :: "int \<Rightarrow> bytes" where
  "demo_exe _ = ''/usr/bin/demo.exe''"

lemma demo_poll:
  "\<exists>try_shell s1. poll_round 7 demo_pids (aggregator_zero expose) = ([42, 43], try_shell, s1) \<and>
     backends s1 = replicate MAX_BACKENDS backend_zero \<and> used_prefixes s1 = [] \<and>
     (\<exists>c sc. s1 = (aggregator_zero expose)\<lparr>connecting := c, shell_connecting := sc\<rparr>)"
proof -
  let ?z = "aggregator_zero expose"
  have known: "\<not> backend_known False p s" if "backends s = backends ?z" "p \<notin> set (connecting s)" for p s
    unfolding backend_known_iff using that by (auto simp: serves_def aggregator_zero_def backend_zero_def)
  have sc: "poll_scan 7 (take 64 demo_pids) ?z = ([42, 43], ?z\<lparr>connecting := [42, 43]\<rparr>)"
  proof -
    have "\<not> backend_known False 42 ?z" by (rule known) (simp_all add: aggregator_zero_def)
    moreover have "\<not> backend_known False 43 (?z\<lparr>connecting := [42]\<rparr>)" by (rule known) (simp_all add: aggregator_zero_def)
    moreover have "connecting ?z = []" by (simp add: aggregator_zero_def)
    ultimately show ?thesis by (simp add: demo_pids_def MAX_BACKENDS_def)
  qed
  show ?thesis
    unfolding poll_round_def sc by (simp add: Let_def) (auto simp add: aggregator_zero_def)
qed

lemma assign_prefix_grows_one:
  assumes "assign_prefix d c used = (p, used')"
  shows "length used' \<le> Suc (length used)"
proof -
  have "length (snd (assign_prefix d c used)) \<le> Suc (length used)"
    unfolding assign_prefix_def
    by (cases "find (\<lambda>n. \<not> prefix_in_use (prefix_candidate d n) used) [2..<100]")
      (simp_all del: upt.simps add: Let_def reserve_prefix_def)
  with assms show ?thesis by simp
qed

lemma demo_register:
  assumes "find_index (\<lambda>b. \<not> b_used b) (backends s) = Some i" and "i < length (backends s)" and "length (used_prefixes s) < 128"
  shows "\<exists>b used s'. backend_register print exe_path True False p c ''app'' None s = Some (True, s') \<and>
    backends s' = (backends s)[i := b] \<and> b_used b \<and> b_pid b = p \<and> \<not> b_is_shell b \<and> used_prefixes s' = used \<and>
    length used \<le> Suc (length (used_prefixes s))"
proof -
  obtain px used where ap: "assign_prefix (desired_prefix (exe_path p) ''app'') 40 (used_prefixes s) = (px, used)" by fastforce
  have l: "length used \<le> Suc (length (used_prefixes s))" by (rule assign_prefix_grows_one [OF ap])
  let ?b = "\<lparr>b_used = True, b_alive = True, b_is_shell = False, b_pid = p, b_prefix = px,
    b_app_id = snprintf_s 33 ''app'', b_conn = c, b_tools = tools_cache None\<rparr>"
  let ?s = "s\<lparr>backends := (backends s)[i := ?b], used_prefixes := used\<rparr>"
  have r: "backend_register print exe_path True False p c ''app'' None s = Some (True, ?s)"
    unfolding backend_register_def assms(1) option.case if_False if_True ap Let_def prod.case by (rule refl)
  have "backends ?s = (backends s)[i := ?b]" "b_used ?b" "b_pid ?b = p" "\<not> b_is_shell ?b" "used_prefixes ?s = used"
    by simp_all
  with r l show ?thesis by blast
qed

lemma demo_agg_run:
  "\<exists>s ts. agg_run print parse oob exe_path 7 expose 3 (s, ts) \<and> b_used (backends s ! 0) \<and> b_pid (backends s ! 0) = 42 \<and>
     \<not> b_is_shell (backends s ! 0) \<and> b_used (backends s ! 1) \<and> \<not> b_is_shell (backends s ! 1) \<and> length (used_prefixes s) < 98"
proof -
  obtain try_shell s1 where pr: "poll_round 7 demo_pids (aggregator_zero expose) = ([42, 43], try_shell, s1)"
    and s1: "backends s1 = replicate MAX_BACKENDS backend_zero" "used_prefixes s1 = []"
    using demo_poll by blast
  let ?ts = "[] @ map (\<lambda>p. (False, p, None)) [42, 43] @ (if try_shell then [(True, 0, None)] else [])"
  let ?c = "Some (demo_conn [] [])"
  have v: "conn_valid ?c" by (simp add: conn_valid_def demo_conn_def)
  have r1: "agg_run print parse oob exe_path 7 expose (Suc 0) (s1, ?ts)"
    by (rule agg_run.step [OF agg_run.init agg_step.poll [OF pr]])
  have bs: "backends s1 = backend_zero # backend_zero # replicate 30 backend_zero"
    using replicate_Suc [of 31 backend_zero] replicate_Suc [of 30 backend_zero] by (simp add: s1 MAX_BACKENDS_def)
  have "find_index (\<lambda>b. \<not> b_used b) (backends s1) = Some 0" "0 < length (backends s1)" "length (used_prefixes s1) < 128"
    unfolding bs s1(2) by (simp_all add: backend_zero_def)
  from demo_register [OF this, of print exe_path 42 ?c]
  obtain b used s2 where r2: "backend_register print exe_path True False 42 ?c ''app'' None s1 = Some (True, s2)"
    and b: "backends s2 = (backends s1)[0 := b]" "b_used b" "b_pid b = 42" "\<not> b_is_shell b" "used_prefixes s2 = used"
      "length used \<le> 1"
    using s1 by auto
  have "find_index (\<lambda>b. \<not> b_used b) (backends s2) = Some 1" "1 < length (backends s2)" "length (used_prefixes s2) < 128"
    using b by (simp_all add: bs backend_zero_def)
  from demo_register [OF this, of print exe_path 43 ?c]
  obtain b' used' s3 where r3: "backend_register print exe_path True False 43 ?c ''app'' None s2 = Some (True, s3)"
    and b': "backends s3 = (backends s2)[1 := b']" "b_used b'" "\<not> b_is_shell b'" "used_prefixes s3 = used'"
      "length used' \<le> 2"
    using b by auto
  let ?ts2 = "?ts[0 := (False, 42, Some True)]"
  have k: "0 < length ?ts" "?ts ! 0 = (False, 42, None)" "1 < length ?ts2" "?ts2 ! 1 = (False, 43, None)" by simp_all
  have "agg_run print parse oob exe_path 7 expose (Suc (Suc (Suc 0))) (s3, ?ts2[1 := (False, 43, Some True)])"
    by (rule agg_run.step [OF agg_run.step [OF r1 agg_step.register [OF k(1,2) v r2]] agg_step.register [OF k(3,4) v r3]])
  then have "agg_run print parse oob exe_path 7 expose 3 (s3, ?ts2[1 := (False, 43, Some True)])"
    by (simp only: numeral_3_eq_3)
  moreover have "b_used (backends s3 ! 0) \<and> b_pid (backends s3 ! 0) = 42 \<and> \<not> b_is_shell (backends s3 ! 0) \<and>
      b_used (backends s3 ! 1) \<and> \<not> b_is_shell (backends s3 ! 1) \<and> length (used_prefixes s3) < 98"
    using b b' by (simp add: bs)
  ultimately show ?thesis by blast
qed

text \<open>C6. However agent messages, backend messages, polls and setup threads interleave, a running session
  is served by at most one backend, the shell role by at most one, and the aggregator never attaches to its
  own process; the tables stay within their 32 entries.\<close>

theorem sessions_served_once:
  assumes "agg_run print parse oob exe_path self expose n (s, ts)" and "n \<le> 2 ^ 53"
  shows "length (backends s) = 32 \<and> length (connecting s) \<le> 32 \<and> distinct (connecting s) \<and>
    (\<forall>i<32. \<forall>j<32. b_used (backends s ! i) \<and> b_used (backends s ! j) \<and>
       b_is_shell (backends s ! i) = b_is_shell (backends s ! j) \<and>
       (b_is_shell (backends s ! i) \<or> b_pid (backends s ! i) = b_pid (backends s ! j)) \<longrightarrow> i = j) \<and>
    (\<forall>i<32. b_used (backends s ! i) \<longrightarrow> b_alive (backends s ! i) \<and>
       (b_is_shell (backends s ! i) \<or> b_pid (backends s ! i) \<noteq> self))"
proof -
  have "members_ok self s ts" using agg_run_inv [OF assms] by (simp add: agg_inv_def)
  note m = this [unfolded members_ok_def MAX_BACKENDS_def]
  have sv: "serves s (b_is_shell (backends s ! i)) (b_pid (backends s ! i)) i" if "i < 32" "b_used (backends s ! i)" for i
    using m that by (simp add: serves_def)
  have eq: "serves s (b_is_shell (backends s ! i)) (b_pid (backends s ! i)) j"
    if "j < 32" "b_used (backends s ! j)" "b_is_shell (backends s ! i) = b_is_shell (backends s ! j)"
      "b_is_shell (backends s ! i) \<or> b_pid (backends s ! i) = b_pid (backends s ! j)" for i j
    using m that by (auto simp: serves_def)
  have "i = j" if "i < 32" "j < 32" "b_used (backends s ! i)" "b_used (backends s ! j)"
    "b_is_shell (backends s ! i) = b_is_shell (backends s ! j)"
    "b_is_shell (backends s ! i) \<or> b_pid (backends s ! i) = b_pid (backends s ! j)" for i j
    using sv [OF that(1,3)] eq [OF that(2,4-6)] m by blast
  moreover have "b_is_shell (backends s ! i) \<or> b_pid (backends s ! i) \<noteq> self" if "i < 32" "b_used (backends s ! i)" for i
  proof -
    have "\<not> serves s False self i" using m by blast
    with m that show ?thesis by (auto simp: serves_def)
  qed
  moreover have "b_alive (backends s ! i)" if "i < 32" "b_used (backends s ! i)" for i
    using sv [OF that] m by blast
  ultimately show ?thesis using m by blast
qed

theorem sessions_served_once_witness:
  "\<exists>s ts. agg_run demo_agg_print demo_parse demo_oob demo_exe 7 False 3 (s, ts) \<and> b_used (backends s ! 0) \<and> length (backends s) = 32 \<and>
     (\<forall>j<32. b_used (backends s ! j) \<and> \<not> b_is_shell (backends s ! j) \<and> b_pid (backends s ! j) = 42 \<longrightarrow> 0 = j)"
proof -
  obtain s ts where r: "agg_run demo_agg_print demo_parse demo_oob demo_exe 7 False 3 (s, ts)" and b: "b_used (backends s ! 0)"
    "b_pid (backends s ! 0) = 42" "\<not> b_is_shell (backends s ! 0)"
    using demo_agg_run [of demo_agg_print demo_parse demo_oob demo_exe False] by blast
  from sessions_served_once [OF r] have c: "length (backends s) = 32"
    "\<forall>i<32. \<forall>j<32. b_used (backends s ! i) \<and> b_used (backends s ! j) \<and>
       b_is_shell (backends s ! i) = b_is_shell (backends s ! j) \<and>
       (b_is_shell (backends s ! i) \<or> b_pid (backends s ! i) = b_pid (backends s ! j)) \<longrightarrow> i = j" by (simp, simp, blast)
  have "0 = j" if "j < 32" "b_used (backends s ! j)" "\<not> b_is_shell (backends s ! j)" "b_pid (backends s ! j) = 42" for j
    using c(2) [rule_format, of 0 j] that b by simp
  with r b c(1) show ?thesis by blast
qed

text \<open>C9. In every run every call in flight is at a live backend, has a local id of its own that fits a
  \<open>double\<close> exactly, and, if it is the agent's, has the agent's id; and whenever something may have to be written
  to the agent unasked, the framing is known, so no thread waits on the framing latch while it holds the lock.\<close>

theorem calls_well_placed:
  assumes "agg_run print parse oob exe_path self expose n (s, ts)" and "n < 2 ^ 53"
  shows "table_ok s \<and>
    (\<forall>m idx k orig. calls s m = Some (idx, k, orig) \<longrightarrow> unat m < 2 ^ 53 \<and> idx < 32 \<and> b_used (backends s ! idx) \<and>
       (k = INFLIGHT_AGENT \<longrightarrow> orig \<noteq> None \<and> framing s \<noteq> FRAMING_UNKNOWN)) \<and>
    (agent_initialized s \<longrightarrow> framing s \<noteq> FRAMING_UNKNOWN)"
proof -
  have "agg_inv self n (s, ts)" using assms by (intro agg_run_inv) auto
  then have i: "table_inv n s" "length (backends s) = 32" by (auto simp: agg_inv_def members_ok_def MAX_BACKENDS_def)
  have "unat m < 2 ^ 53" if c: "calls s m = Some c" for m c
  proof -
    from c table_invD(1) [OF i(1)] have "m \<le> next_local_id s"
      unfolding calls_Some_iff [OF table_invD(1) [OF i(1)]] by (auto simp: table_ok_def)
    then have "unat m \<le> n" using table_invD(2) [OF i(1)] by (meson order_trans word_le_nat_alt)
    with assms(2) show ?thesis by simp
  qed
  then show ?thesis using i unfolding table_inv_def by auto
qed

theorem calls_well_placed_witness:
  "\<exists>s ts. agg_run demo_agg_print demo_parse demo_oob demo_exe 7 False 3 (s, ts) \<and> table_ok s \<and>
     (\<forall>m idx k orig. calls s m = Some (idx, k, orig) \<longrightarrow> idx < 32)"
proof -
  obtain s ts where r: "agg_run demo_agg_print demo_parse demo_oob demo_exe 7 False 3 (s, ts)"
    using demo_agg_run [of demo_agg_print demo_parse demo_oob demo_exe False] by blast
  from calls_well_placed [OF r] have c: "table_ok s" "\<forall>m idx k orig. calls s m = Some (idx, k, orig) \<longrightarrow> idx < 32"
    by simp_all
  with r show ?thesis by blast
qed

text \<open>C11. In every run, no prefix of a live backend, the shell's included, is empty or contains the separator
  \<open>__\<close>, so a prefixed tool name splits behind its prefix whatever the tool is called; and as long as fewer than
  98 prefixes were handed out, two live app backends never have the same prefix.\<close>

theorem live_prefixes_differ:
  assumes "agg_run print parse oob exe_path self expose n (s, ts)" and "n \<le> 2 ^ 53"
  shows "(\<forall>i<32. b_used (backends s ! i) \<longrightarrow>
      b_prefix (backends s ! i) \<noteq> [] \<and> strstr (b_prefix (backends s ! i)) NS_SEP = None \<and>
      (\<forall>nm. strstr (b_prefix (backends s ! i) @ NS_SEP @ nm) NS_SEP = Some (length (b_prefix (backends s ! i))))) \<and>
    (length (used_prefixes s) < 98 \<longrightarrow>
      (\<forall>i<32. \<forall>j<32. i \<noteq> j \<and> b_used (backends s ! i) \<and> b_used (backends s ! j) \<and>
        \<not> b_is_shell (backends s ! i) \<and> \<not> b_is_shell (backends s ! j) \<longrightarrow>
        b_prefix (backends s ! i) \<noteq> b_prefix (backends s ! j)))"
proof -
  have "agg_inv self n (s, ts)" using assms by (rule agg_run_inv)
  then have x: "prefix_inv s" "length (backends s) = 32" by (auto simp: agg_inv_def members_ok_def MAX_BACKENDS_def)
  have "b_prefix (backends s ! i) \<noteq> [] \<and> strstr (b_prefix (backends s ! i)) NS_SEP = None \<and>
      (\<forall>nm. strstr (b_prefix (backends s ! i) @ NS_SEP @ nm) NS_SEP = Some (length (b_prefix (backends s ! i))))"
    if "i < 32" "b_used (backends s ! i)" for i
  proof -
    have pc: "prefix_chars (b_prefix (backends s ! i))" using x that by (simp add: prefix_inv_def)
    have us: "CHR ''_'' \<notin> set (b_prefix (backends s ! i))" using pc by (rule prefix_no_sep)
    then have "strstr (b_prefix (backends s ! i)) NS_SEP = None" by (simp add: NS_SEP_def strstr_absent)
    moreover have "b_prefix (backends s ! i) \<noteq> []" using pc by (simp add: prefix_chars_def)
    ultimately show ?thesis using strstr_after_prefix [OF us] by blast
  qed
  moreover have "b_prefix (backends s ! i) \<noteq> b_prefix (backends s ! j)"
    if "length (used_prefixes s) < 98" "i < 32" "j < 32" "i \<noteq> j" "b_used (backends s ! i)" "b_used (backends s ! j)"
      "\<not> b_is_shell (backends s ! i)" "\<not> b_is_shell (backends s ! j)" for i j
  proof
    assume e: "b_prefix (backends s ! i) = b_prefix (backends s ! j)"
    have "i = j"
      by (rule prefix_inv_distinct [OF x(1) that(1) _ _ _ _ _ _ e]) (simp_all add: x(2) that)
    with that(4) show False ..
  qed
  ultimately show ?thesis by blast
qed

theorem live_prefixes_differ_witness:
  "\<exists>s ts. agg_run demo_agg_print demo_parse demo_oob demo_exe 7 False 3 (s, ts) \<and>
     b_prefix (backends s ! 0) \<noteq> b_prefix (backends s ! 1) \<and> strstr (b_prefix (backends s ! 0)) ''__'' = None"
proof -
  obtain s ts where r: "agg_run demo_agg_print demo_parse demo_oob demo_exe 7 False 3 (s, ts)"
    and u: "length (used_prefixes s) < 98" "b_used (backends s ! 0)" "b_used (backends s ! 1)"
      "\<not> b_is_shell (backends s ! 0)" "\<not> b_is_shell (backends s ! 1)"
    using demo_agg_run [of demo_agg_print demo_parse demo_oob demo_exe False] by blast
  have "(3 :: nat) \<le> 2 ^ 53" by simp
  note t = live_prefixes_differ [OF r this]
  have "strstr (b_prefix (backends s ! 0)) NS_SEP = None" using conjunct1 [OF t, rule_format, of 0] u(2) by simp
  moreover have "b_prefix (backends s ! 0) \<noteq> b_prefix (backends s ! 1)"
    using conjunct2 [OF t, rule_format, of 0 1] u by simp
  ultimately show ?thesis using r by (auto simp: NS_SEP_def)
qed

end
