(* ===== verification/Agg_Listing.thy ===== *)
theory Agg_Listing
  imports Agg_Invariants
begin

text \<open>
  The tool list and the routing of calls in a running aggregator: by the invariants of \<open>Agg_Invariants\<close>
  the prefixes of live backends differ, so every listed tool is routed back to the backend it came from.
\<close>

lemma members_serve:
  assumes "members_ok self s ts" and "i < length (backends s)" and "b_used (backends s ! i)"
  shows "b_alive (backends s ! i)"
    and "j < length (backends s) \<Longrightarrow> b_used (backends s ! j) \<Longrightarrow> b_is_shell (backends s ! i) \<Longrightarrow>
      b_is_shell (backends s ! j) \<Longrightarrow> i = j"
proof -
  have "serves s (b_is_shell (backends s ! i)) (b_pid (backends s ! i)) i" using assms(2,3) by (simp add: serves_def)
  with assms(1) show "b_alive (backends s ! i)" unfolding members_ok_def by blast
  assume "j < length (backends s)" "b_used (backends s ! j)" "b_is_shell (backends s ! i)" "b_is_shell (backends s ! j)"
  then have "serves s True 0 i" "serves s True 0 j" using assms(2,3) by (simp_all add: serves_def)
  with assms(1) show "i = j" unfolding members_ok_def by blast
qed

lemma route_own:
  assumes "agg_inv self n (s, ts)" and "length (used_prefixes s) < 98" and "idx < 32" and "b_used (backends s ! idx)"
    and "\<forall>i<32. \<forall>j<32. b_used (backends s ! i) \<and> b_is_shell (backends s ! i) \<and> b_used (backends s ! j) \<and>
      \<not> b_is_shell (backends s ! j) \<longrightarrow> b_prefix (backends s ! i) \<noteq> b_prefix (backends s ! j)"
  shows "route (b_prefix (backends s ! idx) @ r) (length (b_prefix (backends s ! idx))) s = Some idx"
proof -
  have inv: "prefix_inv s" "members_ok self s ts" and l: "length (backends s) = 32"
    using assms(1) by (auto simp: agg_inv_def members_ok_def MAX_BACKENDS_def)
  have alive: "b_alive (backends s ! idx)" using members_serve(1) [OF inv(2)] assms(3,4) l by simp
  have uniq: "j = idx" if j: "j < 32" "b_used (backends s ! j)" "b_prefix (backends s ! j) = b_prefix (backends s ! idx)" for j
  proof (cases "b_is_shell (backends s ! j) = b_is_shell (backends s ! idx)")
    case True
    show ?thesis
    proof (cases "b_is_shell (backends s ! idx)")
      case True
      then show ?thesis
        using members_serve(2) [OF inv(2), of j idx] \<open>b_is_shell (backends s ! j) = _\<close> j assms(3,4) l by simp
    next
      case False
      with True j assms(3,4) show ?thesis
        using prefix_inv_distinct [OF inv(1) assms(2), of j idx] l by simp
    qed
  next
    case False
    with assms(5) j assms(3,4) show ?thesis by metis
  qed
  show ?thesis
    unfolding route_def find_index_Some_iff
    using assms(3,4) alive l uniq by (auto dest: less_trans)
qed

text \<open>C12. In every run, as long as fewer than 98 prefixes were handed out and no live app has the shell's prefix,
  a tool of a live backend can be called under its listed name: if the tool is exposed, its name is not empty,
  prefix and name together have at most 125 bytes, and the listed name is not the one of the built-in tool, the
  merged list has an entry named \<open>prefix__name\<close>.  When all call slots are taken, a call of that name is
  answered by one error and nothing else changes.  Otherwise it sends exactly one frame, the call of the bare
  name with the same arguments under the new local id, to the backend that offers the tool, and enters the
  call with the agent's id in a free slot; or, only when the connection to that backend refuses bytes, a
  part of the frame gets out, no call is entered, and the agent gets one error.  Nothing else of the state
  changes, no other backend is touched, and the call comes back when the framing of the agent is known and the
  backend takes the frame.\<close>

theorem listed_tool_routes_back:
  assumes "agg_run print parse oob exe_path self expose n (s, ts)" and "n \<le> 2 ^ 53" and "length (used_prefixes s) < 98"
    and "\<forall>i<32. \<forall>j<32. b_used (backends s ! i) \<and> b_is_shell (backends s ! i) \<and> b_used (backends s ! j) \<and>
      \<not> b_is_shell (backends s ! j) \<longrightarrow> b_prefix (backends s ! i) \<noteq> b_prefix (backends s ! j)"
    and "idx < 32" and "b = backends s ! idx" and "b_used b" and "conn_valid (b_conn b)"
    and "b_tools b = Some (JArr tls)" and "t \<in> set tls" and "tool_exposed (expose_diagnostics s) t"
    and "cJSON_GetObjectItemCaseSensitive (Some t) ''name'' = Some (JStr nm)"
    and "nm \<noteq> []" and "length (b_prefix b) + length nm \<le> 125"
    and "full = b_prefix b @ ''__'' @ nm" and "full \<noteq> LIST_APPS"
    and "cJSON_GetObjectItemCaseSensitive params ''name'' = Some (JStr full)"
    and "fwd = print (forward_request (next_local_id s + 1) nm (cJSON_GetObjectItemCaseSensitive params ''arguments''))"
    and "NUL \<notin> set fwd" and "length fwd < 10 ^ 40"
  shows "(\<exists>es. build_merged_tools s = JArr es \<and>
      (\<exists>e\<in>set es. cJSON_GetObjectItemCaseSensitive (Some e) ''name'' = Some (JStr full))) \<and>
    (\<forall>s'. agg_tools_call print rid params s = Some s' \<longrightarrow>
       (if \<forall>f\<in>set (inflights s). f_used f then refused print rid s s'
        else sent_call fwd rid idx s s' \<or> \<not> sending (b_conn b) \<and> write_failed print fwd rid idx s s')) \<and>
    (framing s \<noteq> FRAMING_UNKNOWN \<and> can_take (length (encode_frame fwd)) (b_conn b) \<longrightarrow>
       (\<exists>s'. agg_tools_call print rid params s = Some s'))"
proof -
  have inv: "agg_inv self n (s, ts)" using assms(1,2) by (rule agg_run_inv)
  then have l: "length (backends s) = 32" and pi: "prefix_inv s" and mem: "members_ok self s ts"
    by (auto simp: agg_inv_def members_ok_def MAX_BACKENDS_def)
  have px: "prefixed_tool (b_prefix b) nm = full"
    using assms(14,15) by (simp add: prefixed_tool_def NS_SEP_def snprintf_s_def)
  have used: "b_used (backends s ! idx)" using assms(6,7) by simp
  then have alive: "b_alive b" using members_serve(1) [OF mem] assms(5,6) l by simp
  have pc: "prefix_chars (b_prefix b)" using pi used assms(5,6) l by (simp add: prefix_inv_def)
  have full: "full = b_prefix b @ NS_SEP @ nm" by (simp add: assms(15) NS_SEP_def)
  have rt: "route (b_prefix b @ NS_SEP @ nm) (length (b_prefix b)) s = Some idx"
    using route_own [OF inv assms(3,5) used assms(4)] by (simp only: assms(6))
  have val: "valuestring (cJSON_GetObjectItemCaseSensitive params ''name'') = Some (b_prefix b @ NS_SEP @ nm)"
    using assms(17) full by simp
  have v: "conn_valid (b_conn (backends s ! idx))" and b: "b \<in> set (backends s)"
    using assms(5,6,8) l by simp_all
  note sends = tools_call_sends [where print = print, OF val assms(16) [unfolded full] pc assms(13) rt v assms(18-20)]
  note returns = tools_call_returns [where print = print, OF val assms(16) [unfolded full] pc assms(13) rt assms(18-20)]
  have "\<exists>es. build_merged_tools s = JArr es \<and>
      (\<exists>e\<in>set es. cJSON_GetObjectItemCaseSensitive (Some e) ''name'' = Some (JStr full))"
    using listed_entry [OF b assms(7) alive assms(9-12)] unfolding px .
  moreover have "\<forall>s'. agg_tools_call print rid params s = Some s' \<longrightarrow>
       (if \<forall>f\<in>set (inflights s). f_used f then refused print rid s s'
        else sent_call fwd rid idx s s' \<or> \<not> sending (b_conn b) \<and> write_failed print fwd rid idx s s')"
    unfolding assms(6) using sends by blast
  moreover have "framing s \<noteq> FRAMING_UNKNOWN \<and> can_take (length (encode_frame fwd)) (b_conn b) \<longrightarrow>
       (\<exists>s'. agg_tools_call print rid params s = Some s')"
    unfolding assms(6) using returns by blast
  ultimately show ?thesis by blast
qed

text \<open>A run of two steps: the first poll, and the registration of an app with one tool.\<close>

definition demo_tools :: json where
  "demo_tools = JArr [JObj [(''name'', JStr ''tap'')]]"

lemma demo_listing:
  "\<exists>s ts b. agg_run print parse oob exe_path 7 expose 2 (s, ts) \<and> backends s = b # replicate 31 backend_zero \<and>
     b_used b \<and> b_alive b \<and> \<not> b_is_shell b \<and> b_conn b = c \<and> b_tools b = Some demo_tools \<and> length (used_prefixes s) \<le> 1 \<and>
     inflights s = replicate 128 inflight_zero \<and> next_local_id s = 0 \<and> stdout s = [] \<and> expose_diagnostics s = expose"
  if "conn_valid c"
proof -
  obtain try_shell s1 x sc where pr: "poll_round 7 demo_pids (aggregator_zero expose) = ([42, 43], try_shell, s1)"
    and s1: "backends s1 = replicate MAX_BACKENDS backend_zero" "used_prefixes s1 = []"
      "s1 = (aggregator_zero expose)\<lparr>connecting := x, shell_connecting := sc\<rparr>"
    using demo_poll by blast
  let ?ts = "[] @ map (\<lambda>p. (False, p, None)) [42, 43] @ (if try_shell then [(True, 0, None)] else [])"
  have r1: "agg_run print parse oob exe_path 7 expose (Suc 0) (s1, ?ts)"
    by (rule agg_run.step [OF agg_run.init agg_step.poll [OF pr]])
  have bs: "backends s1 = backend_zero # replicate 31 backend_zero"
    using replicate_Suc [of 31 backend_zero] by (simp add: s1(1) MAX_BACKENDS_def)
  have fi: "find_index (\<lambda>b. \<not> b_used b) (backends s1) = Some 0"
    unfolding bs by (simp add: backend_zero_def)
  obtain px used where ap: "assign_prefix (desired_prefix (exe_path 42) ''app'') 40 (used_prefixes s1) = (px, used)" by fastforce
  have lu: "length used \<le> 1" using assign_prefix_grows_one [OF ap] by (simp add: s1(2))
  let ?b = "\<lparr>b_used = True, b_alive = True, b_is_shell = False, b_pid = 42, b_prefix = px,
    b_app_id = snprintf_s 33 ''app'', b_conn = c, b_tools = tools_cache (Some demo_tools)\<rparr>"
  let ?s = "s1\<lparr>backends := (backends s1)[0 := ?b], used_prefixes := used\<rparr>"
  have reg: "backend_register print exe_path True False 42 c ''app'' (Some demo_tools) s1 = Some (True, ?s)"
    unfolding backend_register_def fi option.case if_False if_True ap Let_def prod.case by (rule HOL.refl)
  have k: "0 < length ?ts" "?ts ! 0 = (False, 42, None)" by simp_all
  have "agg_run print parse oob exe_path 7 expose (Suc (Suc 0)) (?s, ?ts[0 := (False, 42, Some True)])"
    by (rule agg_run.step [OF r1 agg_step.register [OF k that reg]])
  moreover have "backends ?s = ?b # replicate 31 backend_zero" by (simp add: bs)
  moreover have "b_tools ?b = Some demo_tools" by (simp add: tools_cache_def demo_tools_def)
  moreover have "inflights ?s = replicate 128 inflight_zero" "next_local_id ?s = 0" "stdout ?s = []"
    "expose_diagnostics ?s = expose" by (simp_all add: s1(3) aggregator_zero_def MAX_INFLIGHT_def)
  ultimately show ?thesis using lu by (intro exI [of _ ?s] exI [of _ "?ts[0 := (False, 42, Some True)]"] exI [of _ ?b]) (simp add: numeral_2_eq_2)
qed

theorem listed_tool_routes_back_witness:
  "\<exists>s ts s' p. agg_run demo_agg_print demo_parse demo_oob demo_exe 7 True 2 (s, ts) \<and>
     agg_tools_call demo_agg_print (Some (JInt 9)) (Some (JObj [(''name'', JStr (p @ ''__tap''))])) s = Some s' \<and>
     stdout s' = [] \<and> conn_sent (b_conn (backends s' ! 0)) = encode_frame ''{}'' \<and>
     (\<exists>es. build_merged_tools s = JArr es \<and>
        (\<exists>e\<in>set es. cJSON_GetObjectItemCaseSensitive (Some e) ''name'' = Some (JStr (p @ ''__tap''))))"
proof -
  let ?c = "Some (demo_conn [] (replicate 30 (demo_send 1)))"
  have v: "conn_valid ?c" by (simp add: conn_valid_def demo_conn_def)
  have sd: "sending ?c" by (simp add: sending_def demo_conn_def demo_send_def)
  obtain s ts b where r: "agg_run demo_agg_print demo_parse demo_oob demo_exe 7 True 2 (s, ts)"
    and s: "backends s = b # replicate 31 backend_zero" "b_used b" "b_alive b" "\<not> b_is_shell b" "b_conn b = ?c"
      "b_tools b = Some demo_tools" "length (used_prefixes s) \<le> 1" "inflights s = replicate 128 inflight_zero"
      "next_local_id s = 0" "stdout s = []" "expose_diagnostics s"
    using demo_listing [OF v, of demo_agg_print demo_parse demo_oob demo_exe True] by auto
  have one: "i = 0" if "i < 32" "b_used (backends s ! i)" for i
    using that by (cases i) (auto simp: s(1) backend_zero_def)
  have inv: "agg_inv 7 2 (s, ts)" using r by (rule agg_run_inv) simp
  then have pc: "prefix_chars (b_prefix b)"
    using s(2) by (fastforce simp: agg_inv_def prefix_inv_def s(1))
  let ?full = "b_prefix b @ ''__'' @ ''tap''" and ?params = "\<lambda>f. Some (JObj [(''name'', JStr f)])"
  have nl: "?full \<noteq> LIST_APPS"
  proof
    assume "?full = LIST_APPS"
    then have "last ?full = last LIST_APPS" by (rule arg_cong)
    then show False by (simp add: LIST_APPS_def)
  qed
  have shells: "\<forall>i<32. \<forall>j<32. b_used (backends s ! i) \<and> b_is_shell (backends s ! i) \<and> b_used (backends s ! j) \<and>
      \<not> b_is_shell (backends s ! j) \<longrightarrow> b_prefix (backends s ! i) \<noteq> b_prefix (backends s ! j)"
    using one s(4) by (metis s(1) nth_Cons_0)
  have res: "(\<exists>es. build_merged_tools s = JArr es \<and>
      (\<exists>e\<in>set es. cJSON_GetObjectItemCaseSensitive (Some e) ''name'' = Some (JStr ?full))) \<and>
    (\<forall>s'. agg_tools_call demo_agg_print (Some (JInt 9)) (?params ?full) s = Some s' \<longrightarrow>
       (if \<forall>f\<in>set (inflights s). f_used f then refused demo_agg_print (Some (JInt 9)) s s'
        else sent_call ''{}'' (Some (JInt 9)) 0 s s' \<or>
          \<not> sending (b_conn b) \<and> write_failed demo_agg_print ''{}'' (Some (JInt 9)) 0 s s')) \<and>
    (framing s \<noteq> FRAMING_UNKNOWN \<and> can_take (length (encode_frame ''{}'')) (b_conn b) \<longrightarrow>
       (\<exists>s'. agg_tools_call demo_agg_print (Some (JInt 9)) (?params ?full) s = Some s'))"
    by (rule listed_tool_routes_back [OF r _ _ shells, where b = b and t = "JObj [(''name'', JStr ''tap'')]" and
        tls = "[JObj [(''name'', JStr ''tap'')]]" and nm = "''tap''"])
      (use s v pc nl in \<open>simp_all add: demo_tools_def demo_agg_print_def tool_exposed_def prefix_chars_def\<close>)
  have free: "\<not> (\<forall>f\<in>set (inflights s). f_used f)" by (simp add: s(8) inflight_zero_def)
  have "find_index (\<lambda>f. \<not> f_used f) (inflights s) = Some 0"
    using replicate_Suc [of 127 inflight_zero] by (simp add: s(8) inflight_zero_def)
  then obtain s1 where al: "inflight_alloc 0 INFLIGHT_AGENT (Some (JInt 9)) s = Some (0, s1)" "backends s1 = backends s"
    by (simp add: inflight_alloc_def Let_def)
  have rt: "route (b_prefix b @ NS_SEP @ ''tap'') (length (b_prefix b)) s = Some 0"
    using route_own [OF inv _ _ _ shells, of 0 "NS_SEP @ ''tap''"] s(1,2,7) by simp
  have "can_take (length (encode_frame ''{}'')) ?c"
    using sd by (simp add: can_take_def demo_conn_def demo_send_def encode_frame_def show_nat.simps CRLF2_def)
  then obtain c' where w: "write_frame_conn ?c ''{}'' = Some (True, c')"
    using write_frame_conn_takes [of "''{}''" ?c] by auto
  obtain s2 where bw: "backend_write 0 (demo_agg_print (forward_request (f_local_id (inflights s1 ! 0)) ''tap''
      (cJSON_GetObjectItemCaseSensitive (?params ?full) ''arguments''))) s1 = Some (True, s2)"
    using w al(2) by (simp add: backend_write_def demo_agg_print_def s(1,5))
  have val: "valuestring (cJSON_GetObjectItemCaseSensitive (?params ?full) ''name'') = Some (b_prefix b @ NS_SEP @ ''tap'')"
    and nl': "b_prefix b @ NS_SEP @ ''tap'' \<noteq> LIST_APPS" and ne: "''tap'' \<noteq> []"
    using nl by (simp_all add: NS_SEP_def)
  have "\<exists>s'. agg_tools_call demo_agg_print (Some (JInt 9)) (?params ?full) s = Some s'"
    unfolding tools_call_routed [OF val nl' pc ne rt] al(1) option.case prod.case bw Option.bind.simps if_True by blast
  then obtain s' where s': "agg_tools_call demo_agg_print (Some (JInt 9)) (?params ?full) s = Some s'" by blast
  then have "sent_call ''{}'' (Some (JInt 9)) 0 s s'" using res free sd s(5) by auto
  then have "stdout s' = [] \<and> conn_sent (b_conn (backends s' ! 0)) = encode_frame ''{}''"
    using s(1,5,10) by (auto simp: sent_call_def conn_sent_def demo_conn_def)
  with r s' res show ?thesis by (intro exI [of _ s] exI [of _ ts] exI [of _ s'] exI [of _ "b_prefix b"]) simp
qed

end
