(* ===== verification/Stdio_Spec.thy ===== *)
theory Stdio_Spec
  imports Stdio_Framing
begin

text \<open>
  What the stdio reader of \<open>Stdio_Framing\<close> computes, stated on the flat byte stream
  (\<open>stream_next\<close>, \<open>stream_messages\<close>) and proved in the locale \<open>byte_source\<close> for every
  source that delivers a finite stream in any pieces.  The interpretation is
  \<open>dxr_stdio_read_stdin\<close>.
\<close>

section \<open>Parsers on the flat stream\<close>

function strip :: "bytes \<Rightarrow> bytes" where
  "strip b = (let u = dropWhile is_ws b in if take 3 u = BOM then strip (drop 3 u) else u)"
  by pat_completeness auto
termination
proof (relation "measure length", goal_cases)
  case (2 b u)
  from 2(2) have "length (take 3 u) = 3" by (simp only: BOM_def list.size)
  then have "3 \<le> length u" by simp
  moreover have "length u \<le> length b" using 2(1) by (simp only: length_dropWhile_le)
  ultimately show ?case by simp
qed simp

declare strip.simps [simp del]

abbreviation lf_index :: "bytes \<Rightarrow> nat option" where
  "lf_index \<equiv> find_index (\<lambda>c. c = LF)"

text \<open>The next ndjson message and what follows it.  A line of 16 MiB or more (its terminator
  not counted) does not fit the reader's buffer.\<close>

function nd_next :: "bytes \<Rightarrow> (bytes \<times> bytes) option" where
  "nd_next b =
     (case lf_index b of
        Some i \<Rightarrow>
          if DXR_STDIO_MAX_MESSAGE_BYTES \<le> i then None
          else if trim_ws (take i b) = [] then nd_next (drop (Suc i) b)
          else Some (trim_ws (take i b), drop (Suc i) b)
      | None \<Rightarrow>
          if DXR_STDIO_MAX_MESSAGE_BYTES \<le> length b \<or> trim_ws b = [] then None
          else Some (trim_ws b, []))"
  by pat_completeness auto
termination
  by (relation "measure length") (auto dest: find_index_SomeD)

declare nd_next.simps [simp del]

text \<open>A header block.  Outer \<open>None\<close>: a header line longer than 1025 bytes, or a length header with
  a blank value, where the reader's answer depends on how the bytes arrive.  Inner \<open>None\<close>: no complete block.\<close>

function cl_headers :: "bool \<Rightarrow> bool \<Rightarrow> nat \<Rightarrow> bytes \<Rightarrow> (bool \<times> nat \<times> bytes) option option" where
  "cl_headers any_header have_length n b =
     (case lf_index b of
        None \<Rightarrow> Some None
      | Some i \<Rightarrow>
          if 1024 < i then None
          else
            let line = take (Suc i) b; b' = drop (Suc i) b
            in if Suc i = 1 \<or> (Suc i = 2 \<and> hd line = CR)
               then (if any_header then Some (Some (have_length, n, b'))
                     else cl_headers any_header have_length n b')
               else if reader_key_match line
               then (if \<forall>c\<in>set (drop CL_KEY_LEN line). isspace c then None
                     else cl_headers True True (strtoul 64 (drop CL_KEY_LEN line)) b')
               else cl_headers True have_length n b')"
  by pat_completeness auto
termination
  by (relation "measure (\<lambda>(_, _, _, b). length b)") (auto dest: find_index_SomeD)

declare cl_headers.simps [simp del]

definition cl_next :: "bytes \<Rightarrow> (bytes \<times> bytes) option option" where
  "cl_next b =
     (case cl_headers False False 0 b of
        None \<Rightarrow> None
      | Some None \<Rightarrow> Some None
      | Some (Some (have_length, n, b')) \<Rightarrow>
          if \<not> have_length \<or> n = 0 \<or> DXR_STDIO_MAX_MESSAGE_BYTES < n \<or> length b' < n then Some None
          else Some (Some (take n b', drop n b')))"

definition classify :: "bytes \<Rightarrow> dxr_stdio_framing" where
  "classify u = (if map lower (take CL_KEY_LEN u) = CL_KEY then FRAMING_CONTENT_LENGTH else FRAMING_NDJSON)"

text \<open>One message in a framing that is known, or still to be detected.\<close>

definition framed_next :: "dxr_stdio_framing \<Rightarrow> bytes \<Rightarrow> (bytes \<times> bytes) option option" where
  "framed_next f b = (if f = FRAMING_CONTENT_LENGTH then cl_next b else Some (nd_next b))"

definition stream_next ::
    "dxr_stdio_framing \<Rightarrow> bytes \<Rightarrow> (dxr_stdio_framing \<times> bytes \<times> bytes) option option" where
  "stream_next f b =
     (if f = FRAMING_UNKNOWN then
        let u = strip b
        in if u = [] then Some None
           else map_option (map_option (\<lambda>(m, t). (classify u, m, t))) (framed_next (classify u) u)
      else map_option (map_option (\<lambda>(m, t). (f, m, t))) (framed_next f b))"

text \<open>All messages of a stream, in order.\<close>

lemma strip_length: "length (strip b) \<le> length b"
proof (induction b rule: strip.induct)
  case (1 b)
  show ?case
  proof (cases "take 3 (dropWhile is_ws b) = BOM")
    case True
    have "length (strip (drop 3 (dropWhile is_ws b))) \<le> length (drop 3 (dropWhile is_ws b))"
      using 1 True by blast
    also have "\<dots> \<le> length b" using length_dropWhile_le [of is_ws b] by simp
    finally show ?thesis using True by (subst strip.simps) (simp add: Let_def)
  next
    case False
    then show ?thesis by (subst strip.simps) (simp add: Let_def length_dropWhile_le)
  qed
qed

lemma nd_next_shorter: "nd_next b = Some (m, t) \<Longrightarrow> length t < length b"
proof (induction b rule: nd_next.induct)
  case (1 b)
  show ?case
  proof (cases "lf_index b")
    case None
    with "1.prems" show ?thesis
      by (subst (asm) nd_next.simps) (auto simp: trim_ws_def split: if_splits)
  next
    case (Some i)
    then have "i < length b" by (rule find_index_SomeD)
    with Some 1 show ?thesis
      by (subst (asm) (2) nd_next.simps) (fastforce split: if_splits)
  qed
qed

lemma cl_headers_shorter: "cl_headers a h n b = Some (Some (h', n', t)) \<Longrightarrow> length t \<le> length b"
proof (induction a h n b rule: cl_headers.induct)
  case (1 a h n b)
  show ?case
  proof (cases "lf_index b")
    case None
    with "1.prems" show ?thesis by (simp add: cl_headers.simps)
  next
    case (Some i)
    with "1.prems" have i: "\<not> 1024 < i" by (auto simp: cl_headers.simps)
    let ?line = "take (Suc i) b" and ?b' = "drop (Suc i) b"
    have le: "length ?b' \<le> length b" by simp
    note IH = 1(1) [OF Some i refl refl] 1(2) [OF Some i refl refl] 1(3) [OF Some i refl refl]
    have e: "(if Suc i = 1 \<or> (Suc i = 2 \<and> hd ?line = CR)
        then (if a then Some (Some (h, n, ?b')) else cl_headers a h n ?b')
        else if reader_key_match ?line
        then (if \<forall>c\<in>set (drop CL_KEY_LEN ?line). isspace c then None
              else cl_headers True True (strtoul 64 (drop CL_KEY_LEN ?line)) ?b')
        else cl_headers True h n ?b') = Some (Some (h', n', t))"
      using "1.prems" by (subst (asm) cl_headers.simps) (simp only: Some option.case i if_False Let_def)
    consider "t = ?b'" | "length t \<le> length ?b'"
    proof (cases "Suc i = 1 \<or> (Suc i = 2 \<and> hd ?line = CR)")
      case True
      show ?thesis
      proof (cases a)
        case True
        with e \<open>Suc i = 1 \<or> _\<close> have "t = ?b'" by (simp only: if_True option.inject prod.inject)
        with that show ?thesis by blast
      next
        case False
        with e \<open>Suc i = 1 \<or> _\<close> have "cl_headers a h n ?b' = Some (Some (h', n', t))"
          by (simp only: if_True if_False)
        with IH(1) True False that show ?thesis by blast
      qed
    next
      case False
      with e IH(2,3) that show ?thesis by (cases "reader_key_match ?line")
        (simp_all only: if_True if_False, simp_all split: if_splits)
    qed
    with le show ?thesis by (metis order_trans)
  qed
qed

lemma stream_next_shorter:
  assumes "stream_next f b = Some (Some (f', m, t))"
  shows "length t < length b"
proof -
  have c: "length t < length u" if "cl_next u = Some (Some (m, t))" for u
    using that cl_headers_shorter [of False False 0 u]
    by (fastforce simp: cl_next_def split: option.splits if_splits)
  have fr: "length t < length u" if "framed_next g u = Some (Some (m, t))" for g u
    using that c nd_next_shorter by (auto simp: framed_next_def split: if_splits)
  from assms obtain g u where "framed_next g u = Some (Some (m, t))" "length u \<le> length b"
    using strip_length [of b] by (auto simp: stream_next_def Let_def split: if_splits)
  with fr show ?thesis by fastforce
qed

function stream_messages :: "dxr_stdio_framing \<Rightarrow> bytes \<Rightarrow> bytes list option" where
  "stream_messages f b =
     (case stream_next f b of
        None \<Rightarrow> None
      | Some None \<Rightarrow> Some []
      | Some (Some (f', m, t)) \<Rightarrow> map_option (Cons m) (stream_messages f' t))"
  by pat_completeness auto
termination
  by (relation "measure (\<lambda>(_, b). length b)") (auto dest: stream_next_shorter)

declare stream_messages.simps [simp del]

text \<open>The pump's loop: messages until the reader returns none.\<close>

partial_function (option) read_messages ::
    "('s \<Rightarrow> nat \<Rightarrow> 's \<times> bytes) \<Rightarrow> 's dxr_stdio_reader \<Rightarrow> ('s dxr_stdio_reader \<times> bytes list) option" where
  "read_messages rd r =
     (case dxr_stdio_reader_next rd r of
        None \<Rightarrow> None
      | Some (r1, None) \<Rightarrow> Some (r1, [])
      | Some (r1, Some m) \<Rightarrow>
          Option.bind (read_messages rd r1) (\<lambda>(r2, ms). Some (r2, m # ms)))"

section \<open>Reader states that can arise\<close>

definition reader_ok :: "('s \<Rightarrow> bytes) \<Rightarrow> 's dxr_stdio_reader \<Rightarrow> bool" where
  "reader_ok rest r \<longleftrightarrow>
     r_pos r \<le> length (r_buf r) \<and> length (r_buf r) \<le> r_cap r \<and>
     (r_cap r = 0 \<or> (\<exists>k\<le>12. r_cap r = 4096 * 2 ^ k)) \<and>
     (r_eof r \<longrightarrow> rest (r_ctx r) = [] \<and> length (unread r) < DXR_STDIO_MAX_MESSAGE_BYTES)"

definition stream_of :: "('s \<Rightarrow> bytes) \<Rightarrow> 's dxr_stdio_reader \<Rightarrow> bytes" where
  "stream_of rest r = unread r @ rest (r_ctx r)"

lemma MAX_eq: "DXR_STDIO_MAX_MESSAGE_BYTES = 4096 * 2 ^ 12"
  by (simp add: DXR_STDIO_MAX_MESSAGE_BYTES_def)

lemma cap_bound: "k \<le> 12 \<Longrightarrow> 4096 * 2 ^ k \<le> DXR_STDIO_MAX_MESSAGE_BYTES"
  unfolding MAX_eq by (intro mult_le_mono2 power_increasing) simp_all

lemma reader_ok_cap: "reader_ok rest r \<Longrightarrow> r_cap r \<le> DXR_STDIO_MAX_MESSAGE_BYTES"
  by (auto simp: reader_ok_def cap_bound)

lemma reader_ok_unread:
  assumes "reader_ok rest r"
  shows "length (unread r) \<le> DXR_STDIO_MAX_MESSAGE_BYTES"
  using reader_ok_cap [OF assms] assms by (auto simp: reader_ok_def)

lemma reader_ok_advance:
  "reader_ok rest r \<Longrightarrow> k \<le> length (unread r) \<Longrightarrow> reader_ok rest (r\<lparr>r_pos := r_pos r + k\<rparr>)"
  by (auto simp: reader_ok_def)

lemma reader_framing_upd [simp]:
  "reader_ok rest (r\<lparr>r_framing := f\<rparr>) = reader_ok rest r"
  "stream_of rest' (r\<lparr>r_framing := f\<rparr>) = (drop (r_pos r) (r_buf r) @ rest' (r_ctx r))"
  by (simp_all add: reader_ok_def stream_of_def)

lemma stream_of_advance:
  "k \<le> length (unread r) \<Longrightarrow> stream_of rest (r\<lparr>r_pos := r_pos r + k\<rparr>) = drop k (stream_of rest r)"
  by (simp add: stream_of_def add.commute)

section \<open>The reader over any byte source\<close>

locale byte_source =
  fixes rd :: "'s \<Rightarrow> nat \<Rightarrow> 's \<times> bytes"
    and rest :: "'s \<Rightarrow> bytes"
  assumes rd_length: "0 < n \<Longrightarrow> length (snd (rd s n)) \<le> n"
    and rd_rest: "0 < n \<Longrightarrow> rest s = snd (rd s n) @ rest (fst (rd s n))"
    and rd_eof: "0 < n \<Longrightarrow> snd (rd s n) = [] \<Longrightarrow> rest s = []"
begin

lemma fill_cases:
  assumes "reader_ok rest r"
  obtains (more) r' bs where "fill rd r = (r', True)" "bs \<noteq> []" "unread r' = unread r @ bs"
      "rest (r_ctx r) = bs @ rest (r_ctx r')" "reader_ok rest r'" "r_framing r' = r_framing r"
  | (eof) r' where "fill rd r = (r', False)" "unread r' = unread r" "rest (r_ctx r') = []"
      "rest (r_ctx r) = []" "r_eof r'" "reader_ok rest r'" "r_framing r' = r_framing r"
  | (full) r' where "fill rd r = (r', False)" "unread r' = unread r" "r_ctx r' = r_ctx r"
      "\<not> r_eof r'" "length (unread r) = DXR_STDIO_MAX_MESSAGE_BYTES" "reader_ok rest r'"
      "r_framing r' = r_framing r"
proof (cases "r_eof r")
  case True
  with assms eof [of r] show thesis by (simp add: fill_def reader_ok_def)
next
  case ne: False
  let ?u = "unread r"
  let ?r1 = "r\<lparr>r_buf := ?u, r_pos := 0\<rparr>"
  let ?full = "length ?u = r_cap r"
  let ?ncap = "if r_cap r \<noteq> 0 then r_cap r * 2 else 4096"
  have ul: "length ?u \<le> r_cap r" using assms by (auto simp: reader_ok_def)
  have capv: "r_cap r = 0 \<or> (\<exists>k\<le>12. r_cap r = 4096 * 2 ^ k)"
    using assms by (simp add: reader_ok_def)
  show thesis
  proof (cases "?full \<and> DXR_STDIO_MAX_MESSAGE_BYTES + 4096 < ?ncap")
    case True
    from True capv obtain k where k: "k \<le> 12" "r_cap r = 4096 * 2 ^ k"
      by (auto simp: DXR_STDIO_MAX_MESSAGE_BYTES_def split: if_splits)
    have "\<not> k < 12"
    proof
      assume "k < 12"
      then have "(2::nat) ^ k \<le> 2 ^ 11" by (intro power_increasing) simp_all
      with True k show False by (simp add: DXR_STDIO_MAX_MESSAGE_BYTES_def)
    qed
    with k have "r_cap r = DXR_STDIO_MAX_MESSAGE_BYTES" by (simp add: MAX_eq)
    moreover have "fill rd r = (?r1, False)" 
      using True ne by (cases "r_cap r = 0") (simp_all add: fill_def Let_def del: length_drop)
    ultimately show thesis using True ne assms by (intro full [of ?r1]) (auto simp: reader_ok_def)
  next
    case False
    define r2 where "r2 = (if ?full then ?r1\<lparr>r_cap := ?ncap\<rparr> else ?r1)"
    have r2: "r_buf r2 = ?u" "r_pos r2 = 0" "r_ctx r2 = r_ctx r" "r_framing r2 = r_framing r"
        "\<not> r_eof r2"
      using ne by (simp_all add: r2_def)
    have room: "length ?u < r_cap r2"
      using ul by (auto simp: r2_def)
    have cap2: "\<exists>k\<le>12. r_cap r2 = 4096 * 2 ^ k"
    proof (cases "?full \<and> r_cap r \<noteq> 0")
      case True
      with capv obtain k where k: "k \<le> 12" "r_cap r = 4096 * 2 ^ k" by auto
      have "k \<noteq> 12"
        using False True k by (auto simp: DXR_STDIO_MAX_MESSAGE_BYTES_def)
      with k True show ?thesis by (intro exI [of _ "Suc k"]) (simp add: r2_def)
    next
      case c0: False
      show ?thesis
      proof (cases "r_cap r = 0")
        case True
        with ul show ?thesis by (intro exI [of _ 0]) (simp add: r2_def)
      next
        case False
        with c0 capv show ?thesis by (auto simp: r2_def)
      qed
    qed
    have room2: "length ?u < DXR_STDIO_MAX_MESSAGE_BYTES"
      using room cap2 cap_bound by fastforce
    obtain ctx' bs where rd: "rd (r_ctx r) (r_cap r2 - length ?u) = (ctx', bs)" by fastforce
    have pos: "0 < r_cap r2 - length ?u" using room by simp
    have len: "length bs \<le> r_cap r2 - length ?u" using rd_length [OF pos, of "r_ctx r"] rd by simp
    have rst: "rest (r_ctx r) = bs @ rest ctx'" using rd_rest [OF pos, of "r_ctx r"] rd by simp
    have f: "fill rd r = (if bs = [] then (r2\<lparr>r_ctx := ctx', r_eof := True\<rparr>, False)
        else (r2\<lparr>r_ctx := ctx', r_buf := ?u @ bs\<rparr>, True))"
      using ne False rd
      by (cases ?full; cases "r_cap r = 0") (simp_all add: fill_def r2_def Let_def del: length_drop)
    show thesis
    proof (cases "bs = []")
      case True
      have "rest (r_ctx r) = []" using rd_eof [OF pos, of "r_ctx r"] rd True by simp
      with True f r2 rst room room2 cap2 eof [of "r2\<lparr>r_ctx := ctx', r_eof := True\<rparr>"] show thesis
        by (simp add: reader_ok_def)
    next
      case False
      with f r2 rst room cap2 len more [of "r2\<lparr>r_ctx := ctx', r_buf := ?u @ bs\<rparr>" bs] show thesis
        by (simp add: reader_ok_def)
    qed
  qed
qed

lemma next_ndjson_spec:
  assumes "reader_ok rest r" and "k \<le> length (unread r)" and "LF \<notin> set (take k (unread r))"
  shows "\<exists>r' m. next_ndjson rd (r_pos r + k) r = Some (r', m) \<and> reader_ok rest r' \<and>
    r_framing r' = r_framing r \<and>
    (case nd_next (stream_of rest r) of None \<Rightarrow> m = None
     | Some (l, t) \<Rightarrow> m = Some l \<and> stream_of rest r' = t)"
  using assms
proof (induction "length (stream_of rest r) + length (rest (r_ctx r))" arbitrary: r k rule: less_induct)
  case less
  let ?u = "unread r"
  have dr: "drop (r_pos r + k) (r_buf r) = drop k ?u" by (simp add: add.commute)
  have split: "?u = take k ?u @ drop k ?u" by (rule append_take_drop_id [symmetric])
  have nolf: "lf_index (take k ?u) = None"
    using less.prems(3) by (auto simp: find_index_None_iff)
  have idx: "lf_index ?u = map_option ((+) k) (lf_index (drop k ?u))"
    using less.prems(2) nolf by (subst split) (simp only: find_index_append, simp add: min_def)
  note unf = next_ndjson.simps [of rd "r_pos r + k" r]
  show ?case
  proof (cases "lf_index (drop k ?u)")
    case (Some i)
    let ?i = "k + i"
    from idx Some have iu: "lf_index ?u = Some ?i" by simp
    then have ilen: "?i < length ?u" by (rule find_index_SomeD)
    with reader_ok_unread [OF less.prems(1)] have small: "?i < DXR_STDIO_MAX_MESSAGE_BYTES" by linarith
    have ist: "lf_index (stream_of rest r) = Some ?i"
      by (simp add: stream_of_def find_index_append iu)
    have tk: "take ?i (stream_of rest r) = take ?i ?u"
      using ilen by (simp add: stream_of_def)
    let ?r' = "r\<lparr>r_pos := r_pos r + Suc ?i\<rparr>"
    have ok': "reader_ok rest ?r'" using ilen less.prems(1) by (intro reader_ok_advance) auto
    have st': "stream_of rest ?r' = drop (Suc ?i) (stream_of rest r)"
      using ilen by (intro stream_of_advance) simp
    have tl: "length (trim_ws (take ?i ?u)) \<le> ?i"
      unfolding trim_ws_def by (metis (no_types, lifting) length_dropWhile_le length_rev length_take
          le_trans min.cobounded2)
    show ?thesis
    proof (cases "trim_ws (take ?i ?u) = []")
      case True
      have nx: "next_ndjson rd (r_pos r + k) r = next_ndjson rd (r_pos ?r' + 0) ?r'"
        by (subst unf) (simp add: dr Some True Let_def add.assoc del: drop_drop)
      have nd: "nd_next (stream_of rest r) = nd_next (stream_of rest ?r')"
        unfolding st' by (subst nd_next.simps) (use small True in \<open>simp add: ist tk not_le\<close>)
      have "length (stream_of rest ?r') < length (stream_of rest r)"
        using ilen by (simp add: st' stream_of_def)
      then have dec: "length (stream_of rest ?r') + length (rest (r_ctx ?r'))
          < length (stream_of rest r) + length (rest (r_ctx r))" by simp
      from less.hyps [OF dec ok', of 0] show ?thesis by (simp add: nx nd)
    next
      case False
      have nx: "next_ndjson rd (r_pos r + k) r = Some (?r', Some (trim_ws (take ?i ?u)))"
        using tl small by (subst unf) (simp add: dr Some False Let_def add.assoc del: drop_drop)
      have nd: "nd_next (stream_of rest r) = Some (trim_ws (take ?i ?u), stream_of rest ?r')"
        unfolding st' by (subst nd_next.simps) (use small False in \<open>simp add: ist tk not_le\<close>)
      show ?thesis using ok' by (simp add: nx nd)
    qed
  next
    case None
    with idx have nu: "lf_index ?u = None" by simp
    have scanned: "length (r_buf r) - r_pos r = length ?u" by simp
    from less.prems(1) show ?thesis
    proof (cases rule: fill_cases)
      case (more r' bs)
      have nx: "next_ndjson rd (r_pos r + k) r = next_ndjson rd (r_pos r' + length ?u) r'"
        by (subst unf) (simp add: dr None Let_def more(1) del: drop_drop)
      have st: "stream_of rest r' = stream_of rest r" using more by (simp add: stream_of_def)
      have dec: "length (stream_of rest r') + length (rest (r_ctx r'))
          < length (stream_of rest r) + length (rest (r_ctx r))"
        using more st by simp
      have "length ?u \<le> length (unread r')" using more by simp
      moreover have "LF \<notin> set (take (length ?u) (unread r'))"
        using nu more by (auto simp: find_index_None_iff)
      ultimately show ?thesis
        using less.hyps [OF dec more(5), of "length ?u"] by (simp add: nx st more(6))
    next
      case (eof r')
      let ?r2 = "r'\<lparr>r_pos := length (r_buf r')\<rparr>"
      have st: "stream_of rest r = ?u" using eof by (simp add: stream_of_def)
      have ok2: "reader_ok rest ?r2" using eof by (auto simp: reader_ok_def)
      have st2: "stream_of rest ?r2 = []" using eof by (simp add: stream_of_def)
      have nx: "next_ndjson rd (r_pos r + k) r =
          Some (?r2, if trim_ws ?u = [] then None else Some (trim_ws ?u))"
        by (subst unf) (simp add: dr None Let_def eof del: drop_drop)
      have "length ?u < DXR_STDIO_MAX_MESSAGE_BYTES" using eof by (auto simp: reader_ok_def)
      then have "nd_next ?u = (if trim_ws ?u = [] then None else Some (trim_ws ?u, []))"
        by (subst nd_next.simps) (use nu in simp)
      with nx ok2 st st2 eof show ?thesis by simp
    next
      case (full r')
      let ?r2 = "r'\<lparr>r_pos := length (r_buf r')\<rparr>"
      have ok2: "reader_ok rest ?r2" using full by (auto simp: reader_ok_def)
      have nx: "next_ndjson rd (r_pos r + k) r = Some (?r2, None)"
        by (subst unf) (simp add: dr None Let_def full del: drop_drop)
      have "nd_next (stream_of rest r) = None"
        by (subst nd_next.simps)
          (use full nu in \<open>auto simp: stream_of_def find_index_append split: option.splits\<close>)
      with nx ok2 full show ?thesis by simp
    qed
  qed
qed


lemma header_line_spec:
  assumes "reader_ok rest r"
  shows "\<exists>r' n. header_line rd r = Some (r', n) \<and> reader_ok rest r' \<and> r_framing r' = r_framing r \<and>
    stream_of rest r' = stream_of rest r \<and> n \<le> length (unread r') \<and>
    (case lf_index (stream_of rest r) of None \<Rightarrow> n = 0 | Some i \<Rightarrow> i \<le> 1024 \<longrightarrow> n = Suc i)"
  using assms
proof (induction "length (rest (r_ctx r))" arbitrary: r rule: less_induct)
  case less
  note unf = header_line.simps [of rd r]
  show ?case
  proof (cases "lf_index (unread r)")
    case (Some i)
    then have "i < length (unread r)" by (rule find_index_SomeD)
    with Some less.prems show ?thesis
      by (simp add: unf stream_of_def find_index_append)
  next
    case None
    show ?thesis
    proof (cases "1024 < length (unread r)")
      case True
      with None less.prems show ?thesis
        by (auto simp: unf stream_of_def find_index_append split: option.splits)
    next
      case False
      from less.prems show ?thesis
      proof (cases rule: fill_cases)
        case (more r' bs)
        from more have "length (rest (r_ctx r')) < length (rest (r_ctx r))" by simp
        moreover have "stream_of rest r' = stream_of rest r" using more by (simp add: stream_of_def)
        ultimately show ?thesis
          using less.hyps [of r'] None False more by (simp add: unf)
      next
        case (eof r')
        then have "stream_of rest r = unread r" "stream_of rest r' = unread r"
          by (simp_all add: stream_of_def)
        with eof None False show ?thesis by (simp add: unf)
      next
        case (full r')
        with False show ?thesis by (simp add: DXR_STDIO_MAX_MESSAGE_BYTES_def)
      qed
    qed
  qed
qed

lemma cl_header_loop_spec:
  assumes "reader_ok rest r"
  shows "\<exists>r' res. cl_header_loop rd anyh h n r = Some (r', res) \<and> reader_ok rest r' \<and>
    r_framing r' = r_framing r \<and>
    (case cl_headers anyh h n (stream_of rest r) of None \<Rightarrow> True | Some None \<Rightarrow> res = None
     | Some (Some (h', n', b)) \<Rightarrow> res = Some (h', n') \<and> stream_of rest r' = b)"
  using assms
proof (induction "length (stream_of rest r)" arbitrary: r anyh h n rule: less_induct)
  case less
  note unf = cl_header_loop.simps [of rd anyh h n r] cl_headers.simps [of anyh h n "stream_of rest r"]
  define agree where "agree L S \<longleftrightarrow> (\<exists>r' res. L = Some (r', res) \<and> reader_ok rest r' \<and>
    r_framing r' = r_framing r \<and>
    (case S of None \<Rightarrow> True | Some None \<Rightarrow> res = None
     | Some (Some (h', n', b)) \<Rightarrow> res = Some (h', n') \<and> stream_of rest r' = b))"
    for L :: "('s dxr_stdio_reader \<times> (bool \<times> nat) option) option" and S
  have agree_if: "agree a b \<Longrightarrow> agree a' b' \<Longrightarrow> agree (if c then a else a') (if c then b else b')"
    for a b a' b' c by simp
  have agree_None: "agree L S \<Longrightarrow> agree L None" for L S by (auto simp: agree_def)
  from header_line_spec [OF less.prems] obtain r1 k where
    hl: "header_line rd r = Some (r1, k)" "reader_ok rest r1" "r_framing r1 = r_framing r"
      "stream_of rest r1 = stream_of rest r" "k \<le> length (unread r1)"
    and k: "case lf_index (stream_of rest r) of None \<Rightarrow> k = 0 | Some i \<Rightarrow> i \<le> 1024 \<longrightarrow> k = Suc i"
    by blast
  have "agree (cl_header_loop rd anyh h n r) (cl_headers anyh h n (stream_of rest r))"
  proof (cases "k = 0")
    case True
    with hl k show ?thesis by (auto simp: unf agree_def split: option.splits)
  next
    case False
    define r2 where "r2 = r1\<lparr>r_pos := r_pos r1 + k\<rparr>"
    define line where "line = take k (stream_of rest r)"
    have ok2: "reader_ok rest r2" unfolding r2_def by (rule reader_ok_advance) (use hl in simp_all)
    have st2: "stream_of rest r2 = drop k (stream_of rest r)"
      unfolding r2_def hl(4) [symmetric] by (rule stream_of_advance) (rule hl(5))
    have fr2: "r_framing r2 = r_framing r" using hl by (simp add: r2_def)
    have "k \<le> length (stream_of rest r1)" using hl(5) by (simp add: stream_of_def)
    with False st2 hl(4) have lt: "length (stream_of rest r2) < length (stream_of rest r)" by simp
    have IH: "agree (cl_header_loop rd a b c r2) (cl_headers a b c (stream_of rest r2))" for a b c
      using less.hyps [OF lt ok2, of a b c] by (simp only: agree_def fr2)
    have stop: "agree (Some (r2, Some (h, n))) (Some (Some (h, n, stream_of rest r2)))"
      by (simp add: agree_def ok2 fr2)
    have tk: "take k (unread r1) = line"
      using hl(5) unfolding line_def hl(4) [symmetric] by (simp add: stream_of_def)
    have step: "cl_header_loop rd anyh h n r =
       (if k = 1 \<or> (k = 2 \<and> hd line = CR)
        then (if anyh then Some (r2, Some (h, n)) else cl_header_loop rd anyh h n r2)
        else if reader_key_match line
        then cl_header_loop rd True True (strtoul 64 (drop CL_KEY_LEN (unread r1))) r2
        else cl_header_loop rd True h n r2)"
      using hl False tk by (subst unf(1)) (simp add: r2_def Let_def)
    define S where "S = (if k = 1 \<or> (k = 2 \<and> hd line = CR)
        then (if anyh then Some (Some (h, n, stream_of rest r2)) else cl_headers anyh h n (stream_of rest r2))
        else if reader_key_match line
        then (if \<forall>c\<in>set (drop CL_KEY_LEN line). isspace c then None
              else cl_headers True True (strtoul 64 (drop CL_KEY_LEN line)) (stream_of rest r2))
        else cl_headers True h n (stream_of rest r2))"
    have spec: "cl_headers anyh h n (stream_of rest r) = None \<or>
       (cl_headers anyh h n (stream_of rest r) = S \<and> last line = LF)"
    proof (cases "lf_index (stream_of rest r)")
      case None
      with k False show ?thesis by simp
    next
      case (Some i)
      show ?thesis
      proof (cases "1024 < i")
        case True
        with Some show ?thesis by (simp add: unf(2))
      next
        case False
        with k Some have ki: "k = Suc i" by simp
        have "last line = LF" using find_index_SomeD(1,2) [OF Some]
          by (simp add: line_def ki take_Suc_conv_app_nth)
        moreover have "cl_headers anyh h n (stream_of rest r) = S"
          unfolding S_def line_def st2 ki
          by (subst unf(2)) (simp only: Some option.case False if_False Let_def)
        ultimately show ?thesis by blast
      qed
    qed
    have scan: "strtoul 64 (drop CL_KEY_LEN (unread r1)) = strtoul 64 (drop CL_KEY_LEN line)"
      if "reader_key_match line" "\<not> (\<forall>c\<in>set (drop CL_KEY_LEN line). isspace c)" "last line = LF"
    proof -
      have "unread r1 = line @ drop k (unread r1)" using tk by (metis append_take_drop_id)
      moreover have long: "CL_KEY_LEN < length line" using that(1) by (simp add: reader_key_match_def)
      ultimately have "drop CL_KEY_LEN (unread r1) = drop CL_KEY_LEN line @ drop k (unread r1)"
        by (metis drop_append diff_is_0_eq' drop0 less_imp_le_nat)
      moreover have "drop CL_KEY_LEN line \<noteq> []" "last (drop CL_KEY_LEN line) = LF"
        using long that(3) by (simp_all only: drop_eq_Nil not_le last_drop)
      ultimately show ?thesis using that(2) by (metis strtoul_line)
    qed
    from spec show ?thesis
    proof
      assume "cl_headers anyh h n (stream_of rest r) = None"
      moreover have "\<exists>S. agree (cl_header_loop rd anyh h n r) S"
      proof -
        have "agree (cl_header_loop rd anyh h n r)
         (if k = 1 \<or> (k = 2 \<and> hd line = CR)
          then (if anyh then Some (Some (h, n, stream_of rest r2)) else cl_headers anyh h n (stream_of rest r2))
          else if reader_key_match line
          then cl_headers True True (strtoul 64 (drop CL_KEY_LEN (unread r1))) (stream_of rest r2)
          else cl_headers True h n (stream_of rest r2))"
          unfolding step by (intro agree_if IH stop)
        then show ?thesis ..
      qed
      ultimately show ?thesis using agree_None by auto
    next
      assume s: "cl_headers anyh h n (stream_of rest r) = S \<and> last line = LF"
      have inner: "agree (if reader_key_match line
          then cl_header_loop rd True True (strtoul 64 (drop CL_KEY_LEN (unread r1))) r2
          else cl_header_loop rd True h n r2)
        (if reader_key_match line
         then (if \<forall>c\<in>set (drop CL_KEY_LEN line). isspace c then None
               else cl_headers True True (strtoul 64 (drop CL_KEY_LEN line)) (stream_of rest r2))
         else cl_headers True h n (stream_of rest r2))"
      proof (cases "reader_key_match line")
        case True
        show ?thesis
        proof (cases "\<forall>c\<in>set (drop CL_KEY_LEN line). isspace c")
          case all: True
          have "agree (cl_header_loop rd True True (strtoul 64 (drop CL_KEY_LEN (unread r1))) r2) None"
            by (rule agree_None) (rule IH)
          with True all show ?thesis by simp
        next
          case False
          have "agree (cl_header_loop rd True True (strtoul 64 (drop CL_KEY_LEN (unread r1))) r2)
            (cl_headers True True (strtoul 64 (drop CL_KEY_LEN line)) (stream_of rest r2))"
            unfolding scan [OF True False conjunct2 [OF s]] by (rule IH)
          with True False show ?thesis by (simp only: if_True if_False)
        qed
      next
        case False
        have "agree (cl_header_loop rd True h n r2) (cl_headers True h n (stream_of rest r2))" by (rule IH)
        with False show ?thesis by (simp only: if_False)
      qed
      have "agree (cl_header_loop rd anyh h n r) S"
        unfolding step S_def by (rule agree_if [OF agree_if [OF stop IH] inner])
      with s show ?thesis by simp
    qed
  qed
  then show ?case by (simp only: agree_def)
qed

lemma fill_until_spec:
  assumes "reader_ok rest r" and "n \<le> DXR_STDIO_MAX_MESSAGE_BYTES"
  shows "\<exists>r' ok. fill_until rd n r = Some (r', ok) \<and> reader_ok rest r' \<and> r_framing r' = r_framing r \<and>
    stream_of rest r' = stream_of rest r \<and> (ok \<longleftrightarrow> n \<le> length (stream_of rest r)) \<and>
    (ok \<longrightarrow> n \<le> length (unread r'))"
  using assms
proof (induction "length (rest (r_ctx r))" arbitrary: r rule: less_induct)
  case less
  note unf = fill_until.simps [of rd n r]
  show ?case
  proof (cases "n \<le> length (unread r)")
    case True
    with less.prems show ?thesis
      by (intro exI [of _ r] exI [of _ True]) (simp add: unf stream_of_def)
  next
    case False
    from less.prems(1) show ?thesis
    proof (cases rule: fill_cases)
      case (more r' bs)
      from more have "length (rest (r_ctx r')) < length (rest (r_ctx r))" by simp
      moreover have "stream_of rest r' = stream_of rest r" using more by (simp add: stream_of_def)
      ultimately show ?thesis
        using less.hyps [of r'] less.prems(2) False more by (simp add: unf)
    next
      case (eof r')
      then have "stream_of rest r = unread r" "stream_of rest r' = unread r"
        by (simp_all add: stream_of_def)
      with eof False show ?thesis by (intro exI [of _ r'] exI [of _ False]) (simp add: unf)
    next
      case (full r')
      with False less.prems(2) show ?thesis by simp
    qed
  qed
qed

lemma next_content_length_spec:
  assumes "reader_ok rest r"
  shows "\<exists>r' m. next_content_length rd r = Some (r', m) \<and> reader_ok rest r' \<and>
    r_framing r' = r_framing r \<and>
    (case cl_next (stream_of rest r) of None \<Rightarrow> True | Some None \<Rightarrow> m = None
     | Some (Some (l, t)) \<Rightarrow> m = Some l \<and> stream_of rest r' = t)"
proof -
  from cl_header_loop_spec [OF assms, of False False 0] obtain r1 res where
    hl: "cl_header_loop rd False False 0 r = Some (r1, res)" "reader_ok rest r1"
      "r_framing r1 = r_framing r"
    and res: "case cl_headers False False 0 (stream_of rest r) of None \<Rightarrow> True | Some None \<Rightarrow> res = None
     | Some (Some (h', n', b)) \<Rightarrow> res = Some (h', n') \<and> stream_of rest r1 = b" by blast
  show ?thesis
  proof (cases res)
    case None
    with hl res show ?thesis
      by (auto simp: next_content_length_def cl_next_def split: option.splits)
  next
    case (Some p)
    obtain h n where p: "p = (h, n)" by fastforce
    show ?thesis
    proof (cases "\<not> h \<or> n = 0 \<or> DXR_STDIO_MAX_MESSAGE_BYTES < n")
      case True
      with Some p hl res show ?thesis
        by (auto simp: next_content_length_def cl_next_def split: option.splits)
    next
      case False
      then have "n \<le> DXR_STDIO_MAX_MESSAGE_BYTES" by simp
      from fill_until_spec [OF hl(2) this] obtain r2 ok where
        fu: "fill_until rd n r1 = Some (r2, ok)" "reader_ok rest r2" "r_framing r2 = r_framing r1"
          "stream_of rest r2 = stream_of rest r1" "ok \<longleftrightarrow> n \<le> length (stream_of rest r1)"
          "ok \<longrightarrow> n \<le> length (unread r2)" by blast
      define r3 where "r3 = r2\<lparr>r_pos := r_pos r2 + n\<rparr>"
      have nx: "next_content_length rd r =
          Some (if ok then (r3, Some (take n (unread r2))) else (r2, None))"
        using hl(1) Some p False fu(1) by (simp add: next_content_length_def r3_def)
      show ?thesis
      proof (cases ok)
        case True
        with fu have le: "n \<le> length (unread r2)" by simp
        have ok3: "reader_ok rest r3" unfolding r3_def by (rule reader_ok_advance [OF fu(2) le])
        have st3: "stream_of rest r3 = drop n (stream_of rest r1)"
          unfolding r3_def fu(4) [symmetric] by (rule stream_of_advance [OF le])
        have tk: "take n (unread r2) = take n (stream_of rest r1)"
          using le unfolding fu(4) [symmetric] by (simp add: stream_of_def)
        have fr: "r_framing r3 = r_framing r" using fu hl by (simp add: r3_def)
        from True fu(5) have le1: "\<not> length (stream_of rest r1) < n" by simp
        show ?thesis
          using nx True ok3 fr res Some p False le1
          by (auto simp: cl_next_def tk st3 split: option.splits)
      next
        case nok: False
        with fu(5) have "length (stream_of rest r1) < n" by simp
        with nx nok fu hl res Some p show ?thesis
          by (auto simp: cl_next_def split: option.splits)
      qed
    qed
  qed
qed


lemma strip_ws: "strip (drop (length (takeWhile is_ws xs)) (xs @ ys)) = strip (xs @ ys)"
proof -
  have "dropWhile is_ws (dropWhile is_ws xs @ ys) = dropWhile is_ws (xs @ ys)"
    by (induction xs) auto
  moreover have "drop (length (takeWhile is_ws xs)) (xs @ ys) = dropWhile is_ws xs @ ys"
    by (simp add: dropWhile_eq_drop length_takeWhile_le)
  ultimately show ?thesis by (subst (1 2) strip.simps) (simp only:)
qed

lemma strip_nonws: "\<not> is_ws (hd u) \<Longrightarrow> u \<noteq> [] \<Longrightarrow> strip u = (if take 3 u = BOM then strip (drop 3 u) else u)"
  by (subst strip.simps) (cases u; simp add: Let_def)

lemma lower_prefix_mismatch:
  assumes "map lower (take n u) \<noteq> take n CL_KEY" and "n \<le> length u" and "n \<le> 15"
  shows "classify (u @ v) = FRAMING_NDJSON"
proof -
  have "map lower (take CL_KEY_LEN (u @ v)) \<noteq> CL_KEY"
  proof
    assume "map lower (take CL_KEY_LEN (u @ v)) = CL_KEY"
    then have "take n (map lower (take CL_KEY_LEN (u @ v))) = take n CL_KEY" by simp
    with assms show False by (simp add: take_map min_def split: if_splits)
  qed
  then show ?thesis by (simp add: classify_def)
qed

lemma detect_spec:
  assumes "reader_ok rest r" and "r_framing r = FRAMING_UNKNOWN"
  shows "\<exists>r' ok. detect rd r = Some (r', ok) \<and> reader_ok rest r' \<and>
    (let u = strip (stream_of rest r) in
       (ok \<longleftrightarrow> u \<noteq> []) \<and> stream_of rest r' = u \<and>
       r_framing r' = (if u = [] then FRAMING_UNKNOWN else classify u))"
  using assms
proof (induction "length (stream_of rest r) + length (rest (r_ctx r))" arbitrary: r rule: less_induct)
  case less
  define w where "w = length (takeWhile is_ws (unread r))"
  define r1 where "r1 = r\<lparr>r_pos := r_pos r + w\<rparr>"
  define u where "u = unread r1"
  have wl: "w \<le> length (unread r)" unfolding w_def by (rule length_takeWhile_le)
  have ok1: "reader_ok rest r1" unfolding r1_def by (rule reader_ok_advance [OF less.prems(1) wl])
  have c1: "r_ctx r1 = r_ctx r" "r_framing r1 = FRAMING_UNKNOWN" using less.prems by (simp_all add: r1_def)
  have st1: "strip (stream_of rest r1) = strip (stream_of rest r)"
    unfolding r1_def stream_of_advance [OF wl] unfolding w_def stream_of_def by (rule strip_ws)
  have le1: "length (stream_of rest r1) \<le> length (stream_of rest r)"
    unfolding r1_def stream_of_advance [OF wl] by simp
  have s1: "stream_of rest r1 = u @ rest (r_ctx r)" by (simp add: stream_of_def u_def c1)
  have u_ws: "u = dropWhile is_ws (unread r)"
    by (simp add: u_def r1_def w_def dropWhile_eq_drop add.commute)
  have hd_u: "u \<noteq> [] \<Longrightarrow> \<not> is_ws (hd u)" unfolding u_ws by (rule hd_dropWhile)
  let ?n = "min (length u) CL_KEY_LEN"
  let ?partial = "length u < 3 \<and> u = take (length u) BOM"
  have step: "detect rd r =
     (if 3 \<le> length u \<and> take 3 u = BOM then detect rd (r1\<lparr>r_pos := r_pos r1 + 3\<rparr>)
      else if 0 < length u \<and> \<not> ?partial \<and> map lower (take ?n u) \<noteq> take ?n CL_KEY
      then Some (r1\<lparr>r_framing := FRAMING_NDJSON\<rparr>, True)
      else if 0 < length u \<and> \<not> ?partial \<and> ?n = CL_KEY_LEN
      then Some (r1\<lparr>r_framing := FRAMING_CONTENT_LENGTH\<rparr>, True)
      else (case fill rd r1 of (r', ok) \<Rightarrow>
              if ok then detect rd r'
              else if r_pos r' < length (r_buf r')
              then Some (r'\<lparr>r_framing := FRAMING_NDJSON\<rparr>, True) else Some (r', False)))"
    unfolding u_def r1_def w_def by (subst detect.simps) (simp only: Let_def)
  have not_BOM: "strip (u @ v) = u @ v" if "u \<noteq> []" "take 3 (u @ v) \<noteq> BOM" for v
    using that hd_u by (subst strip_nonws) auto
  have fr_upd: "reader_ok rest (r1\<lparr>r_framing := f\<rparr>)" "stream_of rest (r1\<lparr>r_framing := f\<rparr>) = stream_of rest r1"
    for f using ok1 by (simp_all add: stream_of_def)
  have long: "length u < CL_KEY_LEN \<or> (?n = CL_KEY_LEN \<and> 0 < length u \<and> \<not> length u < 3)"
    by auto
  consider (bom) "3 \<le> length u" "take 3 u = BOM"
    | (mismatch) "\<not> (3 \<le> length u \<and> take 3 u = BOM)" "0 < length u" "\<not> ?partial"
        "map lower (take ?n u) \<noteq> take ?n CL_KEY"
    | (key) "\<not> (3 \<le> length u \<and> take 3 u = BOM)" "0 < length u" "\<not> ?partial"
        "map lower (take ?n u) = take ?n CL_KEY" "?n = CL_KEY_LEN"
    | (wait) "\<not> (3 \<le> length u \<and> take 3 u = BOM)" "length u < CL_KEY_LEN"
        "length u = 0 \<or> ?partial \<or> map lower (take ?n u) = take ?n CL_KEY"
    using long by blast
  then show ?case
  proof cases
    case bom
    define r2 where "r2 = r1\<lparr>r_pos := r_pos r1 + 3\<rparr>"
    have le3: "3 \<le> length (unread r1)" using bom by (simp add: u_def)
    have ok2: "reader_ok rest r2" unfolding r2_def by (rule reader_ok_advance [OF ok1 le3])
    have st2: "stream_of rest r2 = drop 3 (stream_of rest r1)"
      unfolding r2_def by (rule stream_of_advance [OF le3])
    have "u \<noteq> []" using bom by auto
    then have "strip (stream_of rest r1) = strip (stream_of rest r2)"
      using bom hd_u unfolding st2 s1 by (subst strip_nonws) auto
    moreover have "length (stream_of rest r2) < length (stream_of rest r)"
      using le1 bom s1 by (simp add: st2)
    moreover have "r_framing r2 = FRAMING_UNKNOWN" using c1 by (simp add: r2_def)
    moreover have "detect rd r = detect rd r2" using bom by (simp add: step r2_def)
    moreover have "r_ctx r2 = r_ctx r" using c1 by (simp add: r2_def)
    ultimately show ?thesis using less.hyps [of r2] ok2 st1 by simp
  next
    case mismatch
    have nb: "take 3 (u @ rest (r_ctx r)) \<noteq> BOM"
    proof
      assume b: "take 3 (u @ rest (r_ctx r)) = BOM"
      then have l3: "length u < 3" using mismatch(1) by (cases "3 \<le> length u") auto
      have "u = take (length u) (take 3 (u @ rest (r_ctx r)))" using l3 by simp
      with b l3 mismatch(3) show False by simp
    qed
    from mismatch have une: "u \<noteq> []" by auto
    from not_BOM [OF une nb] have su: "strip (stream_of rest r) = stream_of rest r1" using st1 s1 by simp
    have "classify (stream_of rest r1) = FRAMING_NDJSON"
      unfolding s1 by (rule lower_prefix_mismatch [OF mismatch(4)]) simp_all
    with mismatch une su fr_upd show ?thesis by (auto simp: step s1 Let_def)
  next
    case key
    have nb: "take 3 (u @ rest (r_ctx r)) \<noteq> BOM" using key by auto
    from key have une: "u \<noteq> []" by auto
    from not_BOM [OF une nb] have su: "strip (stream_of rest r) = stream_of rest r1" using st1 s1 by simp
    have "classify (stream_of rest r1) = FRAMING_CONTENT_LENGTH"
      using key by (simp add: classify_def s1 min_def split: if_splits)
    with key une su fr_upd show ?thesis by (auto simp: step s1 Let_def)
  next
    case wait
    then have "\<not> (3 \<le> length u \<and> take 3 u = BOM)"
        "\<not> (0 < length u \<and> \<not> ?partial \<and> map lower (take ?n u) \<noteq> take ?n CL_KEY)"
        "\<not> (0 < length u \<and> \<not> ?partial \<and> ?n = CL_KEY_LEN)" by (auto simp: min_def)
    then have st: "detect rd r = (case fill rd r1 of (r', ok) \<Rightarrow>
              if ok then detect rd r'
              else if r_pos r' < length (r_buf r')
              then Some (r'\<lparr>r_framing := FRAMING_NDJSON\<rparr>, True) else Some (r', False))"
      unfolding step by (simp only: if_False)
    from ok1 show ?thesis
    proof (cases rule: fill_cases)
      case (more r' bs)
      have sr: "stream_of rest r' = stream_of rest r1" using more by (simp add: stream_of_def)
      have "length (rest (r_ctx r')) < length (rest (r_ctx r))" using more c1 by simp
      then have "length (stream_of rest r') + length (rest (r_ctx r'))
        < length (stream_of rest r) + length (rest (r_ctx r))" using sr le1 by simp
      from less.hyps [OF this more(5)] more(6) c1 sr st1 show ?thesis by (simp add: st more(1))
    next
      case (eof r')
      have sr: "stream_of rest r' = u" "stream_of rest r1 = u" using eof c1 by (simp_all add: stream_of_def u_def)
      have ru: "r_pos r' < length (r_buf r') \<longleftrightarrow> u \<noteq> []" using eof(2) u_def
        by (metis drop_eq_Nil not_le)
      show ?thesis
      proof (cases "u = []")
        case True
        have "strip [] = []" by (subst strip.simps) (simp add: BOM_def)
        with True sr st1 eof ru c1 show ?thesis by (intro exI [of _ r'] exI [of _ False]) (simp add: st)
      next
        case False
        have "take 3 u \<noteq> BOM" using wait(1) by (auto simp: BOM_def dest: arg_cong [of _ _ length])
        with False not_BOM [of "[]"] have "strip u = u" by simp
        moreover have "classify u = FRAMING_NDJSON"
          using wait(2) by (auto simp: classify_def dest: arg_cong [of _ _ length])
        moreover have "stream_of rest (r'\<lparr>r_framing := FRAMING_NDJSON\<rparr>) = u"
          using sr by (simp add: stream_of_def)
        ultimately show ?thesis using False sr(2) st1 eof ru
          by (intro exI [of _ "r'\<lparr>r_framing := FRAMING_NDJSON\<rparr>"] exI [of _ True]) (simp add: st)
      qed
    next
      case (full r')
      with wait show ?thesis by (simp add: u_def DXR_STDIO_MAX_MESSAGE_BYTES_def)
    qed
  qed
qed

theorem reader_next_spec:
  assumes "reader_ok rest r"
  shows "\<exists>r' m. dxr_stdio_reader_next rd r = Some (r', m) \<and> reader_ok rest r' \<and>
    (case stream_next (r_framing r) (stream_of rest r) of None \<Rightarrow> True | Some None \<Rightarrow> m = None
     | Some (Some (f, l, t)) \<Rightarrow> m = Some l \<and> r_framing r' = f \<and> stream_of rest r' = t)"
proof -
  have known: "\<exists>r' m. (if r_framing r1 = FRAMING_CONTENT_LENGTH then next_content_length rd r1
        else next_ndjson rd (r_pos r1) r1) = Some (r', m) \<and> reader_ok rest r' \<and>
      (case map_option (map_option (\<lambda>(m, t). (r_framing r1, m, t))) (framed_next (r_framing r1) (stream_of rest r1))
       of None \<Rightarrow> True | Some None \<Rightarrow> m = None
       | Some (Some (f, l, t)) \<Rightarrow> m = Some l \<and> r_framing r' = f \<and> stream_of rest r' = t)"
    if "reader_ok rest r1" for r1
  proof (cases "r_framing r1 = FRAMING_CONTENT_LENGTH")
    case True
    from next_content_length_spec [OF that] obtain r' m where
      "next_content_length rd r1 = Some (r', m)" "reader_ok rest r'" "r_framing r' = r_framing r1"
      "case cl_next (stream_of rest r1) of None \<Rightarrow> True | Some None \<Rightarrow> m = None
     | Some (Some (l, t)) \<Rightarrow> m = Some l \<and> stream_of rest r' = t" by blast
    with True show ?thesis by (auto simp: framed_next_def split: option.splits)
  next
    case False
    from next_ndjson_spec [OF that, of 0] obtain r' m where
      "next_ndjson rd (r_pos r1) r1 = Some (r', m)" "reader_ok rest r'" "r_framing r' = r_framing r1"
      "case nd_next (stream_of rest r1) of None \<Rightarrow> m = None
     | Some (l, t) \<Rightarrow> m = Some l \<and> stream_of rest r' = t" by auto
    with False show ?thesis by (auto simp: framed_next_def split: option.splits)
  qed
  show ?thesis
  proof (cases "r_framing r = FRAMING_UNKNOWN")
    case False
    with known [OF assms] show ?thesis by (simp add: dxr_stdio_reader_next_def stream_next_def)
  next
    case True
    from detect_spec [OF assms True] obtain r1 ok where
      d: "detect rd r = Some (r1, ok)" "reader_ok rest r1"
      and u: "ok \<longleftrightarrow> strip (stream_of rest r) \<noteq> []" "stream_of rest r1 = strip (stream_of rest r)"
        "r_framing r1 = (if strip (stream_of rest r) = [] then FRAMING_UNKNOWN
           else classify (strip (stream_of rest r)))"
      by (auto simp: Let_def)
    show ?thesis
    proof (cases ok)
      case True
      with d u \<open>r_framing r = FRAMING_UNKNOWN\<close> known [OF d(2)] show ?thesis
        by (simp add: dxr_stdio_reader_next_def stream_next_def Let_def)
    next
      case False
      with d u \<open>r_framing r = FRAMING_UNKNOWN\<close> show ?thesis
        by (simp add: dxr_stdio_reader_next_def stream_next_def Let_def)
    qed
  qed
qed


lemma read_messages_spec:
  assumes "reader_ok rest r" and "stream_messages (r_framing r) (stream_of rest r) = Some ms"
  shows "\<exists>r'. read_messages rd r = Some (r', ms) \<and> reader_ok rest r'"
  using assms
proof (induction ms arbitrary: r)
  case Nil
  from Nil.prems(2) have "stream_next (r_framing r) (stream_of rest r) = Some None"
    by (subst (asm) stream_messages.simps) (auto split: option.splits)
  with reader_next_spec [OF Nil.prems(1)] show ?case by (auto simp: read_messages.simps [of rd r])
next
  case (Cons m ms)
  from Cons.prems(2) obtain f t where
    st: "stream_next (r_framing r) (stream_of rest r) = Some (Some (f, m, t))" "stream_messages f t = Some ms"
    by (subst (asm) stream_messages.simps) (auto split: option.splits)
  with reader_next_spec [OF Cons.prems(1)] obtain r1 where
    "dxr_stdio_reader_next rd r = Some (r1, Some m)" "reader_ok rest r1" "r_framing r1 = f"
    "stream_of rest r1 = t" by auto
  with Cons.IH [of r1] st(2) show ?case by (auto simp: read_messages.simps [of rd r])
qed

lemma init_ok:
  "reader_ok rest (dxr_stdio_reader_init ctx)"
  "stream_of rest (dxr_stdio_reader_init ctx) = rest ctx"
  "r_framing (dxr_stdio_reader_init ctx) = FRAMING_UNKNOWN"
  by (simp_all add: reader_ok_def stream_of_def dxr_stdio_reader_init_def)

end

section \<open>Standard input is such a source\<close>

text \<open>What chunks of standard input hold up to end of file.\<close>

definition stdin_rest :: "bytes list \<Rightarrow> bytes" where
  "stdin_rest chunks = concat (takeWhile (\<lambda>c. c \<noteq> []) chunks)"

interpretation stdin_src: byte_source dxr_stdio_read_stdin stdin_rest
proof
  fix n :: nat and s :: "bytes list"
  assume n: "0 < n"
  show "length (snd (dxr_stdio_read_stdin s n)) \<le> n"
    by (simp add: dxr_stdio_read_stdin_def split: list.splits)
  show "stdin_rest s = snd (dxr_stdio_read_stdin s n) @ stdin_rest (fst (dxr_stdio_read_stdin s n))"
    using n by (auto simp: dxr_stdio_read_stdin_def stdin_rest_def split: list.splits)
  show "snd (dxr_stdio_read_stdin s n) = [] \<Longrightarrow> stdin_rest s = []"
    using n by (auto simp: dxr_stdio_read_stdin_def stdin_rest_def split: list.splits if_splits)
qed

section \<open>Encoded messages parse back\<close>

text \<open>The newline-delimited encoding of a message without its terminator.\<close>

definition flatten :: "bytes \<Rightarrow> bytes" where
  "flatten m = map (\<lambda>c. if c = LF \<or> c = CR then SPC else c) m"

text \<open>The shape of a JSON object or array as text.\<close>

definition json_shaped :: "bytes \<Rightarrow> bool" where
  "json_shaped m \<longleftrightarrow> m \<noteq> [] \<and> hd m \<in> {CHR ''{'', CHR ''[''} \<and> last m \<in> {CHR ''}'', CHR '']''}"

lemma trim_ws_id: "m \<noteq> [] \<Longrightarrow> \<not> is_ws (hd m) \<Longrightarrow> \<not> is_ws (last m) \<Longrightarrow> trim_ws m = m"
proof -
  assume a: "m \<noteq> []" "\<not> is_ws (hd m)" "\<not> is_ws (last m)"
  then have "dropWhile is_ws m = m" "dropWhile is_ws (rev m) = rev m"
    by (simp_all only: dropWhile_eq_self_iff hd_rev simp_thms)
  then show ?thesis by (simp add: trim_ws_def)
qed

lemma flatten_shaped:
  assumes "json_shaped m"
  shows "flatten m \<noteq> []" "hd (flatten m) = hd m" "last (flatten m) = last m" "LF \<notin> set (flatten m)"
    "trim_ws (flatten m) = flatten m" "\<not> is_ws (hd m)"
proof -
  have m: "m \<noteq> []" "hd m = CHR ''{'' \<or> hd m = CHR ''[''" "last m = CHR ''}'' \<or> last m = CHR '']''"
    using assms by (auto simp: json_shaped_def)
  show ne: "flatten m \<noteq> []" using m by (simp add: flatten_def)
  show h: "hd (flatten m) = hd m" using m by (auto simp: flatten_def hd_map)
  show l: "last (flatten m) = last m" using m by (auto simp: flatten_def last_map)
  show "LF \<notin> set (flatten m)" by (auto simp: flatten_def)
  show w: "\<not> is_ws (hd m)" using m by (auto simp: is_ws_def)
  show "trim_ws (flatten m) = flatten m"
    by (rule trim_ws_id) (use ne h l w m in \<open>auto simp: is_ws_def\<close>)
qed

lemma encode_ndjson: "dxr_stdio_encode FRAMING_NDJSON m = flatten m @ [LF]"
  by (simp add: dxr_stdio_encode_def flatten_def)

lemma lf_index_stop: "LF \<notin> set l \<Longrightarrow> lf_index (l @ LF # t) = Some (length l)"
  by (induction l) auto

lemma nd_next_encode:
  assumes "json_shaped m" and "length m < DXR_STDIO_MAX_MESSAGE_BYTES"
  shows "nd_next (dxr_stdio_encode FRAMING_NDJSON m @ t) = Some (flatten m, t)"
proof -
  have "lf_index (flatten m @ LF # t) = Some (length (flatten m))"
    by (rule lf_index_stop [OF flatten_shaped(4) [OF assms(1)]])
  then show ?thesis
    using flatten_shaped [OF assms(1)] assms(2)
    by (subst nd_next.simps) (simp add: encode_ndjson flatten_def)
qed

lemma cl_headers_key_line:
  assumes "LF \<notin> set l" and "2 \<le> length l" and "length l \<le> 1024" and "reader_key_match (l @ [LF])"
    and "\<not> (\<forall>c\<in>set (drop CL_KEY_LEN (l @ [LF])). isspace c)"
  shows "cl_headers a h n (l @ LF # t) = cl_headers True True (strtoul 64 (drop CL_KEY_LEN (l @ [LF]))) t"
  using assms by (subst cl_headers.simps) (auto simp: lf_index_stop Let_def)

lemma cl_next_encode:
  assumes "0 < length m" and "length m \<le> DXR_STDIO_MAX_MESSAGE_BYTES"
  shows "cl_next (dxr_stdio_encode FRAMING_CONTENT_LENGTH m @ t) = Some (Some (m, t))"
proof -
  let ?n = "length m"
  define l where "l = ''Content-Length: '' @ show_nat ?n @ [CR]"
  have bound: "?n < 2 ^ 64" "?n < 10 ^ 40" using assms frame_limits(2) by simp_all
  have len: "length (show_nat ?n) \<le> 40" using bound(2) by (rule length_show_nat) simp
  have l: "LF \<notin> set l" "2 \<le> length l" "length l \<le> 1024" using len by (simp_all add: l_def show_nat_no)
  have enc: "dxr_stdio_encode FRAMING_CONTENT_LENGTH m @ t = l @ LF # (CR # LF # m @ t)"
    using bound by (simp add: dxr_stdio_encode_def cl_header_eq CRLF2_def l_def)
  have km: "reader_key_match (l @ [LF])"
    using key_matches_header(2) [of "SPC # show_nat ?n @ [CR, LF]"] len
    by (simp add: reader_key_match_def adapter_key_match_def l_def)
  have val: "strtoul 64 (drop CL_KEY_LEN (l @ [LF])) = ?n"
    using bound by (simp add: l_def strtoul_skip_space strtoul_show_nat)
  have val': "\<not> (\<forall>c\<in>set (drop CL_KEY_LEN (l @ [LF])). isspace c)"
  proof -
    obtain c cs where c: "show_nat ?n = c # cs" by (cases "show_nat ?n") auto
    then have "\<not> isspace c" using show_nat_digits [of ?n] isdigit_not_isspace by simp
    then show ?thesis by (simp add: l_def c)
  qed
  have "cl_headers False False 0 (l @ LF # (CR # LF # m @ t)) = cl_headers True True ?n (CR # LF # m @ t)"
    unfolding val [symmetric] by (rule cl_headers_key_line [OF l km val'])
  also have "\<dots> = Some (Some (True, ?n, m @ t))"
    by (subst cl_headers.simps) simp
  finally show ?thesis using assms by (simp add: cl_next_def enc)
qed

lemma stream_messages_known:
  assumes "f \<noteq> FRAMING_UNKNOWN"
    and step: "\<And>m t. m \<in> set ms \<Longrightarrow> framed_next f (enc m @ t) = Some (Some (g m, t))"
  shows "stream_messages f (concat (map enc ms)) = Some (map g ms)"
  using step
proof (induction ms)
  case Nil
  have "framed_next f [] = Some None"
    by (simp add: framed_next_def cl_next_def cl_headers.simps nd_next.simps trim_ws_def)
  with assms(1) show ?case by (subst stream_messages.simps) (simp add: stream_next_def)
next
  case (Cons m ms)
  with assms(1) show ?case by (subst stream_messages.simps) (simp add: stream_next_def)
qed

lemma stream_messages_detect:
  assumes "b \<noteq> []" "\<not> is_ws (hd b)" "take 3 b \<noteq> BOM" and f: "classify b = f"
    and "stream_messages f b = Some ms"
  shows "stream_messages FRAMING_UNKNOWN b = Some ms"
proof -
  have "strip b = b" using assms by (subst strip.simps) (cases b; simp add: Let_def)
  moreover have "f \<noteq> FRAMING_UNKNOWN" using f by (auto simp: classify_def split: if_splits)
  ultimately have "stream_next FRAMING_UNKNOWN b = stream_next f b"
    using assms by (simp add: stream_next_def)
  with assms show ?thesis by (subst stream_messages.simps) (simp add: stream_messages.simps [symmetric])
qed

lemma strip_Nil [simp]: "strip [] = []"
  by (subst strip.simps) (simp add: BOM_def)

lemma stream_messages_ndjson:
  assumes "\<And>m. m \<in> set ms \<Longrightarrow> json_shaped m \<and> length m < DXR_STDIO_MAX_MESSAGE_BYTES"
  shows "stream_messages FRAMING_UNKNOWN (concat (map (dxr_stdio_encode FRAMING_NDJSON) ms)) = Some (map flatten ms)"
proof (cases ms)
  case Nil
  then show ?thesis by (subst stream_messages.simps) (simp add: stream_next_def)
next
  case (Cons m ms')
  let ?b = "concat (map (dxr_stdio_encode FRAMING_NDJSON) ms)"
  have sh: "json_shaped m" using assms Cons by simp
  obtain c b where b: "?b = c # b" "c = hd m"
    using Cons flatten_shaped(1,2) [OF sh] by (cases "flatten m") (auto simp: encode_ndjson)
  have c: "c = CHR ''{'' \<or> c = CHR ''[''" using b sh by (auto simp: json_shaped_def)
  have known: "stream_messages FRAMING_NDJSON ?b = Some (map flatten ms)"
    by (rule stream_messages_known) (use assms nd_next_encode in \<open>auto simp: framed_next_def\<close>)
  show ?thesis
  proof (rule stream_messages_detect [OF _ _ _ _ known])
    show "classify ?b = FRAMING_NDJSON"
      using c by (auto simp: b(1) classify_def CL_KEY_def lower_def)
    show "take 3 ?b \<noteq> BOM" using c by (auto simp: b(1) BOM_def numeral_3_eq_3)
    show "\<not> is_ws (hd ?b)" using c by (auto simp: b(1) is_ws_def)
    show "?b \<noteq> []" by (simp only: b(1)) simp
  qed
qed

lemma stream_messages_content_length:
  assumes "\<And>m. m \<in> set ms \<Longrightarrow> 0 < length m \<and> length m \<le> DXR_STDIO_MAX_MESSAGE_BYTES"
  shows "stream_messages FRAMING_UNKNOWN (concat (map (dxr_stdio_encode FRAMING_CONTENT_LENGTH) ms)) = Some ms"
proof (cases ms)
  case Nil
  then show ?thesis by (subst stream_messages.simps) (simp add: stream_next_def)
next
  case (Cons m ms')
  let ?b = "concat (map (dxr_stdio_encode FRAMING_CONTENT_LENGTH) ms)"
  have "length m < 10 ^ 40" using assms [of m] Cons frame_limits(2) by simp
  then obtain b where b: "?b = ''Content-Length:'' @ b"
    using Cons by (simp add: dxr_stdio_encode_def cl_header_eq)
  have k: "map lower ''Content-Length:'' = CL_KEY" by code_simp
  have "stream_messages FRAMING_CONTENT_LENGTH ?b = Some (map (\<lambda>m. m) ms)"
    by (rule stream_messages_known) (use assms cl_next_encode in \<open>auto simp: framed_next_def\<close>)
  then have known: "stream_messages FRAMING_CONTENT_LENGTH ?b = Some ms" by simp
  show ?thesis
  proof (rule stream_messages_detect [OF _ _ _ _ known])
    have t: "take 15 (''Content-Length:'' @ x) = ''Content-Length:''" for x :: bytes by simp
    show "classify ?b = FRAMING_CONTENT_LENGTH"
      by (simp only: b classify_def CL_KEY_LEN_eq t k if_True simp_thms)
    show "take 3 ?b \<noteq> BOM" unfolding b by (simp add: BOM_def)
    show "\<not> is_ws (hd ?b)" unfolding b by (simp add: is_ws_def)
    show "?b \<noteq> []" unfolding b by simp
  qed
qed


section \<open>The reader on standard input\<close>

lemma stream_messages_nd: "f = FRAMING_NDJSON \<Longrightarrow> \<exists>ms. stream_messages f b = Some ms"
proof (induction f b rule: stream_messages.induct)
  case (1 f b)
  have st: "stream_next f b = Some (map_option (\<lambda>(m, t). (f, m, t)) (nd_next b))"
    using "1.prems" by (simp add: stream_next_def framed_next_def)
  show ?case
  proof (cases "nd_next b")
    case None
    then show ?thesis by (subst stream_messages.simps) (simp add: st)
  next
    case (Some mt)
    obtain m t where mt: "mt = (m, t)" by (cases mt)
    have "\<exists>ms. stream_messages f t = Some ms"
      by (rule "1.IH" [of "Some (f, m, t)" "(f, m, t)"]) (simp add: st Some mt | rule "1.prems")+
    then show ?thesis by (subst stream_messages.simps) (auto simp: st Some mt)
  qed
qed

text \<open>C26. For every stream the flat parser gives messages for, the reader delivers exactly these, however
  \<open>read()\<close> cut the bytes, and comes back: the framing is detected on the whole stream.  The flat parser does so
  for every stream that is not Content-Length framed; among those that are, it leaves out the ones that reach a
  header line longer than 1025 bytes or a length header with a blank value, where the code's messages can depend
  on the cuts.\<close>

theorem reader_parses_stream:
  "(\<forall>ms. stream_messages FRAMING_UNKNOWN (stdin_rest chunks) = Some ms \<longrightarrow>
      (\<exists>r'. read_messages dxr_stdio_read_stdin (dxr_stdio_reader_init chunks) = Some (r', ms))) \<and>
   (classify (strip (stdin_rest chunks)) \<noteq> FRAMING_CONTENT_LENGTH \<longrightarrow>
      (\<exists>ms. stream_messages FRAMING_UNKNOWN (stdin_rest chunks) = Some ms))"
proof (intro conjI allI impI)
  show "\<exists>r'. read_messages dxr_stdio_read_stdin (dxr_stdio_reader_init chunks) = Some (r', ms)"
    if "stream_messages FRAMING_UNKNOWN (stdin_rest chunks) = Some ms" for ms
    using stdin_src.read_messages_spec [OF stdin_src.init_ok(1), of chunks ms] that
    by (auto simp: stdin_src.init_ok)
next
  let ?b = "stdin_rest chunks"
  assume "classify (strip ?b) \<noteq> FRAMING_CONTENT_LENGTH"
  then have nd: "classify (strip ?b) = FRAMING_NDJSON" by (auto simp: classify_def split: if_splits)
  show "\<exists>ms. stream_messages FRAMING_UNKNOWN ?b = Some ms"
  proof (cases "strip ?b = [] \<or> nd_next (strip ?b) = None")
    case True
    then show ?thesis
      by (subst stream_messages.simps) (auto simp: stream_next_def Let_def nd framed_next_def)
  next
    case False
    then obtain m t where "nd_next (strip ?b) = Some (m, t)" by auto
    then show ?thesis using False stream_messages_nd [of FRAMING_NDJSON t]
      by (subst stream_messages.simps) (auto simp: stream_next_def Let_def nd framed_next_def)
  qed
qed

theorem reader_parses_stream_witness:
  "\<exists>r'. read_messages dxr_stdio_read_stdin
      (dxr_stdio_reader_init [[CHR 0xEF, CHR 0xBB], CHR 0xBF # ''  {}'' @ [CR], LF # LF # ''[1'', '']'']) =
     Some (r', [''{}'', ''[1]''])"
  by (rule reader_parses_stream [THEN conjunct1, rule_format])
    (simp add: stdin_rest_def stream_messages.simps stream_next_def strip.simps is_ws_def BOM_def classify_def
      CL_KEY_def lower_def framed_next_def nd_next.simps trim_ws_def DXR_STDIO_MAX_MESSAGE_BYTES_def)

text \<open>C31. Newline-delimited round trip: any JSON objects or arrays written with the encoder and read
  back arrive in order, with interior line breaks turned into spaces and nothing else changed.\<close>

theorem ndjson_roundtrip:
  assumes "\<And>m. m \<in> set ms \<Longrightarrow> json_shaped m \<and> length m < DXR_STDIO_MAX_MESSAGE_BYTES"
    and "stdin_rest chunks = concat (map (dxr_stdio_encode FRAMING_NDJSON) ms)"
  shows "\<exists>r'. read_messages dxr_stdio_read_stdin (dxr_stdio_reader_init chunks) = Some (r', map flatten ms)"
  using stdin_src.read_messages_spec [OF stdin_src.init_ok(1), of chunks "map flatten ms"]
    stream_messages_ndjson [OF assms(1)] assms(2)
  by (auto simp: stdin_src.init_ok)

theorem ndjson_roundtrip_witness:
  "\<exists>r'. read_messages dxr_stdio_read_stdin (dxr_stdio_reader_init [''{'', SPC # ''}'' @ [LF]]) =
     Some (r', map flatten [''{'' @ LF # ''}''])"
  by (rule ndjson_roundtrip)
    (simp_all add: json_shaped_def DXR_STDIO_MAX_MESSAGE_BYTES_def stdin_rest_def dxr_stdio_encode_def)

text \<open>Content-Length round trip: any messages of 1 byte to 16 MiB written with the encoder and read
  back arrive unchanged and in order.\<close>

theorem content_length_roundtrip:
  assumes "\<And>m. m \<in> set ms \<Longrightarrow> 0 < length m \<and> length m \<le> DXR_STDIO_MAX_MESSAGE_BYTES"
    and "stdin_rest chunks = concat (map (dxr_stdio_encode FRAMING_CONTENT_LENGTH) ms)"
  shows "\<exists>r'. read_messages dxr_stdio_read_stdin (dxr_stdio_reader_init chunks) = Some (r', ms)"
  using stdin_src.read_messages_spec [OF stdin_src.init_ok(1), of chunks ms]
    stream_messages_content_length [OF assms(1)] assms(2)
  by (auto simp: stdin_src.init_ok)

theorem content_length_roundtrip_witness:
  "\<exists>r'. read_messages dxr_stdio_read_stdin
      (dxr_stdio_reader_init [''Content'', ''-Length: 2'' @ CRLF2 @ ''{'', ''}Content-Length: 2'' @ CRLF2, ''[]'']) =
     Some (r', [''{}'', ''[]''])"
proof (rule content_length_roundtrip)
  have "cl_header 2 = ''Content-Length: 2'' @ CRLF2"
    by (simp add: cl_header_eq show_nat.simps)
  then show "stdin_rest [''Content'', ''-Length: 2'' @ CRLF2 @ ''{'', ''}Content-Length: 2'' @ CRLF2, ''[]''] =
     concat (map (dxr_stdio_encode FRAMING_CONTENT_LENGTH) [''{}'', ''[]''])"
    by (simp add: stdin_rest_def dxr_stdio_encode_def CRLF2_def numeral_2_eq_2)
qed (auto simp: DXR_STDIO_MAX_MESSAGE_BYTES_def)

text \<open>The reader always comes back with a message or with the end of the stream, from every state
  it can be in and whatever standard input holds, and it stays in such a state.\<close>

theorem reader_returns:
  assumes "reader_ok stdin_rest r"
  shows "\<exists>r' m. dxr_stdio_reader_next dxr_stdio_read_stdin r = Some (r', m) \<and> reader_ok stdin_rest r'"
  using stdin_src.reader_next_spec [OF assms] by blast

theorem reader_returns_witness:
  "\<exists>r' m. dxr_stdio_reader_next dxr_stdio_read_stdin (dxr_stdio_reader_init [''garbage'']) = Some (r', m)"
  using reader_returns [OF stdin_src.init_ok(1), of "[''garbage'']"] by blast

end
