(* ===== verification/Allowlist.thy ===== *)
theory Allowlist
  imports C_Lib
begin

text \<open>
  The client allowlist of \<^verbatim>\<open>src/mcp_allowlist.c\<close>.  The environment value is
  an argument, and so is \<open>long_bits\<close>, the width of C's \<open>long\<close> on the target: 64 on
  Linux and macOS, 32 on Windows.
\<close>

definition MAX_ENTRIES :: nat where
  "MAX_ENTRIES = 64"

record allow_state =
  a_initialized :: bool
  a_has_policy :: bool
  a_entries :: "u32 list"

definition allow_zero :: allow_state where
  "allow_zero = \<lparr>a_initialized = False, a_has_policy = False, a_entries = []\<rparr>"

text \<open>\<open>(long)UINT32_MAX\<close>.\<close>

definition long_UINT32_MAX :: "nat \<Rightarrow> int" where
  "long_UINT32_MAX long_bits = (if 32 < long_bits then 2 ^ 32 - 1 else -1)"

abbreviation is_sep :: "char \<Rightarrow> bool" where
  "is_sep c \<equiv> c = SPC \<or> c = CHR 0x2C"

function allow_parse :: "nat \<Rightarrow> bytes \<Rightarrow> u32 list \<Rightarrow> u32 list" where
  "allow_parse long_bits p acc =
     (if p = [] \<or> \<not> length acc < MAX_ENTRIES then acc
      else
        let p1 = dropWhile is_sep p
        in if p1 = [] then acc
           else
             let v = fst (strtol long_bits p1); end = snd (strtol long_bits p1)
             in if end = p1 \<or> v < 0 \<or> long_UINT32_MAX long_bits < v
                then allow_parse long_bits (if end = p1 then tl p1 else end) acc
                else allow_parse long_bits end (acc @ [word_of_int v]))"
  by pat_completeness auto
termination
proof (relation "measure (\<lambda>(_, p, _). length p)", goal_cases)
  case (2 long_bits p acc p1 v e)
  have le: "length p1 \<le> length p" using 2 by (simp add: length_dropWhile_le)
  show ?case
  proof (cases "e = p1")
    case True
    from 2 have "length (tl p1) < length p1" by simp
    with le have "length (tl p1) < length p" by linarith
    with True show ?thesis by simp
  next
    case False
    with 2 have "length e < length p1" by (metis strtol_rest_shorter)
    with le False show ?thesis by simp
  qed
next
  case (3 long_bits p acc p1 v e)
  have le: "length p1 \<le> length p" using 3 by (simp add: length_dropWhile_le)
  moreover have "length e < length p1" using 3 by (metis strtol_rest_shorter)
  ultimately show ?case by simp
qed simp

declare allow_parse.simps [simp del]

definition mcp_allowlist_init :: "nat \<Rightarrow> bytes option \<Rightarrow> allow_state \<Rightarrow> allow_state" where
  "mcp_allowlist_init long_bits env st =
     (if a_initialized st then st
      else case env of
        None \<Rightarrow> st\<lparr>a_initialized := True, a_entries := [], a_has_policy := False\<rparr>
      | Some p \<Rightarrow> st\<lparr>a_initialized := True, a_has_policy := True,
                     a_entries := allow_parse long_bits (cstr p) []\<rparr>)"

definition mcp_allowlist_has_policy :: "allow_state \<Rightarrow> bool" where
  "mcp_allowlist_has_policy st = (a_initialized st \<and> a_has_policy st)"

definition mcp_allowlist_allows :: "u32 \<Rightarrow> allow_state \<Rightarrow> bool" where
  "mcp_allowlist_allows client_id st =
     (if \<not> a_initialized st \<or> \<not> a_has_policy st then True
      else find_index (\<lambda>e. e = client_id) (a_entries st) \<noteq> None)"

section \<open>What the parser accepts\<close>

lemma allow_parse_length: "length acc \<le> 64 \<Longrightarrow> length (allow_parse lb p acc) \<le> 64"
proof (induction lb p acc rule: allow_parse.induct)
  case (1 lb p acc)
  show ?case
    using 1 by (subst allow_parse.simps) (auto simp: Let_def MAX_ENTRIES_def)
qed

lemma allow_parse_32: "allow_parse 32 p acc = acc"
proof (induction "32 :: nat" p acc rule: allow_parse.induct)
  case (1 p acc)
  then show ?case
    by (subst allow_parse.simps) (auto simp: Let_def long_UINT32_MAX_def)
qed

text \<open>A comma-separated list of decimal numbers.\<close>

definition comma_list :: "u32 list \<Rightarrow> bytes" where
  "comma_list ids = concat (map (\<lambda>i. show_nat (unat i) @ '','') ids)"

lemma allow_parse_comma:
  "length acc + length ids \<le> 64 \<Longrightarrow> allow_parse 64 (comma_list ids) acc = acc @ ids"
proof (induction ids arbitrary: acc)
  case Nil
  then show ?case by (subst allow_parse.simps) (simp add: comma_list_def)
next
  case (Cons i ids)
  let ?p = "show_nat (unat i) @ '','' @ comma_list ids"
  have p: "comma_list (i # ids) = ?p" by (simp add: comma_list_def)
  obtain c cs where c: "show_nat (unat i) = c # cs" by (cases "show_nat (unat i)") auto
  then have "isdigit c" using show_nat_digits [of "unat i"] by simp
  then have sep: "\<not> is_sep c" by auto
  have dw: "dropWhile is_sep ?p = ?p" using sep by (simp add: c)
  have lt: "int (unat i) < 2 ^ 32"
    using uint_lt2p [of i] by simp
  have st: "strtol 64 ?p = (int (unat i), '','' @ comma_list ids)"
    using lt by (intro strtol_show_nat) simp_all
  have ne: "'','' @ comma_list ids \<noteq> ?p" "?p \<noteq> []"
    using c by (auto dest: arg_cong [of _ _ length])
  have rng: "\<not> int (unat i) < 0" "\<not> long_UINT32_MAX 64 < int (unat i)"
    using lt by (simp_all add: long_UINT32_MAX_def)
  have w: "word_of_int (int (unat i)) = i" by simp
  have step: "allow_parse 64 ?p acc = allow_parse 64 ('','' @ comma_list ids) (acc @ [i])"
    using Cons.prems ne rng
    by (subst allow_parse.simps) (simp only: Let_def dw st fst_conv snd_conv w MAX_ENTRIES_def, simp)
  have skip: "allow_parse 64 ('','' @ q) a = allow_parse 64 q a" for q a
  proof (cases q)
    case Nil
    then show ?thesis by (simp add: allow_parse.simps [of 64 "'',''"] allow_parse.simps [of 64 "[]"])
  next
    case (Cons d ds)
    then show ?thesis
      by (subst (1 2) allow_parse.simps) simp
  qed
  show ?case unfolding p step skip using Cons by simp
qed

section \<open>Decisions\<close>

text \<open>The decision the allowlist makes: without a value in the environment every client is
  allowed; with one, exactly the clients among the parsed entries are, of which there are at most 64;
  before initialisation everyone is.  A second initialisation changes nothing.\<close>

theorem allowlist_decides:
  "mcp_allowlist_allows c allow_zero \<and>
   mcp_allowlist_has_policy (mcp_allowlist_init lb env allow_zero) = (env \<noteq> None) \<and>
   mcp_allowlist_allows c (mcp_allowlist_init lb env allow_zero) =
     (case env of None \<Rightarrow> True | Some p \<Rightarrow> c \<in> set (allow_parse lb (cstr p) [])) \<and>
   length (a_entries (mcp_allowlist_init lb env allow_zero)) \<le> 64 \<and>
   mcp_allowlist_init lb' env' (mcp_allowlist_init lb env allow_zero) = mcp_allowlist_init lb env allow_zero"
  using allow_parse_length [of "[]" lb]
  by (auto simp: mcp_allowlist_allows_def mcp_allowlist_init_def mcp_allowlist_has_policy_def allow_zero_def
      find_index_mem_iff [THEN arg_cong [of _ _ Not], simplified] split: option.splits)

text \<open>Round trip, where \<open>long\<close> has 64 bits: a comma-separated list of up to 64 client ids is
  parsed back to exactly those ids, so exactly those clients are allowed.\<close>

theorem allowlist_roundtrip:
  assumes "length ids \<le> 64"
  shows "a_entries (mcp_allowlist_init 64 (Some (comma_list ids)) allow_zero) = ids \<and>
    mcp_allowlist_allows c (mcp_allowlist_init 64 (Some (comma_list ids)) allow_zero) = (c \<in> set ids)"
proof -
  have "NUL \<notin> set (comma_list ids)"
    by (auto simp: comma_list_def show_nat_no)
  then have e: "a_entries (mcp_allowlist_init 64 (Some (comma_list ids)) allow_zero) = ids"
    using allow_parse_comma [of "[]" ids] assms
    by (simp add: mcp_allowlist_init_def allow_zero_def cstr_id)
  moreover have "mcp_allowlist_has_policy (mcp_allowlist_init 64 (Some (comma_list ids)) allow_zero)"
    by (simp add: mcp_allowlist_init_def mcp_allowlist_has_policy_def allow_zero_def)
  ultimately show ?thesis
    by (auto simp: mcp_allowlist_allows_def mcp_allowlist_has_policy_def find_index_None_iff)
qed

theorem allowlist_roundtrip_witness:
  "mcp_allowlist_allows 7 (mcp_allowlist_init 64 (Some (comma_list [4, 7])) allow_zero) \<and>
   \<not> mcp_allowlist_allows 5 (mcp_allowlist_init 64 (Some (comma_list [4, 7])) allow_zero)"
  using allowlist_roundtrip [of "[4, 7]"] by simp

text \<open>Where \<open>long\<close> has 32 bits (Windows), the upper bound \<open>(long)UINT32_MAX\<close> is \<open>-1\<close>, so
  every entry is rejected: any policy denies every client.\<close>

theorem allowlist_32bit_denies_all:
  "\<not> mcp_allowlist_allows c (mcp_allowlist_init 32 (Some p) allow_zero)"
  by (simp add: mcp_allowlist_allows_def mcp_allowlist_init_def allow_zero_def allow_parse_32)

end
