(* ===== verification/Server_Conns.thy ===== *)
theory Server_Conns
  imports Server_Rpc Frames Allowlist
begin

text \<open>
  The server's threads and connections (\<^verbatim>\<open>src/mcp_server.c\<close>): the eight client
  slots, the accept thread, a serve thread per client, notification broadcasts, start and
  stop.  Each critical section is a function on the server's state; a run is any
  interleaving of them.
\<close>

section \<open>State\<close>

definition MAX_CONNS :: nat where
  "MAX_CONNS = 8"

definition NOTIFY_WRITE_TIMEOUT_MS :: int where
  "NOTIFY_WRITE_TIMEOUT_MS = 250"

text \<open>The process around the server: the log ring, the allowlist and the embedder's own state.\<close>

record 'e mcp_world =
  w_ring :: log_ring
  w_allow :: allow_state
  w_env :: 'e

text \<open>\<open>writing\<close>: the slot's serve thread holds the write mutex.\<close>

record mcp_client =
  conn :: "mcp_conn option"
  initialized :: bool
  writing :: bool

record 'e mcp_server =
  thread_started :: bool
  listener :: "mcp_listener option"
  reg :: "'e mcp_world registry"
  clients :: "mcp_client list"
  active_clients :: nat
  world :: "'e mcp_world"

definition free_slot :: mcp_client where
  "free_slot = \<lparr>conn = None, initialized = False, writing = False\<rparr>"

definition server_zero :: "'e mcp_world \<Rightarrow> 'e mcp_server" where
  "server_zero w =
     \<lparr>thread_started = False, listener = None, reg = registry_zero,
      clients = replicate MAX_CONNS free_slot, active_clients = 0, world = w\<rparr>"

section \<open>Notifications\<close>

definition notification_body :: "(json \<Rightarrow> bytes) \<Rightarrow> bytes \<Rightarrow> bytes" where
  "notification_body print method =
     print (cJSON_AddStringToObject (cJSON_AddStringToObject cJSON_CreateObject ''jsonrpc'' ''2.0'') ''method'' method)"

text \<open>One client: free, uninitialized and busy slots are skipped; the body follows only a header
  that was written, and both are bounded writes.\<close>

definition notify_client :: "bytes \<Rightarrow> mcp_client \<Rightarrow> mcp_client option" where
  "notify_client body cl =
     (if conn cl = None \<or> \<not> initialized cl then Some cl
      else if writing cl then Some cl
      else
        map_option (\<lambda>(_, c'). cl\<lparr>conn := c'\<rparr>)
          (write_parts (\<lambda>s b. mcp_conn_write_bounded s b NOTIFY_WRITE_TIMEOUT_MS) (conn cl)
             (cl_header (c_strlen body)) (take (c_strlen body) body)))"

fun notify_all :: "bytes \<Rightarrow> mcp_client list \<Rightarrow> mcp_client list option" where
  "notify_all body [] = Some []"
| "notify_all body (cl # cls) =
     (case notify_client body cl of None \<Rightarrow> None
      | Some cl' \<Rightarrow> map_option (Cons cl') (notify_all body cls))"

definition broadcast_notification ::
    "(json \<Rightarrow> bytes) \<Rightarrow> bytes \<Rightarrow> 'e mcp_server \<Rightarrow> 'e mcp_server option" where
  "broadcast_notification print method s =
     map_option (\<lambda>cls. s\<lparr>clients := cls\<rparr>) (notify_all (notification_body print method) (clients s))"

definition notify_tools_changed :: "(json \<Rightarrow> bytes) \<Rightarrow> 'e mcp_server \<Rightarrow> 'e mcp_server option" where
  "notify_tools_changed print s =
     (if \<not> thread_started s then Some s
      else broadcast_notification print ''notifications/tools/list_changed'' s)"

text \<open>The registry operations with their notification.\<close>

definition server_register_tool ::
    "(json \<Rightarrow> bytes) \<Rightarrow> 'e mcp_world mcp_tool option \<Rightarrow> 'e mcp_server \<Rightarrow> 'e mcp_server option" where
  "server_register_tool print t s =
     (case mcp_server_register_tool t (reg s) of (added, r) \<Rightarrow>
        if added then notify_tools_changed print (s\<lparr>reg := r\<rparr>) else Some (s\<lparr>reg := r\<rparr>))"

definition server_unregister_tool ::
    "(json \<Rightarrow> bytes) \<Rightarrow> bytes option \<Rightarrow> 'e mcp_server \<Rightarrow> 'e mcp_server option" where
  "server_unregister_tool print n s =
     (case mcp_server_unregister_tool n (reg s) of (removed, r) \<Rightarrow>
        if removed then notify_tools_changed print (s\<lparr>reg := r\<rparr>) else Some (s\<lparr>reg := r\<rparr>))"

definition server_set_app_id ::
    "(json \<Rightarrow> bytes) \<Rightarrow> bytes option \<Rightarrow> 'e mcp_server \<Rightarrow> 'e mcp_server option" where
  "server_set_app_id print i s =
     (case mcp_server_set_app_id i (reg s) of (changed, r) \<Rightarrow>
        if changed then notify_tools_changed print (s\<lparr>reg := r\<rparr>) else Some (s\<lparr>reg := r\<rparr>))"

section \<open>Serving a client\<close>

text \<open>One pass of the serve loop.  The flag says whether the loop goes on.\<close>

definition serve_once ::
    "(json \<Rightarrow> bytes) \<Rightarrow> (bytes \<Rightarrow> json option) \<Rightarrow> 'w registry \<Rightarrow> mcp_client \<Rightarrow> 'w \<Rightarrow> (bool \<times> mcp_client \<times> 'w) option"
where
  "serve_once print parse r cl w =
     (case read_frame mcp_conn_read (conn cl) of
        None \<Rightarrow> None
      | Some (c1, None) \<Rightarrow> Some (False, cl\<lparr>conn := c1\<rparr>, w)
      | Some (c1, Some body) \<Rightarrow>
          (case handle_body print parse r body (initialized cl) w of
             (None, ini, w') \<Rightarrow> Some (True, cl\<lparr>conn := c1, initialized := ini\<rparr>, w')
           | (Some reply, ini, w') \<Rightarrow>
               (case write_frame mcp_conn_write c1 (Some reply) of
                  None \<Rightarrow> None
                | Some (ok, c2) \<Rightarrow> Some (ok, cl\<lparr>conn := c2, initialized := ini\<rparr>, w'))))"

text \<open>The whole loop, while no tool is registered or removed.\<close>

partial_function (option) serve ::
    "(json \<Rightarrow> bytes) \<Rightarrow> (bytes \<Rightarrow> json option) \<Rightarrow> 'w registry \<Rightarrow> mcp_client \<Rightarrow> 'w \<Rightarrow> (mcp_client \<times> 'w) option"
where
  "serve print parse r cl w =
     (case serve_once print parse r cl w of
        None \<Rightarrow> None
      | Some (go, cl', w') \<Rightarrow> if go then serve print parse r cl' w' else Some (cl', w'))"

section \<open>Slots\<close>

text \<open>The accept thread puts connection \<open>c\<close> into the first free slot; \<open>create_ok\<close> is whether
  \<open>pthread_create\<close> succeeds.  Without a slot, or a thread, the connection is closed.\<close>

definition server_accept :: "mcp_conn \<Rightarrow> bool \<Rightarrow> 'e mcp_server \<Rightarrow> 'e mcp_server" where
  "server_accept c create_ok s =
     (case find_index (\<lambda>cl. conn cl = None) (clients s) of
        None \<Rightarrow> s
      | Some i \<Rightarrow>
          if create_ok
          then s\<lparr>clients := (clients s)[i := (clients s ! i)\<lparr>conn := Some c, initialized := False\<rparr>],
                 active_clients := active_clients s + 1\<rparr>
          else s\<lparr>clients := (clients s)[i := (clients s ! i)\<lparr>conn := None, initialized := False\<rparr>]\<rparr>)"

text \<open>The end of \<open>client_thread\<close>.\<close>

definition client_unwind :: "nat \<Rightarrow> 'e mcp_server \<Rightarrow> 'e mcp_server" where
  "client_unwind i s =
     s\<lparr>clients := (clients s)[i := (clients s ! i)\<lparr>conn := None, initialized := False\<rparr>],
       active_clients := active_clients s - 1\<rparr>"

section \<open>Start and stop\<close>

text \<open>What the environment answers to a start: the listener's system calls, thread creation, the
  allowlist variable and the width of \<open>long\<close>.\<close>

record start_env =
  sys :: open_env
  create_ok :: bool
  allow_var :: "bytes option"
  long_bits :: nat

definition mcp_check_env_or :: "bytes option \<Rightarrow> bool \<Rightarrow> bool" where
  "mcp_check_env_or flag fallback =
     (case flag of None \<Rightarrow> fallback
      | Some f \<Rightarrow> \<not> (f = [] \<or> hd f = CHR ''0''))"

definition register_builtins :: "(dbl \<Rightarrow> u64) \<Rightarrow> start_env \<Rightarrow> 'e mcp_server \<Rightarrow> 'e mcp_server" where
  "register_builtins oob env s =
     (let w = world s;
          w = w\<lparr>w_ring := mcp_log_ring_start (w_ring w)\<rparr>;
          w = w\<lparr>w_allow := mcp_allowlist_init (long_bits env) (allow_var env) (w_allow w)\<rparr>;
          r = snd (mcp_server_register_tool (Some ECHO_TOOL) (reg s));
          r = snd (mcp_server_register_tool (Some (TAIL_LOG_TOOL oob w_ring)) r)
      in s\<lparr>world := w, reg := r\<rparr>)"

definition start_with_listener ::
    "start_env \<Rightarrow> mcp_listener \<Rightarrow> 'e mcp_server \<Rightarrow> unix_os \<Rightarrow> 'e mcp_server \<times> unix_os" where
  "start_with_listener env l s os =
     (if create_ok env then (s\<lparr>listener := Some l, thread_started := True\<rparr>, os)
      else (s\<lparr>listener := None\<rparr>, mcp_listener_close (Some l) os))"

definition mcp_server_start ::
    "(dbl \<Rightarrow> u64) \<Rightarrow> start_env \<Rightarrow> int \<Rightarrow> 'e mcp_server \<Rightarrow> unix_os \<Rightarrow> 'e mcp_server \<times> unix_os" where
  "mcp_server_start oob env pid s os =
     (if thread_started s then (s, os)
      else
        let s = register_builtins oob env s
        in case mcp_listener_open (sys env) pid os of
             (None, os') \<Rightarrow> (s, os')
           | (Some l, os') \<Rightarrow> start_with_listener env l s os')"

definition mcp_server_start_named ::
    "(dbl \<Rightarrow> u64) \<Rightarrow> start_env \<Rightarrow> bytes option \<Rightarrow> 'e mcp_server \<Rightarrow> unix_os \<Rightarrow> 'e mcp_server \<times> unix_os" where
  "mcp_server_start_named oob env role s os =
     (if thread_started s then (s, os)
      else if role = None \<or> role = Some [] then (s, os)
      else
        let s = register_builtins oob env s
        in case mcp_listener_open_named (sys env) role os of
             (None, os') \<Rightarrow> (s, os')
           | (Some l, os') \<Rightarrow> start_with_listener env l s os')"

definition mcp_server_maybe_start ::
    "(dbl \<Rightarrow> u64) \<Rightarrow> start_env \<Rightarrow> bytes option \<Rightarrow> int \<Rightarrow> 'e mcp_server \<Rightarrow> unix_os \<Rightarrow> 'e mcp_server \<times> unix_os" where
  "mcp_server_maybe_start oob env flag pid s os =
     (if mcp_check_env_or flag False then mcp_server_start oob env pid s os else (s, os))"

definition mcp_server_maybe_start_named ::
    "(dbl \<Rightarrow> u64) \<Rightarrow> start_env \<Rightarrow> bytes option \<Rightarrow> bytes option \<Rightarrow> 'e mcp_server \<Rightarrow> unix_os \<Rightarrow> 'e mcp_server \<times> unix_os"
where
  "mcp_server_maybe_start_named oob env flag role s os =
     (if mcp_check_env_or flag False then mcp_server_start_named oob env role s os else (s, os))"

text \<open>\<open>mcp_server_stop\<close> in its three parts: the listener is closed and the accept thread joined; the
  live connections are aborted; and, once no client is active, the server counts as stopped.\<close>

definition stop_accepting :: "'e mcp_server \<Rightarrow> unix_os \<Rightarrow> 'e mcp_server \<times> unix_os" where
  "stop_accepting s os = (s\<lparr>listener := None\<rparr>, mcp_listener_close (listener s) os)"

definition abort_client :: "mcp_client \<Rightarrow> mcp_client" where
  "abort_client cl = (if conn cl \<noteq> None then cl\<lparr>conn := mcp_conn_abort (conn cl)\<rparr> else cl)"

definition stop_abort :: "'e mcp_server \<Rightarrow> 'e mcp_server" where
  "stop_abort s = s\<lparr>clients := map abort_client (clients s)\<rparr>"

definition stop_finish :: "'e mcp_server \<Rightarrow> 'e mcp_server option" where
  "stop_finish s =
     (if 0 < active_clients s then None
      else Some (s\<lparr>thread_started := False,
                   world := (world s)\<lparr>w_ring := mcp_log_ring_stop (w_ring (world s))\<rparr>\<rparr>))"

section \<open>Interleavings\<close>

datatype 'e srv_event =
    Accept mcp_conn bool
  | Serve nat
  | Leave nat
  | Hold nat bool
  | Register "'e mcp_world mcp_tool option"
  | Unregister "bytes option"
  | SetAppId "bytes option"
  | Start
  | StopAccept
  | StopAbort
  | StopFinish

text \<open>\<open>Serve i\<close> is a pass of client \<open>i\<close>'s loop that goes on, \<open>Leave i\<close> one that returns, with the
  unwinding of the slot; \<open>Hold\<close> takes or drops the write mutex of a slot.  The last three are the parts of
  \<open>mcp_server_stop\<close>, which does nothing unless a thread was started: the aborts come behind the end of
  the accept thread, the end of the stop waits for the last client.\<close>

inductive srv_step ::
    "(json \<Rightarrow> bytes) \<Rightarrow> (bytes \<Rightarrow> json option) \<Rightarrow> 'e mcp_server \<Rightarrow> 'e srv_event \<Rightarrow> 'e mcp_server \<Rightarrow> bool"
  for print parse where
  accept: "listener s \<noteq> None \<Longrightarrow> 0 \<le> conn_fd c \<Longrightarrow> srv_step print parse s (Accept c ok) (server_accept c ok s)"
| serve: "i < length (clients s) \<Longrightarrow> conn (clients s ! i) \<noteq> None \<Longrightarrow>
     serve_once print parse (reg s) (clients s ! i) (world s) = Some (True, cl, w) \<Longrightarrow>
     srv_step print parse s (Serve i) (s\<lparr>clients := (clients s)[i := cl], world := w\<rparr>)"
| leave: "i < length (clients s) \<Longrightarrow> conn (clients s ! i) \<noteq> None \<Longrightarrow>
     serve_once print parse (reg s) (clients s ! i) (world s) = Some (False, cl, w) \<Longrightarrow>
     srv_step print parse s (Leave i) (client_unwind i (s\<lparr>world := w\<rparr>))"
| hold: "i < length (clients s) \<Longrightarrow>
     srv_step print parse s (Hold i b) (s\<lparr>clients := (clients s)[i := (clients s ! i)\<lparr>writing := b\<rparr>]\<rparr>)"
| register: "server_register_tool print t s = Some s' \<Longrightarrow> srv_step print parse s (Register t) s'"
| unregister: "server_unregister_tool print n s = Some s' \<Longrightarrow> srv_step print parse s (Unregister n) s'"
| set_app_id: "server_set_app_id print n s = Some s' \<Longrightarrow> srv_step print parse s (SetAppId n) s'"
| start: "srv_step print parse s Start (fst (mcp_server_start oob env pid s os))"
| start_named: "srv_step print parse s Start (fst (mcp_server_start_named oob env role s os))"
| stop_accept: "thread_started s \<Longrightarrow> srv_step print parse s StopAccept (fst (stop_accepting s os))"
| abort: "thread_started s \<Longrightarrow> listener s = None \<Longrightarrow> srv_step print parse s StopAbort (stop_abort s)"
| finish: "thread_started s \<Longrightarrow> listener s = None \<Longrightarrow> stop_finish s = Some s' \<Longrightarrow> srv_step print parse s StopFinish s'"

text \<open>The slot invariant: eight slots, the counter counts the occupied ones, a free slot is not
  eligible for notifications, and every connection is a live handle.\<close>

definition slots_ok :: "'e mcp_server \<Rightarrow> bool" where
  "slots_ok s \<longleftrightarrow> length (clients s) = MAX_CONNS \<and>
     active_clients s = count_where (\<lambda>cl. conn cl \<noteq> None) (clients s) \<and>
     (\<forall>cl\<in>set (clients s). (conn cl = None \<longrightarrow> \<not> initialized cl) \<and> (conn cl \<noteq> None \<longrightarrow> conn_valid (conn cl)))"


section \<open>Broadcasts\<close>

abbreviation eligible :: "mcp_client \<Rightarrow> bool" where
  "eligible cl \<equiv> conn cl \<noteq> None \<and> initialized cl \<and> \<not> writing cl"

lemma notify_client_skip: "\<not> eligible cl \<Longrightarrow> notify_client body cl = Some cl"
  by (auto simp: notify_client_def)

lemma notify_client_eligible:
  assumes "eligible cl" and "conn_valid (conn cl)" and "NUL \<notin> set body" and "length body < 10 ^ 40"
    and "notify_client body cl = Some cl'"
  shows "\<exists>c'. cl' = cl\<lparr>conn := c'\<rparr> \<and> conn_valid c' \<and>
    (conn_sent c' = conn_sent (conn cl) @ encode_frame body \<or>
     conn_dead c' \<and> (\<exists>k < length (encode_frame body). conn_sent c' = conn_sent (conn cl) @ take k (encode_frame body)))"
proof -
  let ?wr = "\<lambda>s b. mcp_conn_write_bounded s b NOTIFY_WRITE_TIMEOUT_MS"
  have b: "take (c_strlen body) body = body" "c_strlen body = length body"
    using assms(3) by (simp_all add: c_strlen_def cstr_id)
  from assms(1,5) obtain ok c' where
    w: "write_parts ?wr (conn cl) (cl_header (length body)) body = Some (ok, c')" "cl' = cl\<lparr>conn := c'\<rparr>"
    by (auto simp: notify_client_def b)
  have e: "encode_frame body = cl_header (length body) @ body"
    using assms(4) by (rule encode_frame_parts)
  from posix_bounded_exact.write_parts_cases [OF assms(2) w(1)] posix_bounded.write_parts_false_dead [OF assms(2)] w
  show ?thesis unfolding e by (cases ok) auto
qed

lemma notify_all_nth:
  "notify_all body cls = Some cls' \<Longrightarrow> length cls' = length cls \<and>
     (\<forall>i<length cls. notify_client body (cls ! i) = Some (cls' ! i))"
proof (induction cls arbitrary: cls')
  case Nil
  then show ?case by simp
next
  case (Cons cl cls)
  then obtain cl1 cls1 where "notify_client body cl = Some cl1" "notify_all body cls = Some cls1" "cls' = cl1 # cls1"
    by (auto split: option.splits)
  with Cons.IH show ?case by (auto simp: nth_Cons split: nat.splits)
qed

lemma notify_client_frame:
  assumes "notify_client body cl = Some cl'"
  shows "initialized cl' = initialized cl" "writing cl' = writing cl"
    "conn cl = None \<Longrightarrow> conn cl' = None" "conn_valid (conn cl) \<Longrightarrow> conn_valid (conn cl')"
proof -
  show "initialized cl' = initialized cl" "writing cl' = writing cl" "conn cl = None \<Longrightarrow> conn cl' = None"
    using assms by (auto simp: notify_client_def split: if_splits)
  show "conn_valid (conn cl')" if v: "conn_valid (conn cl)"
  proof (cases "eligible cl")
    case False
    with assms v show ?thesis by (simp add: notify_client_skip)
  next
    case True
    with assms obtain ok c' where
      "write_parts (\<lambda>s b. mcp_conn_write_bounded s b NOTIFY_WRITE_TIMEOUT_MS) (conn cl)
         (cl_header (c_strlen body)) (take (c_strlen body) body) = Some (ok, c')" "cl' = cl\<lparr>conn := c'\<rparr>"
      by (auto simp: notify_client_def)
    with posix_bounded_exact.write_parts_cases [OF v this(1)] show ?thesis by simp
  qed
qed

text \<open>C33. A broadcast leaves every eligible client (connected, initialized, not being written to)
  either with the whole notification frame after what was sent to it before, or with a dead connection
  that got a proper prefix of the frame; every other client, and the rest of the server, is untouched.\<close>

theorem broadcast_all_or_dead:
  assumes "broadcast_notification print method s = Some s'"
    and "\<forall>cl\<in>set (clients s). conn cl \<noteq> None \<longrightarrow> conn_valid (conn cl)"
    and "body = notification_body print method" and "NUL \<notin> set body" and "length body < 10 ^ 40"
    and "i < length (clients s)"
  shows "length (clients s') = length (clients s) \<and> reg s' = reg s \<and> world s' = world s \<and>
    active_clients s' = active_clients s \<and>
    (if conn (clients s ! i) \<noteq> None \<and> initialized (clients s ! i) \<and> \<not> writing (clients s ! i)
     then (let old = conn_sent (conn (clients s ! i)); new = conn_sent (conn (clients s' ! i)) in
       new = old @ encode_frame body \<or>
       conn_dead (conn (clients s' ! i)) \<and> (\<exists>k < length (encode_frame body). new = old @ take k (encode_frame body)))
     else clients s' ! i = clients s ! i)"
proof -
  from assms(1,3) obtain cls where n: "notify_all body (clients s) = Some cls" "s' = s\<lparr>clients := cls\<rparr>"
    by (auto simp: broadcast_notification_def)
  from notify_all_nth [OF n(1)] assms(6)
  have len: "length cls = length (clients s)" and step: "notify_client body (clients s ! i) = Some (cls ! i)" by auto
  show ?thesis
  proof (cases "eligible (clients s ! i)")
    case False
    with step n len show ?thesis by (auto simp: notify_client_skip)
  next
    case True
    with assms(2,6) have v: "conn_valid (conn (clients s ! i))" by simp
    from notify_client_eligible [OF True v assms(4,5) step] obtain c' where
      "cls ! i = (clients s ! i)\<lparr>conn := c'\<rparr>"
      "conn_sent c' = conn_sent (conn (clients s ! i)) @ encode_frame body \<or>
       conn_dead c' \<and> (\<exists>k < length (encode_frame body). conn_sent c' = conn_sent (conn (clients s ! i)) @ take k (encode_frame body))"
      by blast
    with True n len show ?thesis by (simp add: Let_def)
  qed
qed

definition demo_client :: "tx_event list \<Rightarrow> mcp_client" where
  "demo_client txs = \<lparr>conn = Some (demo_conn [] txs), initialized = True, writing = False\<rparr>"

definition demo_world :: "unit mcp_world" where
  "demo_world = \<lparr>w_ring = log_ring_zero, w_allow = allow_zero, w_env = ()\<rparr>"

definition demo_server :: "mcp_client list \<Rightarrow> unit mcp_server" where
  "demo_server cls = (server_zero demo_world)\<lparr>clients := cls, active_clients := 1, thread_started := True\<rparr>"

lemma demo_server_clients [simp]: "clients (demo_server cls) = cls"
  by (simp add: demo_server_def)

text \<open>A printer for the examples.\<close>

definition demo_print :: "json \<Rightarrow> bytes" where
  "demo_print j = ''{}''"

lemma demo_header: "cl_header 2 = ''Content-Length: 2'' @ CRLF2"
  by (simp add: cl_header_eq show_nat.simps)

theorem broadcast_all_or_dead_witness:
  "\<exists>s'. broadcast_notification demo_print ''m'' (demo_server [demo_client demo_stalled]) = Some s' \<and>
     conn_dead (conn (clients s' ! 0))"
proof -
  let ?s = "demo_server [demo_client demo_stalled]"
  have b: "notification_body demo_print ''m'' = ''{}''" by (simp add: notification_body_def demo_print_def)
  have "\<exists>s'. broadcast_notification demo_print ''m'' ?s = Some s'"
    by (simp add: broadcast_notification_def b demo_server_def demo_client_def notify_client_def write_parts_def
        c_strlen_def cstr_def mcp_conn_write_bounded_def demo_conn_def demo_stalled_def elapsed_ms_def c_div_def
        NOTIFY_WRITE_TIMEOUT_MS_def demo_header [unfolded numeral_2_eq_2] mcp_conn_abort_def)
  then obtain s' where s': "broadcast_notification demo_print ''m'' ?s = Some s'" by blast
  have "0 < length (clients ?s)" "\<forall>cl\<in>set (clients ?s). conn cl \<noteq> None \<longrightarrow> conn_valid (conn cl)"
    by (simp_all add: demo_client_def demo_conn_def conn_valid_def)
  note r = broadcast_all_or_dead [OF s' this(2) b [symmetric] _ _ this(1)]
  have "conn_sent (conn (clients s' ! 0)) \<noteq> conn_sent (conn (clients ?s ! 0)) @ encode_frame ''{}''"
    using s'
    by (auto simp: broadcast_notification_def b demo_server_def demo_client_def notify_client_def write_parts_def
        c_strlen_def cstr_def mcp_conn_write_bounded_def demo_conn_def demo_stalled_def elapsed_ms_def c_div_def
        NOTIFY_WRITE_TIMEOUT_MS_def demo_header [unfolded numeral_2_eq_2] mcp_conn_abort_def conn_sent_def encode_frame_def
        CRLF2_def)
  with r s' show ?thesis by (auto simp: demo_client_def Let_def)
qed

lemma bounded_loop_keeps_timeout:
  "bounded_loop T start buf c es = Some (True, s') \<Longrightarrow> \<exists>e\<in>set es. poll_rc e = PollTimeout \<Longrightarrow>
     \<exists>c'. s' = Some c' \<and> (\<exists>e\<in>set (tx c'). poll_rc e = PollTimeout)"
proof (induction T start buf c es rule: bounded_loop.induct)
  case (1 T start buf c)
  then show ?case by simp
next
  case (2 T start buf c e es)
  show ?case
  proof (cases "buf = []")
    case True
    with 2 show ?thesis by auto
  next
    case nb: False
    from "2.prems"(1) nb have nt: "\<not> T - elapsed_ms start (now_ts e) \<le> 0" and np: "poll_rc e \<noteq> PollTimeout"
      by (auto simp: Let_def split: if_splits poll_result.splits)
    with "2.prems"(2) have ex: "\<exists>e\<in>set es. poll_rc e = PollTimeout" by auto
    note IH = "2.IH"(1) [OF nb refl nt _ _ _ _ ex] "2.IH"(2) [OF nb refl nt _ _ _ ex] "2.IH"(3) [OF nb refl nt _ _ ex]
    show ?thesis
      using "2.prems"(1) nb nt IH
      by (auto simp: Let_def split: poll_result.splits send_result.splits if_splits)
  qed
qed

lemma notify_client_returns:
  assumes "eligible cl \<Longrightarrow> \<exists>e\<in>set (tx (the (conn cl))). poll_rc e = PollTimeout"
  shows "\<exists>cl'. notify_client body cl = Some cl'"
proof (cases "eligible cl")
  case False
  then show ?thesis by (simp add: notify_client_skip)
next
  case True
  then obtain c where c: "conn cl = Some c" by auto
  let ?T = "NOTIFY_WRITE_TIMEOUT_MS"
  from True c assms have ex: "\<exists>e\<in>set (tx c). poll_rc e = PollTimeout" by simp
  then obtain ok s1 where w1: "mcp_conn_write_bounded (Some c) (cl_header (c_strlen body)) ?T = Some (ok, s1)"
    using bounded_write_returns [of c ?T "cl_header (c_strlen body)"] by blast
  show ?thesis
  proof (cases ok)
    case False
    with True c w1 show ?thesis by (auto simp: notify_client_def write_parts_def)
  next
    case ok: True
    with w1 have "bounded_loop ?T (clock c) (cl_header (c_strlen body)) c (tx c) = Some (True, s1)"
      by (simp add: mcp_conn_write_bounded_def)
    from bounded_loop_keeps_timeout [OF this ex] obtain c1 where
      "s1 = Some c1" "\<exists>e\<in>set (tx c1). poll_rc e = PollTimeout" by blast
    with bounded_write_returns [of c1 ?T "take (c_strlen body) body"] True c w1 ok show ?thesis
      by (auto simp: notify_client_def write_parts_def)
  qed
qed


lemma notify_all_returns:
  "(\<And>cl. cl \<in> set cls \<Longrightarrow> eligible cl \<Longrightarrow> \<exists>e\<in>set (tx (the (conn cl))). poll_rc e = PollTimeout) \<Longrightarrow>
     \<exists>cls'. notify_all body cls = Some cls'"
proof (induction cls)
  case Nil
  then show ?case by simp
next
  case (Cons cl cls)
  then obtain cls' where "notify_all body cls = Some cls'" by auto
  moreover obtain cl' where "notify_client body cl = Some cl'"
    using notify_client_returns [of cl body] Cons.prems by auto
  ultimately show ?case by simp
qed

text \<open>No client can hold a broadcast: if the poll of every eligible client times out once its peer
  no longer reads, the broadcast comes back, and so does every registry change that triggers one.\<close>

theorem broadcast_returns:
  assumes "\<And>cl. cl \<in> set (clients s) \<Longrightarrow> conn cl \<noteq> None \<Longrightarrow> initialized cl \<Longrightarrow> \<not> writing cl \<Longrightarrow>
      \<exists>e\<in>set (tx (the (conn cl))). poll_rc e = PollTimeout"
  shows "(\<exists>s'. broadcast_notification print method s = Some s') \<and>
    (\<exists>s'. server_register_tool print t s = Some s') \<and>
    (\<exists>s'. server_unregister_tool print n s = Some s') \<and>
    (\<exists>s'. server_set_app_id print i s = Some s')"
proof -
  have b: "\<exists>s''. broadcast_notification print m s' = Some s''" if "clients s' = clients s" for s' m
    using notify_all_returns [of "clients s" "notification_body print m"] assms that
    by (auto simp: broadcast_notification_def)
  have nt: "\<exists>s''. notify_tools_changed print (s\<lparr>reg := r\<rparr>) = Some s''" for r
    using b [of "s\<lparr>reg := r\<rparr>"] by (simp add: notify_tools_changed_def)
  have "\<exists>s'. server_register_tool print t s = Some s'"
    using nt by (cases "mcp_server_register_tool t (reg s)") (simp add: server_register_tool_def)
  moreover have "\<exists>s'. server_unregister_tool print n s = Some s'"
    using nt by (cases "mcp_server_unregister_tool n (reg s)") (simp add: server_unregister_tool_def)
  moreover have "\<exists>s'. server_set_app_id print i s = Some s'"
    using nt by (cases "mcp_server_set_app_id i (reg s)") (simp add: server_set_app_id_def)
  ultimately show ?thesis using b [of s] by blast
qed

theorem broadcast_returns_witness:
  "\<exists>s'. broadcast_notification demo_print ''m'' (demo_server [demo_client demo_stalled]) = Some s'"
proof -
  have "\<exists>e\<in>set (tx (the (conn cl))). poll_rc e = PollTimeout"
    if "cl \<in> set (clients (demo_server [demo_client demo_stalled]))" for cl
    using that by (simp add: demo_server_def) (simp add: demo_client_def demo_conn_def demo_stalled_def)
  from broadcast_returns [OF this, of "demo_server [demo_client demo_stalled]" demo_print "''m''" None None None]
  show ?thesis by blast
qed

section \<open>Slots\<close>

abbreviation occupied :: "mcp_client \<Rightarrow> bool" where
  "occupied cl \<equiv> conn cl \<noteq> None"

abbreviation client_ok :: "mcp_client \<Rightarrow> bool" where
  "client_ok cl \<equiv> (conn cl = None \<longrightarrow> \<not> initialized cl) \<and> (conn cl \<noteq> None \<longrightarrow> conn_valid (conn cl))"

lemma slots_ok_zero: "slots_ok (server_zero w)"
  by (simp add: slots_ok_def server_zero_def free_slot_def)

lemma slots_ok_update:
  assumes "slots_ok s" and "i < length (clients s)" and "client_ok cl" and "occupied cl = occupied (clients s ! i)"
  shows "slots_ok (s\<lparr>clients := (clients s)[i := cl]\<rparr>)"
  using assms count_where_update_same [OF assms(2), of occupied cl]
  by (auto simp: slots_ok_def dest!: set_update_subset_insert [THEN subsetD])

lemma slots_ok_frame [inv_pres]:
  "slots_ok (s\<lparr>world := w\<rparr>) = slots_ok s" "slots_ok (s\<lparr>reg := r\<rparr>) = slots_ok s"
  "slots_ok (s\<lparr>thread_started := b\<rparr>) = slots_ok s" "slots_ok (s\<lparr>listener := l\<rparr>) = slots_ok s"
  by (simp_all add: slots_ok_def)

lemma slots_ok_accept [inv_pres]:
  assumes "slots_ok s" and "0 \<le> conn_fd c"
  shows "slots_ok (server_accept c ok s)"
proof (cases "find_index (\<lambda>cl. conn cl = None) (clients s)")
  case None
  with assms show ?thesis by (simp add: server_accept_def)
next
  case (Some i)
  then have i: "i < length (clients s)" "conn (clients s ! i) = None" by (auto dest: find_index_SomeD)
  let ?cl = "(clients s ! i)\<lparr>conn := Some c, initialized := False\<rparr>"
  have "count_where occupied ((clients s)[i := ?cl]) = Suc (count_where occupied (clients s))"
    using i by (intro count_where_update_in) simp_all
  then have "slots_ok (s\<lparr>clients := (clients s)[i := ?cl], active_clients := active_clients s + 1\<rparr>)"
    using assms i by (auto simp: slots_ok_def conn_valid_def dest!: set_update_subset_insert [THEN subsetD])
  moreover have "slots_ok (s\<lparr>clients := (clients s)[i := (clients s ! i)\<lparr>conn := None, initialized := False\<rparr>]\<rparr>)"
    using i assms by (intro slots_ok_update) simp_all
  ultimately show ?thesis using Some by (simp add: server_accept_def)
qed

lemma slots_ok_unwind [inv_pres]:
  assumes "slots_ok s" and "i < length (clients s)" and "conn (clients s ! i) \<noteq> None"
  shows "slots_ok (client_unwind i s) \<and> Suc (active_clients (client_unwind i s)) = active_clients s"
proof -
  let ?cl = "(clients s ! i)\<lparr>conn := None, initialized := False\<rparr>"
  have "Suc (count_where occupied ((clients s)[i := ?cl])) = count_where occupied (clients s)"
    using assms by (intro count_where_update_out) simp_all
  then show ?thesis
    using assms by (auto simp: slots_ok_def client_unwind_def dest!: set_update_subset_insert [THEN subsetD])
qed

lemma slots_ok_notify:
  assumes "slots_ok s" and "notify_all body (clients s) = Some cls"
  shows "slots_ok (s\<lparr>clients := cls\<rparr>)"
proof -
  from notify_all_nth [OF assms(2)]
  have len: "length cls = length (clients s)"
    and st: "\<And>i. i < length cls \<Longrightarrow> notify_client body (clients s ! i) = Some (cls ! i)" by auto
  have ok: "client_ok (clients s ! i)" if "i < length cls" for i
    using assms(1) that len by (simp add: slots_ok_def)
  have eq: "occupied (cls ! i) = occupied (clients s ! i) \<and> client_ok (cls ! i)" if "i < length cls" for i
    using notify_client_frame [OF st [OF that]] ok [OF that] by (auto simp: conn_valid_iff)
  have "count_where occupied cls = count_where occupied (clients s)"
    using len eq by (intro count_where_pointwise) simp_all
  moreover have "\<forall>cl\<in>set cls. client_ok cl" using eq by (metis in_set_conv_nth)
  ultimately show ?thesis using assms(1) len by (simp add: slots_ok_def)
qed


section \<open>Reading uses up the connection\<close>

text \<open>A source whose reads never add to what it holds, and take something off when they deliver.\<close>

locale finite_source = conn_source +
  fixes weight :: "'a \<Rightarrow> nat"
  assumes rd_weight: "weight (fst (rd s n)) \<le> weight s"
    and rd_weight_less: "0 < n \<Longrightarrow> snd (rd s n) \<noteq> None \<Longrightarrow> weight (fst (rd s n)) < weight s"
begin

lemma read_line_loop_weight: "weight (fst (read_line_loop rd k buf s)) \<le> weight s"
proof (induction k arbitrary: buf s)
  case 0
  then show ?case by simp
next
  case (Suc k)
  obtain s' r where r: "rd s 1 = (s', r)" by fastforce
  then have "weight s' \<le> weight s" by (metis fst_conv rd_weight)
  with r Suc.IH [of _ s'] show ?case by (auto split: option.splits intro: order_trans)
qed

lemma header_loop_weight_aux:
  "header_loop key rd' h l s = Some r \<Longrightarrow> rd' = rd \<Longrightarrow> weight (fst r) \<le> weight s"
proof (induction rule: header_loop.raw_induct [rotated, consumes 1, case_names step])
  case (step loop key rd' h l s r)
  obtain s1 line where rl: "read_line rd s 256 = (s1, line)" by fastforce
  then have w: "weight s1 \<le> weight s" using read_line_loop_weight [of 255 "[]" s] by (simp add: read_line_def)
  have IH: "weight (fst r) \<le> weight s1" if "loop key rd a b s1 = Some r" for a b
    using step.IH [of key rd a b s1 r] that by simp
  from step.hyps step.prems rl w show ?case
    by (cases line) (auto split: if_splits dest!: IH intro: order_trans)
qed

lemma read_frame_weight:
  assumes "read_frame rd s = Some (s', Some body)"
  shows "weight s' < weight s"
proof -
  from assms obtain s1 n where hl: "header_loop server_key_match rd False 0 s = Some (s1, True, n)"
    and n: "0 < n" "rd s1 n = (s', Some body)"
    by (auto simp: read_frame_def split: option.splits if_splits)
  from header_loop_weight_aux [OF hl refl] have "weight s1 \<le> weight s" by simp
  moreover have "weight s' < weight s1" using rd_weight_less [OF n(1), of s1] n(2) by simp
  ultimately show ?thesis by simp
qed

end

definition rx_weight :: "rx_event list \<Rightarrow> nat" where
  "rx_weight es = sum_list (map (\<lambda>e. case e of RxData d \<Rightarrow> Suc (length d) | _ \<Rightarrow> 1) es)"

definition conn_weight :: "mcp_conn option \<Rightarrow> nat" where
  "conn_weight c = (case c of None \<Rightarrow> 0 | Some c \<Rightarrow> rx_weight (rx c))"

lemma conn_read_loop_weight:
  "conn_read_loop len acc es = (r, es') \<Longrightarrow>
     rx_weight es' \<le> rx_weight es \<and> (0 < len \<and> r \<noteq> None \<longrightarrow> rx_weight es' < rx_weight es)"
proof (induction len acc es arbitrary: r es' rule: conn_read_loop.induct)
  case (1 len acc)
  then show ?case by (auto split: if_splits)
next
  case (2 len acc e es)
  show ?case
  proof (cases "len = 0")
    case True
    with "2.prems" show ?thesis by simp
  next
    case False
    show ?thesis
    proof (cases e)
      case (RxData d)
      show ?thesis
      proof (cases "d \<noteq> [] \<and> length d \<le> len")
        case True
        with "2.prems" RxData False
        have l: "conn_read_loop (len - length d) (acc @ d) es = (r, es')" by simp
        from True have "d \<noteq> []" "length d \<le> len" by auto
        from "2.IH"(1) [OF False RxData this l] RxData show ?thesis by (simp add: rx_weight_def)
      next
        case nt: False
        with "2.prems" RxData False show ?thesis
          by (auto simp: rx_weight_def split: if_splits)
      qed
    next
      case RxEintr
      with "2.prems" False have "conn_read_loop len acc es = (r, es')" by simp
      from "2.IH"(2) [OF False RxEintr this] RxEintr show ?thesis by (simp add: rx_weight_def)
    qed (use 2 False in \<open>auto simp: rx_weight_def\<close>)
  qed
qed

interpretation posix_finite: finite_source mcp_conn_read conn_pending conn_valid conn_weight
proof
  fix s :: "mcp_conn option" and n :: nat
  show "conn_weight (fst (mcp_conn_read s n)) \<le> conn_weight s"
    by (auto simp: mcp_conn_read_def conn_weight_def dest: conn_read_loop_weight split: option.splits prod.splits)
  assume "0 < n" "snd (mcp_conn_read s n) \<noteq> None"
  then show "conn_weight (fst (mcp_conn_read s n)) < conn_weight s"
    by (auto simp: mcp_conn_read_def conn_weight_def dest: conn_read_loop_weight split: option.splits prod.splits)
qed

text \<open>Reading touches nothing but the receive side.\<close>

definition same_tx :: "mcp_conn option \<Rightarrow> mcp_conn option \<Rightarrow> bool" where
  "same_tx a b \<longleftrightarrow> (case a of None \<Rightarrow> b = None
     | Some c \<Rightarrow> (case b of None \<Rightarrow> False | Some c' \<Rightarrow> tx c' = tx c \<and> shut c' = shut c \<and> sent c' = sent c))"

lemma same_tx_refl: "same_tx a a"
  by (simp add: same_tx_def split: option.splits)

lemma same_tx_trans: "same_tx a b \<Longrightarrow> same_tx b c \<Longrightarrow> same_tx a c"
  by (auto simp: same_tx_def split: option.splits)

lemma same_tx_read: "same_tx s (fst (mcp_conn_read s n))"
  by (auto simp: same_tx_def mcp_conn_read_def split: option.splits prod.splits)

lemma same_tx_read_line: "same_tx s (fst (read_line_loop mcp_conn_read k buf s))"
proof (induction k arbitrary: buf s)
  case (Suc k)
  obtain s1 x where x: "mcp_conn_read s 1 = (s1, x)" by fastforce
  then have "same_tx s s1" using same_tx_read [of s 1] by simp
  with x Suc show ?case by (auto split: option.splits intro: same_tx_trans)
qed (simp add: same_tx_refl)

lemma same_tx_header:
  "header_loop key rd' h l s = Some r \<Longrightarrow> rd' = mcp_conn_read \<Longrightarrow> same_tx s (fst r)"
proof (induction rule: header_loop.raw_induct [rotated, consumes 1, case_names step])
  case (step loop key rd' h l s r)
  obtain s1 line where r1: "read_line mcp_conn_read s 256 = (s1, line)" by fastforce
  then have w: "same_tx s s1" using same_tx_read_line [of s 255 "[]"] by (simp add: read_line_def)
  have IH: "same_tx s1 (fst r)" if "loop key mcp_conn_read a b s1 = Some r" for a b
    using step.IH [of key mcp_conn_read a b s1 r] that by simp
  from step.hyps step.prems r1 w show ?case
    by (cases line) (auto split: if_splits dest!: IH intro: same_tx_trans)
qed

lemma read_frame_frame:
  assumes "read_frame mcp_conn_read s = Some (s', r)"
  shows "same_tx s s'"
proof -
  from assms obtain s1 h n where h1: "header_loop server_key_match mcp_conn_read False 0 s = Some (s1, h, n)"
    by (auto simp: read_frame_def split: option.splits)
  have "same_tx s s1" using same_tx_header [OF h1 refl] by simp
  with assms h1 same_tx_read [of s1 n] show ?thesis
    by (auto simp: read_frame_def split: if_splits intro: same_tx_trans)
qed

lemma read_frame_dead:
  assumes "read_frame mcp_conn_read s = Some (s', r)" and "conn_dead s"
  shows "conn_dead s'"
  using read_frame_frame [OF assms(1)] assms(2) by (auto simp: same_tx_def conn_dead_def split: option.splits)

lemma cl_header_ne: "cl_header n \<noteq> []"
  by (simp add: cl_header_def snprintf_s_def)

lemma read_frame_valid:
  assumes "conn_valid s" and "read_frame mcp_conn_read s = Some (s', r)"
  shows "conn_valid s'"
  using posix_src.read_frame_returns [OF assms(1)] assms(2) by auto

lemma serve_once_valid:
  assumes "conn_valid (conn cl)" and "serve_once print parse r cl w = Some (go, cl', w')"
  shows "conn_valid (conn cl') \<and> writing cl' = writing cl"
proof -
  from assms(2) obtain c1 b where rf: "read_frame mcp_conn_read (conn cl) = Some (c1, b)"
    by (auto simp: serve_once_def split: option.splits)
  have v1: "conn_valid c1" by (rule read_frame_valid [OF assms(1) rf])
  have wv: "conn_valid c2" if "write_frame mcp_conn_write c1 (Some reply) = Some (ok, c2)" for reply ok c2
    using posix_sink.write_parts_cases [OF v1] that by (simp add: write_frame_def Let_def)
  from assms(2) rf v1 show ?thesis
    by (auto simp: serve_once_def split: option.splits prod.splits dest: wv)
qed

lemma write_frame_dead:
  assumes "conn_dead c" and "conn_valid c"
  shows "\<exists>c'. write_frame mcp_conn_write c (Some b) = Some (False, c') \<and> conn_dead c'"
proof -
  from assms obtain d where d: "c = Some d" "shut d" by (auto simp: conn_valid_iff conn_dead_def)
  obtain es' where "conn_write_loop True (cl_header (c_strlen b)) (sent d) (tx d) = Some (False, sent d, es')"
    using cl_header_ne [of "c_strlen b"] by (cases "tx d") auto
  then show ?thesis using d
    by (simp add: write_frame_def Let_def write_parts_def mcp_conn_write_def conn_dead_def)
qed

lemma serve_once_dead:
  assumes "conn_valid (conn cl)" and "conn_dead (conn cl)"
  shows "\<exists>go cl' w'. serve_once print parse r cl w = Some (go, cl', w') \<and> conn_dead (conn cl') \<and>
    (go \<longrightarrow> conn_weight (conn cl') < conn_weight (conn cl))"
proof -
  from posix_src.read_frame_returns [OF assms(1)] obtain c1 b where
    rf: "read_frame mcp_conn_read (conn cl) = Some (c1, b)" and v1: "conn_valid c1" by blast
  have d1: "conn_dead c1" by (rule read_frame_dead [OF rf assms(2)])
  show ?thesis
  proof (cases b)
    case None
    with rf d1 show ?thesis by (intro exI [of _ False]) (simp add: serve_once_def)
  next
    case (Some body)
    obtain rep ini w' where hb: "handle_body print parse r body (initialized cl) w = (rep, ini, w')"
      by (cases "handle_body print parse r body (initialized cl) w") auto
    show ?thesis
    proof (cases rep)
      case None
      with rf Some hb d1 posix_finite.read_frame_weight [of "conn cl" c1 body] show ?thesis
        by (intro exI [of _ True]) (simp add: serve_once_def)
    next
      case (Some reply)
      from write_frame_dead [OF d1 v1] obtain c2 where
        "write_frame mcp_conn_write c1 (Some reply) = Some (False, c2)" "conn_dead c2" by blast
      with rf \<open>b = Some body\<close> Some hb show ?thesis by (intro exI [of _ False]) (simp add: serve_once_def)
    qed
  qed
qed

text \<open>Behind an abort a client's serve loop reads what was queued and returns at the first reply it cannot
  write, or at the end of the queue; tools are total functions here, and the peer sends no more.\<close>

theorem serve_returns_when_aborted:
  assumes "conn_valid (conn cl)" and "conn_dead (conn cl)"
  shows "\<exists>cl' w'. serve print parse r cl w = Some (cl', w') \<and> conn_valid (conn cl')"
  using assms
proof (induction "conn_weight (conn cl)" arbitrary: cl w rule: less_induct)
  case less
  from serve_once_dead [OF less.prems, of print parse r w] obtain go cl1 w1 where
    so: "serve_once print parse r cl w = Some (go, cl1, w1)" "conn_dead (conn cl1)"
      "go \<longrightarrow> conn_weight (conn cl1) < conn_weight (conn cl)" by blast
  have v: "conn_valid (conn cl1)" using serve_once_valid [OF less.prems(1) so(1)] by simp
  show ?case
  proof (cases go)
    case True
    with less.hyps [of cl1 w1] so v show ?thesis by (simp add: serve.simps [of print parse r cl])
  next
    case False
    with so v show ?thesis by (simp add: serve.simps [of print parse r cl])
  qed
qed

theorem serve_returns_when_aborted_witness:
  "\<exists>cl' w'. serve demo_print (\<lambda>_. None) (registry_zero :: nat registry)
      \<lparr>conn = mcp_conn_abort (Some (demo_conn [RxData (encode_frame ''{}'')] [])), initialized = True, writing = False\<rparr> 0 =
    Some (cl', w')"
proof -
  have "conn_valid (mcp_conn_abort (Some (demo_conn [RxData (encode_frame ''{}'')] [])))"
    "conn_dead (mcp_conn_abort (Some (demo_conn [RxData (encode_frame ''{}'')] [])))"
    by (simp_all add: mcp_conn_abort_facts) (simp_all add: conn_valid_def demo_conn_def conn_dead_def mcp_conn_abort_def)
  with serve_returns_when_aborted [of "\<lparr>conn = mcp_conn_abort (Some (demo_conn [RxData (encode_frame ''{}'')] [])),
      initialized = True, writing = False\<rparr>" demo_print "\<lambda>_. None" registry_zero 0]
  show ?thesis by auto
qed

section \<open>Requests and replies in order\<close>

text \<open>What a sequence of frame bodies is answered with.\<close>

fun run_bodies ::
    "(json \<Rightarrow> bytes) \<Rightarrow> (bytes \<Rightarrow> json option) \<Rightarrow> 'w registry \<Rightarrow> bytes list \<Rightarrow> bool \<Rightarrow> 'w \<Rightarrow> bytes list \<times> bool \<times> 'w"
where
  "run_bodies print parse r [] ini w = ([], ini, w)"
| "run_bodies print parse r (b # bs) ini w =
     (case handle_body print parse r b ini w of
        (rep, ini', w') \<Rightarrow>
          (case run_bodies print parse r bs ini' w' of
             (rs, x) \<Rightarrow> (case rep of None \<Rightarrow> rs | Some t \<Rightarrow> t # rs, x)))"

lemma read_frame_keeps_sending:
  assumes "read_frame mcp_conn_read s = Some (s', r)"
  shows "sending s' = sending s" "conn_sent s' = conn_sent s"
  using read_frame_frame [OF assms] by (auto simp: same_tx_def sending_def conn_sent_def split: option.splits)

lemma read_frame_keeps_tx:
  assumes "read_frame mcp_conn_read s = Some (s', r)"
  shows "(case s of None \<Rightarrow> s' = None
     | Some c \<Rightarrow> (case s' of None \<Rightarrow> False | Some c' \<Rightarrow> tx c' = tx c \<and> shut c' = shut c \<and> sent c' = sent c))"
  using read_frame_frame [OF assms] by (auto simp: same_tx_def)

lemma read_frame_eof:
  assumes "conn_valid s" and "conn_pending s = []"
  shows "\<exists>s'. read_frame mcp_conn_read s = Some (s', None)"
  using assms(1)
proof (cases rule: posix_src.read_line_spec)
  case (eof s')
  then show ?thesis by (simp add: read_frame_def header_loop.simps [of server_key_match mcp_conn_read])
qed (use assms(2) split_line_Some [of 255 "[]"] in auto)

lemma read_frame_keeps_take: "read_frame mcp_conn_read s = Some (s', r) \<Longrightarrow> can_take n s' = can_take n s"
  using read_frame_frame [of s s' r] read_frame_keeps_sending [of s s' r]
  by (auto simp: can_take_def same_tx_def split: option.splits)

text \<open>The bytes a reply puts on the wire, and one pass over a request.\<close>

abbreviation reply_frame :: "bytes option \<Rightarrow> bytes" where
  "reply_frame rep \<equiv> (case rep of None \<Rightarrow> [] | Some t \<Rightarrow> encode_frame t)"

lemma serve_pass:
  assumes "conn_valid (conn cl)" and "sending (conn cl)"
    and "conn_pending (conn cl) = encode_frame b @ rest" and "0 < length b" and "length b \<le> MAX_FRAME_BYTES"
    and "handle_body print parse r b (initialized cl) w = (rep, ini, w1)"
    and "\<forall>t. rep = Some t \<longrightarrow> NUL \<notin> set t \<and> length t < 10 ^ 40"
  shows "serve_once print parse r cl w = Some x \<Longrightarrow>
      \<exists>c. x = (True, cl\<lparr>conn := c, initialized := ini\<rparr>, w1) \<and> conn_valid c \<and> sending c \<and> conn_pending c = rest \<and>
        conn_sent c = conn_sent (conn cl) @ reply_frame rep"
    and "can_take (n + length (reply_frame rep)) (conn cl) \<Longrightarrow>
      \<exists>cl1 w'. serve_once print parse r cl w = Some (True, cl1, w') \<and> can_take n (conn cl1)"
proof -
  have "decode_frame server_key_match MAX_FRAME_BYTES (conn_pending (conn cl)) = Some (b, rest)"
    using assms(3) decode_encode_server [OF assms(4,5)] by simp
  from posix_src.read_frame_decodes [OF assms(1) this] obtain c1 where
    rf: "read_frame mcp_conn_read (conn cl) = Some (c1, Some b)" and c1: "conn_valid c1" "conn_pending c1 = rest" by blast
  note ks = read_frame_keeps_sending [OF rf]
  have wf: "write_frame mcp_conn_write c1 (Some t) = write_parts mcp_conn_write c1 (cl_header (length t)) t"
    and ef: "encode_frame t = cl_header (length t) @ t" if "rep = Some t" for t
    using assms(7) that encode_frame_parts by (simp_all add: write_frame_text)
  { assume so: "serve_once print parse r cl w = Some x"
    show "\<exists>c. x = (True, cl\<lparr>conn := c, initialized := ini\<rparr>, w1) \<and> conn_valid c \<and> sending c \<and> conn_pending c = rest \<and>
        conn_sent c = conn_sent (conn cl) @ reply_frame rep"
    proof (cases rep)
      case None
      then show ?thesis using so rf assms(2,6) c1 ks by (auto simp: serve_once_def)
    next
      case (Some t)
      from so rf assms(6) Some obtain ok c2 where
        wp: "write_parts mcp_conn_write c1 (cl_header (length t)) t = Some (ok, c2)"
        and x: "x = (ok, cl\<lparr>conn := c2, initialized := ini\<rparr>, w1)"
        by (auto simp: serve_once_def wf [OF Some] split: option.splits)
      from parts_sending [OF _ wp] ks assms(2) have "ok" "sending c2" by simp_all
      with posix_sink.write_parts_cases [OF c1(1) wp] parts_pending [OF wp] x c1 ks Some
      show ?thesis by (auto simp: ef [OF Some])
    qed }
  { assume room: "can_take (n + length (reply_frame rep)) (conn cl)"
    then have room: "can_take (n + length (reply_frame rep)) c1" by (simp add: read_frame_keeps_take [OF rf])
    show "\<exists>cl1 w'. serve_once print parse r cl w = Some (True, cl1, w') \<and> can_take n (conn cl1)"
    proof (cases rep)
      case None
      then show ?thesis using rf assms(6) room by (simp add: serve_once_def)
    next
      case (Some t)
      from room have "can_take (n + length (cl_header (length t) @ t)) c1" by (simp add: Some ef [OF Some])
      from parts_take [OF this] obtain c2 where
        "write_parts mcp_conn_write c1 (cl_header (length t)) t = Some (True, c2)" "can_take n c2" by blast
      then show ?thesis using rf assms(6) by (simp add: serve_once_def Some wf [OF Some])
    qed }
qed

lemma serve_replies_aux:
  assumes "conn_valid (conn cl)" and "sending (conn cl)"
    and "conn_pending (conn cl) = concat (map encode_frame bs)"
    and "\<And>b. b \<in> set bs \<Longrightarrow> 0 < length b \<and> length b \<le> MAX_FRAME_BYTES"
    and "\<And>t. t \<in> set rs \<Longrightarrow> NUL \<notin> set t \<and> length t < 10 ^ 40"
    and "run_bodies print parse r bs (initialized cl) w = (rs, ini, wn)"
  shows "serve print parse r cl w = Some (cl', w') \<Longrightarrow>
      conn_sent (conn cl') = conn_sent (conn cl) @ concat (map encode_frame rs) \<and> w' = wn \<and> initialized cl' = ini"
    and "can_take (length (concat (map encode_frame rs))) (conn cl) \<Longrightarrow> serve print parse r cl w \<noteq> None"
proof -
  have "(\<forall>cl' w'. serve print parse r cl w = Some (cl', w') \<longrightarrow>
      conn_sent (conn cl') = conn_sent (conn cl) @ concat (map encode_frame rs) \<and> w' = wn \<and> initialized cl' = ini) \<and>
    (can_take (length (concat (map encode_frame rs))) (conn cl) \<longrightarrow> serve print parse r cl w \<noteq> None)"
    using assms
  proof (induction bs arbitrary: cl w rs)
    case Nil
    from read_frame_eof [OF Nil.prems(1)] Nil.prems(3) obtain c' where
      rf: "read_frame mcp_conn_read (conn cl) = Some (c', None)" by auto
    then have "serve print parse r cl w = Some (cl\<lparr>conn := c'\<rparr>, w)"
      by (simp add: serve.simps [of print parse r cl] serve_once_def)
    with Nil.prems read_frame_keeps_sending(2) [OF rf] show ?case by auto
  next
    case (Cons b bs)
    have b: "0 < length b" "length b \<le> MAX_FRAME_BYTES" using Cons.prems(4) by simp_all
    have pend: "conn_pending (conn cl) = encode_frame b @ concat (map encode_frame bs)" using Cons.prems(3) by simp
    obtain rep ini1 w1 where hb: "handle_body print parse r b (initialized cl) w = (rep, ini1, w1)"
      by (cases "handle_body print parse r b (initialized cl) w") auto
    obtain rs1 where rb: "run_bodies print parse r bs ini1 w1 = (rs1, ini, wn)"
      and rs: "rs = (case rep of None \<Rightarrow> rs1 | Some t \<Rightarrow> t # rs1)"
      using Cons.prems(6) hb by (auto split: prod.splits)
    have frames: "concat (map encode_frame rs) = reply_frame rep @ concat (map encode_frame rs1)"
      by (simp add: rs split: option.splits)
    let ?n = "length (concat (map encode_frame rs1))"
    have len: "length (concat (map encode_frame rs)) = ?n + length (reply_frame rep)"
      by (simp only: frames length_append add.commute)
    have nul: "\<forall>t. rep = Some t \<longrightarrow> NUL \<notin> set t \<and> length t < 10 ^ 40" using Cons.prems(5) rs by simp
    have nul1: "NUL \<notin> set t \<and> length t < 10 ^ 40" if "t \<in> set rs1" for t
      using Cons.prems(5) that rs by (cases rep) auto
    note pass = serve_pass [OF Cons.prems(1,2) pend b hb nul]
    note IH = Cons.IH [OF _ _ _ _ nul1]
    show ?case
    proof (cases "serve_once print parse r cl w")
      case None
      have "\<not> can_take (length (concat (map encode_frame rs))) (conn cl)"
        using pass(2) [of ?n] None unfolding len by fastforce
      then show ?thesis using None by (simp add: serve.simps [of print parse r cl w])
    next
      case (Some x)
      from pass(1) [OF Some] obtain c where x: "x = (True, cl\<lparr>conn := c, initialized := ini1\<rparr>, w1)"
        and c: "conn_valid c" "sending c" "conn_pending c = concat (map encode_frame bs)"
          "conn_sent c = conn_sent (conn cl) @ reply_frame rep" by blast
      let ?cl1 = "cl\<lparr>conn := c, initialized := ini1\<rparr>"
      have "serve print parse r cl w = serve print parse r ?cl1 w1"
        using Some x by (simp add: serve.simps [of print parse r cl])
      moreover have "can_take ?n c"
        if "can_take (length (concat (map encode_frame rs))) (conn cl)"
        using pass(2) [of ?n] that Some x unfolding len by fastforce
      moreover have "(\<forall>cl' w'. serve print parse r ?cl1 w1 = Some (cl', w') \<longrightarrow>
          conn_sent (conn cl') = conn_sent c @ concat (map encode_frame rs1) \<and> w' = wn \<and> initialized cl' = ini) \<and>
        (can_take ?n c \<longrightarrow> serve print parse r ?cl1 w1 \<noteq> None)"
        using IH [of ?cl1 rs1 w1] c(1-3) rb Cons.prems(4) by simp
      ultimately show ?thesis
        using c(4) by (simp add: frames)
    qed
  qed
  then show "serve print parse r cl w = Some (cl', w') \<Longrightarrow>
      conn_sent (conn cl') = conn_sent (conn cl) @ concat (map encode_frame rs) \<and> w' = wn \<and> initialized cl' = ini"
    and "can_take (length (concat (map encode_frame rs))) (conn cl) \<Longrightarrow> serve print parse r cl w \<noteq> None"
    by blast+
qed


lemma serve_go: "serve_once print parse r cl w = Some (True, cl', w') \<Longrightarrow> serve print parse r cl w = serve print parse r cl' w'"
  by (simp add: serve.simps [of print parse r cl w])

lemma serve_stop: "serve_once print parse r cl w = Some (False, cl', w') \<Longrightarrow> serve print parse r cl w = Some (cl', w')"
  by (simp add: serve.simps [of print parse r cl w])

text \<open>A client that sends one ping and ends the stream.\<close>

definition demo_ping :: "bytes \<Rightarrow> json option" where
  "demo_ping _ = Some (JObj [(''id'', JInt 1), (''method'', JStr ''ping'')])"

definition demo_ping_client :: mcp_client where
  "demo_ping_client =
     \<lparr>conn = Some (demo_conn [RxData (''Content-Length: 2'' @ CRLF2 @ ''{}'')] (replicate 30 (demo_send 1))),
      initialized = True, writing = False\<rparr>"

lemma demo_ping_facts:
  "conn_valid (conn demo_ping_client)" "sending (conn demo_ping_client)" "conn_sent (conn demo_ping_client) = []"
  "initialized demo_ping_client" "conn_pending (conn demo_ping_client) = concat (map encode_frame [''{}''])"
proof -
  have ef: "encode_frame ''{}'' = ''Content-Length: 2'' @ CRLF2 @ ''{}''"
    by (simp add: encode_frame_def show_nat.simps)
  show "conn_pending (conn demo_ping_client) = concat (map encode_frame [''{}''])"
    unfolding list.map concat.simps ef by (simp add: demo_ping_client_def conn_pending_def demo_conn_def CRLF2_def)
qed (simp_all add: demo_ping_client_def conn_valid_def sending_def conn_sent_def demo_conn_def demo_send_def)

lemma demo_ping_body:
  "handle_body demo_print demo_ping (registry_zero :: nat registry) b True 0 = (Some ''{}'', True, 0)"
  by (simp add: handle_body_def handle_request_def jsonrpc_result_def demo_print_def demo_ping_def Let_def)

lemma demo_ping_replies:
  "run_bodies demo_print demo_ping (registry_zero :: nat registry) [''{}''] True 0 = ([''{}''], True, 0)"
  by (simp add: demo_ping_body)

lemma demo_ping_served: "\<exists>cl'. serve demo_print demo_ping (registry_zero :: nat registry) demo_ping_client 0 = Some (cl', 0)"
proof -
  note v = demo_ping_facts
  have "length (concat (map encode_frame [''{}''])) \<le> 30" by (simp add: encode_frame_def show_nat.simps CRLF2_def)
  then have "can_take (length (concat (map encode_frame [''{}'']))) (conn demo_ping_client)"
    using v(2) by (simp add: can_take_def demo_ping_client_def demo_conn_def demo_send_def)
  moreover have "run_bodies demo_print demo_ping (registry_zero :: nat registry) [''{}''] (initialized demo_ping_client) 0 =
      ([''{}''], True, 0)" using demo_ping_replies v(4) by simp
  note sv = serve_replies_aux [OF v(1,2,5) _ _ this]
  ultimately obtain cl' w' where "serve demo_print demo_ping (registry_zero :: nat registry) demo_ping_client 0 = Some (cl', w')"
    using sv(2) by (force simp: MAX_FRAME_BYTES_def)
  with sv(1) show ?thesis by (auto simp: MAX_FRAME_BYTES_def)
qed

text \<open>C25. A client that sends a sequence of request frames and then ends the stream gets exactly the
  replies those requests have, in order and each as one well-formed frame, however the kernel cuts the
  bytes in both directions; notifications among them get nothing.  And when the client takes all these
  bytes, the serve loop ends.\<close>

theorem serve_replies_in_order:
  assumes "conn_valid (conn cl)" and "sending (conn cl)"
    and "conn_pending (conn cl) = concat (map encode_frame bodies)"
    and "\<And>b. b \<in> set bodies \<Longrightarrow> 0 < length b \<and> length b \<le> MAX_FRAME_BYTES"
    and "run_bodies print parse r bodies (initialized cl) w = (replies, ini, wn)"
    and "\<And>t. t \<in> set replies \<Longrightarrow> NUL \<notin> set t \<and> length t < 10 ^ 40"
  shows "(\<forall>cl' w'. serve print parse r cl w = Some (cl', w') \<longrightarrow>
      conn_sent (conn cl') = conn_sent (conn cl) @ concat (map encode_frame replies) \<and> initialized cl' = ini \<and> w' = wn) \<and>
    (can_take (length (concat (map encode_frame replies))) (conn cl) \<longrightarrow> serve print parse r cl w \<noteq> None)"
  using serve_replies_aux [OF assms(1-4,6,5)] by blast

theorem serve_replies_in_order_witness:
  "\<exists>cl' replies. serve demo_print demo_ping (registry_zero :: nat registry) demo_ping_client 0 = Some (cl', 0) \<and>
    conn_sent (conn cl') = concat (map encode_frame replies) \<and> length replies = 1"
proof -
  obtain cl' where sv: "serve demo_print demo_ping (registry_zero :: nat registry) demo_ping_client 0 = Some (cl', 0)"
    using demo_ping_served by blast
  note v = demo_ping_facts
  have rb: "run_bodies demo_print demo_ping (registry_zero :: nat registry) [''{}''] (initialized demo_ping_client) 0 =
      ([''{}''], True, 0)"
    using v(4) demo_ping_replies by simp
  from serve_replies_in_order [OF v(1,2,5) _ rb] sv
  have "conn_sent (conn cl') = concat (map encode_frame [''{}''])"
    using v(3) by (simp add: MAX_FRAME_BYTES_def)
  with sv show ?thesis by (intro exI [of _ cl'] exI [of _ "[''{}'']"]) simp
qed


section \<open>The slot invariant over all runs\<close>

inductive_cases register_stepE: "srv_step print parse s (Register t) s'"

lemma slots_ok_notify_changed [inv_pres]:
  "slots_ok s \<Longrightarrow> notify_tools_changed print s = Some s' \<Longrightarrow> slots_ok s'"
  by (auto simp: notify_tools_changed_def broadcast_notification_def slots_ok_notify split: if_splits)

lemma slots_ok_registry [inv_pres]:
  "slots_ok s \<Longrightarrow> server_register_tool print t s = Some s' \<Longrightarrow> slots_ok s'"
  "slots_ok s \<Longrightarrow> server_unregister_tool print n s = Some s' \<Longrightarrow> slots_ok s'"
  "slots_ok s \<Longrightarrow> server_set_app_id print n s = Some s' \<Longrightarrow> slots_ok s'"
  by (auto simp: server_register_tool_def server_unregister_tool_def server_set_app_id_def slots_ok_frame
      split: prod.splits if_splits dest: slots_ok_notify_changed [rotated])

lemma abort_client_facts:
  "(conn (abort_client cl) \<noteq> None) = (conn cl \<noteq> None)" "initialized (abort_client cl) = initialized cl"
  "conn_valid (conn (abort_client cl)) = conn_valid (conn cl)"
  "conn_valid (conn cl) \<Longrightarrow> conn_dead (conn (abort_client cl))"
  using mcp_conn_abort_facts [of "conn cl"]
  by (auto simp: abort_client_def mcp_conn_abort_def conn_valid_def)

lemma slots_ok_abort [inv_pres]:
  assumes "slots_ok s"
  shows "slots_ok (stop_abort s)"
proof -
  have "count_where occupied (map abort_client (clients s)) = count_where occupied (clients s)"
    by (rule count_where_map_same) (rule abort_client_facts)
  moreover have "client_ok (abort_client cl)" if "cl \<in> set (clients s)" for cl
    using assms that abort_client_facts [of cl] unfolding slots_ok_def by metis
  ultimately show ?thesis using assms unfolding slots_ok_def by (auto simp: stop_abort_def simp del: not_None_eq)
qed

lemma start_frame:
  "clients (fst (mcp_server_start oob env pid s os)) = clients s"
  "active_clients (fst (mcp_server_start oob env pid s os)) = active_clients s"
  "clients (fst (mcp_server_start_named oob env role s os)) = clients s"
  "active_clients (fst (mcp_server_start_named oob env role s os)) = active_clients s"
  by (auto simp: mcp_server_start_def mcp_server_start_named_def register_builtins_def start_with_listener_def Let_def
      split: option.splits prod.splits)

lemma srv_step_slots:
  assumes "srv_step print parse s e s'" and "slots_ok s"
  shows "slots_ok s'"
  using assms
proof (induction rule: srv_step.induct)
  case (accept s c ok)
  then show ?case by (simp add: slots_ok_accept)
next
  case (serve i s cl w)
  then have v: "conn_valid (conn (clients s ! i))" by (simp add: slots_ok_def)
  from serve_once_valid [OF v serve.hyps(3)] have "conn_valid (conn cl)" by simp
  then have "slots_ok (s\<lparr>clients := (clients s)[i := cl]\<rparr>)"
    using serve by (intro slots_ok_update) (auto simp: conn_valid_iff)
  then show ?case by (simp add: slots_ok_def)
next
  case (leave i s cl w)
  then have "slots_ok (s\<lparr>world := w\<rparr>)" by (simp add: slots_ok_frame)
  from slots_ok_unwind [OF this, of i] leave show ?case by simp
next
  case (hold i s b)
  then show ?case by (intro slots_ok_update) (simp_all add: slots_ok_def)
next
  case (register t s s')
  from slots_ok_registry(1) [OF register(2,1)] show ?case .
next
  case (unregister n s s')
  from slots_ok_registry(2) [OF unregister(2,1)] show ?case .
next
  case (set_app_id n s s')
  from slots_ok_registry(3) [OF set_app_id(2,1)] show ?case .
next
  case (start s oob env pid os)
  then show ?case by (simp add: slots_ok_def start_frame)
next
  case (start_named s oob env role os)
  then show ?case by (simp add: slots_ok_def start_frame)
next
  case (stop_accept s os)
  then show ?case by (simp add: stop_accepting_def slots_ok_def)
next
  case (abort s)
  from slots_ok_abort [OF abort(3)] show ?case .
next
  case (finish s s')
  then show ?case by (auto simp: stop_finish_def slots_ok_def split: if_splits)
qed

text \<open>Only a started server listens, and a server that is not started has no client.\<close>

definition stopped_ok :: "'e mcp_server \<Rightarrow> bool" where
  "stopped_ok s \<longleftrightarrow> (listener s \<noteq> None \<longrightarrow> thread_started s) \<and> (\<not> thread_started s \<longrightarrow> active_clients s = 0)"

lemma stopped_ok_frame:
  "stopped_ok s \<Longrightarrow> thread_started s' = thread_started s \<Longrightarrow> listener s' = listener s \<Longrightarrow>
     active_clients s' = active_clients s \<Longrightarrow> stopped_ok s'"
  by (simp add: stopped_ok_def)

lemma notify_changed_frame:
  "notify_tools_changed print s = Some s' \<Longrightarrow>
     thread_started s' = thread_started s \<and> listener s' = listener s \<and> active_clients s' = active_clients s"
  by (auto simp: notify_tools_changed_def broadcast_notification_def split: if_splits)

lemma registry_frame:
  "server_register_tool print t s = Some s' \<or> server_unregister_tool print n s = Some s' \<or>
     server_set_app_id print n s = Some s' \<Longrightarrow>
     thread_started s' = thread_started s \<and> listener s' = listener s \<and> active_clients s' = active_clients s"
  by (auto simp: server_register_tool_def server_unregister_tool_def server_set_app_id_def
      split: prod.splits if_splits dest: notify_changed_frame)

lemma stopped_ok_start:
  "stopped_ok s \<Longrightarrow> stopped_ok (fst (mcp_server_start oob env pid s os))"
  "stopped_ok s \<Longrightarrow> stopped_ok (fst (mcp_server_start_named oob env role s os))"
  by (auto simp: stopped_ok_def mcp_server_start_def mcp_server_start_named_def register_builtins_def
      start_with_listener_def Let_def split: option.splits prod.splits if_splits)

lemma srv_step_stopped: "srv_step print parse s e s' \<Longrightarrow> stopped_ok s \<Longrightarrow> stopped_ok s'"
proof (induction rule: srv_step.induct)
  case (accept s c ok)
  then show ?case by (auto simp: stopped_ok_def server_accept_def split: option.splits)
next
  case (register t s s')
  then show ?case using registry_frame [of print t s s'] by (auto intro: stopped_ok_frame)
next
  case (unregister n s s')
  then show ?case using registry_frame [of print _ s s' n] by (auto intro: stopped_ok_frame)
next
  case (set_app_id n s s')
  then show ?case using registry_frame [of print _ s s' n] by (auto intro: stopped_ok_frame)
qed (auto simp: stopped_ok_start,
    auto simp: stopped_ok_def client_unwind_def stop_accepting_def stop_abort_def stop_finish_def split: if_splits)

inductive srv_reach ::
    "(json \<Rightarrow> bytes) \<Rightarrow> (bytes \<Rightarrow> json option) \<Rightarrow> 'e mcp_server \<Rightarrow> 'e mcp_server \<Rightarrow> bool"
  for print parse s0 where
  refl: "srv_reach print parse s0 s0"
| step: "srv_reach print parse s0 s \<Longrightarrow> srv_step print parse s e s' \<Longrightarrow> srv_reach print parse s0 s'"

lemma srv_reach_trans: "srv_reach print parse b c \<Longrightarrow> srv_reach print parse a b \<Longrightarrow> srv_reach print parse a c"
  by (induction rule: srv_reach.induct) (auto intro: srv_reach.step)

lemma srv_reach_slots: "srv_reach print parse s0 s \<Longrightarrow> slots_ok s0 \<Longrightarrow> slots_ok s"
  by (induction rule: srv_reach.induct) (auto intro: srv_step_slots)

lemma srv_reach_stopped: "srv_reach print parse s0 s \<Longrightarrow> stopped_ok s0 \<Longrightarrow> stopped_ok s"
  by (induction rule: srv_reach.induct) (auto intro: srv_step_stopped)

lemma no_client_iff:
  assumes "slots_ok s"
  shows "active_clients s = 0 \<longleftrightarrow> (\<forall>cl\<in>set (clients s). conn cl = None \<and> \<not> initialized cl)"
  using assms by (auto simp: slots_ok_def filter_empty_conv)

text \<open>C28. In every reachable state of a server, over any interleaving of starts, accepted connections,
  served requests, ending clients, registrations with their broadcasts and the three parts of a stop, there
  are eight slots, the client counter is the number of occupied ones, so at most eight, and it is zero
  exactly when no slot holds a connection or is still marked initialized; and a server that is not
  started, or was stopped, holds no connection and does not listen.\<close>

theorem server_slots_invariant:
  assumes "srv_reach print parse (fst (mcp_server_start oob env pid (server_zero w) os)) s"
  shows "length (clients s) = 8 \<and> active_clients s \<le> 8 \<and>
    active_clients s = length (filter (\<lambda>cl. conn cl \<noteq> None) (clients s)) \<and>
    (active_clients s = 0 \<longleftrightarrow> (\<forall>cl\<in>set (clients s). conn cl = None \<and> \<not> initialized cl)) \<and>
    (\<forall>cl\<in>set (clients s). conn cl \<noteq> None \<longrightarrow> conn_valid (conn cl)) \<and>
    (\<not> thread_started s \<longrightarrow> active_clients s = 0 \<and> listener s = None)"
proof -
  have "slots_ok (fst (mcp_server_start oob env pid (server_zero w) os))"
    using slots_ok_zero [of w] by (simp add: slots_ok_def start_frame)
  with assms have ok: "slots_ok s" by (rule srv_reach_slots)
  have "stopped_ok (fst (mcp_server_start oob env pid (server_zero w) os))"
    by (rule stopped_ok_start) (simp add: stopped_ok_def server_zero_def)
  with assms have "stopped_ok s" by (rule srv_reach_stopped)
  then have stop: "\<not> thread_started s \<longrightarrow> active_clients s = 0 \<and> listener s = None"
    unfolding stopped_ok_def by blast
  have "length (filter (\<lambda>cl. conn cl \<noteq> None) (clients s)) \<le> length (clients s)"
    by (rule count_where_le)
  moreover have "length (clients s) = 8" "active_clients s = length (filter (\<lambda>cl. conn cl \<noteq> None) (clients s))"
    "\<forall>cl\<in>set (clients s). conn cl \<noteq> None \<longrightarrow> conn_valid (conn cl)"
    using ok unfolding slots_ok_def MAX_CONNS_def by blast+
  ultimately show ?thesis using no_client_iff [OF ok] stop by simp
qed

definition demo_env :: start_env where
  "demo_env = \<lparr>sys = \<lparr>socket_rc = 5, bind_fails = False, listen_rc = 0\<rparr>, create_ok = True,
     allow_var = None, long_bits = 64\<rparr>"

lemma demo_started:
  "listener (fst (mcp_server_start oob demo_env 1 (server_zero w) \<lparr>sock_files = [], open_fds = []\<rparr>)) \<noteq> None"
  by (simp add: mcp_server_start_def server_zero_def mcp_listener_open_def listener_open_path_def demo_env_def
      os_unlink_def Let_def register_builtins_def start_with_listener_def)

text \<open>A client connects, the listener is closed and the connection aborted; its thread is still there.\<close>

theorem server_slots_invariant_witness:
  "\<exists>s :: unit mcp_server. srv_reach demo_print (\<lambda>_. None)
      (fst (mcp_server_start (\<lambda>_. 0) demo_env 1 (server_zero demo_world) \<lparr>sock_files = [], open_fds = []\<rparr>)) s \<and>
    listener s = None \<and> active_clients s = 1 \<and> length (filter (\<lambda>cl. conn cl \<noteq> None) (clients s)) = 1 \<and>
    conn_dead (conn (clients s ! 0))"
proof -
  let ?s0 = "fst (mcp_server_start (\<lambda>_. 0) demo_env 1 (server_zero demo_world) \<lparr>sock_files = [], open_fds = []\<rparr>)"
  let ?s1 = "server_accept (demo_conn [] []) True ?s0"
  let ?s2 = "fst (stop_accepting ?s1 \<lparr>sock_files = [], open_fds = []\<rparr>)"
  have cl: "clients ?s1 = (replicate 8 free_slot)[0 := free_slot\<lparr>conn := Some (demo_conn [] [])\<rparr>]"
    and ac: "active_clients ?s1 = 1" and th: "thread_started ?s1 = thread_started ?s0"
    by (simp_all add: server_accept_def start_frame server_zero_def free_slot_def MAX_CONNS_def numeral_eq_Suc)
  have "stopped_ok ?s0" by (rule stopped_ok_start) (simp add: stopped_ok_def server_zero_def)
  then have t: "thread_started ?s0" using demo_started [of "\<lambda>_. 0" demo_world] by (simp add: stopped_ok_def)
  have "srv_step demo_print (\<lambda>_. None) ?s0 (Accept (demo_conn [] []) True) ?s1"
    by (rule srv_step.accept) (simp_all add: demo_started, simp add: demo_conn_def)
  moreover have "srv_step demo_print (\<lambda>_. None) ?s1 StopAccept ?s2"
    by (rule srv_step.stop_accept) (simp only: th t)
  moreover have "srv_step demo_print (\<lambda>_. None) ?s2 StopAbort (stop_abort ?s2)"
    by (rule srv_step.abort) (simp_all add: stop_accepting_def th t)
  ultimately have r: "srv_reach demo_print (\<lambda>_. None) ?s0 (stop_abort ?s2)"
    by (blast intro: srv_reach.intros)
  moreover have "listener (stop_abort ?s2) = None" "active_clients (stop_abort ?s2) = 1"
    using ac by (simp_all add: stop_abort_def stop_accepting_def)
  moreover have "clients (stop_abort ?s2) = map abort_client (clients ?s1)"
    by (simp add: stop_abort_def stop_accepting_def)
  then have "conn_dead (conn (clients (stop_abort ?s2) ! 0))"
    unfolding cl by (simp add: abort_client_def mcp_conn_abort_def conn_dead_def demo_conn_def)
  ultimately show ?thesis using server_slots_invariant [OF r] by (intro exI conjI) simp_all
qed

text \<open>A new connection goes to the first free slot, starts out not eligible for notifications and
  is counted; when all eight slots are taken, or the thread cannot be created, the server keeps no trace
  of it.\<close>

theorem accept_uses_first_free_slot:
  assumes "slots_ok s"
  shows "(if (\<forall>cl\<in>set (clients s). conn cl \<noteq> None) then server_accept c ok s = s
     else \<exists>i<8. (\<forall>j<i. conn (clients s ! j) \<noteq> None) \<and> conn (clients s ! i) = None \<and>
       (if ok then conn (clients (server_accept c ok s) ! i) = Some c \<and>
          \<not> initialized (clients (server_accept c ok s) ! i) \<and>
          active_clients (server_accept c ok s) = Suc (active_clients s)
        else conn (clients (server_accept c ok s) ! i) = None \<and>
          active_clients (server_accept c ok s) = active_clients s) \<and>
       (\<forall>j<8. j \<noteq> i \<longrightarrow> clients (server_accept c ok s) ! j = clients s ! j))"
proof (cases "find_index (\<lambda>cl. conn cl = None) (clients s)")
  case None
  then have "\<forall>cl\<in>set (clients s). conn cl \<noteq> None" by (simp add: find_index_None_iff)
  with None show ?thesis by (simp add: server_accept_def)
next
  case (Some i)
  note i = find_index_SomeD [OF Some]
  have len: "length (clients s) = 8" using assms by (simp add: slots_ok_def MAX_CONNS_def)
  have "clients s ! i \<in> set (clients s)" using i(1) by (rule nth_mem)
  with i(2) have "\<not> (\<forall>cl\<in>set (clients s). conn cl \<noteq> None)" by blast
  moreover have "i < 8 \<and> (\<forall>j<i. conn (clients s ! j) \<noteq> None) \<and> conn (clients s ! i) = None \<and>
       (if ok then conn (clients (server_accept c ok s) ! i) = Some c \<and>
          \<not> initialized (clients (server_accept c ok s) ! i) \<and>
          active_clients (server_accept c ok s) = Suc (active_clients s)
        else conn (clients (server_accept c ok s) ! i) = None \<and>
          active_clients (server_accept c ok s) = active_clients s) \<and>
       (\<forall>j<8. j \<noteq> i \<longrightarrow> clients (server_accept c ok s) ! j = clients s ! j)"
    using Some i len by (simp add: server_accept_def)
  ultimately show ?thesis by (simp only: if_False) blast
qed

theorem accept_uses_first_free_slot_witness:
  "conn (clients (server_accept (demo_conn [] []) True (server_zero demo_world)) ! 0) = Some (demo_conn [] [])"
proof -
  have c: "clients (server_zero demo_world) = replicate 8 free_slot" by (simp add: server_zero_def MAX_CONNS_def)
  have n: "\<not> (\<forall>cl\<in>set (clients (server_zero demo_world)). conn cl \<noteq> None)" by (simp add: c free_slot_def)
  have z: "conn (clients (server_zero demo_world) ! 0) = None" by (simp add: c free_slot_def)
  obtain i where
    i: "\<forall>j<i. conn (clients (server_zero demo_world) ! j) \<noteq> None"
      "conn (clients (server_accept (demo_conn [] []) True (server_zero demo_world)) ! i) = Some (demo_conn [] [])"
    using accept_uses_first_free_slot [OF slots_ok_zero [of demo_world], where c = "demo_conn [] []" and ok = True]
    unfolding if_not_P [OF n] if_True by blast
  with z have "i = 0" by (cases i) auto
  with i(2) show ?thesis by simp
qed

lemma drain_one:
  assumes "slots_ok s" and "i < length (clients s)" and "conn (clients s ! i) \<noteq> None"
    and "conn_dead (conn (clients s ! i))"
  shows "\<exists>s'. srv_reach print parse s s' \<and> slots_ok s' \<and> active_clients s = Suc (active_clients s') \<and>
    (\<exists>cl. clients s' = (clients s)[i := cl] \<and> conn cl = None)"
  using assms
proof (induction "conn_weight (conn (clients s ! i))" arbitrary: s rule: less_induct)
  case less
  have v: "conn_valid (conn (clients s ! i))" using less.prems by (simp add: slots_ok_def)
  from serve_once_dead [OF v less.prems(4), of print parse "reg s" "world s"] obtain go cl w where
    so: "serve_once print parse (reg s) (clients s ! i) (world s) = Some (go, cl, w)" "conn_dead (conn cl)"
      "go \<longrightarrow> conn_weight (conn cl) < conn_weight (conn (clients s ! i))" by blast
  show ?case
  proof (cases go)
    case False
    with so less.prems have st: "srv_step print parse s (Leave i) (client_unwind i (s\<lparr>world := w\<rparr>))"
      by (intro srv_step.leave) simp_all
    have "slots_ok (s\<lparr>world := w\<rparr>)" using less.prems by (simp add: slots_ok_frame)
    from slots_ok_unwind [OF this, of i] less.prems
    have "slots_ok (client_unwind i (s\<lparr>world := w\<rparr>))"
      "active_clients s = Suc (active_clients (client_unwind i (s\<lparr>world := w\<rparr>)))" by simp_all
    moreover have "clients (client_unwind i (s\<lparr>world := w\<rparr>)) =
        (clients s)[i := (clients s ! i)\<lparr>conn := None, initialized := False\<rparr>]"
      by (simp add: client_unwind_def)
    ultimately show ?thesis using srv_reach.step [OF srv_reach.refl st] by (metis mcp_client.select_convs(1) mcp_client.surjective mcp_client.update_convs(1,2))
  next
    case True
    let ?s = "s\<lparr>clients := (clients s)[i := cl], world := w\<rparr>"
    from True so less.prems have st: "srv_step print parse s (Serve i) ?s"
      by (intro srv_step.serve) simp_all
    have ok: "slots_ok ?s" by (rule srv_step_slots [OF st less.prems(1)])
    have "conn_valid (conn cl)" using serve_once_valid [OF v so(1)] by simp
    then have occ: "conn cl \<noteq> None" by (auto simp: conn_valid_iff)
    have "\<exists>s'. srv_reach print parse ?s s' \<and> slots_ok s' \<and> active_clients ?s = Suc (active_clients s') \<and>
      (\<exists>cl'. clients s' = (clients ?s)[i := cl'] \<and> conn cl' = None)"
      by (rule less.hyps) (use less.prems so True ok occ in simp_all)
    then obtain s' cl' where s': "srv_reach print parse ?s s'" "slots_ok s'" "active_clients s = Suc (active_clients s')"
      "clients s' = (clients s)[i := cl']" "conn cl' = None" by auto
    with srv_reach_trans [OF s'(1) srv_reach.step [OF srv_reach.refl st]] show ?thesis by blast
  qed
qed

text \<open>C34. Once the listener is closed and the connections are aborted, the clients can always unwind:
  a run of serve passes and slot releases leads to a state with no active client, where the stop
  completes with every slot free.\<close>

theorem stop_can_finish:
  assumes "slots_ok s" and "\<forall>cl\<in>set (clients s). conn cl \<noteq> None \<longrightarrow> conn_dead (conn cl)"
  shows "\<exists>s' s''. srv_reach print parse s s' \<and> stop_finish s' = Some s'' \<and> \<not> thread_started s'' \<and>
    (\<forall>cl\<in>set (clients s''). conn cl = None \<and> \<not> initialized cl)"
  using assms
proof (induction "active_clients s" arbitrary: s)
  case 0
  then have "\<forall>cl\<in>set (clients s). conn cl = None \<and> \<not> initialized cl" using no_client_iff by force
  moreover have "stop_finish s = Some (s\<lparr>thread_started := False,
      world := (world s)\<lparr>w_ring := mcp_log_ring_stop (w_ring (world s))\<rparr>\<rparr>)"
    using 0 by (simp add: stop_finish_def)
  ultimately show ?case using srv_reach.refl [of print parse s] by fastforce
next
  case (Suc n)
  have "active_clients s = count_where occupied (clients s)" using Suc.prems(1) by (simp only: slots_ok_def)
  with Suc.hyps(2) have "filter occupied (clients s) \<noteq> []" by (metis list.size(3) nat.distinct(1))
  then obtain i where i: "i < length (clients s)" "conn (clients s ! i) \<noteq> None"
    by (auto simp: filter_empty_conv in_set_conv_nth)
  with Suc.prems(2) have "conn_dead (conn (clients s ! i))" by simp
  from drain_one [OF Suc.prems(1) i this] obtain s1 cl where
    s1: "srv_reach print parse s s1" "slots_ok s1" "active_clients s = Suc (active_clients s1)"
      "clients s1 = (clients s)[i := cl]" "conn cl = None" by blast
  have "\<forall>cl\<in>set (clients s1). conn cl \<noteq> None \<longrightarrow> conn_dead (conn cl)"
    using Suc.prems(2) s1(4,5) by (auto dest!: set_update_subset_insert [THEN subsetD])
  with Suc.hyps(1) [of s1] Suc.hyps(2) s1 obtain s' s'' where
    "srv_reach print parse s1 s'" "stop_finish s' = Some s''" "\<not> thread_started s''"
    "\<forall>cl\<in>set (clients s''). conn cl = None \<and> \<not> initialized cl" by auto
  with srv_reach_trans [OF this(1) s1(1)] show ?case by blast
qed

theorem stop_can_finish_witness:
  "\<exists>s' s''. srv_reach demo_print (\<lambda>_. None)
      (stop_abort (server_accept (demo_conn [RxErr] []) True (server_zero demo_world))) s' \<and>
    stop_finish s' = Some s'' \<and> \<not> thread_started s''"
proof -
  let ?s = "server_accept (demo_conn [RxErr] []) True (server_zero demo_world)"
  have "slots_ok ?s" by (rule slots_ok_accept [OF slots_ok_zero]) (simp add: demo_conn_def)
  then have ok: "slots_ok (stop_abort ?s)" by (rule slots_ok_abort)
  have "conn_dead (conn cl)" if "cl \<in> set (clients (stop_abort ?s))" "conn cl \<noteq> None" for cl
  proof -
    from that(1) obtain cl0 where c: "cl0 \<in> set (clients ?s)" "cl = abort_client cl0"
      by (auto simp: stop_abort_def)
    with that(2) have "conn cl0 \<noteq> None" by (simp only: abort_client_facts not_False_eq_True)
    with c(1) \<open>slots_ok ?s\<close> have "conn_valid (conn cl0)" by (simp add: slots_ok_def)
    with c(2) show ?thesis by (simp only: abort_client_facts)
  qed
  then have "\<forall>cl\<in>set (clients (stop_abort ?s)). conn cl \<noteq> None \<longrightarrow> conn_dead (conn cl)" by blast
  from stop_can_finish [OF ok this] show ?thesis by blast
qed

text \<open>The environment switch: unset means the fallback, empty or a leading \<open>0\<close> disables, and
  anything else enables; only an enabled switch can start the server, and starting a running server
  changes nothing.\<close>

theorem start_gate:
  "mcp_check_env_or None b = b \<and> \<not> mcp_check_env_or (Some []) b \<and>
   mcp_check_env_or (Some (c # cs)) b = (c \<noteq> CHR ''0'') \<and>
   (mcp_server_maybe_start oob env flag pid s os \<noteq> (s, os) \<longrightarrow>
      (\<exists>c cs. flag = Some (c # cs) \<and> c \<noteq> CHR ''0'')) \<and>
   (thread_started s \<longrightarrow> mcp_server_start oob env pid s os = (s, os) \<and>
      mcp_server_start_named oob env role s os = (s, os))"
  by (auto simp: mcp_check_env_or_def mcp_server_maybe_start_def mcp_server_start_def mcp_server_start_named_def
      split: option.splits if_splits list.splits) (metis list.exhaust_sel)

theorem start_gate_witness:
  "mcp_server_start (\<lambda>_. 0) demo_env 1 (demo_server []) os = (demo_server [], os)"
  using start_gate [of True "CHR ''1''" "[]" "\<lambda>_. 0" demo_env None 1 "demo_server []" os None]
  by (simp add: demo_server_def)

end
