(* ===== verification/Frame_Stream.thy ===== *)
theory Frame_Stream
  imports Frames "HOL-Library.Sublist"
begin

text \<open>
  All frames of a connection's byte stream, as the adapter's \<open>dxr_conn_read_frame\<close> reads them one
  after the other: \<open>frames_of\<close> on the flat stream, monotone in the stream; and the locale
  \<open>sticky_source\<close>, a source at whose end reads keep failing, over which one call of the reader is
  one step of \<open>frames_of\<close>.
\<close>

section \<open>Frames off a flat stream\<close>

lemma split_line_le: "length (snd (split_line k b)) \<le> length b"
  by (induction k b rule: split_line.induct) (auto split: prod.splits)

lemma split_line_more:
  "fst (split_line k b) \<noteq> None \<or> k \<le> length b \<Longrightarrow> split_line k (b @ x) = (fst (split_line k b), snd (split_line k b) @ x)"
  by (induction k b rule: split_line.induct) (auto split: prod.splits)

lemma parse_headers_le: "parse_headers key h l b = Some (r, x) \<Longrightarrow> length r \<le> length b"
proof (induction key h l b rule: parse_headers.induct)
  case (1 key h l b)
  obtain line rest where sl: "split_line 255 b = (line, rest)" by fastforce
  then have rest: "length rest \<le> length b" using split_line_le [of 255 b] by simp
  show ?case
  proof (cases line)
    case None
    with "1.prems" sl rest show ?thesis by (subst (asm) parse_headers.simps) (auto split: if_splits)
  next
    case (Some t)
    note IH = "1.IH" [OF sl [symmetric] Some]
    from "1.prems" sl Some rest IH show ?thesis
      by (subst (asm) parse_headers.simps) (auto split: if_splits)
  qed
qed

lemma parse_headers_more:
  "parse_headers key h l b = Some (r, y) \<Longrightarrow> parse_headers key h l (b @ x) = Some (r @ x, y)"
proof (induction key h l b rule: parse_headers.induct)
  case (1 key h l b)
  obtain line rest where sl: "split_line 255 b = (line, rest)" by fastforce
  show ?case
  proof (cases line)
    case None
    with "1.prems" sl have b: "255 \<le> length b" "y = (h, l)" "rest = r"
      by (subst (asm) parse_headers.simps; auto split: if_splits)+
    with sl None split_line_more [of 255 b x] have "split_line 255 (b @ x) = (None, r @ x)" by simp
    with b show ?thesis by (subst parse_headers.simps) simp
  next
    case (Some t)
    with sl split_line_more [of 255 b x] have sx: "split_line 255 (b @ x) = (Some t, rest @ x)" by simp
    note IH = "1.IH" [OF sl [symmetric] Some]
    have e: "parse_headers key h l b' =
        (if hd t = CR \<or> hd t = LF then Some (r', h, l)
         else if key t then parse_headers key True (strtoul 64 (drop 15 t)) r'
         else parse_headers key h l r')" if "split_line 255 b' = (Some t, r')" for b' r'
      by (subst parse_headers.simps) (simp add: that)
    note e1 = e [OF sl [unfolded Some]] and e2 = e [OF sx]
    show ?thesis
    proof (cases "hd t = CR \<or> hd t = LF")
      case True
      with "1.prems" e1 e2 show ?thesis by (simp only: if_True) simp
    next
      case False
      show ?thesis
      proof (cases "key t")
        case True
        from "1.prems" have "parse_headers key True (strtoul 64 (drop 15 t)) rest = Some (r, y)"
          by (simp only: e1 False True if_True if_False)
        from IH(1) [OF False True this] show ?thesis by (simp only: e2 False True if_True if_False)
      next
        case nk: False
        from "1.prems" have "parse_headers key h l rest = Some (r, y)"
          by (simp only: e1 False nk if_False)
        from IH(2) [OF False nk this] show ?thesis by (simp only: e2 False nk if_False)
      qed
    qed
  qed
qed

lemma decode_frame_shorter: "decode_frame key limit b = Some (m, t) \<Longrightarrow> length t < length b"
  by (auto simp: decode_frame_def split: option.splits if_splits dest!: parse_headers_le)

lemma decode_frame_more:
  "decode_frame key limit b = Some (m, t) \<Longrightarrow> decode_frame key limit (b @ x) = Some (m, t @ x)"
proof -
  assume "decode_frame key limit b = Some (m, t)"
  then obtain r h n where r: "parse_headers key False 0 b = Some (r, h, n)"
    and c: "h" "n \<noteq> 0" "n \<le> limit" "n \<le> length r" "m = take n r" "t = drop n r"
    by (auto simp: decode_frame_def split: option.splits if_splits)
  from parse_headers_more [OF r, of x] c show ?thesis by (simp add: decode_frame_def)
qed

function frames_of :: "(bytes \<Rightarrow> bool) \<Rightarrow> nat \<Rightarrow> bytes \<Rightarrow> bytes list" where
  "frames_of key limit b =
     (case decode_frame key limit b of None \<Rightarrow> [] | Some (m, t) \<Rightarrow> m # frames_of key limit t)"
  by pat_completeness auto
termination
  by (relation "measure (\<lambda>(_, _, b). length b)") (auto dest: decode_frame_shorter)

declare frames_of.simps [simp del]

lemma frames_of_prefix: "prefix b b' \<Longrightarrow> prefix (frames_of key limit b) (frames_of key limit b')"
proof (induction key limit b arbitrary: b' rule: frames_of.induct)
  case (1 key limit b)
  then obtain x where x: "b' = b @ x" by (auto simp: prefix_def)
  show ?case
  proof (cases "decode_frame key limit b")
    case None
    then show ?thesis by (subst frames_of.simps) simp
  next
    case (Some mt)
    obtain m t where mt: "mt = (m, t)" by fastforce
    from Some mt have d: "decode_frame key limit b = Some (m, t)" by simp
    from "1.IH" [OF Some [unfolded mt] refl, of "t @ x"] have "prefix (frames_of key limit t) (frames_of key limit (t @ x))" by simp
    with d decode_frame_more [OF d, of x] show ?thesis
      by (subst frames_of.simps, subst (2) frames_of.simps) (simp add: x)
  qed
qed

abbreviation server_frames :: "bytes \<Rightarrow> bytes list" where
  "server_frames \<equiv> frames_of adapter_key_match DXR_STDIO_MAX_MESSAGE_BYTES"

lemma frames_of_encoded:
  assumes "\<And>m. m \<in> set ms \<Longrightarrow> 0 < length m \<and> length m \<le> DXR_STDIO_MAX_MESSAGE_BYTES"
  shows "server_frames (concat (map encode_frame ms)) = ms"
  using assms
proof (induction ms)
  case Nil
  have "split_line 255 [] = (None, [])" using split_line.simps(2) [of 254] by simp
  then have "decode_frame adapter_key_match DXR_STDIO_MAX_MESSAGE_BYTES [] = None"
    by (simp add: decode_frame_def parse_headers.simps [of _ _ _ "[]"])
  then show ?case by (subst frames_of.simps) simp
next
  case (Cons m ms)
  then have "decode_frame adapter_key_match DXR_STDIO_MAX_MESSAGE_BYTES (concat (map encode_frame (m # ms))) =
      Some (m, concat (map encode_frame ms))"
    using decode_encode_adapter [of m] by simp
  with Cons show ?case by (subst frames_of.simps) simp
qed

section \<open>A stream that stays at its end\<close>

locale sticky_source = conn_source +
  assumes rd_end: "valid s \<Longrightarrow> length (pending s) < n \<Longrightarrow> pending (fst (rd s n)) = []"
begin

lemma read_line_loop_end:
  assumes "valid s" and "fst (split_line k (pending s)) = None" and "length (pending s) < k"
  shows "\<exists>s'. read_line_loop rd k buf s = (s', None) \<and> valid s' \<and> pending s' = []"
  using assms
proof (induction k arbitrary: buf s)
  case (Suc k)
  from Suc.prems(1) show ?case
  proof (cases rule: rd_cases [of s 1])
    case (short s')
    then have "pending (fst (rd s 1)) = []" by (intro rd_end Suc.prems(1)) simp
    with short show ?thesis by simp
  next
    case (enough s')
    then obtain c b where cb: "pending s = c # b" by (cases "pending s") auto
    with enough have rd: "rd s 1 = (s', Some [c])" and p: "pending s' = b" by auto
    have c: "c \<noteq> LF" "fst (split_line k b) = None"
      using Suc.prems(2) cb by (auto split: if_splits prod.splits)
    have "\<exists>s2. read_line_loop rd k (buf @ [c]) s' = (s2, None) \<and> valid s2 \<and> pending s2 = []"
      by (rule Suc.IH) (use enough(4) p c Suc.prems(3) cb in simp_all)
    with rd c show ?thesis by simp
  qed
qed simp

lemma header_loop_end:
  assumes "valid s" and "parse_headers key hv len (pending s) = None"
  shows "\<exists>s' h l. header_loop key rd hv len s = Some (s', h, l) \<and> valid s' \<and> pending s' = []"
  using assms
proof (induction "length (pending s)" arbitrary: s hv len rule: less_induct)
  case less
  from less.prems(1) show ?case
  proof (cases rule: read_line_spec)
    case (found s' line)
    have e: "parse_headers key hv len (pending s) =
        (if hd line = CR \<or> hd line = LF then Some (pending s', hv, len)
         else if key line then parse_headers key True (strtoul 64 (drop 15 line)) (pending s')
         else parse_headers key hv len (pending s'))"
      by (subst parse_headers.simps) (simp add: found(1))
    with less.prems(2) have nb: "\<not> (hd line = CR \<or> hd line = LF)" by (simp split: if_splits)
    have lt: "length (pending s') < length (pending s)" by (rule split_line_shorter [OF found(1)])
    define hv' where "hv' = (if key line then True else hv)"
    define len' where "len' = (if key line then strtoul 64 (drop 15 line) else len)"
    have n: "parse_headers key hv' len' (pending s') = None"
      using e nb less.prems(2) by (cases "key line") (simp_all add: hv'_def len'_def)
    have "header_loop key rd hv len s = header_loop key rd hv' len' s'"
      using found nb by (simp add: header_loop.simps [of key rd hv len s] hv'_def len'_def)
    with less.hyps [OF lt found(3) n] show ?thesis by simp
  next
    case (overlong s')
    then show ?thesis using less.prems(2)
      by (cases "split_line 255 (pending s)") (simp add: parse_headers.simps [of key hv len "pending s"])
  next
    case (eof s')
    from read_line_loop_end [OF less.prems(1) eof(1,2), of "[]"] eof(3) have "pending s' = []"
      by (simp add: read_line_def)
    with eof show ?thesis by (simp add: header_loop.simps [of key rd hv len s])
  qed
qed

lemma dxr_conn_read_frame_spec:
  assumes "valid s"
  shows "\<exists>s'. dxr_conn_read_frame rd s =
      Some (s', map_option fst (decode_frame adapter_key_match DXR_STDIO_MAX_MESSAGE_BYTES (pending s))) \<and> valid s' \<and>
    (\<forall>m t. decode_frame adapter_key_match DXR_STDIO_MAX_MESSAGE_BYTES (pending s) = Some (m, t) \<longrightarrow> pending s' = t)"
proof (cases "decode_frame adapter_key_match DXR_STDIO_MAX_MESSAGE_BYTES (pending s)")
  case (Some mt)
  then show ?thesis using dxr_conn_read_frame_decodes [OF assms] by (cases mt) auto
next
  case None
  have "\<exists>s' h l. header_loop adapter_key_match rd False 0 s = Some (s', h, l) \<and> valid s' \<and>
    (h \<and> l \<noteq> 0 \<and> l \<le> DXR_STDIO_MAX_MESSAGE_BYTES \<longrightarrow> length (pending s') < l)"
  proof (cases "parse_headers adapter_key_match False 0 (pending s)")
    case None
    from header_loop_end [OF assms this] show ?thesis by fastforce
  next
    case (Some x)
    obtain r h l where x: "x = (r, h, l)" by (cases x) auto
    from header_loop_spec [OF assms, of adapter_key_match False 0] Some x
    obtain s' where "header_loop adapter_key_match rd False 0 s = Some (s', h, l)" "valid s'" "pending s' = r" by auto
    with None Some x show ?thesis by (auto simp: decode_frame_def split: if_splits)
  qed
  then obtain s1 h l where s1: "header_loop adapter_key_match rd False 0 s = Some (s1, h, l)" "valid s1"
    "h \<and> l \<noteq> 0 \<and> l \<le> DXR_STDIO_MAX_MESSAGE_BYTES \<longrightarrow> length (pending s1) < l" by blast
  obtain s2 r where s2: "rd s1 l = (s2, r)" by fastforce
  with s1 rd_short [of s1 l] rd_valid [of s1 l] show ?thesis using None
    by (cases "h \<and> l \<noteq> 0 \<and> l \<le> DXR_STDIO_MAX_MESSAGE_BYTES") (auto simp: dxr_conn_read_frame_def)
qed

end

text \<open>A connection that delivers data and interruptions, then end of file: what a peer that closes
  its end gives.\<close>

definition rx_clean :: "rx_event list \<Rightarrow> bool" where
  "rx_clean es \<longleftrightarrow> (\<forall>e\<in>set es. e \<noteq> RxErr \<and> e \<noteq> RxData [])"

definition conn_clean :: "mcp_conn option \<Rightarrow> bool" where
  "conn_clean c \<longleftrightarrow> (case c of None \<Rightarrow> False | Some d \<Rightarrow> 0 \<le> conn_fd d \<and> rx_clean (rx d))"

lemma conn_clean_valid: "conn_clean c \<Longrightarrow> conn_valid c"
  by (auto simp: conn_clean_def conn_valid_def split: option.splits)

lemma conn_read_loop_clean:
  "rx_clean es \<Longrightarrow> conn_read_loop len acc es = (r, es') \<Longrightarrow>
     rx_clean es' \<and> (length (rx_bytes es) < len \<longrightarrow> es' = [])"
proof (induction len acc es arbitrary: r es' rule: conn_read_loop.induct)
  case (1 len acc)
  then show ?case by (auto split: if_splits)
next
  case (2 len acc e es)
  then show ?case by (cases e) (auto simp: rx_clean_def split: if_splits)
qed

interpretation posix_sticky: sticky_source mcp_conn_read conn_pending conn_clean
proof
  fix s :: "mcp_conn option" and n :: nat
  assume c: "conn_clean s"
  then obtain d where d: "s = Some d" "0 \<le> conn_fd d" "rx_clean (rx d)"
    by (auto simp: conn_clean_def split: option.splits)
  obtain r es where l: "conn_read_loop n [] (rx d) = (r, es)" by fastforce
  note cl = conn_read_loop_clean [OF d(3) l]
  show "conn_clean (fst (mcp_conn_read s n))"
    using d cl l by (simp add: conn_clean_def mcp_conn_read_def)
  show "n \<le> length (conn_pending s) \<Longrightarrow>
      snd (mcp_conn_read s n) = Some (take n (conn_pending s)) \<and> conn_pending (fst (mcp_conn_read s n)) = drop n (conn_pending s)"
    using mcp_conn_read_spec [where c = d and n = n] d(1) by auto
  show "length (conn_pending s) < n \<Longrightarrow> snd (mcp_conn_read s n) = None"
    using mcp_conn_read_spec [where c = d and n = n] d(1) by auto
  show "length (conn_pending s) < n \<Longrightarrow> conn_pending (fst (mcp_conn_read s n)) = []"
    using d cl l by (simp add: conn_pending_def mcp_conn_read_def)
qed

end
