(* ===== verification/Adapter_Pump.thy ===== *)
theory Adapter_Pump
  imports Stdio_Spec Server_Conns Frame_Stream
begin

text \<open>
  The bridge of \<^verbatim>\<open>adapter/displayxr_mcp.c\<close>: the two pump threads between standard input and
  output and a server connection, and the thread of \<open>main\<close> that ends them.  A pass of a pump is
  cut where it can block, so the steps below interleave as the threads do; a step that would block is
  not enabled.  What the threads make of the two streams is stated on the flat byte streams.
\<close>

section \<open>Standard output\<close>

text \<open>The results successive \<open>write()\<close> calls give are a script; when it is used up, standard output
  takes no more and the call does not return.\<close>

fun dxr_stdio_write_stdout :: "bytes \<Rightarrow> int list \<Rightarrow> bytes \<Rightarrow> (bool \<times> int list \<times> bytes) option" where
  "dxr_stdio_write_stdout buf [] out = (if buf = [] then Some (True, [], out) else None)"
| "dxr_stdio_write_stdout buf (w # ws) out =
     (if buf = [] then Some (True, w # ws, out)
      else if w \<le> 0 then Some (False, ws, out)
      else dxr_stdio_write_stdout (drop (nat w) buf) ws (out @ take (nat w) buf))"

lemma write_stdout_spec:
  assumes "dxr_stdio_write_stdout buf ws out = Some (ok, ws', out')"
  shows "\<exists>k\<le>length buf. out' = out @ take k buf" and "ok \<Longrightarrow> out' = out @ buf"
    and "\<forall>w\<in>set ws. 0 < w \<Longrightarrow> ok \<and> set ws' \<subseteq> set ws"
  using assms
proof (induction buf ws out arbitrary: ok rule: dxr_stdio_write_stdout.induct)
  case (2 buf w ws out)
  { case 1
    show ?case
    proof (cases "buf = [] \<or> w \<le> 0")
      case False
      with 2(1) 1 obtain k where "k \<le> length (drop (nat w) buf)"
        "out' = (out @ take (nat w) buf) @ take k (drop (nat w) buf)" by auto
      then have k: "nat w + k \<le> nat w + length (drop (nat w) buf)" "out' = out @ take (nat w + k) buf"
        by (simp_all add: take_add)
      show ?thesis
        using k by (intro exI [of _ "min (nat w + k) (length buf)"]) (simp add: min_def)
    qed (use 1 in \<open>auto intro: exI [of _ 0] split: if_splits\<close>) }
  { case 2
    with "2.IH"(2) show ?case by (auto split: if_splits) }
  { case 3
    with "2.IH"(3) show ?case by (auto split: if_splits) }
qed (auto split: if_splits intro: exI [of _ 0])

section \<open>The bridge and its steps\<close>

text \<open>\<open>p_up\<close> and \<open>p_down\<close> say which pump still runs, \<open>p_up_body\<close> and \<open>p_down_body\<close> are the
  messages they hold between reading and writing; \<open>p_aborted\<close> and \<open>p_closed\<close> are how far \<open>main\<close> got.\<close>

record bridge =
  p_reader :: "bytes list dxr_stdio_reader"
  p_conn :: "mcp_conn option"
  p_latch :: dxr_stdio_framing
  p_writes :: "int list"
  p_out :: bytes
  p_up :: bool
  p_up_body :: "bytes option"
  p_down :: bool
  p_down_body :: "bytes option"
  p_aborted :: bool
  p_closed :: bool

definition bridge_start :: "bytes list \<Rightarrow> int list \<Rightarrow> mcp_conn option \<Rightarrow> bridge" where
  "bridge_start chunks writes c =
     \<lparr>p_reader = dxr_stdio_reader_init chunks, p_conn = c, p_latch = dxr_stdio_framing_latch_init,
      p_writes = writes, p_out = [], p_up = True, p_up_body = None, p_down = True, p_down_body = None,
      p_aborted = False, p_closed = False\<rparr>"

text \<open>Standard input to connection: read a message and latch its framing, then write its frame.\<close>

definition pump_up_read :: "bridge \<Rightarrow> bridge option" where
  "pump_up_read b =
     (if \<not> p_up b \<or> p_up_body b \<noteq> None then None
      else
        case dxr_stdio_reader_next dxr_stdio_read_stdin (p_reader b) of
          None \<Rightarrow> None
        | Some (r, None) \<Rightarrow> Some (b\<lparr>p_reader := dxr_stdio_reader_fini r, p_up := False\<rparr>)
        | Some (r, Some body) \<Rightarrow>
            Some (b\<lparr>p_reader := r, p_latch := dxr_stdio_framing_latch_set (p_latch b) (r_framing r),
                    p_up_body := Some body\<rparr>))"

definition pump_up_write :: "bridge \<Rightarrow> bridge option" where
  "pump_up_write b =
     (case p_up_body b of
        None \<Rightarrow> None
      | Some body \<Rightarrow>
          (case dxr_conn_write_frame mcp_conn_write (p_conn b) body (length body) of
             None \<Rightarrow> None
           | Some (True, c) \<Rightarrow> Some (b\<lparr>p_conn := c, p_up_body := None\<rparr>)
           | Some (False, c) \<Rightarrow>
               Some (b\<lparr>p_conn := c, p_up_body := None, p_up := False,
                       p_reader := dxr_stdio_reader_fini (p_reader b)\<rparr>)))"

text \<open>Connection to standard output: read a frame, then write it in the client's framing once that is
  known.\<close>

definition pump_down_read :: "bridge \<Rightarrow> bridge option" where
  "pump_down_read b =
     (if \<not> p_down b \<or> p_down_body b \<noteq> None then None
      else
        case dxr_conn_read_frame mcp_conn_read (p_conn b) of
          None \<Rightarrow> None
        | Some (c, None) \<Rightarrow> Some (b\<lparr>p_conn := c, p_down := False\<rparr>)
        | Some (c, Some body) \<Rightarrow> Some (b\<lparr>p_conn := c, p_down_body := Some body\<rparr>))"

definition pump_down_write :: "bridge \<Rightarrow> bridge option" where
  "pump_down_write b =
     (case p_down_body b of
        None \<Rightarrow> None
      | Some body \<Rightarrow>
          (case dxr_stdio_framing_latch_wait (p_latch b) of
             None \<Rightarrow> None
           | Some f \<Rightarrow>
               (case dxr_stdio_write_stdout (dxr_stdio_encode f body) (p_writes b) (p_out b) of
                  None \<Rightarrow> None
                | Some (ok, ws, out) \<Rightarrow>
                    Some (b\<lparr>p_writes := ws, p_out := out, p_down_body := None, p_down := ok\<rparr>))))"

text \<open>\<open>main\<close>: after the first pump, unblock the second; after that one, close.\<close>

definition main_abort :: "bridge \<Rightarrow> bridge option" where
  "main_abort b =
     (if p_up b \<or> p_aborted b then None
      else Some (b\<lparr>p_latch := dxr_stdio_framing_latch_set (p_latch b) FRAMING_NDJSON,
                   p_conn := mcp_conn_abort (p_conn b), p_aborted := True\<rparr>))"

definition main_close :: "bridge \<Rightarrow> bridge option" where
  "main_close b =
     (if \<not> p_aborted b \<or> p_down b \<or> p_closed b then None
      else Some (b\<lparr>p_conn := mcp_conn_close (p_conn b), p_closed := True\<rparr>))"

inductive bridge_step :: "bridge \<Rightarrow> bridge \<Rightarrow> bool" where
  up_read: "pump_up_read b = Some b' \<Longrightarrow> bridge_step b b'"
| up_write: "pump_up_write b = Some b' \<Longrightarrow> bridge_step b b'"
| down_read: "pump_down_read b = Some b' \<Longrightarrow> bridge_step b b'"
| down_write: "pump_down_write b = Some b' \<Longrightarrow> bridge_step b b'"
| abort: "main_abort b = Some b' \<Longrightarrow> bridge_step b b'"
| close: "main_close b = Some b' \<Longrightarrow> bridge_step b b'"

text \<open>Runs of \<open>n\<close> steps from the start.\<close>

inductive bridge_run :: "bridge \<Rightarrow> nat \<Rightarrow> bridge \<Rightarrow> bool" for b0 where
  start: "bridge_run b0 0 b0"
| step: "bridge_run b0 n b \<Longrightarrow> bridge_step b b' \<Longrightarrow> bridge_run b0 (Suc n) b'"

end
