(* ===== verification/Adapter_Main.thy ===== *)
theory Adapter_Main
  imports Adapter_Pump Agg_Agent
begin

text \<open>
  The command line of \<^verbatim>\<open>adapter/displayxr_mcp.c\<close>: options, the session list, the choice of a
  target, and what \<open>main\<close> goes on to do.  \<open>peer\<close> is the world of endpoints a \<open>connect()\<close> finds by
  their address, \<open>dir\<close> the directory the session scan reads (both as in \<open>Transport\<close>).  The bridge that
  \<open>main\<close> then runs is in \<open>Adapter_Pump\<close>, the aggregator in the \<open>Agg_\<close> theories.
\<close>

section \<open>Usage\<close>

definition usage :: "bytes \<Rightarrow> bytes" where
  "usage argv0 =
     ''usage: '' @ argv0 @
     '' [--target <auto|workspace|<role>|pid:N>] [--expose-diagnostics] | --pid <N|auto> | --list'' @ [LF] @
     ''  --target auto      try known roles (shell, service), then unique PID session (default)'' @ [LF] @
     ''  --target workspace aggregate the shell + every per-PID app session behind one'' @ [LF] @
     ''                     MCP connection with <app-id>__<tool> namespacing; membership'' @ [LF] @
     ''                     mirrors live (apps joining/leaving emit tools/list_changed)'' @ [LF] @
     ''  --target <role>    attach to a named MCP endpoint (e.g. '' @ [CHR 0x27] @ ''shell'' @ [CHR 0x27] @
     '', '' @ [CHR 0x27] @ ''service'' @ [CHR 0x27] @ '')'' @ [LF] @
     ''                     resolves to /tmp/displayxr-mcp-<role>.sock or '' @
     [CHR 0x5C, CHR 0x5C, CHR ''.'', CHR 0x5C] @ ''pipe'' @ [CHR 0x5C] @ ''displayxr-mcp-<role>'' @ [LF] @
     ''  --target pid:N     attach to a specific in-process server (handle apps)'' @ [LF] @
     ''  --pid N | auto     back-compat form of --target pid:N / --target auto'' @ [LF] @
     ''  --expose-diagnostics  (workspace mode) also expose DIAGNOSTIC-group tools'' @ [LF] @
     ''  --list             print discovered sessions and exit'' @ [LF]"

section \<open>Options\<close>

record adapter_args =
  a_target :: "bytes option"
  a_list :: bool
  a_expose :: bool

text \<open>The target of \<open>--pid v\<close>.\<close>

definition pid_target :: "bytes \<Rightarrow> bytes" where
  "pid_target v = (if v = ''auto'' then ''auto'' else snprintf_s 64 (''pid:'' @ v))"

text \<open>The loop over the arguments after the program's name; \<open>None\<close> is the way to the usage text.\<close>

fun parse_args :: "bytes list \<Rightarrow> adapter_args \<Rightarrow> adapter_args option" where
  "parse_args [] a = Some a"
| "parse_args (x # xs) a =
     (if x = ''--target'' \<and> xs \<noteq> [] then parse_args (drop 1 xs) (a\<lparr>a_target := Some (hd xs)\<rparr>)
      else if x = ''--expose-diagnostics'' then parse_args xs (a\<lparr>a_expose := True\<rparr>)
      else if x = ''--pid'' \<and> xs \<noteq> [] then parse_args (drop 1 xs) (a\<lparr>a_target := Some (pid_target (hd xs))\<rparr>)
      else if x = ''--list'' then parse_args xs (a\<lparr>a_list := True\<rparr>)
      else None)"

section \<open>The session list\<close>

definition KNOWN_ROLES :: "bytes list" where
  "KNOWN_ROLES = [''shell'', ''service'']"

definition list_sessions :: "(bytes \<Rightarrow> mcp_conn option) \<Rightarrow> bytes list option \<Rightarrow> bytes" where
  "list_sessions peer dir =
     (let pids = mcp_enumerate_sessions dir 64
      in concat (map (\<lambda>r. r @ [LF]) (filter (\<lambda>r. mcp_conn_connect_named peer (Some r) \<noteq> None) KNOWN_ROLES)) @
         concat (map (\<lambda>p. show_int p @ [LF]) pids))"

section \<open>The target\<close>

text \<open>The first role that has an endpoint, with its name as the label.\<close>

fun try_roles :: "(bytes \<Rightarrow> mcp_conn option) \<Rightarrow> bytes list \<Rightarrow> (mcp_conn \<times> bytes) option" where
  "try_roles peer [] = None"
| "try_roles peer (r # rs) =
     (case mcp_conn_connect_named peer (Some r) of
        Some c \<Rightarrow> Some (c, r)
      | None \<Rightarrow> try_roles peer rs)"

definition pid_label :: "int \<Rightarrow> bytes" where
  "pid_label pid = snprintf_s 32 (''pid '' @ show_int pid)"

text \<open>\<open>Inl\<close>: an exit code and what goes to standard error.  \<open>Inr\<close>: the connection, if there is one, and
  the label for the message when there is none.\<close>

definition find_target ::
    "bytes \<Rightarrow> (bytes \<Rightarrow> mcp_conn option) \<Rightarrow> bytes list option \<Rightarrow> bytes \<Rightarrow> (int \<times> bytes) + (mcp_conn option \<times> bytes)"
where
  "find_target argv0 peer dir target =
     (if starts_with ''pid:'' target
      then let pid = fst (strtol 64 (drop 4 target))
           in if pid \<le> 0 then Inl (2, usage argv0)
              else Inr (mcp_conn_connect peer pid, pid_label pid)
      else if target = ''auto''
      then (case try_roles peer KNOWN_ROLES of
              Some (c, r) \<Rightarrow> Inr (Some c, r)
            | None \<Rightarrow>
                let pids = mcp_enumerate_sessions dir 64
                in if pids = [] then Inl (1, ''displayxr-mcp: no running MCP sessions found'' @ [LF])
                   else if 1 < length pids
                   then Inl (1, ''displayxr-mcp: '' @ show_nat (length pids) @
                               '' sessions found, pass --target pid:N explicitly'' @ [LF])
                   else Inr (mcp_conn_connect peer (hd pids), pid_label (hd pids)))
      else Inr (mcp_conn_connect_named peer (Some target), target))"

section \<open>main\<close>

text \<open>Where \<open>main\<close> ends up: it exits with a code and texts for standard output and standard error, runs
  the aggregator, or bridges a connection and exits with 0.\<close>

datatype adapter_action = Exit int bytes bytes | Workspace bool | Bridge "mcp_conn option"

definition adapter_main ::
    "bytes list \<Rightarrow> (bytes \<Rightarrow> mcp_conn option) \<Rightarrow> bytes list option \<Rightarrow> adapter_action" where
  "adapter_main argv peer dir =
     (case parse_args (drop 1 argv) \<lparr>a_target = None, a_list = False, a_expose = False\<rparr> of
        None \<Rightarrow> Exit 2 [] (usage (hd argv))
      | Some a \<Rightarrow>
          if a_list a then Exit 0 (list_sessions peer dir) []
          else
            let target = (case a_target a of None \<Rightarrow> ''auto'' | Some t \<Rightarrow> t)
            in if target = ''workspace'' then Workspace (a_expose a)
               else
                 (case find_target (hd argv) peer dir target of
                    Inl (code, msg) \<Rightarrow> Exit code [] msg
                  | Inr (None, label) \<Rightarrow> Exit 1 [] (''displayxr-mcp: cannot connect to '' @ label @ [LF])
                  | Inr (Some c, label) \<Rightarrow> Bridge (Some c)))"

section \<open>Which endpoint it is\<close>

lemma strtol_bounds: "- (2 ^ 63) \<le> fst (strtol 64 s) \<and> fst (strtol 64 s) < 2 ^ 63"
  by (auto simp: strtol_def Let_def split: option.splits)

lemma parse_target [simp]:
  "parse_args [''--target'', t] a = Some (a\<lparr>a_target := Some t\<rparr>)"
  "parse_args [''--pid'', t] a = Some (a\<lparr>a_target := Some (pid_target t)\<rparr>)"
  by simp_all

lemma pid_target_shown:
  assumes "0 < pid" and "pid < 2 ^ 63"
  shows "starts_with ''pid:'' (pid_target (show_int pid))" "drop 4 (pid_target (show_int pid)) = show_int pid"
    "fst (strtol 64 (show_int pid)) = pid" "pid_target (show_int pid) \<noteq> ''workspace''"
proof -
  have si: "show_int pid = show_nat (nat pid)" using assms(1) by (simp add: show_int_nat)
  have "nat pid < 2 ^ 63" using assms by (simp add: nat_less_iff)
  also have "(2 :: nat) ^ 63 < 10 ^ 20" by simp
  finally have len: "length (show_nat (nat pid)) \<le> 20" by (rule length_show_nat) simp
  obtain c cs where c: "show_nat (nat pid) = c # cs" by (cases "show_nat (nat pid)") simp_all
  have "isdigit c" using show_nat_digits [of "nat pid"] c by simp
  then have "show_int pid \<noteq> ''auto''" using c by (auto simp: si isdigit_def)
  then have p: "pid_target (show_int pid) = ''pid:'' @ show_int pid"
    using len by (simp add: pid_target_def si snprintf_s_fits)
  show "starts_with ''pid:'' (pid_target (show_int pid))" "drop 4 (pid_target (show_int pid)) = show_int pid"
    "pid_target (show_int pid) \<noteq> ''workspace''"
    by (simp_all add: p)
  show "fst (strtol 64 (show_int pid)) = pid"
    using strtol_show_nat [of "nat pid" 64 "[]"] assms by (simp add: si nat_less_iff)
qed

lemma show_pid_path:
  assumes "0 < pid" and "pid < 2 ^ 63"
  shows "build_sock_path 128 pid = SOCK_PREFIX @ show_int pid @ SOCK_SUFFIX"
    "snprintf_s 128 (SOCK_PREFIX @ show_int pid @ SOCK_SUFFIX) = SOCK_PREFIX @ show_int pid @ SOCK_SUFFIX"
    "snprintf_s 108 (SOCK_PREFIX @ show_int pid @ SOCK_SUFFIX) = SOCK_PREFIX @ show_int pid @ SOCK_SUFFIX"
proof -
  have "nat pid < 2 ^ 63" using assms by (simp add: nat_less_iff)
  also have "(2 :: nat) ^ 63 < 10 ^ 20" by simp
  finally have "length (show_nat (nat pid)) \<le> 20" by (rule length_show_nat) simp
  then have "length (SOCK_PREFIX @ show_int pid @ SOCK_SUFFIX) < 108"
    using assms(1) by (simp add: show_int_nat SOCK_PREFIX_def SOCK_SUFFIX_def)
  then show "build_sock_path 128 pid = SOCK_PREFIX @ show_int pid @ SOCK_SUFFIX"
    "snprintf_s 128 (SOCK_PREFIX @ show_int pid @ SOCK_SUFFIX) = SOCK_PREFIX @ show_int pid @ SOCK_SUFFIX"
    "snprintf_s 108 (SOCK_PREFIX @ show_int pid @ SOCK_SUFFIX) = SOCK_PREFIX @ show_int pid @ SOCK_SUFFIX"
    by (simp_all add: build_sock_path_def snprintf_s_fits)
qed

lemma main_target:
  assumes "args = [''--target'', t] \<or> args = [''--pid'', v] \<and> t = pid_target v" and "t \<noteq> ''workspace''"
  shows "adapter_main (argv0 # args) peer dir =
    (case find_target argv0 peer dir t of
       Inl (code, msg) \<Rightarrow> Exit code [] msg
     | Inr (None, label) \<Rightarrow> Exit 1 [] (''displayxr-mcp: cannot connect to '' @ label @ [LF])
     | Inr (Some c, label) \<Rightarrow> Bridge (Some c))"
  using assms by (auto simp: adapter_main_def)

lemma find_pid_target:
  assumes "starts_with ''pid:'' t"
  shows "find_target argv0 peer dir t =
    (if fst (strtol 64 (drop 4 t)) \<le> 0 then Inl (2, usage argv0)
     else Inr (mcp_conn_connect peer (fst (strtol 64 (drop 4 t))), pid_label (fst (strtol 64 (drop 4 t)))))"
  using assms by (simp add: find_target_def Let_def)

lemma connect_pid:
  "0 < pid \<Longrightarrow> pid < 2 ^ 63 \<Longrightarrow> mcp_conn_connect peer pid = peer (SOCK_PREFIX @ show_int pid @ SOCK_SUFFIX)"
  by (simp add: mcp_conn_connect_def conn_connect_path_def show_pid_path)

text \<open>C5. An adapter that is told a server's process id, or its role, reaches that server: it connects to the
  very address the server's listener was opened at.\<close>

theorem adapter_reaches_server:
  assumes "0 < pid \<and> pid < 2 ^ 63 \<and> mcp_listener_open env pid os = (Some l, os') \<and> args = [''--pid'', show_int pid] \<or>
      mcp_listener_open_named env (Some role) os = (Some l, os') \<and> length role \<le> 83 \<and> role \<notin> {''auto'', ''workspace''} \<and>
        \<not> starts_with ''pid:'' role \<and> args = [''--target'', role]"
    and "peer (l_path l) = Some c"
  shows "l_path l \<in> set (sock_files os') \<and> adapter_main (argv0 # args) peer dir = Bridge (Some c)"
  using assms(1)
proof (elim disjE conjE)
  assume p: "0 < pid" "pid < 2 ^ 63" and o: "mcp_listener_open env pid os = (Some l, os')"
    and a: "args = [''--pid'', show_int pid]"
  note path = show_pid_path [OF p]
  from o have l: "l_path l = SOCK_PREFIX @ show_int pid @ SOCK_SUFFIX" "l_path l \<in> set (sock_files os')"
    by (auto simp: mcp_listener_open_def listener_open_path_def path Let_def split: if_splits)
  note t = pid_target_shown [OF p]
  have "find_target argv0 peer dir (pid_target (show_int pid)) = Inr (Some c, pid_label pid)"
    using assms(2) p by (simp add: find_pid_target t connect_pid l(1))
  with l a main_target [of args "pid_target (show_int pid)" "show_int pid" argv0 peer dir] t(4) show ?thesis by simp
next
  assume o: "mcp_listener_open_named env (Some role) os = (Some l, os')" and len: "length role \<le> 83"
    and r: "role \<notin> {''auto'', ''workspace''}" "\<not> starts_with ''pid:'' role" and a: "args = [''--target'', role]"
  note path = sock_path_fits [OF len]
  from o have l: "l_path l = SOCK_PREFIX @ role @ SOCK_SUFFIX" "l_path l \<in> set (sock_files os')" "role \<noteq> []"
    by (auto simp: mcp_listener_open_named_def listener_open_path_def path Let_def split: if_splits)
  have "find_target argv0 peer dir role = Inr (Some c, role)"
    using assms(2) r l by (simp add: find_target_def mcp_conn_connect_named_def conn_connect_path_def path)
  with l a r main_target [of args role "[]" argv0 peer dir] show ?thesis by simp
qed

theorem adapter_reaches_server_witness:
  "adapter_main [''displayxr-mcp'', ''--pid'', ''4321'']
     (\<lambda>a. if a = ''/tmp/displayxr-mcp-4321.sock'' then Some (demo_conn [] []) else None) None =
   Bridge (Some (demo_conn [] []))"
proof -
  have s: "show_int 4321 = ''4321''" by (simp add: show_int_def show_nat.simps)
  let ?env = "\<lparr>socket_rc = 5, bind_fails = False, listen_rc = 0\<rparr>" and ?os = "\<lparr>sock_files = [], open_fds = []\<rparr>"
  obtain l os' where o: "mcp_listener_open ?env 4321 ?os = (Some l, os')"
    by (auto simp: mcp_listener_open_def listener_open_path_def Let_def os_unlink_def)
  then have "l_path l = ''/tmp/displayxr-mcp-4321.sock''"
    by (auto simp: mcp_listener_open_def listener_open_path_def Let_def os_unlink_def build_sock_path_def s
        SOCK_PREFIX_def SOCK_SUFFIX_def snprintf_s_def)
  with adapter_reaches_server [of 4321 ?env ?os l os' "[''--pid'', ''4321'']" "[]"
      "\<lambda>a. if a = ''/tmp/displayxr-mcp-4321.sock'' then Some (demo_conn [] []) else None" "demo_conn [] []"
      "''displayxr-mcp''" None] o s
  show ?thesis by simp
qed

text \<open>Whatever text follows \<open>--pid\<close>, other than \<open>auto\<close>, the adapter either explains its usage and
  exits with 2, exactly when the number read off it is not positive, or connects to the endpoint of a process
  id between 1 and the largest \<open>long\<close>, and reports in full which one when that fails.\<close>

theorem pid_option_bounds:
  assumes "v \<noteq> ''auto''"
  defines "pid \<equiv> fst (strtol 64 (take 59 v))"
  shows "adapter_main [argv0, ''--pid'', v] peer dir =
      (if pid \<le> 0 then Exit 2 [] (usage argv0)
       else case peer (SOCK_PREFIX @ show_int pid @ SOCK_SUFFIX) of
         Some c \<Rightarrow> Bridge (Some c)
       | None \<Rightarrow> Exit 1 [] (''displayxr-mcp: cannot connect to pid '' @ show_int pid @ [LF])) \<and>
    pid < 2 ^ 63"
proof -
  have b: "pid < 2 ^ 63" using strtol_bounds [of "take 59 v"] by (simp add: pid_def)
  have t: "starts_with ''pid:'' (pid_target v)" "drop 4 (pid_target v) = take 59 v" "pid_target v \<noteq> ''workspace''"
    using assms(1) by (simp_all add: pid_target_def snprintf_s_def)
  have lab: "pid_label pid = ''pid '' @ show_int pid" if p: "0 < pid"
  proof -
    have "nat pid < 2 ^ 63" using b p by (simp add: nat_less_iff)
    also have "(2 :: nat) ^ 63 < 10 ^ 20" by simp
    finally have "length (show_nat (nat pid)) \<le> 20" by (rule length_show_nat) simp
    with p show ?thesis by (simp add: pid_label_def show_int_nat snprintf_s_fits)
  qed
  have "adapter_main [argv0, ''--pid'', v] peer dir =
    (case find_target argv0 peer dir (pid_target v) of
       Inl (code, msg) \<Rightarrow> Exit code [] msg
     | Inr (None, label) \<Rightarrow> Exit 1 [] (''displayxr-mcp: cannot connect to '' @ label @ [LF])
     | Inr (Some c, label) \<Rightarrow> Bridge (Some c))"
    using main_target [of "[''--pid'', v]" "pid_target v" v argv0 peer dir] t(3) by simp
  with b lab show ?thesis
    unfolding find_pid_target [OF t(1)] t(2) pid_def [symmetric]
    by (cases "pid \<le> 0") (auto simp: connect_pid split: option.splits)
qed

theorem pid_option_bounds_witness:
  "adapter_main [''a'', ''--pid'', ''-7''] (\<lambda>_. None) None = Exit 2 [] (usage ''a'')"
proof -
  have "fst (strtol 64 (take 59 ''-7'')) \<le> 0"
    by (simp add: strtol_def scan_num_def isspace_def isdigit_def Let_def)
  with pid_option_bounds [of "''-7''" "''a''" "\<lambda>_. None" None] show ?thesis by simp
qed

end
