(* ===== verification/Adapter_Bridge.thy ===== *)
theory Adapter_Bridge
  imports Adapter_Pump
begin

text \<open>
  What the bridge does to the two streams.  \<open>up_inv\<close> ties the connection's sent bytes to the
  messages of standard input, \<open>down_inv\<close> the bytes on standard output to the frames the peer
  sends; both hold after every step of every interleaving.  A bound on the number of steps and a
  progress lemma show that the bridge ends.
\<close>

section \<open>Messages have a size the frames can carry\<close>

lemma nd_next_length: "nd_next b = Some (m, t) \<Longrightarrow> 0 < length m \<and> length m \<le> DXR_STDIO_MAX_MESSAGE_BYTES"
proof (induction b rule: nd_next.induct)
  case (1 b)
  have tr: "length (trim_ws x) \<le> length x" for x
    unfolding trim_ws_def using length_dropWhile_le [of is_ws x] length_dropWhile_le [of is_ws "rev (dropWhile is_ws x)"]
    by simp
  show ?case
  proof (cases "lf_index b")
    case None
    with "1.prems" tr [of b] show ?thesis by (subst (asm) nd_next.simps) (auto split: if_splits)
  next
    case (Some i)
    with 1 tr [of "take i b"] show ?thesis
      by (subst (asm) (2) nd_next.simps) (auto split: if_splits)
  qed
qed

lemma stream_next_size:
  assumes "stream_next f b = Some (Some (f', m, t))"
  shows "0 < length m \<and> length m \<le> DXR_STDIO_MAX_MESSAGE_BYTES"
proof -
  have c: "0 < length m \<and> length m \<le> DXR_STDIO_MAX_MESSAGE_BYTES" if "cl_next u = Some (Some (m, t))" for u
    using that by (auto simp: cl_next_def split: option.splits if_splits)
  from assms obtain g u where "framed_next g u = Some (Some (m, t))"
    by (auto simp: stream_next_def Let_def split: if_splits)
  then show ?thesis using c nd_next_length by (auto simp: framed_next_def split: if_splits)
qed

lemma stream_messages_step:
  assumes "stream_messages f b = Some ms"
  shows "(ms = [] \<and> stream_next f b = Some None) \<or>
    (\<exists>f' m t ms'. ms = m # ms' \<and> stream_next f b = Some (Some (f', m, t)) \<and> stream_messages f' t = Some ms')"
  using assms by (subst (asm) stream_messages.simps) (auto split: option.splits)

lemma stream_messages_size:
  "stream_messages f b = Some ms \<Longrightarrow> m \<in> set ms \<Longrightarrow> 0 < length m \<and> length m \<le> DXR_STDIO_MAX_MESSAGE_BYTES"
proof (induction ms arbitrary: f b)
  case (Cons x xs)
  from stream_messages_step [OF Cons.prems(1)] obtain f' t where
    st: "stream_next f b = Some (Some (f', x, t))" "stream_messages f' t = Some xs" by auto
  show ?case
    using stream_next_size [OF st(1)] Cons.IH [OF st(2)] Cons.prems(2) by (cases "m = x") simp_all
qed simp

lemma message_encodes:
  "length m \<le> DXR_STDIO_MAX_MESSAGE_BYTES \<Longrightarrow> encode_frame m = cl_header (length m) @ m"
  using frame_limits(2) by (intro encode_frame_parts) simp

section \<open>What one call does to a connection\<close>

lemma dxr_read_frame_tx:
  assumes "dxr_conn_read_frame mcp_conn_read s = Some (s', r)"
  shows "same_tx s s'"
proof -
  from assms obtain s1 h n where h1: "header_loop adapter_key_match mcp_conn_read False 0 s = Some (s1, h, n)"
    by (auto simp: dxr_conn_read_frame_def split: option.splits)
  have "same_tx s s1" using same_tx_header [OF h1 HOL.refl] by simp
  with assms h1 same_tx_read [of s1 n] show ?thesis
    by (auto simp: dxr_conn_read_frame_def split: if_splits intro: same_tx_trans)
qed

lemma dxr_read_frame_keeps:
  assumes "dxr_conn_read_frame mcp_conn_read s = Some (s', r)"
  shows "sending s' = sending s" "conn_sent s' = conn_sent s"
  using dxr_read_frame_tx [OF assms] by (auto simp: same_tx_def sending_def conn_sent_def split: option.splits)

text \<open>Writing touches nothing but the transmit side.\<close>

definition same_rx :: "mcp_conn option \<Rightarrow> mcp_conn option \<Rightarrow> bool" where
  "same_rx a b \<longleftrightarrow> (case a of None \<Rightarrow> b = None
     | Some c \<Rightarrow> (case b of None \<Rightarrow> False | Some c' \<Rightarrow> rx c' = rx c \<and> queued c' = queued c \<and> conn_fd c' = conn_fd c))"

lemma write_same_rx: "mcp_conn_write s b = Some (ok, s') \<Longrightarrow> same_rx s s'"
  by (auto simp: same_rx_def mcp_conn_write_def split: option.splits)

lemma frame_write_same_rx: "dxr_conn_write_frame mcp_conn_write s b n = Some (ok, s') \<Longrightarrow> same_rx s s'"
  by (auto simp: dxr_conn_write_frame_def write_parts_def same_rx_def split: option.splits bool.splits
      dest!: write_same_rx)

lemma same_rx_clean: "same_rx s s' \<Longrightarrow> conn_clean s' = conn_clean s \<and> conn_pending s' = conn_pending s"
  by (auto simp: same_rx_def conn_clean_def conn_pending_def split: option.splits)

lemma frame_write_sending:
  assumes "sending s" and "dxr_conn_write_frame mcp_conn_write s b n = Some (ok, s')"
  shows "ok \<and> sending s'"
proof -
  from assms(2) obtain ok1 s1 where w1: "mcp_conn_write s (cl_header n) = Some (ok1, s1)"
    by (auto simp: dxr_conn_write_frame_def write_parts_def split: option.splits)
  from write_sending [OF assms(1) w1] have o1: "ok1" "sending s1" by auto
  with w1 assms(2) have "mcp_conn_write s1 (take n b) = Some (ok, s')"
    by (simp add: dxr_conn_write_frame_def write_parts_def)
  from write_sending [OF o1(2) this] show ?thesis .
qed

lemma frame_write_sent:
  assumes "conn_valid s" and "dxr_conn_write_frame mcp_conn_write s m (length m) = Some (ok, s')"
    and "length m \<le> DXR_STDIO_MAX_MESSAGE_BYTES"
  shows "conn_valid s' \<and> (ok \<longrightarrow> conn_sent s' = conn_sent s @ encode_frame m) \<and>
    (\<exists>k. conn_sent s' = conn_sent s @ take k (encode_frame m))"
  using posix_sink.write_parts_cases [OF assms(1) assms(2) [unfolded dxr_conn_write_frame_def]]
    message_encodes [OF assms(3)]
  by (cases ok) (auto intro: exI [of _ "length (cl_header (length m) @ m)"])

lemma rx_bytes_take: "prefix (rx_bytes (take n es)) (rx_bytes es)"
proof (induction es arbitrary: n)
  case (Cons e es)
  then show ?case by (cases n; cases e) auto
qed simp

lemma abort_pending: "prefix (conn_pending (mcp_conn_abort s)) (conn_pending s)"
  by (cases s) (auto simp: mcp_conn_abort_def conn_pending_def rx_bytes_take)

lemma abort_clean: "conn_clean s \<Longrightarrow> conn_clean (mcp_conn_abort s)"
  by (auto simp: conn_clean_def mcp_conn_abort_def rx_clean_def split: option.splits dest: in_set_takeD)

text \<open>Everything the peer will send is in the socket buffer already, so an abort loses none of it.\<close>

definition all_queued :: "mcp_conn option \<Rightarrow> bool" where
  "all_queued c \<longleftrightarrow> (case c of None \<Rightarrow> True | Some d \<Rightarrow> length (rx d) \<le> queued d)"

lemma same_rx_queued: "same_rx s s' \<Longrightarrow> all_queued s' = all_queued s"
  by (auto simp: same_rx_def all_queued_def split: option.splits)

lemma conn_read_loop_rx: "conn_read_loop len acc es = (r, es') \<Longrightarrow> length es' \<le> length es"
  by (induction len acc es arbitrary: r es' rule: conn_read_loop.induct) (fastforce split: if_splits rx_event.splits)+

lemma all_queued_read: "all_queued s \<Longrightarrow> all_queued (fst (mcp_conn_read s n))"
  by (auto simp: all_queued_def mcp_conn_read_def split: option.splits prod.splits dest: conn_read_loop_rx)

lemma all_queued_line: "all_queued s \<Longrightarrow> all_queued (fst (read_line_loop mcp_conn_read k buf s))"
proof (induction k arbitrary: buf s)
  case (Suc k)
  obtain s1 x where x: "mcp_conn_read s 1 = (s1, x)" by fastforce
  with all_queued_read [OF Suc.prems, of 1] have "all_queued s1" by simp
  with x Suc.IH show ?case by (auto split: option.splits)
qed simp

lemma all_queued_header:
  "header_loop key rd' h l s = Some r \<Longrightarrow> rd' = mcp_conn_read \<Longrightarrow> all_queued s \<Longrightarrow> all_queued (fst r)"
proof (induction rule: header_loop.raw_induct [rotated, consumes 1, case_names step])
  case (step loop key rd' h l s r)
  obtain s1 line where r1: "read_line mcp_conn_read s 256 = (s1, line)" by fastforce
  then have w: "all_queued s1" using all_queued_line [OF step.prems(2), of 255 "[]"] by (simp add: read_line_def)
  have IH: "all_queued (fst r)" if "loop key mcp_conn_read a b s1 = Some r" for a b
    using step.IH [of key mcp_conn_read a b s1 r] that w by simp
  from step.hyps step.prems r1 w show ?case
    by (cases line) (auto split: if_splits dest!: IH)
qed

lemma all_queued_frame:
  assumes "all_queued s" and "dxr_conn_read_frame mcp_conn_read s = Some (s', r)"
  shows "all_queued s'"
proof -
  from assms(2) obtain s1 h n where h1: "header_loop adapter_key_match mcp_conn_read False 0 s = Some (s1, h, n)"
    by (auto simp: dxr_conn_read_frame_def split: option.splits)
  have "all_queued s1" using all_queued_header [OF h1 HOL.refl assms(1)] by simp
  with assms(2) h1 all_queued_read [of s1 n] show ?thesis
    by (auto simp: dxr_conn_read_frame_def split: if_splits)
qed

lemma all_queued_abort: "all_queued c \<Longrightarrow> all_queued (mcp_conn_abort c) \<and> conn_pending (mcp_conn_abort c) = conn_pending c"
  by (auto simp: all_queued_def mcp_conn_abort_def conn_pending_def split: option.splits)

section \<open>The invariant\<close>

abbreviation frames :: "bytes list \<Rightarrow> bytes" where
  "frames ms \<equiv> concat (map encode_frame ms)"

abbreviation lines :: "dxr_stdio_framing \<Rightarrow> bytes list \<Rightarrow> bytes" where
  "lines f ms \<equiv> concat (map (dxr_stdio_encode f) ms)"

text \<open>The framing the client's first message has; newline-delimited when it sends none.\<close>

definition client_framing :: "bytes \<Rightarrow> bytes list \<Rightarrow> dxr_stdio_framing" where
  "client_framing input ms = (if ms = [] then FRAMING_NDJSON else classify (strip input))"

text \<open>\<open>k\<close> messages were read from \<open>input\<close>, whose messages are \<open>ms\<close>; \<open>c0\<close> is the connection at
  the start.\<close>

definition reading_inv :: "bytes \<Rightarrow> bytes list \<Rightarrow> bridge \<Rightarrow> nat \<Rightarrow> bool" where
  "reading_inv input ms b k \<longleftrightarrow>
     reader_ok stdin_rest (p_reader b) \<and>
     stream_messages (r_framing (p_reader b)) (stream_of stdin_rest (p_reader b)) = Some (drop k ms) \<and>
     (if k = 0 then r_framing (p_reader b) = FRAMING_UNKNOWN \<and> stream_of stdin_rest (p_reader b) = input
      else r_framing (p_reader b) = client_framing input ms)"

definition sent_inv :: "bytes list \<Rightarrow> mcp_conn option \<Rightarrow> bridge \<Rightarrow> nat \<Rightarrow> bool" where
  "sent_inv ms c0 b k \<longleftrightarrow>
     (case p_up_body b of
        Some m \<Rightarrow> conn_sent (p_conn b) = conn_sent c0 @ frames (take (k - 1) ms)
      | None \<Rightarrow> if p_up b then conn_sent (p_conn b) = conn_sent c0 @ frames (take k ms)
               else prefix (conn_sent (p_conn b)) (conn_sent c0 @ frames ms)) \<and>
     (sending c0 \<longrightarrow> (\<not> p_aborted b \<longrightarrow> sending (p_conn b)) \<and>
        (\<not> p_up b \<longrightarrow> conn_sent (p_conn b) = conn_sent c0 @ frames ms))"

definition up_inv :: "bytes \<Rightarrow> bytes list \<Rightarrow> mcp_conn option \<Rightarrow> bridge \<Rightarrow> nat \<Rightarrow> bool" where
  "up_inv input ms c0 b k \<longleftrightarrow>
     k \<le> length ms \<and> (p_up b \<longrightarrow> reading_inv input ms b k) \<and>
     p_latch b = (if k = 0 \<and> \<not> p_aborted b then FRAMING_UNKNOWN else client_framing input ms) \<and>
     (\<not> p_up b \<and> k = 0 \<longrightarrow> ms = []) \<and> (p_aborted b \<longrightarrow> \<not> p_up b) \<and>
     (\<forall>m. p_up_body b = Some m \<longrightarrow> p_up b \<and> 0 < k \<and> m = ms ! (k - 1)) \<and>
     (p_closed b \<longrightarrow> p_aborted b \<and> \<not> p_down b) \<and>
     (\<not> p_closed b \<longrightarrow> conn_clean (p_conn b) \<and> sent_inv ms c0 b k)"

text \<open>\<open>j\<close> of the peer's frames \<open>fs\<close> were read.\<close>

definition lossless :: "mcp_conn option \<Rightarrow> bridge \<Rightarrow> bool" where
  "lossless c0 b \<longleftrightarrow> \<not> p_aborted b \<or> all_queued c0"

definition down_inv ::
    "dxr_stdio_framing \<Rightarrow> bytes list \<Rightarrow> mcp_conn option \<Rightarrow> int list \<Rightarrow> bridge \<Rightarrow> nat \<Rightarrow> bool" where
  "down_inv f fs c0 writes b j \<longleftrightarrow>
     j \<le> length fs \<and> (all_queued c0 \<longrightarrow> all_queued (p_conn b)) \<and>
     (p_down b \<longrightarrow> prefix (server_frames (conn_pending (p_conn b))) (drop j fs) \<and>
        (lossless c0 b \<longrightarrow> server_frames (conn_pending (p_conn b)) = drop j fs)) \<and>
     (case p_down_body b of
        Some m \<Rightarrow> p_down b \<and> 0 < j \<and> m = fs ! (j - 1) \<and> p_out b = lines f (take (j - 1) fs)
      | None \<Rightarrow> if p_down b then p_out b = lines f (take j fs) else prefix (p_out b) (lines f fs)) \<and>
     ((\<forall>w\<in>set writes. 0 < w) \<longrightarrow>
        (\<forall>w\<in>set (p_writes b). 0 < w) \<and> (\<not> p_down b \<and> lossless c0 b \<longrightarrow> p_out b = lines f fs))"

lemma take_last: "0 < k \<Longrightarrow> k \<le> length ms \<Longrightarrow> concat (map g (take (k - 1) ms)) @ g (ms ! (k - 1)) = concat (map g (take k ms))"
  by (cases k) (simp_all add: take_Suc_conv_app_nth)

lemma take_last_prefix:
  assumes "0 < k" and "k \<le> length ms"
  shows "prefix (concat (map g (take (k - 1) ms)) @ take i (g (ms ! (k - 1)))) (concat (map g ms))"
proof -
  have "prefix (concat (map g (take (k - 1) ms)) @ take i (g (ms ! (k - 1)))) (concat (map g (take k ms)))"
    using take_last [OF assms, of g, symmetric] by (simp add: take_is_prefix)
  also have "prefix (concat (map g (take k ms))) (concat (map g ms))"
    by (metis append_take_drop_id concat_append map_append prefixI)
  finally show ?thesis .
qed

lemma take_prefix: "prefix (concat (map g (take k ms))) (concat (map g ms))"
  by (metis append_take_drop_id concat_append map_append prefixI)

lemma client_framing_known: "client_framing input ms \<noteq> FRAMING_UNKNOWN"
  by (simp add: client_framing_def classify_def)

lemma bridge_start_inv:
  assumes "stream_messages FRAMING_UNKNOWN (stdin_rest chunks) = Some ms" and "conn_clean c0"
  shows "up_inv (stdin_rest chunks) ms c0 (bridge_start chunks writes c0) 0"
    and "down_inv f (server_frames (conn_pending c0)) c0 writes (bridge_start chunks writes c0) 0"
  using assms stdin_src.init_ok [of chunks]
  by (simp_all add: up_inv_def reading_inv_def sent_inv_def down_inv_def bridge_start_def
      dxr_stdio_framing_latch_init_def)

section \<open>Every step keeps the invariant\<close>

lemma reader_next_inv:
  assumes "reading_inv input ms b k" and "k \<le> length ms"
    and "dxr_stdio_reader_next dxr_stdio_read_stdin (p_reader b) = Some (r, m)"
  shows "(m = None \<and> k = length ms) \<or>
    (k < length ms \<and> m = Some (ms ! k) \<and> reader_ok stdin_rest r \<and> r_framing r = client_framing input ms \<and>
     stream_messages (r_framing r) (stream_of stdin_rest r) = Some (drop (Suc k) ms))"
proof -
  have ok: "reader_ok stdin_rest (p_reader b)"
    and sm: "stream_messages (r_framing (p_reader b)) (stream_of stdin_rest (p_reader b)) = Some (drop k ms)"
    and fr: "if k = 0 then r_framing (p_reader b) = FRAMING_UNKNOWN \<and> stream_of stdin_rest (p_reader b) = input
      else r_framing (p_reader b) = client_framing input ms"
    using assms(1) by (simp_all add: reading_inv_def)
  from stdin_src.reader_next_spec [OF ok] assms(3) have sp: "reader_ok stdin_rest r"
    "case stream_next (r_framing (p_reader b)) (stream_of stdin_rest (p_reader b)) of None \<Rightarrow> True | Some None \<Rightarrow> m = None
     | Some (Some (f, l, t)) \<Rightarrow> m = Some l \<and> r_framing r = f \<and> stream_of stdin_rest r = t" by auto
  from stream_messages_step [OF sm] show ?thesis
  proof (elim disjE exE conjE)
    assume "drop k ms = []" "stream_next (r_framing (p_reader b)) (stream_of stdin_rest (p_reader b)) = Some None"
    with sp assms(2) show ?thesis by simp
  next
    fix f x t ms'
    assume d: "drop k ms = x # ms'"
      and st: "stream_next (r_framing (p_reader b)) (stream_of stdin_rest (p_reader b)) = Some (Some (f, x, t))"
      and rest: "stream_messages f t = Some ms'"
    have k: "k < length ms" using d by (metis drop_all list.distinct(1) not_le)
    with d have x: "x = ms ! k" "ms' = drop (Suc k) ms" by (simp_all add: Cons_nth_drop_Suc [symmetric])
    have "f = client_framing input ms"
    proof (cases "k = 0")
      case True
      with st fr k show ?thesis by (auto simp: stream_next_def client_framing_def Let_def split: if_splits)
    next
      case False
      with st fr client_framing_known [of input ms] show ?thesis
        by (auto simp: stream_next_def split: if_splits)
    qed
    with sp st k x rest show ?thesis by auto
  qed
qed

lemma up_read_inv:
  assumes "up_inv input ms c0 b k" and "down_inv f fs c0 ws b j" and "pump_up_read b = Some b'"
  shows "\<exists>k. up_inv input ms c0 b' k" and "down_inv f fs c0 ws b' j"
proof -
  note u = assms(1)[unfolded up_inv_def]
  from assms(3) have run: "p_up b" "p_up_body b = None" by (auto simp: pump_up_read_def split: if_splits)
  then have na: "\<not> p_aborted b" "\<not> p_closed b" using u by auto
  from assms(3) run obtain r m where rn: "dxr_stdio_reader_next dxr_stdio_read_stdin (p_reader b) = Some (r, m)"
    by (auto simp: pump_up_read_def split: option.splits)
  have ri: "reading_inv input ms b k" "k \<le> length ms" using u run by auto
  have si: "sent_inv ms c0 b k" using u na by auto
  from reader_next_inv [OF ri rn] consider (stop) "m = None" "k = length ms"
    | (go) "k < length ms" "m = Some (ms ! k)" "reader_ok stdin_rest r" "r_framing r = client_framing input ms"
      "stream_messages (r_framing r) (stream_of stdin_rest r) = Some (drop (Suc k) ms)" by blast
  then show "\<exists>k. up_inv input ms c0 b' k"
  proof cases
    case stop
    with assms(3) run rn have b': "b' = b\<lparr>p_reader := dxr_stdio_reader_fini r, p_up := False\<rparr>"
      by (simp add: pump_up_read_def)
    have "up_inv input ms c0 b' k"
      using u run na si stop unfolding up_inv_def b' sent_inv_def by auto
    then show ?thesis ..
  next
    case go
    with assms(3) run rn have b': "b' = b\<lparr>p_reader := r,
        p_latch := dxr_stdio_framing_latch_set (p_latch b) (r_framing r), p_up_body := Some (ms ! k)\<rparr>"
      by (simp add: pump_up_read_def)
    have "dxr_stdio_framing_latch_set (p_latch b) (r_framing r) = client_framing input ms"
      using u go na by (auto simp: dxr_stdio_framing_latch_set_def client_framing_known)
    then have "up_inv input ms c0 b' (Suc k)"
      using u run na si go unfolding up_inv_def b' sent_inv_def reading_inv_def by auto
    then show ?thesis ..
  qed
  from assms(3) run rn have eqs: "p_conn b' = p_conn b" "p_down b' = p_down b" "p_down_body b' = p_down_body b"
    "p_out b' = p_out b" "p_writes b' = p_writes b" "p_aborted b' = p_aborted b"
    by (auto simp: pump_up_read_def split: option.splits)
  from assms(2) show "down_inv f fs c0 ws b' j" unfolding down_inv_def lossless_def eqs .
qed

lemma up_write_inv:
  assumes "up_inv input ms c0 b k" and "down_inv f fs c0 ws b j" and "pump_up_write b = Some b'"
    and "\<And>m. m \<in> set ms \<Longrightarrow> length m \<le> DXR_STDIO_MAX_MESSAGE_BYTES"
  shows "up_inv input ms c0 b' k" and "down_inv f fs c0 ws b' j"
proof -
  note u = assms(1)[unfolded up_inv_def]
  from assms(3) obtain m ok c where m: "p_up_body b = Some m"
    and w: "dxr_conn_write_frame mcp_conn_write (p_conn b) m (length m) = Some (ok, c)"
    by (auto simp: pump_up_write_def split: option.splits)
  then have run: "p_up b" "0 < k" "m = ms ! (k - 1)" "k \<le> length ms" using u by auto
  then have na: "\<not> p_aborted b" "\<not> p_closed b" using u by auto
  have cl: "conn_clean (p_conn b)" "sent_inv ms c0 b k" using u na by auto
  have "length m \<le> DXR_STDIO_MAX_MESSAGE_BYTES" using run assms(4) by simp
  note ws = frame_write_sent [OF conn_clean_valid [OF cl(1)] w this]
  note sr = frame_write_same_rx [OF w]
  have sent: "conn_sent (p_conn b) = conn_sent c0 @ frames (take (k - 1) ms)"
    and snd: "sending c0 \<longrightarrow> sending (p_conn b)"
    using cl(2) m na by (simp_all add: sent_inv_def)
  note tl = take_last [OF run(2,4), of encode_frame]
  obtain i where i: "conn_sent c = conn_sent (p_conn b) @ take i (encode_frame m)" using ws by blast
  have pre: "prefix (conn_sent c) (conn_sent c0 @ frames ms)"
    using take_last_prefix [OF run(2,4), of encode_frame i] by (simp add: i sent run(3))
  have si: "sent_inv ms c0 (b\<lparr>p_conn := c, p_up_body := None, p_up := ok, p_reader := r\<rparr>) k" for r
  proof (cases ok)
    case True
    have e: "conn_sent c = conn_sent c0 @ frames (take k ms)" using ws True sent tl run(3) by simp
    show ?thesis using frame_write_sending [OF _ w] snd e True run(1) na by (auto simp: sent_inv_def)
  next
    case False
    then have "\<not> sending c0" using frame_write_sending [OF _ w] snd by blast
    with pre False show ?thesis by (simp add: sent_inv_def)
  qed
  have cc: "conn_clean c" "conn_pending c = conn_pending (p_conn b)" "all_queued c = all_queued (p_conn b)"
    using same_rx_clean [OF sr] same_rx_queued [OF sr] cl(1) by simp_all
  show "up_inv input ms c0 b' k"
  proof (cases ok)
    case True
    with assms(3) m w have b': "b' = b\<lparr>p_conn := c, p_up_body := None\<rparr>" by (simp add: pump_up_write_def)
    have "sent_inv ms c0 b' k" using si [of "p_reader b"] True run(1) by (simp add: b' sent_inv_def)
    with u run na cc(1) show ?thesis unfolding up_inv_def b' reading_inv_def by auto
  next
    case False
    with assms(3) m w have b': "b' = b\<lparr>p_conn := c, p_up_body := None, p_up := False,
        p_reader := dxr_stdio_reader_fini (p_reader b)\<rparr>" by (simp add: pump_up_write_def)
    have "sent_inv ms c0 b' k" using si [of "dxr_stdio_reader_fini (p_reader b)"] False by (simp add: b')
    with u run na cc(1) show ?thesis unfolding up_inv_def b' by auto
  qed
  have eqs: "p_conn b' = c" "p_down b' = p_down b" "p_down_body b' = p_down_body b" "p_out b' = p_out b"
    "p_writes b' = p_writes b" "p_aborted b' = p_aborted b"
    using assms(3) m w by (auto simp: pump_up_write_def split: bool.splits)
  from assms(2) show "down_inv f fs c0 ws b' j" unfolding down_inv_def lossless_def eqs cc(2,3) .
qed

lemma down_read_inv:
  assumes "up_inv input ms c0 b k" and "down_inv f fs c0 ws b j" and "pump_down_read b = Some b'"
  shows "up_inv input ms c0 b' k" and "\<exists>j. down_inv f fs c0 ws b' j"
proof -
  note u = assms(1)[unfolded up_inv_def] and d = assms(2)[unfolded down_inv_def]
  let ?dec = "decode_frame adapter_key_match DXR_STDIO_MAX_MESSAGE_BYTES (conn_pending (p_conn b))"
  from assms(3) have run: "p_down b" "p_down_body b = None" by (auto simp: pump_down_read_def split: if_splits)
  then have nc: "\<not> p_closed b" using u by auto
  have cl: "conn_clean (p_conn b)" "sent_inv ms c0 b k" using u nc by auto
  from posix_sticky.dxr_conn_read_frame_spec [OF cl(1)] obtain c where
    rd: "dxr_conn_read_frame mcp_conn_read (p_conn b) = Some (c, map_option fst ?dec)" and c: "conn_clean c"
    "\<And>m t. ?dec = Some (m, t) \<Longrightarrow> conn_pending c = t" by auto
  note keep = dxr_read_frame_keeps [OF rd]
  have aq: "all_queued c0 \<longrightarrow> all_queued c" using d all_queued_frame [OF _ rd] by blast
  have b': "b' = (case map_option fst ?dec of None \<Rightarrow> b\<lparr>p_conn := c, p_down := False\<rparr>
      | Some m \<Rightarrow> b\<lparr>p_conn := c, p_down_body := Some m\<rparr>)"
    using assms(3) run rd by (cases ?dec) (simp_all add: pump_down_read_def)
  have eqs: "p_conn b' = c" "p_up b' = p_up b" "p_reader b' = p_reader b" "p_latch b' = p_latch b"
    "p_up_body b' = p_up_body b" "p_aborted b' = p_aborted b" "p_closed b' = p_closed b" "p_out b' = p_out b"
    "p_writes b' = p_writes b"
    by (simp_all add: b' split: option.splits)
  have "sent_inv ms c0 b' k" using cl(2) unfolding sent_inv_def eqs keep .
  moreover have "reading_inv input ms b' k = reading_inv input ms b k" unfolding reading_inv_def eqs ..
  ultimately show "up_inv input ms c0 b' k"
    using u nc c(1) unfolding up_inv_def eqs by blast
  have pf: "prefix (server_frames (conn_pending (p_conn b))) (drop j fs)"
    "lossless c0 b \<longrightarrow> server_frames (conn_pending (p_conn b)) = drop j fs" "p_out b = lines f (take j fs)" "j \<le> length fs"
    using d run by simp_all
  show "\<exists>j. down_inv f fs c0 ws b' j"
  proof (cases ?dec)
    case None
    then have e: "server_frames (conn_pending (p_conn b)) = []" by (subst frames_of.simps) simp
    from None have bb: "b' = b\<lparr>p_conn := c, p_down := False\<rparr>" by (simp add: b')
    have "p_out b = lines f fs" if "lossless c0 b"
      using pf that e by simp
    then have "down_inv f fs c0 ws b' j"
      using d run pf aq take_prefix [of "dxr_stdio_encode f" j fs]
      unfolding down_inv_def bb lossless_def by auto
    then show ?thesis ..
  next
    case (Some mt)
    obtain m t where mt: "mt = (m, t)" by fastforce
    with Some have e: "server_frames (conn_pending (p_conn b)) = m # server_frames (conn_pending c)"
      using c(2) by (subst frames_of.simps) simp
    with pf(1) have j: "j < length fs" by (cases "j < length fs") simp_all
    then have dj: "drop j fs = fs ! j # drop (Suc j) fs" by (rule Cons_nth_drop_Suc [symmetric])
    from Some mt have bb: "b' = b\<lparr>p_conn := c, p_down_body := Some m\<rparr>" by (simp add: b')
    have "down_inv f fs c0 ws b' (Suc j)"
      using d run pf aq j e dj unfolding down_inv_def bb lossless_def by auto
    then show ?thesis ..
  qed
qed

lemma down_write_inv:
  assumes "up_inv input ms c0 b k" and "down_inv (client_framing input ms) fs c0 ws b j" and "pump_down_write b = Some b'"
  shows "up_inv input ms c0 b' k" and "down_inv (client_framing input ms) fs c0 ws b' j"
proof -
  let ?f = "client_framing input ms"
  note u = assms(1)[unfolded up_inv_def] and d = assms(2)[unfolded down_inv_def]
  from assms(3) obtain m g where m: "p_down_body b = Some m" and "dxr_stdio_framing_latch_wait (p_latch b) = Some g"
    by (auto simp: pump_down_write_def split: option.splits)
  then have g: "dxr_stdio_framing_latch_wait (p_latch b) = Some ?f"
    using u by (auto simp: dxr_stdio_framing_latch_wait_def split: if_splits)
  with assms(3) m obtain ok ws' out where
    w: "dxr_stdio_write_stdout (dxr_stdio_encode ?f m) (p_writes b) (p_out b) = Some (ok, ws', out)"
    and b': "b' = b\<lparr>p_writes := ws', p_out := out, p_down_body := None, p_down := ok\<rparr>"
    by (auto simp: pump_down_write_def split: option.splits)
  have run: "p_down b" "0 < j" "j \<le> length fs" "m = fs ! (j - 1)" "p_out b = lines ?f (take (j - 1) fs)"
    using d m by simp_all
  have eqs: "p_conn b' = p_conn b" "p_up b' = p_up b" "p_reader b' = p_reader b" "p_latch b' = p_latch b"
    "p_up_body b' = p_up_body b" "p_aborted b' = p_aborted b" "p_closed b' = p_closed b"
    by (simp_all add: b')
  have "sent_inv ms c0 b' k = sent_inv ms c0 b k" "reading_inv input ms b' k = reading_inv input ms b k"
    unfolding sent_inv_def reading_inv_def eqs by (rule HOL.refl)+
  with u run show "up_inv input ms c0 b' k" unfolding up_inv_def eqs by blast
  note sp = write_stdout_spec [OF w]
  from sp(1) obtain i where i: "out = p_out b @ take i (dxr_stdio_encode ?f m)" by blast
  have pre: "prefix out (lines ?f fs)"
    using take_last_prefix [OF run(2,3), of "dxr_stdio_encode ?f" i] by (simp add: i run(4,5))
  have full: "out = lines ?f (take j fs)" if ok
    using sp(2) [OF that] take_last [OF run(2,3), of "dxr_stdio_encode ?f"] run(4,5) by simp
  have pos: "ok \<and> (\<forall>w\<in>set ws'. 0 < w)" if "\<forall>w\<in>set ws. 0 < w"
    using d that sp(3) by blast
  show "down_inv ?f fs c0 ws b' j"
  proof -
    have eqd: "p_down b' = ok" "p_down_body b' = None" "p_out b' = out" "p_writes b' = ws'" by (simp_all add: b')
    have ll: "lossless c0 b' = lossless c0 b" unfolding lossless_def eqs ..
    have "prefix (server_frames (conn_pending (p_conn b))) (drop j fs) \<and>
        (lossless c0 b \<longrightarrow> server_frames (conn_pending (p_conn b)) = drop j fs)"
      using d run(1) by blast
    with d run(3) full pre pos show ?thesis
      unfolding down_inv_def eqs eqd ll option.case by presburger
  qed
qed

lemma main_abort_inv:
  assumes "up_inv input ms c0 b k" and "down_inv f fs c0 ws b j" and "main_abort b = Some b'"
  shows "up_inv input ms c0 b' k" and "down_inv f fs c0 ws b' j"
proof -
  note u = assms(1)[unfolded up_inv_def] and d = assms(2)[unfolded down_inv_def]
  from assms(3) have run: "\<not> p_up b" "\<not> p_aborted b" by (auto simp: main_abort_def split: if_splits)
  then have nc: "\<not> p_closed b" using u by auto
  from assms(3) run have b': "b' = b\<lparr>p_latch := dxr_stdio_framing_latch_set (p_latch b) FRAMING_NDJSON,
      p_conn := mcp_conn_abort (p_conn b), p_aborted := True\<rparr>" by (simp add: main_abort_def)
  have cl: "conn_clean (p_conn b)" "sent_inv ms c0 b k" "p_up_body b = None" using u run nc by auto
  have latch: "p_latch b' = client_framing input ms"
  proof (cases "k = 0")
    case True
    with u run have "ms = []" "p_latch b = FRAMING_UNKNOWN" by simp_all
    then show ?thesis by (simp add: b' dxr_stdio_framing_latch_set_def client_framing_def)
  next
    case False
    with u have "p_latch b = client_framing input ms" by simp
    with client_framing_known [of input ms] show ?thesis by (simp add: b' dxr_stdio_framing_latch_set_def)
  qed
  have eqs: "p_conn b' = mcp_conn_abort (p_conn b)" "p_up b' = p_up b" "p_up_body b' = p_up_body b" "p_aborted b' = True"
    "p_closed b' = p_closed b" "p_down b' = p_down b" "p_down_body b' = p_down_body b" "p_out b' = p_out b"
    "p_writes b' = p_writes b" "p_reader b' = p_reader b"
    by (simp_all add: b')
  have "sent_inv ms c0 b' k"
    using cl(2,3) run unfolding sent_inv_def eqs by (simp add: mcp_conn_abort_facts)
  with u run nc cl latch abort_clean [OF cl(1)] show "up_inv input ms c0 b' k"
    unfolding up_inv_def eqs by simp
  have ab: "prefix (server_frames (conn_pending (mcp_conn_abort (p_conn b)))) (server_frames (conn_pending (p_conn b)))"
    by (intro frames_of_prefix abort_pending)
  then have pf: "prefix (server_frames (conn_pending (mcp_conn_abort (p_conn b)))) (drop j fs)" if "p_down b"
    using d that prefix_order.trans by blast
  have aq: "all_queued (mcp_conn_abort (p_conn b)) \<and> conn_pending (mcp_conn_abort (p_conn b)) = conn_pending (p_conn b)"
    if "all_queued c0" using d that all_queued_abort by blast
  have ll: "lossless c0 b" "lossless c0 b' = all_queued c0" using run eqs by (simp_all add: lossless_def)
  have "p_down b \<longrightarrow> prefix (server_frames (conn_pending (p_conn b'))) (drop j fs) \<and>
      (lossless c0 b' \<longrightarrow> server_frames (conn_pending (p_conn b')) = drop j fs)"
    using pf aq d ll unfolding eqs(1) by metis
  with d aq ll show "down_inv f fs c0 ws b' j"
    unfolding down_inv_def eqs by presburger
qed

lemma main_close_inv:
  assumes "up_inv input ms c0 b k" and "down_inv f fs c0 ws b j" and "main_close b = Some b'"
  shows "up_inv input ms c0 b' k" and "down_inv f fs c0 ws b' j"
proof -
  note u = assms(1)[unfolded up_inv_def] and d = assms(2)[unfolded down_inv_def]
  from assms(3) have run: "p_aborted b" "\<not> p_down b" and b': "b' = b\<lparr>p_conn := None, p_closed := True\<rparr>"
    by (auto simp: main_close_def mcp_conn_close_def split: if_splits)
  have eqs: "p_conn b' = None" "p_up b' = p_up b" "p_up_body b' = p_up_body b" "p_aborted b' = p_aborted b"
    "p_closed b' = True" "p_down b' = p_down b" "p_down_body b' = p_down_body b" "p_out b' = p_out b"
    "p_writes b' = p_writes b" "p_reader b' = p_reader b" "p_latch b' = p_latch b"
    by (simp_all add: b')
  have q: "reading_inv input ms b' k = reading_inv input ms b k" unfolding reading_inv_def eqs ..
  show "up_inv input ms c0 b' k" using u run q unfolding up_inv_def eqs by blast
  have "lossless c0 b' = lossless c0 b" "all_queued None" by (simp_all add: lossless_def b' all_queued_def)
  with d run show "down_inv f fs c0 ws b' j" unfolding down_inv_def eqs by presburger
qed

lemma bridge_run_inv:
  assumes "bridge_run (bridge_start chunks ws c0) n b"
    and "stream_messages FRAMING_UNKNOWN (stdin_rest chunks) = Some ms" and "conn_clean c0"
  shows "\<exists>k j. up_inv (stdin_rest chunks) ms c0 b k \<and>
    down_inv (client_framing (stdin_rest chunks) ms) (server_frames (conn_pending c0)) c0 ws b j"
  using assms(1)
proof (induction rule: bridge_run.induct)
  case start
  show ?case using bridge_start_inv [OF assms(2,3)] by blast
next
  case (step n b b')
  then obtain k j where u: "up_inv (stdin_rest chunks) ms c0 b k"
    and d: "down_inv (client_framing (stdin_rest chunks) ms) (server_frames (conn_pending c0)) c0 ws b j" by blast
  have sz: "length m \<le> DXR_STDIO_MAX_MESSAGE_BYTES" if "m \<in> set ms" for m
    using stream_messages_size [OF assms(2) that] by simp
  from step.hyps(2) show ?case
  proof cases
    case up_read
    from up_read_inv [OF u d this] show ?thesis by blast
  next
    case up_write
    from up_write_inv [OF u d this sz] show ?thesis by blast
  next
    case down_read
    from down_read_inv [OF u d this] show ?thesis by blast
  next
    case down_write
    from down_write_inv [OF u d this] show ?thesis by blast
  next
    case abort
    from main_abort_inv [OF u d this] show ?thesis by blast
  next
    case close
    from main_close_inv [OF u d this] show ?thesis by blast
  qed
qed

section \<open>The bridge ends\<close>

text \<open>What is left to do: two steps for every message and frame, one for the end of each pump, two for
  \<open>main\<close>.\<close>

definition up_left :: "bridge \<Rightarrow> nat" where
  "up_left b =
     (if p_up b
      then 2 * length (the (stream_messages (r_framing (p_reader b)) (stream_of stdin_rest (p_reader b)))) +
             (if p_up_body b = None then 1 else 2)
      else 0)"

definition down_left :: "bridge \<Rightarrow> nat" where
  "down_left b =
     (if p_down b
      then 2 * length (server_frames (conn_pending (p_conn b))) + (if p_down_body b = None then 1 else 2)
      else 0)"

definition main_left :: "bridge \<Rightarrow> nat" where
  "main_left b = (if p_aborted b then 0 else 1) + (if p_closed b then 0 else 1)"

definition bridge_left :: "bridge \<Rightarrow> nat" where
  "bridge_left b = up_left b + down_left b + main_left b"

lemma up_read_less:
  assumes "up_inv input ms c0 b k" and "pump_up_read b = Some b'"
  shows "bridge_left b' < bridge_left b"
proof -
  note u = assms(1)[unfolded up_inv_def]
  from assms(2) have run: "p_up b" "p_up_body b = None" by (auto simp: pump_up_read_def split: if_splits)
  from assms(2) run obtain r m where rn: "dxr_stdio_reader_next dxr_stdio_read_stdin (p_reader b) = Some (r, m)"
    by (auto simp: pump_up_read_def split: option.splits)
  have ri: "reading_inv input ms b k" "k \<le> length ms" using u run by auto
  have eqs: "down_left b' = down_left b" "main_left b' = main_left b"
    using assms(2) run rn by (auto simp: pump_up_read_def down_left_def main_left_def split: option.splits)
  have old: "up_left b = 2 * (length ms - k) + 1" using ri run by (simp add: up_left_def reading_inv_def)
  from reader_next_inv [OF ri rn] have "up_left b' < up_left b"
    unfolding old using assms(2) run rn by (auto simp: pump_up_read_def up_left_def)
  with eqs show ?thesis by (simp add: bridge_left_def)
qed

lemma up_write_less:
  assumes "up_inv input ms c0 b k" and "pump_up_write b = Some b'"
  shows "bridge_left b' < bridge_left b"
proof -
  note u = assms(1)[unfolded up_inv_def]
  from assms(2) obtain m ok c where m: "p_up_body b = Some m"
    and w: "dxr_conn_write_frame mcp_conn_write (p_conn b) m (length m) = Some (ok, c)"
    by (auto simp: pump_up_write_def split: option.splits)
  then have run: "p_up b" using u by auto
  have "conn_pending c = conn_pending (p_conn b)" using same_rx_clean [OF frame_write_same_rx [OF w]] by simp
  then have eqs: "down_left b' = down_left b" "main_left b' = main_left b"
    using assms(2) m w by (auto simp: pump_up_write_def down_left_def main_left_def split: bool.splits)
  have "up_left b' < up_left b"
    using assms(2) m w run by (auto simp: pump_up_write_def up_left_def split: bool.splits)
  with eqs show ?thesis by (simp add: bridge_left_def)
qed

lemma down_read_less:
  assumes "up_inv input ms c0 b k" and "pump_down_read b = Some b'"
  shows "bridge_left b' < bridge_left b"
proof -
  note u = assms(1)[unfolded up_inv_def]
  let ?dec = "decode_frame adapter_key_match DXR_STDIO_MAX_MESSAGE_BYTES (conn_pending (p_conn b))"
  from assms(2) have run: "p_down b" "p_down_body b = None" by (auto simp: pump_down_read_def split: if_splits)
  then have cl: "conn_clean (p_conn b)" using u by auto
  from posix_sticky.dxr_conn_read_frame_spec [OF cl] obtain c where
    rd: "dxr_conn_read_frame mcp_conn_read (p_conn b) = Some (c, map_option fst ?dec)"
    "\<And>m t. ?dec = Some (m, t) \<Longrightarrow> conn_pending c = t" by auto
  have eqs: "up_left b' = up_left b" "main_left b' = main_left b"
    using assms(2) run rd(1) by (cases ?dec; auto simp: pump_down_read_def up_left_def main_left_def)+
  have "down_left b' < down_left b"
  proof (cases ?dec)
    case None
    with assms(2) run rd(1) show ?thesis by (auto simp: pump_down_read_def down_left_def)
  next
    case (Some mt)
    obtain m t where mt: "mt = (m, t)" by fastforce
    with Some have "server_frames (conn_pending (p_conn b)) = m # server_frames (conn_pending c)"
      using rd(2) by (subst frames_of.simps) simp
    with assms(2) run rd(1) Some show ?thesis by (auto simp: pump_down_read_def down_left_def)
  qed
  with eqs show ?thesis by (simp add: bridge_left_def)
qed

lemma down_write_less:
  assumes "down_inv f fs c0 ws b j" and "pump_down_write b = Some b'"
  shows "bridge_left b' < bridge_left b"
proof -
  from assms(2) obtain m ok ws' out where m: "p_down_body b = Some m"
    and b': "b' = b\<lparr>p_writes := ws', p_out := out, p_down_body := None, p_down := ok\<rparr>"
    by (auto simp: pump_down_write_def split: option.splits)
  from assms(1) m have "p_down b" by (simp add: down_inv_def)
  with m show ?thesis by (simp add: b' bridge_left_def up_left_def down_left_def main_left_def)
qed

lemma abort_less:
  assumes "main_abort b = Some b'"
  shows "bridge_left b' < bridge_left b"
proof -
  from assms have na: "\<not> p_aborted b" and b': "b' = b\<lparr>p_latch := dxr_stdio_framing_latch_set (p_latch b) FRAMING_NDJSON,
      p_conn := mcp_conn_abort (p_conn b), p_aborted := True\<rparr>" by (auto simp: main_abort_def split: if_splits)
  have "length (server_frames (conn_pending (mcp_conn_abort (p_conn b)))) \<le> length (server_frames (conn_pending (p_conn b)))"
    by (intro prefix_length_le frames_of_prefix abort_pending)
  with na show ?thesis by (simp add: b' bridge_left_def up_left_def down_left_def main_left_def)
qed

lemma close_less:
  assumes "main_close b = Some b'"
  shows "bridge_left b' < bridge_left b"
proof -
  from assms have "\<not> p_down b" "\<not> p_closed b" and b': "b' = b\<lparr>p_conn := mcp_conn_close (p_conn b), p_closed := True\<rparr>"
    by (auto simp: main_close_def split: if_splits)
  then show ?thesis by (simp add: b' bridge_left_def up_left_def down_left_def main_left_def)
qed

lemma bridge_run_bound:
  assumes "bridge_run (bridge_start chunks ws c0) n b"
    and "stream_messages FRAMING_UNKNOWN (stdin_rest chunks) = Some ms" and "conn_clean c0"
  shows "n + bridge_left b \<le> 2 * length ms + 2 * length (server_frames (conn_pending c0)) + 4"
  using assms(1)
proof (induction rule: bridge_run.induct)
  case start
  show ?case
    using assms(2) stdin_src.init_ok [of chunks]
    by (simp add: bridge_left_def up_left_def down_left_def main_left_def bridge_start_def)
next
  case (step n b b')
  obtain k j where u: "up_inv (stdin_rest chunks) ms c0 b k"
    and d: "down_inv (client_framing (stdin_rest chunks) ms) (server_frames (conn_pending c0)) c0 ws b j"
    using bridge_run_inv [OF step.hyps(1) assms(2,3)] by blast
  from step.hyps(2) have "bridge_left b' < bridge_left b"
    by cases (use up_read_less [OF u] up_write_less [OF u] down_read_less [OF u] down_write_less [OF d]
      abort_less close_less in blast)+
  with step.IH show ?case by simp
qed

text \<open>A step is missing only where the bridge waits for its client or its server to take bytes.\<close>

definition waits_for_server :: "bridge \<Rightarrow> bool" where
  "waits_for_server b \<longleftrightarrow>
     (\<exists>m. p_up_body b = Some m \<and> dxr_conn_write_frame mcp_conn_write (p_conn b) m (length m) = None)"

definition waits_for_client :: "bridge \<Rightarrow> bool" where
  "waits_for_client b \<longleftrightarrow>
     (\<exists>m. p_down_body b = Some m \<and> dxr_stdio_write_stdout (dxr_stdio_encode (p_latch b) m) (p_writes b) (p_out b) = None)"

lemma bridge_progress:
  assumes "up_inv input ms c0 b k" and "down_inv f fs c0 ws b j"
    and "\<not> (\<exists>b'. bridge_step b b')"
  shows "p_closed b \<or> waits_for_server b \<or> waits_for_client b"
proof (rule ccontr)
  note u = assms(1)[unfolded up_inv_def] and d = assms(2)[unfolded down_inv_def]
  have st: "pump_up_read b = None" "pump_up_write b = None" "pump_down_read b = None" "pump_down_write b = None"
    "main_abort b = None" "main_close b = None"
    using assms(3) bridge_step.intros [of b] by (metis not_None_eq)+
  assume n: "\<not> (p_closed b \<or> waits_for_server b \<or> waits_for_client b)"
  have up: "\<not> p_up b"
  proof
    assume r: "p_up b"
    show False
    proof (cases "p_up_body b")
      case None
      have "reader_ok stdin_rest (p_reader b)" using u r by (simp add: reading_inv_def)
      from stdin_src.reader_next_spec [OF this] obtain r' m where
        "dxr_stdio_reader_next dxr_stdio_read_stdin (p_reader b) = Some (r', m)" by blast
      with st r None show False by (cases m) (auto simp: pump_up_read_def)
    next
      case (Some m)
      with n obtain ok c where "dxr_conn_write_frame mcp_conn_write (p_conn b) m (length m) = Some (ok, c)"
        by (auto simp: waits_for_server_def)
      with st Some show False by (cases ok) (auto simp: pump_up_write_def)
    qed
  qed
  then have ab: "p_aborted b" using st(5) by (cases "p_aborted b") (simp_all add: main_abort_def)
  have "\<not> p_down b"
  proof
    assume r: "p_down b"
    show False
    proof (cases "p_down_body b")
      case None
      have "conn_clean (p_conn b)" using u n by auto
      from posix_sticky.dxr_conn_read_frame_spec [OF this] obtain c m where
        "dxr_conn_read_frame mcp_conn_read (p_conn b) = Some (c, m)" by blast
      with st r None show False by (cases m) (auto simp: pump_down_read_def)
    next
      case (Some m)
      have "dxr_stdio_framing_latch_wait (p_latch b) = Some (p_latch b)"
        using u ab client_framing_known [of input ms] by (simp add: dxr_stdio_framing_latch_wait_def)
      with st n Some show False by (auto simp: pump_down_write_def waits_for_client_def)
    qed
  qed
  with st(6) n ab show False by (simp add: main_close_def)
qed

section \<open>What each pump can do\<close>

text \<open>A server that takes bytes gets all messages, a client that takes bytes all frames.\<close>

lemma bridge_run_trans: "bridge_run b m c \<Longrightarrow> bridge_run a n b \<Longrightarrow> bridge_run a (n + m) c"
  by (induction rule: bridge_run.induct) (auto intro: bridge_run.step)

lemma bridge_run_two: "bridge_step a b \<Longrightarrow> bridge_step b c \<Longrightarrow> bridge_run a (Suc (Suc 0)) c"
  by (blast intro: bridge_run.intros)

lemma drain_up:
  assumes "reading_inv input ms b k" and "k \<le> length ms" and "p_up b" and "p_up_body b = None"
    and "can_take (length (frames (drop k ms))) (p_conn b)"
    and "\<And>m. m \<in> set ms \<Longrightarrow> length m \<le> DXR_STDIO_MAX_MESSAGE_BYTES"
  shows "\<exists>n r l c. bridge_run b n (b\<lparr>p_reader := r, p_latch := l, p_conn := c, p_up := False\<rparr>) \<and>
    same_rx (p_conn b) c \<and> (p_latch b \<noteq> FRAMING_UNKNOWN \<or> k < length ms \<longrightarrow> l \<noteq> FRAMING_UNKNOWN)"
  using assms(1-5)
proof (induction "length ms - k" arbitrary: b k)
  case 0
  have "reader_ok stdin_rest (p_reader b)" using 0 by (simp add: reading_inv_def)
  from stdin_src.reader_next_spec [OF this] obtain r m where
    rn: "dxr_stdio_reader_next dxr_stdio_read_stdin (p_reader b) = Some (r, m)" by blast
  from reader_next_inv [OF 0(2,3) rn] 0 have "m = None" by auto
  with 0 rn have "bridge_step b (b\<lparr>p_reader := dxr_stdio_reader_fini r, p_latch := p_latch b, p_conn := p_conn b, p_up := False\<rparr>)"
    by (intro bridge_step.up_read) (simp add: pump_up_read_def)
  from bridge_run.step [OF bridge_run.start this] 0 show ?case
    by (fastforce simp: same_rx_def split: option.splits)
next
  case (Suc j)
  have "reader_ok stdin_rest (p_reader b)" using Suc.prems by (simp add: reading_inv_def)
  from stdin_src.reader_next_spec [OF this] obtain r m where
    rn: "dxr_stdio_reader_next dxr_stdio_read_stdin (p_reader b) = Some (r, m)" by blast
  from reader_next_inv [OF Suc.prems(1,2) rn] Suc.hyps(2) have
    k: "k < length ms" "m = Some (ms ! k)" "reader_ok stdin_rest r" "r_framing r = client_framing input ms"
    "stream_messages (r_framing r) (stream_of stdin_rest r) = Some (drop (Suc k) ms)" by auto
  let ?l = "dxr_stdio_framing_latch_set (p_latch b) (r_framing r)"
  let ?b1 = "b\<lparr>p_reader := r, p_latch := ?l, p_up_body := Some (ms ! k)\<rparr>"
  have l: "?l \<noteq> FRAMING_UNKNOWN" using client_framing_known [of input ms] k(4)
    by (simp add: dxr_stdio_framing_latch_set_def)
  have s1: "bridge_step b ?b1"
    using Suc.prems rn k by (intro bridge_step.up_read) (simp add: pump_up_read_def)
  have "frames (drop k ms) = encode_frame (ms ! k) @ frames (drop (Suc k) ms)"
    using k(1) by (simp add: Cons_nth_drop_Suc [symmetric])
  moreover have "encode_frame (ms ! k) = cl_header (length (ms ! k)) @ ms ! k"
    using assms(6) k(1) by (simp add: message_encodes)
  ultimately have "can_take (length (frames (drop (Suc k) ms)) + length (cl_header (length (ms ! k)) @ ms ! k)) (p_conn b)"
    using Suc.prems(5) by (simp add: ac_simps)
  from parts_take [OF this] obtain c where
    c: "dxr_conn_write_frame mcp_conn_write (p_conn b) (ms ! k) (length (ms ! k)) = Some (True, c)"
      "can_take (length (frames (drop (Suc k) ms))) c"
    by (auto simp: dxr_conn_write_frame_def)
  let ?b2 = "?b1\<lparr>p_conn := c, p_up_body := None\<rparr>"
  have s2: "bridge_step ?b1 ?b2"
    using c(1) by (intro bridge_step.up_write) (simp add: pump_up_write_def)
  have "reading_inv input ms ?b2 (Suc k)" using k(3-5) by (simp add: reading_inv_def)
  moreover have "j = length ms - Suc k" using Suc.hyps(2) by simp
  ultimately obtain n r' l' c' where
    run: "bridge_run ?b2 n (?b2\<lparr>p_reader := r', p_latch := l', p_conn := c', p_up := False\<rparr>)"
    and rx: "same_rx c c'" and l': "l' \<noteq> FRAMING_UNKNOWN"
    using Suc.hyps(1) [of "Suc k" ?b2] Suc.prems(3) k(1) c(2) l by (fastforce simp del: bridge.update_convs)
  have "same_rx (p_conn b) c'"
    using frame_write_same_rx [OF c(1)] rx by (auto simp: same_rx_def split: option.splits)
  moreover have "?b2\<lparr>p_reader := r', p_latch := l', p_conn := c', p_up := False\<rparr> =
      b\<lparr>p_reader := r', p_latch := l', p_conn := c', p_up := False\<rparr>"
    using Suc.prems(4) by (cases b) simp
  ultimately show ?case using bridge_run_trans [OF run bridge_run_two [OF s1 s2]] l' by metis
qed

lemma stdout_takes:
  assumes "\<forall>w\<in>set ws. 0 < w" and "n + length buf \<le> length ws"
  shows "\<exists>ws' out'. dxr_stdio_write_stdout buf ws out = Some (True, ws', out') \<and> n \<le> length ws'"
  using assms
proof (induction buf ws out rule: dxr_stdio_write_stdout.induct)
  case (2 buf w ws out)
  show ?case
  proof (cases "buf = []")
    case False
    then have "0 < length buf" by simp
    moreover have w: "0 < w" using "2.prems" by simp
    ultimately have "length (drop (nat w) buf) < length buf" by simp
    then have "n + length (drop (nat w) buf) \<le> length ws" using "2.prems"(2) by (simp del: length_drop)
    with "2.IH" False w "2.prems"(1) show ?thesis by simp
  qed (use "2.prems" in simp)
qed simp

lemma drain_down:
  assumes "conn_clean (p_conn b)" and "p_down b" and "p_down_body b = None" and "p_latch b \<noteq> FRAMING_UNKNOWN"
    and "\<forall>w\<in>set (p_writes b). 0 < w"
    and "length (lines (p_latch b) (server_frames (conn_pending (p_conn b)))) \<le> length (p_writes b)"
  shows "\<exists>n c ws out. bridge_run b n (b\<lparr>p_conn := c, p_writes := ws, p_out := out, p_down := False\<rparr>)"
  using assms
proof (induction "server_frames (conn_pending (p_conn b))" arbitrary: b)
  case Nil
  let ?dec = "decode_frame adapter_key_match DXR_STDIO_MAX_MESSAGE_BYTES (conn_pending (p_conn b))"
  have "?dec = None" using Nil(1) by (subst (asm) frames_of.simps) (auto split: option.splits)
  with posix_sticky.dxr_conn_read_frame_spec [OF Nil(2)] obtain c where
    "dxr_conn_read_frame mcp_conn_read (p_conn b) = Some (c, None)" by auto
  with Nil have "bridge_step b (b\<lparr>p_conn := c, p_writes := p_writes b, p_out := p_out b, p_down := False\<rparr>)"
    by (intro bridge_step.down_read) (simp add: pump_down_read_def)
  from bridge_run.step [OF bridge_run.start this] show ?case by blast
next
  case (Cons m fs)
  let ?dec = "decode_frame adapter_key_match DXR_STDIO_MAX_MESSAGE_BYTES (conn_pending (p_conn b))"
  obtain t where dec: "?dec = Some (m, t)" and fs: "fs = server_frames t"
    using Cons(2) by (subst (asm) frames_of.simps) (auto split: option.splits)
  from posix_sticky.dxr_conn_read_frame_spec [OF Cons(3)] dec obtain c where
    c: "dxr_conn_read_frame mcp_conn_read (p_conn b) = Some (c, Some m)" "conn_clean c" "conn_pending c = t" by auto
  let ?b1 = "b\<lparr>p_conn := c, p_down_body := Some m\<rparr>"
  have s1: "bridge_step b ?b1"
    using Cons c by (intro bridge_step.down_read) (simp add: pump_down_read_def)
  let ?e = "dxr_stdio_encode (p_latch b) m"
  have "length (lines (p_latch b) fs) + length ?e \<le> length (p_writes b)"
    using Cons.prems(6) unfolding Cons.hyps(2) [symmetric] by simp
  from stdout_takes [OF Cons.prems(5) this, of "p_out b"] obtain ws out where
    w: "dxr_stdio_write_stdout ?e (p_writes b) (p_out b) = Some (True, ws, out)" "length (lines (p_latch b) fs) \<le> length ws"
    by blast
  let ?b2 = "?b1\<lparr>p_writes := ws, p_out := out, p_down_body := None, p_down := True\<rparr>"
  have s2: "bridge_step ?b1 ?b2"
    using w(1) Cons.prems(4) by (intro bridge_step.down_write) (simp add: pump_down_write_def dxr_stdio_framing_latch_wait_def)
  have "\<forall>w\<in>set ws. 0 < w" using write_stdout_spec(3) [OF w(1)] Cons.prems(5) by blast
  with Cons.hyps(1) [of ?b2] c w(2) fs Cons.prems(4) obtain n c' ws' out' where
    "bridge_run ?b2 n (?b2\<lparr>p_conn := c', p_writes := ws', p_out := out', p_down := False\<rparr>)" by auto
  moreover have "?b2\<lparr>p_conn := c', p_writes := ws', p_out := out', p_down := False\<rparr> =
      b\<lparr>p_conn := c', p_writes := ws', p_out := out', p_down := False\<rparr>"
    using Cons.prems(3) by (cases b) simp
  ultimately show ?case using bridge_run_trans [OF _ bridge_run_two [OF s1 s2]] by metis
qed

section \<open>What the bridge guarantees\<close>

lemma sent_all:
  assumes "bridge_run (bridge_start chunks ws c0) n b"
    and "stream_messages FRAMING_UNKNOWN (stdin_rest chunks) = Some ms" and "conn_clean c0" and "\<not> p_closed b"
  shows "prefix (conn_sent (p_conn b)) (conn_sent c0 @ frames ms)"
    and "sending c0 \<Longrightarrow> \<not> p_up b \<Longrightarrow> conn_sent (p_conn b) = conn_sent c0 @ frames ms"
proof -
  obtain k where u: "up_inv (stdin_rest chunks) ms c0 b k" using bridge_run_inv [OF assms(1-3)] by blast
  then have si: "sent_inv ms c0 b k" using assms(4) by (simp add: up_inv_def)
  show "prefix (conn_sent (p_conn b)) (conn_sent c0 @ frames ms)"
    using si take_prefix [of encode_frame] by (auto simp: sent_inv_def split: option.splits if_splits)
  show "sending c0 \<Longrightarrow> \<not> p_up b \<Longrightarrow> conn_sent (p_conn b) = conn_sent c0 @ frames ms"
    using si by (simp add: sent_inv_def)
qed

lemma relayed_all:
  assumes "bridge_run (bridge_start chunks ws c0) n b"
    and "stream_messages FRAMING_UNKNOWN (stdin_rest chunks) = Some ms" and "conn_clean c0"
    and "\<forall>w\<in>set ws. 0 < w" and "\<not> p_down b" and "\<not> p_aborted b \<or> all_queued c0"
  shows "p_out b = lines (client_framing (stdin_rest chunks) ms) (server_frames (conn_pending c0))"
  using bridge_run_inv [OF assms(1-3)] assms(4-6) by (auto simp: down_inv_def lossless_def)

text \<open>C2. However the two pumps and the main thread interleave, the server gets the client's messages as
  frames, in order, none invented, none cut before its turn; and when its socket takes bytes, all of them
  have been sent once the first pump has ended.\<close>

theorem bridge_forwards_messages:
  assumes "bridge_run (bridge_start chunks ws c0) n b"
    and "stream_messages FRAMING_UNKNOWN (stdin_rest chunks) = Some ms" and "conn_clean c0" and "\<not> p_closed b"
  shows "prefix (conn_sent (p_conn b)) (conn_sent c0 @ concat (map encode_frame ms)) \<and>
    (sending c0 \<and> \<not> p_up b \<longrightarrow> conn_sent (p_conn b) = conn_sent c0 @ concat (map encode_frame ms))"
  using sent_all [OF assms] by blast

text \<open>C3. The client gets the server's frames in its own framing, that of its first message, in order, none
  invented and none changed; all of them, when its end takes the bytes and the second pump has ended, unless
  the bridge cut the connection while frames were still under way.\<close>

theorem bridge_relays_replies:
  assumes "bridge_run (bridge_start chunks ws c0) n b"
    and "stream_messages FRAMING_UNKNOWN (stdin_rest chunks) = Some ms" and "conn_clean c0"
  shows "prefix (p_out b) (concat (map (dxr_stdio_encode (client_framing (stdin_rest chunks) ms)) (server_frames (conn_pending c0)))) \<and>
    ((\<forall>w\<in>set ws. 0 < w) \<and> \<not> p_down b \<and> (\<not> p_aborted b \<or> all_queued c0) \<longrightarrow>
      p_out b = concat (map (dxr_stdio_encode (client_framing (stdin_rest chunks) ms)) (server_frames (conn_pending c0))))"
proof -
  let ?f = "client_framing (stdin_rest chunks) ms" and ?fs = "server_frames (conn_pending c0)"
  obtain j where d: "down_inv ?f ?fs c0 ws b j" using bridge_run_inv [OF assms] by blast
  then have "prefix (p_out b) (lines ?f ?fs)"
    using take_prefix [of "dxr_stdio_encode ?f"] by (auto simp: down_inv_def split: option.splits if_splits)
  with relayed_all [OF assms] show ?thesis by blast
qed

lemma bridge_delivers:
  assumes "stream_messages FRAMING_UNKNOWN (stdin_rest chunks) = Some ms" and "ms \<noteq> []" and "conn_clean c0"
    and "can_take (length (frames ms)) c0" and "\<forall>w\<in>set ws. 0 < w"
    and "length (lines (client_framing (stdin_rest chunks) ms) (server_frames (conn_pending c0))) \<le> length ws"
  shows "\<exists>n b. bridge_run (bridge_start chunks ws c0) n b \<and> \<not> p_up b \<and> \<not> p_down b \<and> \<not> p_aborted b \<and> \<not> p_closed b \<and>
    conn_sent (p_conn b) = conn_sent c0 @ frames ms \<and>
    p_out b = lines (client_framing (stdin_rest chunks) ms) (server_frames (conn_pending c0))"
proof -
  let ?b0 = "bridge_start chunks ws c0"
  have start: "p_up ?b0" "p_up_body ?b0 = None" "p_down ?b0" "p_down_body ?b0 = None" "p_conn ?b0 = c0"
    "\<not> p_aborted ?b0" "\<not> p_closed ?b0" "p_writes ?b0 = ws"
    by (simp_all add: bridge_start_def)
  have "reading_inv (stdin_rest chunks) ms ?b0 0"
    using bridge_start_inv(1) [OF assms(1,3), of ws] start by (simp add: up_inv_def)
  from drain_up [OF this] assms(2,4) stream_messages_size [OF assms(1)] start obtain n r l c where
    up: "bridge_run ?b0 n (?b0\<lparr>p_reader := r, p_latch := l, p_conn := c, p_up := False\<rparr>)" (is "bridge_run _ _ ?b1")
    and c: "same_rx c0 c" "l \<noteq> FRAMING_UNKNOWN" by auto
  from bridge_run_inv [OF up assms(1,3)] start obtain k where
    "up_inv (stdin_rest chunks) ms c0 ?b1 k" by blast
  then have l: "l = client_framing (stdin_rest chunks) ms" using c(2) start by (auto simp: up_inv_def split: if_splits)
  have "\<exists>m c' ws' out. bridge_run ?b1 m (?b1\<lparr>p_conn := c', p_writes := ws', p_out := out, p_down := False\<rparr>)"
    using same_rx_clean [OF c(1)] assms(3,5,6) start c(2) by (intro drain_down) (simp_all add: l)
  then obtain m c' ws' out where
    "bridge_run ?b1 m (?b1\<lparr>p_conn := c', p_writes := ws', p_out := out, p_down := False\<rparr>)" by blast
  from bridge_run_trans [OF this up]
  have run: "bridge_run ?b0 (n + m) (?b1\<lparr>p_conn := c', p_writes := ws', p_out := out, p_down := False\<rparr>)" (is "bridge_run _ _ ?b2") .
  have fin: "\<not> p_up ?b2" "\<not> p_down ?b2" "\<not> p_aborted ?b2" "\<not> p_closed ?b2" using start by simp_all
  from sent_all(2) [OF run assms(1,3) fin(4) can_take_sending [OF assms(4)] fin(1)]
    relayed_all [OF run assms(1,3,5) fin(2)] fin run
  show ?thesis by blast
qed

text \<open>C4. The bridge ends and delivers: a run takes at most two steps for every message of the client and
  every frame of the server, and four more; a run that cannot go on has closed the connection, unless the
  client or the server has stopped taking bytes; and when both take all bytes, there is a run after which
  everything has arrived at either side.\<close>

theorem bridge_ends:
  assumes "stream_messages FRAMING_UNKNOWN (stdin_rest chunks) = Some ms" and "conn_clean c0"
  shows "(\<forall>n b. bridge_run (bridge_start chunks ws c0) n b \<longrightarrow>
      n \<le> 2 * length ms + 2 * length (server_frames (conn_pending c0)) + 4 \<and>
      ((\<exists>b'. bridge_step b b') \<or> p_closed b \<or> waits_for_server b \<or> waits_for_client b)) \<and>
    (ms \<noteq> [] \<and> can_take (length (concat (map encode_frame ms))) c0 \<and> (\<forall>w\<in>set ws. 0 < w) \<and>
     length (lines (client_framing (stdin_rest chunks) ms) (server_frames (conn_pending c0))) \<le> length ws \<longrightarrow>
       (\<exists>n b. bridge_run (bridge_start chunks ws c0) n b \<and> \<not> p_up b \<and> \<not> p_down b \<and>
          conn_sent (p_conn b) = conn_sent c0 @ concat (map encode_frame ms) \<and>
          p_out b = lines (client_framing (stdin_rest chunks) ms) (server_frames (conn_pending c0))))"
proof (intro conjI allI impI)
  fix n b
  assume run: "bridge_run (bridge_start chunks ws c0) n b"
  from bridge_run_bound [OF run assms]
  show "n \<le> 2 * length ms + 2 * length (server_frames (conn_pending c0)) + 4" by simp
  from bridge_run_inv [OF run assms]
  show "(\<exists>b'. bridge_step b b') \<or> p_closed b \<or> waits_for_server b \<or> waits_for_client b"
    using bridge_progress by blast
qed (use bridge_delivers [OF assms(1) _ assms(2), of ws] in blast)

text \<open>A client that writes JSON lines is answered in JSON lines.\<close>

lemma client_framing_ndjson:
  assumes "\<And>m. m \<in> set ms \<Longrightarrow> json_shaped m"
  shows "client_framing (lines FRAMING_NDJSON ms) ns = FRAMING_NDJSON"
proof (cases ms)
  case Nil
  then show ?thesis by (simp add: client_framing_def classify_def CL_KEY_def)
next
  case (Cons m ms')
  let ?b = "lines FRAMING_NDJSON ms"
  have sh: "json_shaped m" using assms Cons by simp
  obtain c b where b: "?b = c # b" "c = hd m"
    using Cons flatten_shaped(1,2) [OF sh] by (cases "flatten m") (auto simp: encode_ndjson)
  have c: "c = CHR ''{'' \<or> c = CHR ''[''" using b sh by (auto simp: json_shaped_def)
  then have "\<not> is_ws c" "take 3 (c # b) \<noteq> BOM" by (auto simp: is_ws_def BOM_def numeral_3_eq_3)
  then have st: "strip (c # b) = c # b" by (subst strip.simps) (simp add: Let_def)
  have "classify (c # b) = FRAMING_NDJSON" using c by (auto simp: classify_def CL_KEY_def lower_def)
  then show ?thesis by (simp only: b(1) client_framing_def st) simp
qed

text \<open>One request and one reply.\<close>

definition demo_chunks :: "bytes list" where
  "demo_chunks = [''{}'' @ [LF]]"

definition demo_server_conn :: "mcp_conn option" where
  "demo_server_conn =
     Some (demo_conn [RxData (''Content-Length: 2'' @ CRLF2 @ ''{}'')] (replicate 30 (demo_send 1)))"

lemma demo_stream: "stream_messages FRAMING_UNKNOWN (stdin_rest demo_chunks) = Some [''{}'']"
  by (simp add: demo_chunks_def stdin_rest_def stream_messages.simps stream_next_def strip.simps is_ws_def BOM_def
      classify_def CL_KEY_def lower_def framed_next_def nd_next.simps trim_ws_def DXR_STDIO_MAX_MESSAGE_BYTES_def)

lemma demo_server_conn_clean: "conn_clean demo_server_conn"
  by (simp add: conn_clean_def demo_server_conn_def demo_conn_def rx_clean_def)

lemma demo_server_frames: "server_frames (conn_pending demo_server_conn) = [''{}'']"
proof -
  have "conn_pending demo_server_conn = concat (map encode_frame [''{}''])"
    by (simp add: demo_server_conn_def demo_conn_def conn_pending_def encode_frame_def show_nat.simps)
  then show ?thesis
    using frames_of_encoded [of "[''{}'']"] by (simp add: DXR_STDIO_MAX_MESSAGE_BYTES_def)
qed

lemma demo_framing: "client_framing (stdin_rest demo_chunks) [''{}''] = FRAMING_NDJSON"
  by (simp add: client_framing_def demo_chunks_def stdin_rest_def strip.simps is_ws_def BOM_def classify_def CL_KEY_def lower_def)

lemma demo_room:
  "can_take (length (concat (map encode_frame [''{}'']))) demo_server_conn"
  "length (lines (client_framing (stdin_rest demo_chunks) [''{}'']) (server_frames (conn_pending demo_server_conn))) \<le> length [1, 1, 1 :: int]"
proof -
  have "length (concat (map encode_frame [''{}''])) \<le> 30" by (simp add: encode_frame_def show_nat.simps CRLF2_def)
  then show "can_take (length (concat (map encode_frame [''{}'']))) demo_server_conn"
    by (simp add: can_take_def sending_def demo_server_conn_def demo_conn_def demo_send_def)
  show "length (lines (client_framing (stdin_rest demo_chunks) [''{}'']) (server_frames (conn_pending demo_server_conn))) \<le> length [1, 1, 1 :: int]"
    unfolding demo_framing demo_server_frames by (simp add: dxr_stdio_encode_def)
qed

lemma demo_run:
  "\<exists>n b. bridge_run (bridge_start demo_chunks [1, 1, 1] demo_server_conn) n b \<and> \<not> p_up b \<and> \<not> p_down b \<and>
     \<not> p_aborted b \<and> \<not> p_closed b"
  using bridge_delivers [OF demo_stream _ demo_server_conn_clean demo_room(1) _ demo_room(2)] by auto

theorem bridge_forwards_messages_witness:
  "\<exists>n b. bridge_run (bridge_start demo_chunks [1, 1, 1] demo_server_conn) n b \<and>
     conn_sent (p_conn b) = encode_frame ''{}''"
proof -
  from demo_run obtain n b where
    b: "bridge_run (bridge_start demo_chunks [1, 1, 1] demo_server_conn) n b" "\<not> p_up b" "\<not> p_closed b"
    by blast
  from bridge_forwards_messages [OF b(1) demo_stream demo_server_conn_clean b(3)] b can_take_sending [OF demo_room(1)]
  have "conn_sent (p_conn b) = conn_sent demo_server_conn @ concat (map encode_frame [''{}''])" by blast
  with b(1) show ?thesis by (auto simp: demo_server_conn_def demo_conn_def conn_sent_def)
qed

theorem bridge_relays_replies_witness:
  "\<exists>n b. bridge_run (bridge_start demo_chunks [1, 1, 1] demo_server_conn) n b \<and> p_out b = ''{}'' @ [LF]"
proof -
  from demo_run obtain n b where
    b: "bridge_run (bridge_start demo_chunks [1, 1, 1] demo_server_conn) n b" "\<not> p_down b" "\<not> p_aborted b"
    by blast
  have "(\<forall>w\<in>set [1, 1, 1 :: int]. 0 < w) \<and> \<not> p_down b \<and> (\<not> p_aborted b \<or> all_queued demo_server_conn)"
    using b by simp
  with bridge_relays_replies [OF b(1) demo_stream demo_server_conn_clean]
  have "p_out b = concat (map (dxr_stdio_encode FRAMING_NDJSON) [''{}''])"
    unfolding demo_framing demo_server_frames by blast
  with b(1) show ?thesis by (auto simp: dxr_stdio_encode_def)
qed

theorem bridge_ends_witness:
  "(\<exists>n b. bridge_run (bridge_start demo_chunks [1, 1, 1] demo_server_conn) n b \<and> p_out b = ''{}'' @ [LF]) \<and>
     (\<forall>b. \<not> bridge_run (bridge_start demo_chunks [1, 1, 1] demo_server_conn) 9 b)"
proof -
  note e = bridge_ends [OF demo_stream demo_server_conn_clean, of "[1, 1, 1]"]
  have "9 \<le> 2 * length [''{}''] + 2 * length (server_frames (conn_pending demo_server_conn)) + 4"
    if "bridge_run (bridge_start demo_chunks [1, 1, 1] demo_server_conn) 9 b" for b
    using e that by blast
  then have "\<not> bridge_run (bridge_start demo_chunks [1, 1, 1] demo_server_conn) 9 b" for b
    unfolding demo_server_frames by force
  moreover from e demo_room obtain n b where "bridge_run (bridge_start demo_chunks [1, 1, 1] demo_server_conn) n b"
    "p_out b = lines (client_framing (stdin_rest demo_chunks) [''{}'']) (server_frames (conn_pending demo_server_conn))"
    by auto
  ultimately show ?thesis unfolding demo_framing demo_server_frames by (auto simp: dxr_stdio_encode_def)
qed

end
