(* ===== verification/Json_String.thy ===== *)
theory Json_String
  imports Json_Number
begin

text \<open>
  Strings in JSON text (\<^verbatim>\<open>external/cjson/cJSON.c\<close>): the escapes \<open>print_string_ptr\<close> writes, and what
  \<open>parse_string\<close> makes of a literal: the scan for its end, which sizes the buffer, and the loop that
  decodes escapes into it, with UTF-16 escapes turned into UTF-8.
\<close>

unbundle bit_operations_syntax

abbreviation QUOTE :: char where "QUOTE \<equiv> CHR 0x22"
abbreviation BSLASH :: char where "BSLASH \<equiv> CHR 0x5C"

section \<open>Hexadecimal digits and UTF-16 escapes\<close>

definition hex_digit :: "char \<Rightarrow> u32 option" where
  "hex_digit c =
     (let n = of_char c :: nat
      in if 48 \<le> n \<and> n \<le> 57 then Some (of_nat (n - 48))
         else if 65 \<le> n \<and> n \<le> 70 then Some (of_nat (10 + n - 65))
         else if 97 \<le> n \<and> n \<le> 102 then Some (of_nat (10 + n - 97))
         else None)"

text \<open>\<open>k\<close> digits are left; the value is shifted before each digit but the first.  A byte that is no
  digit makes the whole number 0.\<close>

fun parse_hex4_loop :: "nat \<Rightarrow> u32 \<Rightarrow> bytes \<Rightarrow> u32" where
  "parse_hex4_loop (Suc k) h (c # cs) =
     (case hex_digit c of
        None \<Rightarrow> 0
      | Some d \<Rightarrow> parse_hex4_loop k (if 0 < k then push_bit 4 (h + d) else h + d) cs)"
| "parse_hex4_loop _ h _ = h"

definition parse_hex4 :: "bytes \<Rightarrow> u32" where
  "parse_hex4 input = parse_hex4_loop 4 0 input"

definition byte_of :: "u32 \<Rightarrow> char" where
  "byte_of w = char_of (unat w mod 256)"

text \<open>The continuation bytes are written from the last to the first; each takes six bits.\<close>

fun utf8_tail :: "nat \<Rightarrow> u32 \<Rightarrow> bytes \<Rightarrow> u32 \<times> bytes" where
  "utf8_tail 0 codepoint out = (codepoint, out)"
| "utf8_tail (Suc k) codepoint out =
     utf8_tail k (drop_bit 6 codepoint) (byte_of ((codepoint OR 0x80) AND 0xBF) # out)"

definition utf8_encode :: "u32 \<Rightarrow> bytes option" where
  "utf8_encode codepoint =
     (if codepoint < 0x80 then Some [byte_of (codepoint AND 0x7F)]
      else if codepoint < 0x800 then
        (let (cp, out) = utf8_tail 1 codepoint [] in Some (byte_of ((cp OR 0xC0) AND 0xFF) # out))
      else if codepoint < 0x10000 then
        (let (cp, out) = utf8_tail 2 codepoint [] in Some (byte_of ((cp OR 0xE0) AND 0xFF) # out))
      else if codepoint \<le> 0x10FFFF then
        (let (cp, out) = utf8_tail 3 codepoint [] in Some (byte_of ((cp OR 0xF0) AND 0xFF) # out))
      else None)"

text \<open>\<open>s\<close> is the literal from the backslash to \<open>input_end\<close>; the result is the bytes written and the
  length of the sequence read.\<close>

definition utf16_literal_to_utf8 :: "bytes \<Rightarrow> (bytes \<times> nat) option" where
  "utf16_literal_to_utf8 s =
     (if length s < 6 then None
      else let first_code = parse_hex4 (drop 2 s)
        in if 0xDC00 \<le> first_code \<and> first_code \<le> 0xDFFF then None
           else if 0xD800 \<le> first_code \<and> first_code \<le> 0xDBFF then
             (let second = drop 6 s
              in if length second < 6 then None
                 else if second ! 0 \<noteq> BSLASH \<or> second ! 1 \<noteq> CHR ''u'' then None
                 else let second_code = parse_hex4 (drop 2 second)
                   in if second_code < 0xDC00 \<or> 0xDFFF < second_code then None
                      else map_option (\<lambda>bs. (bs, 12))
                             (utf8_encode (0x10000 + (push_bit 10 (first_code AND 0x3FF)
                                OR (second_code AND 0x3FF)))))
           else map_option (\<lambda>bs. (bs, 6)) (utf8_encode first_code))"

lemma utf16_length: "utf16_literal_to_utf8 s = Some (bs, n) \<Longrightarrow> n = 6 \<and> 6 \<le> length s \<or> n = 12 \<and> 12 \<le> length s"
  by (auto simp: utf16_literal_to_utf8_def Let_def split: if_splits)

section \<open>\<open>parse_string\<close>\<close>

text \<open>From behind the opening quote: the number of bytes before the closing quote and the number of
  escapes among them, \<open>None\<close> when the string does not end.\<close>

fun scan_string :: "bytes \<Rightarrow> (nat \<times> nat) option" where
  "scan_string [] = None"
| "scan_string (c # cs) =
     (if c = QUOTE then Some (0, 0)
      else if c = BSLASH then
        (case cs of [] \<Rightarrow> None
         | x # xs \<Rightarrow> map_option (\<lambda>(n, skipped). (n + 2, skipped + 1)) (scan_string xs))
      else map_option (\<lambda>(n, skipped). (n + 1, skipped)) (scan_string cs))"

definition simple_escape :: "char \<Rightarrow> char option" where
  "simple_escape c =
     (if c = CHR ''b'' then Some (CHR 0x08)
      else if c = CHR ''f'' then Some (CHR 0x0C)
      else if c = CHR ''n'' then Some LF
      else if c = CHR ''r'' then Some CR
      else if c = CHR ''t'' then Some TAB
      else if c = QUOTE \<or> c = BSLASH \<or> c = CHR 0x2F then Some c
      else None)"

text \<open>The loop from \<open>input_pointer\<close> to \<open>input_end\<close>; at \<open>input_end\<close> stands the closing quote, which the
  escape of a last backslash reads.\<close>

function unescape :: "bytes \<Rightarrow> bytes option" where
  "unescape [] = Some []"
| "unescape (c # cs) =
     (if c \<noteq> BSLASH then map_option (\<lambda>out. c # out) (unescape cs)
      else let x = hd (cs @ [QUOTE])
        in case simple_escape x of
             Some y \<Rightarrow> map_option (\<lambda>out. y # out) (unescape (drop 1 cs))
           | None \<Rightarrow>
               if x = CHR ''u'' then
                 (case utf16_literal_to_utf8 (c # cs) of
                    None \<Rightarrow> None
                  | Some (bs, n) \<Rightarrow> map_option (\<lambda>out. bs @ out) (unescape (drop n (c # cs))))
               else None)"
  by pat_completeness auto

termination
  by (relation "measure length") (auto dest: utf16_length)

text \<open>\<open>rest\<close> is the buffer from the opening quote on.  The result is the decoded bytes, how far the
  offset moves, and the size of the buffer that was allocated for the bytes.\<close>

definition parse_string_text :: "bytes \<Rightarrow> (bytes \<times> nat \<times> nat) option" where
  "parse_string_text rest =
     (if rest = [] \<or> hd rest \<noteq> QUOTE then None
      else case scan_string (tl rest) of
        None \<Rightarrow> None
      | Some (n, skipped_bytes) \<Rightarrow>
          (case unescape (take n (tl rest)) of
             None \<Rightarrow> None
           | Some out \<Rightarrow> Some (out, n + 2, (n + 1 - skipped_bytes) + 1)))"

section \<open>\<open>print_string_ptr\<close>\<close>

definition hex_char :: "nat \<Rightarrow> char" where
  "hex_char n = (if n < 10 then digit_char n else char_of (87 + n))"

definition escape_char :: "char \<Rightarrow> bytes" where
  "escape_char c =
     (if 31 < (of_char c :: nat) \<and> c \<noteq> QUOTE \<and> c \<noteq> BSLASH then [c]
      else BSLASH #
        (if c = BSLASH then [BSLASH]
         else if c = QUOTE then [QUOTE]
         else if c = CHR 0x08 then ''b''
         else if c = CHR 0x0C then ''f''
         else if c = LF then ''n''
         else if c = CR then ''r''
         else if c = TAB then ''t''
         else [CHR ''u'', CHR ''0'', CHR ''0'', hex_char (of_char c div 16), hex_char (of_char c mod 16)]))"

text \<open>How many bytes escaping adds.\<close>

definition extra_length :: "char \<Rightarrow> nat" where
  "extra_length c =
     (if c \<in> {QUOTE, BSLASH, CHR 0x08, CHR 0x0C, LF, CR, TAB} then 1
      else if (of_char c :: nat) < 32 then 5 else 0)"

definition escape_characters :: "bytes \<Rightarrow> nat" where
  "escape_characters s = (\<Sum>c\<leftarrow>s. extra_length c)"

definition escaped :: "bytes \<Rightarrow> bytes" where
  "escaped s = concat (map escape_char s)"

definition string_text :: "bytes \<Rightarrow> bytes" where
  "string_text input = (if escape_characters input = 0 then QUOTE # input @ [QUOTE]
     else QUOTE # escaped input @ [QUOTE])"

section \<open>What escaping writes\<close>

lemma of_char_less_256: "(of_char c :: nat) < 256"
  by (cases c) (simp add: of_char_def horner_sum_simps of_bool_def)

lemma of_char_nibbles: "(of_char c :: nat) div 16 < 16" "(of_char c :: nat) mod 16 < 16"
  using of_char_less_256 [of c] by (simp_all add: div_less_iff_less_mult)

lemma length_escape_char: "length (escape_char c) = 1 + extra_length c"
  by (auto simp: escape_char_def extra_length_def)

lemma escaped_simps [simp]: "escaped [] = []" "escaped (c # s) = escape_char c @ escaped s"
  by (simp_all add: escaped_def)

text \<open>The position at which the closing quote is written is the end of the escaped text.\<close>

lemma length_escaped: "length (escaped s) = length s + escape_characters s"
  by (induction s) (simp_all add: length_escape_char escape_characters_def)

lemma escape_nothing: "escape_characters s = 0 \<Longrightarrow> escaped s = s"
proof (induction s)
  case (Cons c s)
  then have "extra_length c = 0" by (simp add: escape_characters_def)
  then have "escape_char c = [c]"
    by (auto simp: extra_length_def escape_char_def split: if_splits)
  with Cons show ?case by (simp add: escape_characters_def)
qed simp

lemma string_text_eq: "string_text s = QUOTE # escaped s @ [QUOTE]"
  by (simp add: string_text_def escape_nothing)

lemma length_string_text: "length (string_text s) = length s + escape_characters s + 2"
  by (simp add: string_text_eq length_escaped)

lemma of_hex_char: "n < 16 \<Longrightarrow> (of_char (hex_char n) :: nat) = (if n < 10 then 48 + n else 87 + n)"
  by (simp add: hex_char_def of_char_of)

lemma escape_char_printable: "\<forall>x\<in>set (escape_char c). 31 < (of_char x :: nat)"
  using of_char_nibbles [of c] by (auto simp: escape_char_def of_hex_char)

lemma string_text_printable: "\<forall>x\<in>set (string_text s). 31 < (of_char x :: nat)"
  using escape_char_printable by (auto simp: string_text_eq escaped_def)

section \<open>Reading back what was escaped\<close>

lemma hex_digit_hex_char: "n < 16 \<Longrightarrow> hex_digit (hex_char n) = Some (of_nat n)"
  by (simp add: hex_digit_def of_hex_char Let_def)

lemma hex_digit_0: "hex_digit (CHR ''0'') = Some 0"
  by (simp add: hex_digit_def)

lemma byte_of_nat: "n < 128 \<Longrightarrow> byte_of ((of_nat n :: u32) AND 0x7F) = char_of n"
proof -
  assume n: "n < 128"
  have "(0x7F :: u32) = mask 7" by (simp add: mask_eq_exp_minus_1)
  then have "(of_nat n :: u32) AND 0x7F = take_bit 7 (of_nat n)" by (simp only: take_bit_eq_mask)
  also have "\<dots> = of_nat n" using n by (simp add: take_bit_of_nat take_bit_nat_eq_self)
  finally show ?thesis using n by (simp add: byte_of_def unsigned_of_nat take_bit_nat_eq_self)
qed

lemma u32_of_nat_less: "n < 32 \<Longrightarrow> k < 2 ^ 32 \<Longrightarrow> 32 \<le> k \<Longrightarrow> (of_nat n :: u32) < of_nat k"
  by (simp add: word_of_nat_less_iff take_bit_nat_eq_self)

lemma utf16_control:
  assumes "n < 32"
  shows "utf16_literal_to_utf8 (BSLASH # CHR ''u'' # CHR ''0'' # CHR ''0'' #
    hex_char (n div 16) # hex_char (n mod 16) # t) = Some ([char_of n], 6)"
proof -
  have d: "n div 16 < 16" "n mod 16 < 16" using assms by auto
  have "(of_nat n :: u32) = of_nat (n div 16 * 16 + n mod 16)" by (simp only: div_mult_mod_eq)
  then have v: "push_bit 4 (of_nat (n div 16) :: u32) + of_nat (n mod 16) = of_nat n"
    unfolding of_nat_add of_nat_mult by (simp add: push_bit_eq_mult)
  have four: "(4 :: nat) = Suc (Suc (Suc (Suc 0)))" by simp
  have h: "parse_hex4 (CHR ''0'' # CHR ''0'' # hex_char (n div 16) # hex_char (n mod 16) # t) = of_nat n"
    unfolding parse_hex4_def four
    by (simp add: hex_digit_0 hex_digit_hex_char [OF d(1)] hex_digit_hex_char [OF d(2)] v)
  have "(of_nat n :: u32) < 0x80" using u32_of_nat_less [OF assms, of "0x80"] by simp
  moreover from this have "\<not> 0xDC00 \<le> (of_nat n :: u32)" "\<not> 0xD800 \<le> (of_nat n :: u32)"
    using u32_of_nat_less [OF assms, of "0xDC00"] u32_of_nat_less [OF assms, of "0xD800"] by (simp_all add: not_le)
  ultimately show ?thesis
    using assms by (simp add: utf16_literal_to_utf8_def Let_def h utf8_encode_def byte_of_nat)
qed

lemma unescape_escape_char:
  "unescape (escape_char c @ t) = map_option (\<lambda>out. c # out) (unescape t)"
proof (cases "31 < (of_char c :: nat) \<and> c \<noteq> QUOTE \<and> c \<noteq> BSLASH")
  case True
  then show ?thesis by (simp add: escape_char_def)
next
  case False
  show ?thesis
  proof (cases "c \<in> {QUOTE, BSLASH, CHR 0x08, CHR 0x0C, LF, CR, TAB}")
    case True
    then show ?thesis by (auto simp: escape_char_def simple_escape_def)
  next
    case ctl: False
    with False have n: "(of_char c :: nat) < 32" by auto
    have e: "escape_char c = [BSLASH, CHR ''u'', CHR ''0'', CHR ''0'', hex_char (of_char c div 16), hex_char (of_char c mod 16)]"
      using False ctl by (auto simp: escape_char_def)
    show ?thesis
      using utf16_control [OF n, of t] unfolding e
      by (simp add: simple_escape_def comp_def) (cases "unescape t"; simp)
  qed
qed

lemma unescape_escaped: "unescape (escaped s @ t) = map_option (\<lambda>out. s @ out) (unescape t)"
proof (induction s)
  case Nil
  show ?case by (simp add: option.map_ident)
next
  case (Cons c s)
  then show ?case by (simp add: unescape_escape_char option.map_comp comp_def)
qed

lemma scan_string_plain:
  "c \<noteq> QUOTE \<Longrightarrow> c \<noteq> BSLASH \<Longrightarrow>
     scan_string (c # t) = map_option (\<lambda>(n, skipped). (n + 1, skipped)) (scan_string t)"
  by simp

lemma hex_char_plain: "n < 16 \<Longrightarrow> hex_char n \<noteq> QUOTE \<and> hex_char n \<noteq> BSLASH"
proof -
  assume n: "n < 16"
  have "(of_char (hex_char n) :: nat) \<noteq> of_char QUOTE" "(of_char (hex_char n) :: nat) \<noteq> of_char BSLASH"
    using n by (auto simp: of_hex_char)
  then show ?thesis by auto
qed

lemma scan_string_escape_char:
  "\<exists>k. scan_string (escape_char c @ t) =
     map_option (\<lambda>(n, skipped). (n + length (escape_char c), skipped + k)) (scan_string t)"
proof (cases "31 < (of_char c :: nat) \<and> c \<noteq> QUOTE \<and> c \<noteq> BSLASH")
  case True
  then show ?thesis by (intro exI [of _ 0]) (simp add: escape_char_def)
next
  case False
  have two: "scan_string (BSLASH # x # t') = map_option (\<lambda>(n, k). (n + 2, k + 1)) (scan_string t')" for x t'
    by simp
  show ?thesis
  proof (cases "c \<in> {QUOTE, BSLASH, CHR 0x08, CHR 0x0C, LF, CR, TAB}")
    case True
    with False obtain x where e: "escape_char c = [BSLASH, x]"
      by (auto simp: escape_char_def)
    show ?thesis unfolding e by (intro exI [of _ 1]) simp
  next
    case ctl: False
    have e: "escape_char c = [BSLASH, CHR ''u'', CHR ''0'', CHR ''0'', hex_char (of_char c div 16), hex_char (of_char c mod 16)]"
      using False ctl by (auto simp: escape_char_def)
    note p = hex_char_plain [OF of_char_nibbles(1) [of c]] hex_char_plain [OF of_char_nibbles(2) [of c]]
    show ?thesis
      unfolding e append.simps two using p
      by (intro exI [of _ 1]) (cases "scan_string t"; force simp: scan_string_plain)
  qed
qed

lemma scan_string_escaped:
  "\<exists>k. scan_string (escaped s @ QUOTE # r) = Some (length (escaped s), k)"
proof (induction s)
  case (Cons c s)
  then obtain k where k: "scan_string (escaped s @ QUOTE # r) = Some (length (escaped s), k)" by blast
  obtain j where "scan_string (escape_char c @ escaped s @ QUOTE # r) =
      map_option (\<lambda>(n, skipped). (n + length (escape_char c), skipped + j)) (scan_string (escaped s @ QUOTE # r))"
    using scan_string_escape_char by blast
  then show ?case by (simp add: k add.commute)
qed simp

text \<open>Whatever bytes a string has, its literal decodes to them.\<close>

lemma parse_string_text_string_text:
  "\<exists>alloc. parse_string_text (string_text s @ r) = Some (s, length (string_text s), alloc)"
proof -
  obtain k where k: "scan_string (escaped s @ QUOTE # r) = Some (length (escaped s), k)"
    using scan_string_escaped by blast
  have "unescape (escaped s) = Some s" using unescape_escaped [of s "[]"] by simp
  then show ?thesis by (simp add: parse_string_text_def string_text_eq k)
qed

end
