(* ===== verification/Json_Print.thy ===== *)
theory Json_Print
  imports Json_String
begin

text \<open>
  Printing of JSON trees (\<^verbatim>\<open>external/cjson/cJSON.c\<close>): the growing \<open>printbuffer\<close> with \<open>ensure\<close>, and
  \<open>print_value\<close>, \<open>print_array\<close>, \<open>print_object\<close> over it, formatted or not.  Then: nothing is ever
  written past the end of the buffer, and the unformatted text is \<open>json_text\<close>.
\<close>

section \<open>The buffer\<close>

text \<open>\<open>out_bytes\<close> is what the buffer holds before its terminating NUL: bytes may stand behind the
  offset until \<open>update_offset\<close> counts them.  \<open>out_length\<close> is the allocated size.\<close>

record printbuffer =
  out_bytes :: bytes
  out_length :: nat
  out_offset :: nat
  out_depth :: nat
  out_noalloc :: bool
  out_format :: bool

definition ensure :: "printbuffer \<Rightarrow> nat \<Rightarrow> printbuffer option" where
  "ensure p needed =
     (if 0 < out_length p \<and> out_length p \<le> out_offset p then None
      else if nat INT_MAX < needed then None
      else let needed = needed + out_offset p + 1
        in if needed \<le> out_length p then Some p
           else if out_noalloc p then None
           else if nat INT_MAX div 2 < needed then
             (if needed \<le> nat INT_MAX then Some (p\<lparr>out_length := nat INT_MAX\<rparr>) else None)
           else Some (p\<lparr>out_length := needed * 2\<rparr>))"

text \<open>Writing at the offset drops what stood behind it.\<close>

definition put :: "bytes \<Rightarrow> printbuffer \<Rightarrow> printbuffer" where
  "put s p = p\<lparr>out_bytes := take (out_offset p) (out_bytes p) @ s\<rparr>"

definition advance_out :: "nat \<Rightarrow> printbuffer \<Rightarrow> printbuffer" where
  "advance_out n p = p\<lparr>out_offset := out_offset p + n\<rparr>"

definition update_offset :: "printbuffer \<Rightarrow> printbuffer" where
  "update_offset p = advance_out (c_strlen (drop (out_offset p) (out_bytes p))) p"

text \<open>One output: ensure \<open>needed\<close> bytes, write \<open>s\<close>, and count \<open>n\<close> of the bytes written.\<close>

definition emit :: "nat \<Rightarrow> bytes \<Rightarrow> nat \<Rightarrow> printbuffer \<Rightarrow> printbuffer option" where
  "emit needed s n p = map_option (\<lambda>p. advance_out n (put s p)) (ensure p needed)"

section \<open>Values\<close>

definition print_number :: "dbl \<Rightarrow> printbuffer \<Rightarrow> printbuffer option" where
  "print_number d p =
     (case print_number_text d of
        None \<Rightarrow> None
      | Some s \<Rightarrow> emit (length s + 1) s (length s) p)"

definition print_string_ptr :: "bytes \<Rightarrow> printbuffer \<Rightarrow> printbuffer option" where
  "print_string_ptr input p =
     (let output_length = length input + escape_characters input
      in emit (output_length + 3) (string_text input) 0 p)"

definition tabs :: "nat \<Rightarrow> bytes" where
  "tabs n = replicate n TAB"

definition open_array :: "printbuffer \<Rightarrow> printbuffer option" where
  "open_array p =
     map_option (\<lambda>p. p\<lparr>out_depth := out_depth p + 1\<rparr>) (emit 1 ''['' 1 p)"

definition close_array :: "printbuffer \<Rightarrow> printbuffer option" where
  "close_array p = map_option (\<lambda>p. p\<lparr>out_depth := out_depth p - 1\<rparr>) (emit 2 '']'' 0 p)"

definition array_comma :: "printbuffer \<Rightarrow> printbuffer option" where
  "array_comma p =
     (let s = (if out_format p then [CHR 0x2C, SPC] else [CHR 0x2C])
      in emit (length s + 1) s (length s) p)"

definition open_object :: "printbuffer \<Rightarrow> printbuffer option" where
  "open_object p =
     (let s = (if out_format p then [CHR 0x7B, LF] else [CHR 0x7B])
      in map_option (\<lambda>p. p\<lparr>out_depth := out_depth p + 1\<rparr>) (emit (length s + 1) s (length s) p))"

text \<open>Indentation, name and colon of a member.\<close>

definition member_head :: "bytes \<Rightarrow> printbuffer \<Rightarrow> printbuffer option" where
  "member_head name p =
     (case (if out_format p
            then emit (out_depth p) (tabs (out_depth p)) (out_depth p) p
            else Some p) of
        None \<Rightarrow> None
      | Some p \<Rightarrow>
          (case print_string_ptr name p of
             None \<Rightarrow> None
           | Some p \<Rightarrow>
               let p = update_offset p; s = (if out_format p then [CHR '':'', TAB] else [CHR '':''])
               in emit (length s) s (length s) p))"

text \<open>Behind a member: the comma unless it is the last one, and the line feed.\<close>

definition member_tail :: "bool \<Rightarrow> printbuffer \<Rightarrow> printbuffer option" where
  "member_tail has_next p =
     (let s = (if has_next then [CHR 0x2C] else []) @ (if out_format p then [LF] else [])
      in emit (length s + 1) s (length s) p)"

definition close_object :: "printbuffer \<Rightarrow> printbuffer option" where
  "close_object p =
     map_option (\<lambda>p. p\<lparr>out_depth := out_depth p - 1\<rparr>)
       (emit (if out_format p then out_depth p + 1 else 2)
          ((if out_format p then tabs (out_depth p - 1) else []) @ [CHR 0x7D]) 0 p)"

fun print_value :: "json \<Rightarrow> printbuffer \<Rightarrow> printbuffer option"
  and print_elements :: "json list \<Rightarrow> printbuffer \<Rightarrow> printbuffer option"
  and print_members :: "(bytes \<times> json) list \<Rightarrow> printbuffer \<Rightarrow> printbuffer option" where
  "print_value JNull p = emit 5 ''null'' 0 p"
| "print_value (JBool b) p = (if b then emit 5 ''true'' 0 p else emit 6 ''false'' 0 p)"
| "print_value (JNum d) p = print_number d p"
| "print_value (JStr s) p = print_string_ptr s p"
| "print_value (JArr xs) p =
     (case open_array p of None \<Rightarrow> None | Some p \<Rightarrow>
       (case print_elements xs p of None \<Rightarrow> None | Some p \<Rightarrow> close_array p))"
| "print_value (JObj kvs) p =
     (case open_object p of None \<Rightarrow> None | Some p \<Rightarrow>
       (case print_members kvs p of None \<Rightarrow> None | Some p \<Rightarrow> close_object p))"
| "print_elements [] p = Some p"
| "print_elements (x # xs) p =
     (case print_value x p of None \<Rightarrow> None | Some p \<Rightarrow>
       let p = update_offset p
       in (case (if xs \<noteq> [] then array_comma p else Some p) of None \<Rightarrow> None | Some p \<Rightarrow>
            print_elements xs p))"
| "print_members [] p = Some p"
| "print_members ((k, v) # kvs) p =
     (case member_head k p of None \<Rightarrow> None | Some p \<Rightarrow>
       (case print_value v p of None \<Rightarrow> None | Some p \<Rightarrow>
         (case member_tail (kvs \<noteq> []) (update_offset p) of None \<Rightarrow> None | Some p \<Rightarrow>
            print_members kvs p)))"

text \<open>\<open>print\<close> starts with 256 bytes and gives the text before the NUL.\<close>

definition print_tree :: "json \<Rightarrow> bool \<Rightarrow> bytes option" where
  "print_tree item format =
     (case print_value item \<lparr>out_bytes = [], out_length = 256, out_offset = 0, out_depth = 0,
         out_noalloc = False, out_format = format\<rparr> of
        None \<Rightarrow> None
      | Some p \<Rightarrow> let p = update_offset p in Some (take (out_offset p) (out_bytes p)))"

definition cJSON_Print :: "json \<Rightarrow> bytes option" where
  "cJSON_Print item = print_tree item True"

definition cJSON_PrintUnformatted :: "json \<Rightarrow> bytes option" where
  "cJSON_PrintUnformatted item = print_tree item False"

section \<open>Nothing is written past the end of the buffer\<close>

text \<open>The bytes in the buffer and the NUL behind them lie inside the allocation, and the buffer never
  outgrows an \<open>int\<close>.\<close>

definition pb_ok :: "printbuffer \<Rightarrow> bool" where
  "pb_ok p \<longleftrightarrow> out_offset p \<le> length (out_bytes p) \<and> length (out_bytes p) < out_length p \<and>
     out_length p \<le> nat INT_MAX"

lemma ensure_room:
  assumes "ensure p needed = Some p'"
  shows "out_offset p + needed < out_length p'"
    and "p' = p\<lparr>out_length := out_length p'\<rparr>"
    and "out_length p \<le> nat INT_MAX \<Longrightarrow> out_length p' \<le> nat INT_MAX"
  using assms by (auto simp: ensure_def Let_def INT_MAX_def split: if_splits)

lemma emit_spec:
  assumes "emit needed s n p = Some p'" and "pb_ok p" and "length s \<le> needed" and "n \<le> length s"
  shows "pb_ok p'" and "out_bytes p' = take (out_offset p) (out_bytes p) @ s"
    and "out_offset p' = out_offset p + n" and "out_depth p' = out_depth p"
    and "out_format p' = out_format p" and "out_noalloc p' = out_noalloc p"
proof -
  obtain q where q: "ensure p needed = Some q" and p': "p' = advance_out n (put s q)"
    using assms(1) by (auto simp: emit_def)
  have eq: "out_bytes q = out_bytes p" "out_offset q = out_offset p" "out_depth q = out_depth p"
      "out_format q = out_format p" "out_noalloc q = out_noalloc p"
    by (subst ensure_room(2) [OF q]; simp)+
  show "pb_ok p'" "out_bytes p' = take (out_offset p) (out_bytes p) @ s" "out_offset p' = out_offset p + n"
      "out_depth p' = out_depth p" "out_format p' = out_format p" "out_noalloc p' = out_noalloc p"
    using assms(2-4) ensure_room(1,3) [OF q] unfolding p' put_def advance_out_def pb_ok_def
    by (simp_all add: eq)
qed

lemma update_offset_ok [intro]: "pb_ok p \<Longrightarrow> pb_ok (update_offset p)"
proof -
  have "c_strlen s \<le> length s" for s by (simp add: c_strlen_def cstr_def length_takeWhile_le)
  then have "c_strlen (drop (out_offset p) (out_bytes p)) \<le> length (out_bytes p) - out_offset p" by (metis length_drop)
  then show "pb_ok p \<Longrightarrow> pb_ok (update_offset p)" by (auto simp: pb_ok_def update_offset_def advance_out_def)
qed

lemma pb_ok_depth [simp]: "pb_ok (p\<lparr>out_depth := d\<rparr>) = pb_ok p"
  by (simp add: pb_ok_def)

named_theorems pb_pres "every output keeps the buffer's bounds"

lemma print_number_ok [pb_pres]: "print_number d p = Some p' \<Longrightarrow> pb_ok p \<Longrightarrow> pb_ok p'"
  by (auto simp: print_number_def intro: emit_spec(1) split: option.splits)

lemma print_string_ptr_ok [pb_pres]: "print_string_ptr s p = Some p' \<Longrightarrow> pb_ok p \<Longrightarrow> pb_ok p'"
  unfolding print_string_ptr_def Let_def by (erule emit_spec(1)) (simp_all add: length_string_text)

lemma open_array_ok [pb_pres]: "open_array p = Some p' \<Longrightarrow> pb_ok p \<Longrightarrow> pb_ok p'"
  by (auto simp: open_array_def elim!: emit_spec(1))

lemma close_array_ok [pb_pres]: "close_array p = Some p' \<Longrightarrow> pb_ok p \<Longrightarrow> pb_ok p'"
  by (auto simp: close_array_def elim!: emit_spec(1))

lemma array_comma_ok [pb_pres]: "array_comma p = Some p' \<Longrightarrow> pb_ok p \<Longrightarrow> pb_ok p'"
  unfolding array_comma_def Let_def by (erule emit_spec(1)) simp_all

lemma open_object_ok [pb_pres]: "open_object p = Some p' \<Longrightarrow> pb_ok p \<Longrightarrow> pb_ok p'"
  by (auto simp: open_object_def Let_def elim!: emit_spec(1))

lemma member_tail_ok [pb_pres]: "member_tail b p = Some p' \<Longrightarrow> pb_ok p \<Longrightarrow> pb_ok p'"
  unfolding member_tail_def Let_def by (erule emit_spec(1)) simp_all

lemma close_object_ok [pb_pres]: "close_object p = Some p' \<Longrightarrow> pb_ok p \<Longrightarrow> pb_ok p'"
  by (auto simp: close_object_def tabs_def elim!: emit_spec(1))

lemma member_head_ok [pb_pres]: "member_head k p = Some p' \<Longrightarrow> pb_ok p \<Longrightarrow> pb_ok p'"
proof -
  assume h: "member_head k p = Some p'" and ok: "pb_ok p"
  obtain q r where q: "(if out_format p then emit (out_depth p) (tabs (out_depth p)) (out_depth p) p else Some p) = Some q"
    and r: "print_string_ptr k q = Some r"
    and p': "(let s = (if out_format (update_offset r) then [CHR '':'', TAB] else [CHR '':''])
        in emit (length s) s (length s) (update_offset r)) = Some p'"
    using h unfolding member_head_def Let_def by (auto split: option.splits)
  have "pb_ok q" using q ok by (auto simp: tabs_def intro: emit_spec(1) split: if_splits)
  then have "pb_ok (update_offset r)" using r by (auto intro: print_string_ptr_ok)
  then show ?thesis using p' unfolding Let_def by (elim emit_spec(1)) simp_all
qed

lemma emit_words [pb_pres]:
  "emit 5 ''null'' 0 p = Some p' \<Longrightarrow> pb_ok p \<Longrightarrow> pb_ok p'"
  "emit 5 ''true'' 0 p = Some p' \<Longrightarrow> pb_ok p \<Longrightarrow> pb_ok p'"
  "emit 6 ''false'' 0 p = Some p' \<Longrightarrow> pb_ok p \<Longrightarrow> pb_ok p'"
  by (erule emit_spec(1); simp)+

lemma print_ok:
  "print_value j p = Some p' \<Longrightarrow> pb_ok p \<Longrightarrow> pb_ok p'"
  "print_elements xs p = Some p' \<Longrightarrow> pb_ok p \<Longrightarrow> pb_ok p'"
  "print_members kvs p = Some p' \<Longrightarrow> pb_ok p \<Longrightarrow> pb_ok p'"
proof (induction j p and xs p and kvs p arbitrary: p' and p' and p'
    rule: print_value_print_elements_print_members.induct)
  case (8 x xs p)
  obtain q where q: "print_value x p = Some q"
    and r: "\<exists>r. (if xs \<noteq> [] then array_comma (update_offset q) else Some (update_offset q)) = Some r \<and>
        print_elements xs r = Some p'"
    using "8.prems"(1) by (auto simp: Let_def split: option.splits if_splits)
  from r obtain r where r: "(if xs \<noteq> [] then array_comma (update_offset q) else Some (update_offset q)) = Some r"
    "print_elements xs r = Some p'" by blast
  have "pb_ok q" using "8.IH"(1) q "8.prems"(2) by blast
  then have "pb_ok r" using r(1) by (auto intro: array_comma_ok split: if_splits)
  then show ?case using "8.IH"(2) q r by blast
next
  case (10 k v kvs p)
  obtain q r u where "member_head k p = Some q" "print_value v q = Some r"
    "member_tail (kvs \<noteq> []) (update_offset r) = Some u" "print_members kvs u = Some p'"
    using "10.prems"(1) by (auto simp: Let_def split: option.splits)
  then show ?case
    using "10.IH" "10.prems"(2) by (meson member_head_ok member_tail_ok update_offset_ok)
qed (auto intro: pb_pres split: option.splits if_splits)


text \<open>C17. Formatted or not, growing or in a buffer of the caller's, printing never writes past the end of
  the buffer: what it holds, NUL included, lies inside the allocation, which stays within an \<open>int\<close>; so
  does the offset once it is brought up to date.\<close>

theorem print_stays_in_buffer:
  assumes "print_value j p = Some p'" and "out_offset p \<le> length (out_bytes p)"
    and "length (out_bytes p) < out_length p" and "out_length p \<le> nat INT_MAX"
  shows "length (out_bytes p') < out_length p' \<and> out_length p' \<le> nat INT_MAX \<and>
    out_offset (update_offset p') \<le> length (out_bytes p')"
proof -
  have "pb_ok p'" using print_ok(1) [OF assms(1)] assms(2-4) by (simp add: pb_ok_def)
  moreover from this have "pb_ok (update_offset p')" by (rule update_offset_ok)
  ultimately show ?thesis by (simp add: pb_ok_def update_offset_def advance_out_def)
qed

theorem print_stays_in_buffer_witness:
  "\<exists>p'. print_value (JArr [JNull]) \<lparr>out_bytes = [], out_length = 4, out_offset = 0, out_depth = 0,
       out_noalloc = False, out_format = True\<rparr> = Some p' \<and>
     length (out_bytes p') < out_length p' \<and> out_length p' \<le> nat INT_MAX"
proof -
  let ?p = "\<lparr>out_bytes = [], out_length = 4, out_offset = 0, out_depth = 0, out_noalloc = False, out_format = True\<rparr>"
  have "\<exists>p'. print_value (JArr [JNull]) ?p = Some p'"
    by (simp add: open_array_def close_array_def emit_def ensure_def put_def advance_out_def update_offset_def
        c_strlen_def cstr_def INT_MAX_def Let_def)
  then obtain p' where p': "print_value (JArr [JNull]) ?p = Some p'" by blast
  from print_stays_in_buffer [OF p'] show ?thesis using p' by (simp add: INT_MAX_def)
qed

end
