(* ===== verification/Json_Text.thy ===== *)
theory Json_Text
  imports Json_Print
begin

text \<open>
  The text of a JSON tree as a function of the tree, \<open>json_text\<close>, and the proof that printing into the
  growing buffer of \<open>Json_Print\<close> writes exactly this text as long as it fits an \<open>int\<close>.  Printed text
  holds no control characters, so it has neither a NUL nor a line feed.
\<close>

section \<open>The text of a tree\<close>

fun json_text :: "json \<Rightarrow> bytes"
  and elements_text :: "json list \<Rightarrow> bytes"
  and members_text :: "(bytes \<times> json) list \<Rightarrow> bytes" where
  "json_text JNull = ''null''"
| "json_text (JBool b) = (if b then ''true'' else ''false'')"
| "json_text (JNum d) = number_buffer_text d"
| "json_text (JStr s) = string_text s"
| "json_text (JArr xs) = CHR ''['' # elements_text xs @ [CHR '']'']"
| "json_text (JObj kvs) = CHR 0x7B # members_text kvs @ [CHR 0x7D]"
| "elements_text [] = []"
| "elements_text (x # xs) = json_text x @ (if xs \<noteq> [] then [CHR 0x2C] else []) @ elements_text xs"
| "members_text [] = []"
| "members_text ((k, v) # kvs) =
     string_text k @ [CHR '':''] @ json_text v @ (if kvs \<noteq> [] then [CHR 0x2C] else []) @ members_text kvs"

text \<open>Trees whose numbers are integers of at most 15 digits and whose strings are C strings, and how
  deep arrays and objects nest in them.\<close>

definition small_int :: "dbl \<Rightarrow> bool" where
  "small_int d = (case d of Finite q \<Rightarrow> q = of_int \<lfloor>q\<rfloor> \<and> \<bar>\<lfloor>q\<rfloor>\<bar> < 10 ^ 15 | Infinite _ \<Rightarrow> False)"

fun json_ok :: "json \<Rightarrow> bool" where
  "json_ok (JNum d) = small_int d"
| "json_ok (JStr s) = (NUL \<notin> set s)"
| "json_ok (JArr xs) = (\<forall>x\<in>set xs. json_ok x)"
| "json_ok (JObj kvs) = (\<forall>kv\<in>set kvs. NUL \<notin> set (fst kv) \<and> json_ok (snd kv))"
| "json_ok _ = True"

fun nesting :: "json \<Rightarrow> nat" where
  "nesting (JArr xs) = Suc (fold (\<lambda>x n. max (nesting x) n) xs 0)"
| "nesting (JObj kvs) = Suc (fold (\<lambda>kv n. max (nesting (snd kv)) n) kvs 0)"
| "nesting _ = 0"

lemma fold_max_le: "fold (\<lambda>x n. max (f x) n) xs a \<le> m \<longleftrightarrow> a \<le> m \<and> (\<forall>x\<in>set xs. f x \<le> (m :: nat))"
  by (induction xs arbitrary: a) auto

lemma small_intE:
  assumes "small_int d"
  obtains i where "d = dbl_of_int i" and "\<bar>i\<bar> < 10 ^ 15"
  using assms by (auto simp: small_int_def split: dbl.splits)

lemma small_int_of_int: "\<bar>i\<bar> < 10 ^ 15 \<Longrightarrow> small_int (dbl_of_int i)"
  by (simp add: small_int_def)

section \<open>Printed text has no control characters\<close>

lemma show_int_printable: "\<forall>c\<in>set (show_int i). 31 < (of_char c :: nat)"
  using show_nat_digits [of "nat i"] show_nat_digits [of "nat (- i)"]
  by (auto simp: show_int_def isdigit_def Let_def)

lemma json_text_printable:
  "json_ok j \<Longrightarrow> \<forall>c\<in>set (json_text j). 31 < (of_char c :: nat)"
  "\<forall>x\<in>set xs. json_ok x \<Longrightarrow> \<forall>c\<in>set (elements_text xs). 31 < (of_char c :: nat)"
  "\<forall>kv\<in>set kvs. json_ok (snd kv) \<Longrightarrow> \<forall>c\<in>set (members_text kvs). 31 < (of_char c :: nat)"
proof (induction j and xs and kvs rule: json_text_elements_text_members_text.induct)
  case (3 d)
  then obtain i where "d = dbl_of_int i" "\<bar>i\<bar> < 10 ^ 15" by (auto elim: small_intE)
  then show ?case using number_buffer_text_int show_int_printable by simp
next
  case (4 s)
  show ?case using string_text_printable by simp
next
  case (10 k v kvs)
  then show ?case using string_text_printable [of k] by auto
qed auto

lemma json_text_no_control:
  assumes "json_ok j"
  shows "NUL \<notin> set (json_text j)" and "LF \<notin> set (json_text j)" and "CR \<notin> set (json_text j)"
  using json_text_printable(1) [OF assms] by fastforce+

section \<open>Printing writes the text\<close>

text \<open>What an output adds: \<open>wrote\<close> leaves the new bytes in the buffer, counted or not, and \<open>counted\<close>
  has the offset behind them.\<close>

definition wrote :: "bytes \<Rightarrow> printbuffer \<Rightarrow> printbuffer \<Rightarrow> bool" where
  "wrote s p p' \<longleftrightarrow> pb_ok p' \<and> out_bytes p' = take (out_offset p) (out_bytes p) @ s \<and>
     out_offset p \<le> out_offset p' \<and> \<not> out_format p' \<and> \<not> out_noalloc p'"

definition counted :: "bytes \<Rightarrow> printbuffer \<Rightarrow> printbuffer \<Rightarrow> bool" where
  "counted s p p' \<longleftrightarrow> pb_ok p' \<and> take (out_offset p') (out_bytes p') = take (out_offset p) (out_bytes p) @ s \<and>
     out_offset p' = out_offset p + length s \<and> \<not> out_format p' \<and> \<not> out_noalloc p'"

lemma wrote_counted:
  "wrote s p p' \<Longrightarrow> out_offset p' = out_offset p + length s \<Longrightarrow> pb_ok p \<Longrightarrow> counted s p p'"
  by (auto simp: wrote_def counted_def pb_ok_def)

definition ready :: "nat \<Rightarrow> printbuffer \<Rightarrow> bool" where
  "ready n p \<longleftrightarrow> pb_ok p \<and> \<not> out_format p \<and> \<not> out_noalloc p \<and> out_offset p + n + 2 \<le> nat INT_MAX"

lemma ensure_Some:
  assumes "ready n p" and "needed \<le> n + 1"
  shows "\<exists>p'. ensure p needed = Some p'"
  using assms by (auto simp: ready_def pb_ok_def ensure_def Let_def INT_MAX_def)

lemma emit_wrote:
  assumes "ready (length s) p" and "needed \<le> length s + 1" and "length s \<le> needed" and "n \<le> length s"
  shows "\<exists>p'. emit needed s n p = Some p' \<and> wrote s p p' \<and> out_offset p' = out_offset p + n"
proof -
  obtain q where "ensure p needed = Some q" using ensure_Some [OF assms(1,2)] by blast
  then have e: "emit needed s n p = Some (advance_out n (put s q))" by (simp add: emit_def)
  have "pb_ok p" "\<not> out_format p" "\<not> out_noalloc p" using assms(1) by (simp_all add: ready_def)
  then show ?thesis using e emit_spec [OF e _ assms(3,4)] by (auto simp: wrote_def)
qed

lemma emit_counted:
  "ready (length s) p \<Longrightarrow> needed \<le> length s + 1 \<Longrightarrow> length s \<le> needed \<Longrightarrow>
     \<exists>p'. emit needed s (length s) p = Some p' \<and> counted s p p'"
  using emit_wrote [of s p needed "length s"] by (auto intro: wrote_counted simp: ready_def)

lemma counted_depth [simp]: "counted s p (p'\<lparr>out_depth := d\<rparr>) = counted s p p'"
  by (simp add: counted_def wrote_def)

lemma wrote_depth [simp]: "wrote s p (p'\<lparr>out_depth := d\<rparr>) = wrote s p p'"
  by (simp add: wrote_def)

lemma counted_update:
  assumes "wrote s p p'" and "NUL \<notin> set s" and "pb_ok p"
  shows "counted s p (update_offset p')"
proof -
  have b: "out_bytes p' = take (out_offset p) (out_bytes p) @ s" "out_offset p \<le> out_offset p'"
    using assms(1) by (simp_all add: wrote_def)
  have o: "out_offset p \<le> length (out_bytes p)" "out_offset p' \<le> length (out_bytes p')"
    using assms(1,3) unfolding wrote_def pb_ok_def by blast+
  then have d: "drop (out_offset p') (out_bytes p') = drop (out_offset p' - out_offset p) s"
    using b by simp
  have "NUL \<notin> set (drop (out_offset p' - out_offset p) s)" using assms(2) by (meson in_set_dropD)
  then have "c_strlen (drop (out_offset p') (out_bytes p')) = length s - (out_offset p' - out_offset p)"
    by (simp add: d c_strlen_def cstr_id)
  moreover from b(1) o(1) have "length (out_bytes p') = out_offset p + length s" by simp
  then have "out_offset p' \<le> out_offset p + length s" using o(2) by simp
  moreover have "pb_ok (update_offset p')" using assms(1) by (auto simp: wrote_def)
  ultimately show ?thesis
    using assms(1) b o(1) by (simp add: counted_def wrote_def update_offset_def advance_out_def)
qed

lemma wrote_trans: "counted s p q \<Longrightarrow> wrote t q r \<Longrightarrow> pb_ok p \<Longrightarrow> wrote (s @ t) p r"
  by (auto simp: counted_def wrote_def pb_ok_def)

lemma counted_trans: "counted s p q \<Longrightarrow> counted t q r \<Longrightarrow> pb_ok p \<Longrightarrow> counted (s @ t) p r"
  by (auto simp: counted_def pb_ok_def)

lemma counted_ready: "counted s p q \<Longrightarrow> ready (length s + n) p \<Longrightarrow> ready n q"
  by (auto simp: counted_def wrote_def ready_def)

lemma ready_less: "ready n p \<Longrightarrow> m \<le> n \<Longrightarrow> ready m p"
  by (simp add: ready_def)

lemma readyD: "ready n p \<Longrightarrow> pb_ok p \<and> \<not> out_format p"
  by (simp add: ready_def)


lemma emit_spec_wrote:
  "ready (length s) p \<Longrightarrow> length s < needed \<Longrightarrow> needed \<le> length s + 1 \<Longrightarrow> \<exists>p'. emit needed s 0 p = Some p' \<and> wrote s p p'"
  using emit_wrote [of s p needed 0] by auto

lemma print_string_writes:
  assumes "ready (length (string_text s)) p"
  shows "\<exists>p'. print_string_ptr s p = Some p' \<and> wrote (string_text s) p p'"
  unfolding print_string_ptr_def Let_def
  by (rule emit_spec_wrote [OF assms]) (simp_all add: length_string_text)

lemma string_text_no_nul: "NUL \<notin> set (string_text s)"
  using string_text_printable [of s] by fastforce

lemma member_head_counts:
  assumes "ready (length (string_text k @ '':'')) p"
  shows "\<exists>p'. member_head k p = Some p' \<and> counted (string_text k @ '':'') p p'"
proof -
  have ok: "pb_ok p" "\<not> out_format p" using assms by (simp_all add: ready_def)
  have "ready (length (string_text k)) p" using assms by (rule ready_less) simp
  then obtain q where q: "print_string_ptr k p = Some q" "wrote (string_text k) p q"
    using print_string_writes by blast
  have c: "counted (string_text k) p (update_offset q)"
    using counted_update [OF q(2) string_text_no_nul ok(1)] .
  then have r: "ready (length '':'') (update_offset q)" using assms by (auto intro: counted_ready)
  then have f: "\<not> out_format (update_offset q)" by (simp add: ready_def)
  obtain u where u: "emit (length '':'') '':'' (length '':'') (update_offset q) = Some u"
      "counted '':'' (update_offset q) u"
    using emit_counted [OF r] by auto
  have "member_head k p = Some u" using q(1) u(1) ok f by (simp add: member_head_def Let_def)
  then show ?thesis using counted_trans [OF c u(2) ok(1)] by blast
qed

text \<open>An output of fixed text whose offset counts it.\<close>

lemma emit_step:
  "ready (length s) p \<Longrightarrow> \<exists>p'. emit (length s + 1) s (length s) p = Some p' \<and> counted s p p'"
  by (rule emit_counted) simp_all

lemma print_writes:
  "json_ok j \<Longrightarrow> ready (length (json_text j)) p \<Longrightarrow>
     \<exists>p'. print_value j p = Some p' \<and> wrote (json_text j) p p'"
  "\<forall>x\<in>set xs. json_ok x \<Longrightarrow> ready (length (elements_text xs)) p \<Longrightarrow>
     \<exists>p'. print_elements xs p = Some p' \<and> counted (elements_text xs) p p'"
  "\<forall>kv\<in>set kvs. NUL \<notin> set (fst kv) \<and> json_ok (snd kv) \<Longrightarrow> ready (length (members_text kvs)) p \<Longrightarrow>
     \<exists>p'. print_members kvs p = Some p' \<and> counted (members_text kvs) p p'"
proof (induction j and xs and kvs arbitrary: p and p and p rule: json_text_elements_text_members_text.induct)
  case 1
  then show ?case by (simp add: emit_spec_wrote)
next
  case (2 b)
  then show ?case by (cases b) (simp_all add: emit_spec_wrote)
next
  case (3 d)
  then obtain i where i: "d = dbl_of_int i" "\<bar>i\<bar> < 10 ^ 15" by (auto elim: small_intE)
  have "ready (length (show_int i)) p" using "3.prems"(2) i by (simp add: number_buffer_text_int)
  from emit_wrote [OF this, of "length (show_int i) + 1" "length (show_int i)"] show ?case
    using i by (auto simp: print_number_def print_number_text_int number_buffer_text_int)
next
  case (4 s)
  then show ?case by (simp add: print_string_writes)
next
  case (5 xs)
  have ok: "pb_ok p" using "5.prems"(2) by (simp add: ready_def)
  have "ready (length ''['') p" using "5.prems"(2) by (rule ready_less) simp
  then obtain q0 where q0: "emit 1 ''['' 1 p = Some q0" "counted ''['' p q0"
    using emit_counted [of "''[''" p 1] by auto
  define q where "q = q0\<lparr>out_depth := out_depth q0 + 1\<rparr>"
  have q: "open_array p = Some q" "counted ''['' p q" using q0 by (simp_all add: open_array_def q_def)
  have rq: "ready (length (elements_text xs) + 1) q" using q(2) "5.prems"(2) by (auto intro: counted_ready)
  have "ready (length (elements_text xs)) q" using rq by (rule ready_less) simp
  with "5.IH" "5.prems"(1) obtain r where r: "print_elements xs q = Some r" "counted (elements_text xs) q r"
    by auto
  have "ready (length ('']'')) r" using counted_ready [OF r(2) rq] by simp
  from emit_spec_wrote [OF this, of 2] obtain u where u: "emit 2 '']'' 0 r = Some u" "wrote '']'' r u"
    by auto
  have c: "counted (''['' @ elements_text xs) p r" using counted_trans [OF q(2) r(2) ok] .
  show ?case
    using q(1) r(1) u wrote_trans [OF c u(2) ok] by (simp add: close_array_def)
next
  case (6 kvs)
  have ok: "pb_ok p" "\<not> out_format p" using "6.prems"(2) by (simp_all add: ready_def)
  have "ready (length [CHR 0x7B]) p" using "6.prems"(2) by (rule ready_less) simp
  from emit_step [OF this] obtain q0 where q0: "emit 2 [CHR 0x7B] 1 p = Some q0" "counted [CHR 0x7B] p q0"
    by (auto simp: numeral_2_eq_2)
  define q where "q = q0\<lparr>out_depth := out_depth q0 + 1\<rparr>"
  have q: "open_object p = Some q" "counted [CHR 0x7B] p q"
    using q0 ok by (simp_all add: open_object_def q_def Let_def numeral_2_eq_2)
  have rq: "ready (length (members_text kvs) + 1) q" using q(2) "6.prems"(2) by (auto intro: counted_ready)
  have "ready (length (members_text kvs)) q" using rq by (rule ready_less) simp
  with "6.IH" "6.prems"(1) obtain r where r: "print_members kvs q = Some r" "counted (members_text kvs) q r"
    by auto
  have rr: "ready (length [CHR 0x7D]) r" using counted_ready [OF r(2) rq] by simp
  from emit_spec_wrote [OF this, of 2] obtain u where u: "emit 2 [CHR 0x7D] 0 r = Some u" "wrote [CHR 0x7D] r u"
    by auto
  have c: "counted ([CHR 0x7B] @ members_text kvs) p r" using counted_trans [OF q(2) r(2) ok(1)] .
  have "\<not> out_format r" using rr by (simp add: ready_def)
  then show ?case
    using q(1) r(1) u wrote_trans [OF c u(2) ok(1)] by (simp add: close_object_def)
next
  case 7
  then show ?case by (simp add: counted_def wrote_def ready_def pb_ok_def)
next
  case (8 x xs)
  let ?c = "if xs \<noteq> [] then [CHR 0x2C] else []"
  have ok: "pb_ok p" using "8.prems"(2) by (simp add: ready_def)
  have "ready (length (json_text x)) p" using "8.prems"(2) by (rule ready_less) simp
  with "8.IH"(1) "8.prems"(1) obtain q where q: "print_value x p = Some q" "wrote (json_text x) p q" by auto
  have c: "counted (json_text x) p (update_offset q)"
    using counted_update [OF q(2) _ ok] json_text_no_control(1) "8.prems"(1) by simp
  then have rq: "ready (length ?c + length (elements_text xs)) (update_offset q)"
    using "8.prems"(2) by (auto intro: counted_ready)
  have f: "\<not> out_format (update_offset q)" "pb_ok (update_offset q)" using rq by (simp_all add: ready_def)
  obtain r where r: "(if xs \<noteq> [] then array_comma (update_offset q) else Some (update_offset q)) = Some r"
      "counted ?c (update_offset q) r"
  proof (cases "xs = []")
    case True
    then show ?thesis using that rq f by (auto simp: counted_def wrote_def ready_def pb_ok_def)
  next
    case False
    have "ready (length [CHR 0x2C]) (update_offset q)" using rq False by (auto intro: ready_less)
    from emit_step [OF this] show ?thesis using that False f by (auto simp: array_comma_def)
  qed
  have "ready (length (elements_text xs)) r" using counted_ready [OF r(2) rq] .
  with "8.IH"(2) "8.prems"(1) obtain u where u: "print_elements xs r = Some u" "counted (elements_text xs) r u"
    by auto
  show ?case
    using q(1) r(1) u counted_trans [OF counted_trans [OF c r(2) ok] u(2) ok] by (simp add: Let_def)
next
  case 9
  then show ?case by (simp add: counted_def wrote_def ready_def pb_ok_def)
next
  case (10 k v kvs)
  let ?c = "if kvs \<noteq> [] then [CHR 0x2C] else []"
  have ok: "pb_ok p" using "10.prems"(2) by (simp add: ready_def)
  have "ready (length (string_text k @ '':'')) p" using "10.prems"(2) by (rule ready_less) simp
  then obtain h where h: "member_head k p = Some h" "counted (string_text k @ '':'') p h"
    using member_head_counts by blast
  have rh: "ready (length (json_text v) + (length ?c + length (members_text kvs))) h"
    using h(2) "10.prems"(2) by (auto intro: counted_ready)
  then have okh: "pb_ok h" by (simp add: ready_def)
  have "ready (length (json_text v)) h" using rh by (rule ready_less) simp
  with "10.IH"(1) "10.prems"(1) obtain q where q: "print_value v h = Some q" "wrote (json_text v) h q" by auto
  have c: "counted (json_text v) h (update_offset q)"
    using counted_update [OF q(2) _ okh] json_text_no_control(1) "10.prems"(1) by simp
  then have rq: "ready (length ?c + length (members_text kvs)) (update_offset q)"
    using rh by (rule counted_ready)
  have f: "\<not> out_format (update_offset q)" using rq by (simp add: ready_def)
  have "ready (length ?c) (update_offset q)" using rq by (rule ready_less) simp
  from emit_step [OF this] obtain r where r: "member_tail (kvs \<noteq> []) (update_offset q) = Some r"
      "counted ?c (update_offset q) r"
    using f by (auto simp: member_tail_def Let_def split: if_splits)
  have "ready (length (members_text kvs)) r" using counted_ready [OF r(2) rq] .
  with "10.IH"(2) "10.prems"(1) obtain u where u: "print_members kvs r = Some u" "counted (members_text kvs) r u"
    by auto
  have "counted ((string_text k @ '':'') @ json_text v @ ?c @ members_text kvs) p u"
    using counted_trans [OF h(2) counted_trans [OF c counted_trans [OF r(2) u(2)]] ok] okh f rq
    by (simp add: ready_def)
  then show ?case using h(1) q(1) r(1) u(1) by (simp add: Let_def)
qed

text \<open>The whole text, as \<open>cJSON_PrintUnformatted\<close> returns it.\<close>

lemma print_unformatted_text:
  assumes "json_ok j" and "length (json_text j) + 2 \<le> nat INT_MAX"
  shows "cJSON_PrintUnformatted j = Some (json_text j)"
proof -
  let ?p = "\<lparr>out_bytes = [], out_length = 256, out_offset = 0, out_depth = 0, out_noalloc = False, out_format = False\<rparr>"
  have ok: "pb_ok ?p" by (simp add: pb_ok_def INT_MAX_def)
  then have "ready (length (json_text j)) ?p" using assms(2) by (simp add: ready_def)
  with print_writes(1) [OF assms(1)] obtain q where q: "print_value j ?p = Some q" "wrote (json_text j) ?p q"
    by blast
  have "counted (json_text j) ?p (update_offset q)"
    using counted_update [OF q(2) json_text_no_control(1) [OF assms(1)] ok] .
  then have "take (out_offset (update_offset q)) (out_bytes (update_offset q)) = json_text j"
    unfolding counted_def by (elim conjE) simp
  then show ?thesis
    using q(1) by (simp only: cJSON_PrintUnformatted_def print_tree_def Let_def option.case)
qed

end
