(* ===== verification/Json_Parse.thy ===== *)
theory Json_Parse
  imports Json_Text
begin

text \<open>
  Parsing of JSON text (\<^verbatim>\<open>external/cjson/cJSON.c\<close>): the \<open>parse_buffer\<close>, white space, and the mutually
  recursive \<open>parse_value\<close>, \<open>parse_array\<close>, \<open>parse_object\<close> with the nesting limit.  The loops recurse
  on the results of nested calls, so that they end rests on the fact that a parsed value moves the
  offset; it is proved of the partial function first.
\<close>

section \<open>The buffer\<close>

record parse_buffer =
  pb_content :: bytes
  pb_offset :: nat
  pb_depth :: nat

definition CJSON_NESTING_LIMIT :: nat where
  "CJSON_NESTING_LIMIT = 1000"

text \<open>The bytes from the offset on, \<open>can_access_at_index\<close>, and the byte at an index where there is one.\<close>

definition buffer_at_offset :: "parse_buffer \<Rightarrow> bytes" where
  "buffer_at_offset b = drop (pb_offset b) (pb_content b)"

definition can_access_at_index :: "parse_buffer \<Rightarrow> nat \<Rightarrow> bool" where
  "can_access_at_index b i \<longleftrightarrow> pb_offset b + i < length (pb_content b)"

definition byte_at :: "parse_buffer \<Rightarrow> nat \<Rightarrow> char option" where
  "byte_at b i = (if can_access_at_index b i then Some (pb_content b ! (pb_offset b + i)) else None)"

definition can_read :: "parse_buffer \<Rightarrow> nat \<Rightarrow> bool" where
  "can_read b n \<longleftrightarrow> pb_offset b + n \<le> length (pb_content b)"

definition reads :: "parse_buffer \<Rightarrow> bytes \<Rightarrow> bool" where
  "reads b w \<longleftrightarrow> can_read b (length w) \<and> starts_with w (buffer_at_offset b)"

definition adv :: "nat \<Rightarrow> parse_buffer \<Rightarrow> parse_buffer" where
  "adv n b = b\<lparr>pb_offset := pb_offset b + n\<rparr>"

definition back1 :: "parse_buffer \<Rightarrow> parse_buffer" where
  "back1 b = b\<lparr>pb_offset := pb_offset b - 1\<rparr>"

text \<open>Bytes up to 32 are skipped, NUL included; at the end of the buffer the offset goes one back.\<close>

definition is_ws_byte :: "char \<Rightarrow> bool" where
  "is_ws_byte c \<longleftrightarrow> (of_char c :: nat) \<le> 32"

definition buffer_skip_whitespace :: "parse_buffer \<Rightarrow> parse_buffer" where
  "buffer_skip_whitespace b =
     (if \<not> can_access_at_index b 0 then b
      else let b = adv (length (takeWhile is_ws_byte (buffer_at_offset b))) b
        in if pb_offset b = length (pb_content b) then back1 b else b)"

definition skip_utf8_bom :: "parse_buffer \<Rightarrow> parse_buffer" where
  "skip_utf8_bom b =
     (if can_access_at_index b 4 \<and> starts_with [CHR 0xEF, CHR 0xBB, CHR 0xBF] (buffer_at_offset b)
      then adv 3 b else b)"

section \<open>Values\<close>

definition parse_number :: "parse_buffer \<Rightarrow> (json \<times> parse_buffer) option" where
  "parse_number b =
     map_option (\<lambda>(d, n). (JNum d, adv n b)) (parse_number_text (buffer_at_offset b))"

text \<open>The string as C code reads it: up to its first NUL byte.\<close>

definition parse_string :: "parse_buffer \<Rightarrow> (bytes \<times> parse_buffer) option" where
  "parse_string b =
     map_option (\<lambda>(s, n, alloc). (cstr s, adv n b)) (parse_string_text (buffer_at_offset b))"

definition close_nested :: "parse_buffer \<Rightarrow> parse_buffer" where
  "close_nested b = b\<lparr>pb_depth := pb_depth b - 1, pb_offset := pb_offset b + 1\<rparr>"

definition starts_number :: "parse_buffer \<Rightarrow> bool" where
  "starts_number b = (case byte_at b 0 of Some c \<Rightarrow> c = CHR ''-'' \<or> isdigit c | None \<Rightarrow> False)"

function parse_value :: "parse_buffer \<Rightarrow> (json \<times> parse_buffer) option"
  and parse_array :: "parse_buffer \<Rightarrow> (json \<times> parse_buffer) option"
  and parse_elements :: "parse_buffer \<Rightarrow> (json list \<times> parse_buffer) option"
  and parse_object :: "parse_buffer \<Rightarrow> (json \<times> parse_buffer) option"
  and parse_members :: "parse_buffer \<Rightarrow> ((bytes \<times> json) list \<times> parse_buffer) option" where
  "parse_value b =
     (if reads b ''null'' then Some (JNull, adv 4 b)
      else if reads b ''false'' then Some (JBool False, adv 5 b)
      else if reads b ''true'' then Some (JBool True, adv 4 b)
      else if byte_at b 0 = Some QUOTE then map_option (\<lambda>(s, b). (JStr s, b)) (parse_string b)
      else if starts_number b then parse_number b
      else if byte_at b 0 = Some (CHR ''['') then parse_array b
      else if byte_at b 0 = Some (CHR 0x7B) then parse_object b
      else None)"
| "parse_array b =
     (if CJSON_NESTING_LIMIT \<le> pb_depth b then None
      else if byte_at b 0 \<noteq> Some (CHR ''['') then None
      else let b1 = buffer_skip_whitespace (adv 1 (b\<lparr>pb_depth := pb_depth b + 1\<rparr>))
        in if byte_at b1 0 = Some (CHR '']'') then Some (JArr [], close_nested b1)
           else if \<not> can_access_at_index b1 0 then None
           else (case parse_elements (back1 b1) of
                   None \<Rightarrow> None
                 | Some (xs, b2) \<Rightarrow>
                     if byte_at b2 0 = Some (CHR '']'') then Some (JArr xs, close_nested b2) else None))"
| "parse_elements b =
     (case parse_value (buffer_skip_whitespace (adv 1 b)) of
        None \<Rightarrow> None
      | Some (v, b1) \<Rightarrow>
          let b2 = buffer_skip_whitespace b1
          in if byte_at b2 0 = Some (CHR 0x2C) then map_option (\<lambda>(vs, b). (v # vs, b)) (parse_elements b2)
             else Some ([v], b2))"
| "parse_object b =
     (if CJSON_NESTING_LIMIT \<le> pb_depth b then None
      else if byte_at b 0 \<noteq> Some (CHR 0x7B) then None
      else let b1 = buffer_skip_whitespace (adv 1 (b\<lparr>pb_depth := pb_depth b + 1\<rparr>))
        in if byte_at b1 0 = Some (CHR 0x7D) then Some (JObj [], close_nested b1)
           else if \<not> can_access_at_index b1 0 then None
           else (case parse_members (back1 b1) of
                   None \<Rightarrow> None
                 | Some (kvs, b2) \<Rightarrow>
                     if byte_at b2 0 = Some (CHR 0x7D) then Some (JObj kvs, close_nested b2) else None))"
| "parse_members b =
     (if \<not> can_access_at_index b 1 then None
      else case parse_string (buffer_skip_whitespace (adv 1 b)) of
        None \<Rightarrow> None
      | Some (k, b1) \<Rightarrow>
          let b2 = buffer_skip_whitespace b1
          in if byte_at b2 0 \<noteq> Some (CHR '':'') then None
             else (case parse_value (buffer_skip_whitespace (adv 1 b2)) of
                     None \<Rightarrow> None
                   | Some (v, b3) \<Rightarrow>
                       let b4 = buffer_skip_whitespace b3
                       in if byte_at b4 0 = Some (CHR 0x2C)
                          then map_option (\<lambda>(kvs, b). ((k, v) # kvs, b)) (parse_members b4)
                          else Some ([(k, v)], b4)))"
  by pat_completeness auto

section \<open>Parsing moves the offset and keeps the rest\<close>

text \<open>\<open>n\<close> bytes further at least, in the same buffer.\<close>

definition moved :: "nat \<Rightarrow> parse_buffer \<Rightarrow> parse_buffer \<Rightarrow> bool" where
  "moved n b b' \<longleftrightarrow> pb_content b' = pb_content b \<and> pb_offset b + n \<le> pb_offset b'"

lemma moved_trans: "moved m a b \<Longrightarrow> moved n b c \<Longrightarrow> moved (m + n) a c"
  by (simp add: moved_def)

lemma moved_le: "moved m a b \<Longrightarrow> n \<le> m \<Longrightarrow> moved n a b"
  by (simp add: moved_def)

lemma moved_adv [simp]: "moved n b (adv n b)"
  by (simp add: moved_def adv_def)

lemma moved_depth [simp]: "moved n (b\<lparr>pb_depth := d\<rparr>) b' = moved n b b'" "moved n b (b'\<lparr>pb_depth := d\<rparr>) = moved n b b'"
  by (simp_all add: moved_def)

lemma moved_skip: "moved 0 b (buffer_skip_whitespace b)"
proof (cases "can_access_at_index b 0")
  case True
  let ?n = "length (takeWhile is_ws_byte (buffer_at_offset b))"
  have "pb_offset b < length (pb_content b)" using True by (simp add: can_access_at_index_def)
  then show ?thesis
    by (auto simp: buffer_skip_whitespace_def Let_def moved_def adv_def back1_def)
qed (simp add: buffer_skip_whitespace_def moved_def)

lemma moved_skip_adv: "moved n b (buffer_skip_whitespace (adv n b))"
  using moved_trans [OF moved_adv moved_skip] by simp

lemma moved_step: "moved m (buffer_skip_whitespace (adv n b)) c \<Longrightarrow> k \<le> n + m \<Longrightarrow> moved k b (buffer_skip_whitespace c)"
  using moved_skip_adv [of n b] moved_skip [of c] by (simp add: moved_def)

lemma moved_close: "moved 1 b (close_nested b)"
  by (simp add: moved_def close_nested_def)

lemma parse_number_moved: "parse_number b = Some (j, b') \<Longrightarrow> moved 1 b b'"
  by (auto simp: parse_number_def moved_def adv_def dest!: parse_number_text_moves)

lemma parse_string_moved: "parse_string b = Some (s, b') \<Longrightarrow> moved 2 b b'"
  by (auto simp: parse_string_def parse_string_text_def moved_def adv_def split: if_splits option.splits)

lemma back1_moved: "moved 1 b b1 \<Longrightarrow> moved 0 b (back1 b1)"
  by (auto simp: moved_def back1_def)


text \<open>For a call on which the functions are defined: what it returns lies further on.\<close>

lemma parse_moved_partial:
  "parse_value_parse_array_parse_elements_parse_object_parse_members_dom (Inl (Inl b)) \<Longrightarrow>
     parse_value b = Some (j, b') \<Longrightarrow> moved 1 b b'"
  "parse_value_parse_array_parse_elements_parse_object_parse_members_dom (Inl (Inr b)) \<Longrightarrow>
     parse_array b = Some (j, b') \<Longrightarrow> moved 1 b b'"
  "parse_value_parse_array_parse_elements_parse_object_parse_members_dom (Inr (Inl b)) \<Longrightarrow>
     parse_elements b = Some (js, b') \<Longrightarrow> moved 1 b b'"
  "parse_value_parse_array_parse_elements_parse_object_parse_members_dom (Inr (Inr (Inl b))) \<Longrightarrow>
     parse_object b = Some (j, b') \<Longrightarrow> moved 1 b b'"
  "parse_value_parse_array_parse_elements_parse_object_parse_members_dom (Inr (Inr (Inr b))) \<Longrightarrow>
     parse_members b = Some (kvs, b') \<Longrightarrow> moved 1 b b'"
proof (induction b and b and b and b and b arbitrary: j b' and j b' and js b' and j b' and kvs b'
    rule: parse_value_parse_array_parse_elements_parse_object_parse_members.pinduct)
  case (1 b)
  have "moved 1 b (adv 4 b)" "moved 1 b (adv 5 b)" by (simp_all add: moved_def adv_def)
  with 1 show ?case
    by (auto simp: parse_value.psimps dest!: parse_string_moved parse_number_moved intro: moved_le
        split: if_splits)
next
  case (2 b)
  let ?b1 = "buffer_skip_whitespace (adv 1 (b\<lparr>pb_depth := pb_depth b + 1\<rparr>))"
  have b1: "moved 1 b ?b1" using moved_skip_adv [of 1 "b\<lparr>pb_depth := pb_depth b + 1\<rparr>"] by simp
  show ?case
  proof (cases "byte_at ?b1 0 = Some (CHR '']'')")
    case True
    then have "b' = close_nested ?b1" using 2 by (auto simp: parse_array.psimps Let_def split: if_splits)
    then show ?thesis using moved_le [OF moved_trans [OF b1 moved_close]] by simp
  next
    case False
    then obtain xs b2 where "parse_elements (back1 ?b1) = Some (xs, b2)" "b' = close_nested b2"
        "\<not> CJSON_NESTING_LIMIT \<le> pb_depth b" "byte_at b 0 = Some (CHR ''['')" "can_access_at_index ?b1 0"
      using 2 by (auto simp: parse_array.psimps Let_def split: if_splits option.splits)
    moreover from this False have "moved 1 (back1 ?b1) b2" by (intro "2.IH") simp_all
    ultimately show ?thesis
      using moved_trans [OF moved_trans [OF back1_moved [OF b1]] moved_close, of 1 b2] by (simp add: moved_def)
  qed
next
  case (3 b)
  then obtain v b1 where v: "parse_value (buffer_skip_whitespace (adv 1 b)) = Some (v, b1)"
    by (auto simp: parse_elements.psimps split: option.splits)
  have "moved 1 (buffer_skip_whitespace (adv 1 b)) b1" using "3.IH"(1) v by blast
  then have b2: "moved 2 b (buffer_skip_whitespace b1)"
    by (rule moved_step) simp
  show ?case
  proof (cases "byte_at (buffer_skip_whitespace b1) 0 = Some (CHR 0x2C)")
    case True
    then obtain vs where "parse_elements (buffer_skip_whitespace b1) = Some (vs, b')"
      using 3 v by (auto simp: parse_elements.psimps Let_def split: option.splits)
    then have "moved 1 (buffer_skip_whitespace b1) b'" using "3.IH"(2) v True by blast
    then show ?thesis using moved_le [OF moved_trans [OF b2]] by fastforce
  next
    case False
    then have "b' = buffer_skip_whitespace b1"
      using 3 v by (auto simp: parse_elements.psimps Let_def split: option.splits)
    then show ?thesis using moved_le [OF b2] by simp
  qed
next
  case (4 b)
  let ?b1 = "buffer_skip_whitespace (adv 1 (b\<lparr>pb_depth := pb_depth b + 1\<rparr>))"
  have b1: "moved 1 b ?b1" using moved_skip_adv [of 1 "b\<lparr>pb_depth := pb_depth b + 1\<rparr>"] by simp
  show ?case
  proof (cases "byte_at ?b1 0 = Some (CHR 0x7D)")
    case True
    then have "b' = close_nested ?b1" using 4 by (auto simp: parse_object.psimps Let_def split: if_splits)
    then show ?thesis using moved_le [OF moved_trans [OF b1 moved_close]] by simp
  next
    case False
    then obtain kvs b2 where "parse_members (back1 ?b1) = Some (kvs, b2)" "b' = close_nested b2"
        "\<not> CJSON_NESTING_LIMIT \<le> pb_depth b" "byte_at b 0 = Some (CHR 0x7B)" "can_access_at_index ?b1 0"
      using 4 by (auto simp: parse_object.psimps Let_def split: if_splits option.splits)
    moreover from this False have "moved 1 (back1 ?b1) b2" by (intro "4.IH") simp_all
    ultimately show ?thesis
      using moved_trans [OF moved_trans [OF back1_moved [OF b1]] moved_close, of 1 b2] by (simp add: moved_def)
  qed
next
  case (5 b)
  then obtain k b1 where acc: "can_access_at_index b 1"
    and k: "parse_string (buffer_skip_whitespace (adv 1 b)) = Some (k, b1)"
    by (auto simp: parse_members.psimps split: option.splits if_splits)
  let ?b2 = "buffer_skip_whitespace b1"
  obtain v b3 where colon: "byte_at ?b2 0 = Some (CHR '':'')"
    and v: "parse_value (buffer_skip_whitespace (adv 1 ?b2)) = Some (v, b3)"
    using 5 acc k by (auto simp: parse_members.psimps Let_def split: option.splits if_splits)
  let ?b4 = "buffer_skip_whitespace b3"
  have "moved 2 (buffer_skip_whitespace (adv 1 b)) b1" using k by (rule parse_string_moved)
  then have b2: "moved 3 b ?b2"
    by (rule moved_step) simp
  have "moved 1 (buffer_skip_whitespace (adv 1 ?b2)) b3" using "5.IH"(1) acc k colon v by blast
  then have "moved 2 ?b2 ?b4"
    by (rule moved_step) simp
  then have b4: "moved 5 b ?b4" using moved_trans [OF b2] by fastforce
  show ?case
  proof (cases "byte_at ?b4 0 = Some (CHR 0x2C)")
    case True
    then obtain kvs' where "parse_members ?b4 = Some (kvs', b')"
      using 5 acc k colon v by (auto simp: parse_members.psimps Let_def split: option.splits)
    then have "moved 1 ?b4 b'" using "5.IH"(2) acc k colon v True by blast
    then show ?thesis using moved_le [OF moved_trans [OF b4]] by fastforce
  next
    case False
    then have "b' = ?b4"
      using 5 acc k colon v by (auto simp: parse_members.psimps Let_def split: option.splits)
    then show ?thesis using moved_le [OF b4] by simp
  qed
qed

text \<open>What is left of the buffer; for the loops, behind the byte at the offset.\<close>

definition pb_left :: "nat \<Rightarrow> parse_buffer \<Rightarrow> nat" where
  "pb_left n b = length (pb_content b) - (pb_offset b + n)"

lemma pb_left_moved: "moved n b b' \<Longrightarrow> m \<le> n \<Longrightarrow> pb_left 0 b' \<le> pb_left m b"
  by (auto simp: pb_left_def moved_def)

lemma pb_left_comma:
  "moved 2 b b' \<Longrightarrow> byte_at b' 0 = Some c \<Longrightarrow> pb_left 1 b' < pb_left 1 b"
  by (auto simp: pb_left_def moved_def byte_at_def can_access_at_index_def split: if_splits)

lemma pb_left_back:
  "moved 1 b b' \<Longrightarrow> byte_at b 0 = Some c \<Longrightarrow> pb_left 1 (back1 b') < pb_left 0 b"
  by (auto simp: pb_left_def moved_def back1_def byte_at_def can_access_at_index_def split: if_splits)

text \<open>So the parser returns on every buffer, of any size and nesting.\<close>

termination parse_value
proof (relation "measure (case_sum
      (case_sum (\<lambda>b. 3 * pb_left 0 b + 2) (\<lambda>b. 3 * pb_left 0 b + 1))
      (case_sum (\<lambda>b. 3 * pb_left 1 b + 3)
        (case_sum (\<lambda>b. 3 * pb_left 0 b + 1) (\<lambda>b. 3 * pb_left 1 b + 3))))", goal_cases)
  case (4 b b1)
  have "moved 1 b b1" using moved_skip_adv [of 1 "b\<lparr>pb_depth := pb_depth b + 1\<rparr>"] 4 by simp
  then show ?case using pb_left_back [of b b1] 4 by simp
next
  case (5 b)
  then show ?case using pb_left_moved [OF moved_skip_adv, of 1 1 b] by simp
next
  case (6 b r v b1 b2)
  have "moved 1 (buffer_skip_whitespace (adv 1 b)) b1"
    using parse_moved_partial(1) [of _ v b1] 6 by simp
  then have "moved 2 b b2"
    using 6 by (auto elim!: moved_step)
  then show ?case using pb_left_comma [of b b2] 6 by simp
next
  case (7 b b1)
  have "moved 1 b b1" using moved_skip_adv [of 1 "b\<lparr>pb_depth := pb_depth b + 1\<rparr>"] 7 by simp
  then show ?case using pb_left_back [of b b1] 7 by simp
next
  case (8 b r k b1 b2)
  have "moved 2 (buffer_skip_whitespace (adv 1 b)) b1" using 8 by (auto intro: parse_string_moved)
  then have "moved 3 b b2"
    using 8 by (auto elim!: moved_step)
  then have "moved 4 b (buffer_skip_whitespace (adv 1 b2))"
    using moved_trans [OF _ moved_skip_adv, of 3 b b2 1] by simp
  then show ?case using pb_left_moved [of 4 b _ 1] by fastforce
next
  case (9 b r k b1 b2 r' v b3 b4)
  have "moved 1 (buffer_skip_whitespace (adv 1 b2)) b3"
    using parse_moved_partial(1) [of _ v b3] 9 by simp
  then have m: "moved 2 b2 b4"
    using 9 by (auto elim!: moved_step)
  have "moved 2 (buffer_skip_whitespace (adv 1 b)) b1" using 9 by (auto intro: parse_string_moved)
  then have "moved 3 b b2"
    using 9 by (auto elim!: moved_step)
  then have "moved 2 b b4" using moved_le [OF moved_trans [OF _ m]] by fastforce
  then show ?case using pb_left_comma [of b b4] 9 by simp
qed simp_all

declare parse_value.simps [simp del] parse_array.simps [simp del] parse_elements.simps [simp del]
  parse_object.simps [simp del] parse_members.simps [simp del]

section \<open>The entry points\<close>

text \<open>\<open>value\<close> are the \<open>buffer_length\<close> bytes the caller passes.  With \<open>require_null_terminated\<close> only
  white space and a NUL may follow the value; the callers here do not ask for it, so whatever follows
  is ignored.\<close>

definition cJSON_ParseWithLengthOpts :: "bytes \<Rightarrow> bool \<Rightarrow> json option" where
  "cJSON_ParseWithLengthOpts buffer require_null_terminated =
     (if buffer = [] then None
      else case parse_value (buffer_skip_whitespace (skip_utf8_bom
             \<lparr>pb_content = buffer, pb_offset = 0, pb_depth = 0\<rparr>)) of
        None \<Rightarrow> None
      | Some (item, b) \<Rightarrow>
          if require_null_terminated \<and> byte_at (buffer_skip_whitespace b) 0 \<noteq> Some NUL then None
          else Some item)"

definition cJSON_ParseWithLength :: "bytes \<Rightarrow> json option" where
  "cJSON_ParseWithLength buffer = cJSON_ParseWithLengthOpts buffer False"

text \<open>The buffer of \<open>cJSON_Parse\<close> is the C string with its terminator.\<close>

definition cJSON_ParseWithOpts :: "bytes \<Rightarrow> bool \<Rightarrow> json option" where
  "cJSON_ParseWithOpts string require_null_terminated =
     cJSON_ParseWithLengthOpts (cstr string @ [NUL]) require_null_terminated"

definition cJSON_Parse :: "bytes \<Rightarrow> json option" where
  "cJSON_Parse string = cJSON_ParseWithOpts string False"


section \<open>What parsed trees look like\<close>

text \<open>Every string in a tree, member names included, is a C string.\<close>

fun c_strings :: "json \<Rightarrow> bool" where
  "c_strings (JStr s) = (NUL \<notin> set s)"
| "c_strings (JArr xs) = (\<forall>x\<in>set xs. c_strings x)"
| "c_strings (JObj kvs) = (\<forall>kv\<in>set kvs. NUL \<notin> set (fst kv) \<and> c_strings (snd kv))"
| "c_strings _ = True"

text \<open>What a parse from nesting depth \<open>d\<close> gives.\<close>

definition tree_ok :: "nat \<Rightarrow> json \<Rightarrow> bool" where
  "tree_ok d j \<longleftrightarrow> c_strings j \<and> d + nesting j \<le> max d CJSON_NESTING_LIMIT"

lemma tree_ok_leaf [simp]:
  "tree_ok d JNull" "tree_ok d (JBool v)" "tree_ok d (JNum n)" "tree_ok d (JStr s) = (NUL \<notin> set s)"
  by (simp_all add: tree_ok_def)

lemma tree_ok_arr:
  "d < CJSON_NESTING_LIMIT \<Longrightarrow> tree_ok d (JArr xs) \<longleftrightarrow> (\<forall>x\<in>set xs. tree_ok (d + 1) x)"
  using fold_max_le [of nesting xs 0 "CJSON_NESTING_LIMIT - d - 1"] by (auto simp: tree_ok_def)

lemma tree_ok_obj:
  "d < CJSON_NESTING_LIMIT \<Longrightarrow>
     tree_ok d (JObj kvs) \<longleftrightarrow> (\<forall>kv\<in>set kvs. NUL \<notin> set (fst kv) \<and> tree_ok (d + 1) (snd kv))"
  using fold_max_le [of "\<lambda>kv. nesting (snd kv)" kvs 0 "CJSON_NESTING_LIMIT - d - 1"]
  by (auto simp: tree_ok_def)

lemma depth_skip [simp]: "pb_depth (buffer_skip_whitespace b) = pb_depth b"
  by (simp add: buffer_skip_whitespace_def Let_def adv_def back1_def)

lemma depth_adv [simp]: "pb_depth (adv n b) = pb_depth b" "pb_depth (back1 b) = pb_depth b"
    "pb_depth (close_nested b) = pb_depth b - 1"
  by (simp_all add: adv_def back1_def close_nested_def)

lemma parse_string_ok: "parse_string b = Some (s, b') \<Longrightarrow> NUL \<notin> set s \<and> pb_depth b' = pb_depth b"
  by (auto simp: parse_string_def cstr_no_nul)

lemma parse_number_ok: "parse_number b = Some (j, b') \<Longrightarrow> tree_ok d j \<and> pb_depth b' = pb_depth b"
  by (auto simp: parse_number_def)

lemma parse_tree_ok:
  "parse_value b = Some (j, b') \<Longrightarrow> tree_ok (pb_depth b) j \<and> pb_depth b' = pb_depth b"
  "parse_array b = Some (j, b') \<Longrightarrow> tree_ok (pb_depth b) j \<and> pb_depth b' = pb_depth b"
  "parse_elements b = Some (js, b') \<Longrightarrow> (\<forall>j\<in>set js. tree_ok (pb_depth b) j) \<and> pb_depth b' = pb_depth b"
  "parse_object b = Some (j, b') \<Longrightarrow> tree_ok (pb_depth b) j \<and> pb_depth b' = pb_depth b"
  "parse_members b = Some (kvs, b') \<Longrightarrow>
     (\<forall>kv\<in>set kvs. NUL \<notin> set (fst kv) \<and> tree_ok (pb_depth b) (snd kv)) \<and> pb_depth b' = pb_depth b"
proof (induction b and b and b and b and b arbitrary: j b' and j b' and js b' and j b' and kvs b'
    rule: parse_value_parse_array_parse_elements_parse_object_parse_members.induct)
  case (1 b)
  show ?case
    using "1.prems" "1.IH" unfolding parse_value.simps [of b]
    by (auto dest: parse_string_ok parse_number_ok split: if_splits)
next
  case (2 b)
  let ?b1 = "buffer_skip_whitespace (adv 1 (b\<lparr>pb_depth := pb_depth b + 1\<rparr>))"
  have d: "pb_depth b < CJSON_NESTING_LIMIT" and o: "byte_at b 0 = Some (CHR ''['')"
    using "2.prems" by (auto simp: parse_array.simps [of b] split: if_splits)
  show ?case
  proof (cases "byte_at ?b1 0 = Some (CHR '']'')")
    case True
    then show ?thesis using "2.prems" d o by (auto simp: parse_array.simps [of b] Let_def tree_ok_arr)
  next
    case False
    then obtain xs b2 where el: "parse_elements (back1 ?b1) = Some (xs, b2)" "can_access_at_index ?b1 0"
        and r: "j = JArr xs" "b' = close_nested b2"
      using "2.prems" d o by (auto simp: parse_array.simps [of b] Let_def split: if_splits option.splits)
    show ?thesis using "2.IH" [OF _ _ HOL.refl False _ el(1)] d o el(2) r tree_ok_arr [OF d] by simp
  qed
next
  case (3 b)
  obtain v b1 where v: "parse_value (buffer_skip_whitespace (adv 1 b)) = Some (v, b1)"
    using "3.prems" by (auto simp: parse_elements.simps [of b] split: option.splits)
  have ok: "tree_ok (pb_depth b) v" "pb_depth b1 = pb_depth b" using "3.IH"(1) [OF v] by simp_all
  show ?case
  proof (cases "byte_at (buffer_skip_whitespace b1) 0 = Some (CHR 0x2C)")
    case True
    then obtain vs where vs: "parse_elements (buffer_skip_whitespace b1) = Some (vs, b')" "js = v # vs"
      using "3.prems" v by (auto simp: parse_elements.simps [of b] Let_def)
    then show ?thesis using "3.IH"(2) [OF v HOL.refl HOL.refl True vs(1)] ok by auto
  next
    case False
    then show ?thesis using "3.prems" v ok by (auto simp: parse_elements.simps [of b] Let_def)
  qed
next
  case (4 b)
  let ?b1 = "buffer_skip_whitespace (adv 1 (b\<lparr>pb_depth := pb_depth b + 1\<rparr>))"
  have d: "pb_depth b < CJSON_NESTING_LIMIT" and o: "byte_at b 0 = Some (CHR 0x7B)"
    using "4.prems" by (auto simp: parse_object.simps [of b] split: if_splits)
  show ?case
  proof (cases "byte_at ?b1 0 = Some (CHR 0x7D)")
    case True
    then show ?thesis using "4.prems" d o by (auto simp: parse_object.simps [of b] Let_def tree_ok_obj)
  next
    case False
    then obtain kvs b2 where el: "parse_members (back1 ?b1) = Some (kvs, b2)" "can_access_at_index ?b1 0"
        and r: "j = JObj kvs" "b' = close_nested b2"
      using "4.prems" d o by (auto simp: parse_object.simps [of b] Let_def split: if_splits option.splits)
    show ?thesis using "4.IH" [OF _ _ HOL.refl False _ el(1)] d o el(2) r tree_ok_obj [OF d] by simp
  qed
next
  case (5 b)
  obtain k b1 where acc: "can_access_at_index b 1"
    and k: "parse_string (buffer_skip_whitespace (adv 1 b)) = Some (k, b1)"
    using "5.prems" by (auto simp: parse_members.simps [of b] split: option.splits if_splits)
  let ?b2 = "buffer_skip_whitespace b1"
  obtain v b3 where colon: "byte_at ?b2 0 = Some (CHR '':'')"
    and v: "parse_value (buffer_skip_whitespace (adv 1 ?b2)) = Some (v, b3)"
    using "5.prems" acc k by (auto simp: parse_members.simps [of b] Let_def split: option.splits if_splits)
  let ?b4 = "buffer_skip_whitespace b3"
  have ok: "NUL \<notin> set k" "pb_depth b1 = pb_depth b" using parse_string_ok [OF k] by simp_all
  have okv: "tree_ok (pb_depth b) v" "pb_depth b3 = pb_depth b"
    using "5.IH"(1) [OF _ k HOL.refl HOL.refl _ v] acc colon ok by simp_all
  show ?case
  proof (cases "byte_at ?b4 0 = Some (CHR 0x2C)")
    case True
    then obtain kvs' where kvs': "parse_members ?b4 = Some (kvs', b')" "kvs = (k, v) # kvs'"
      using "5.prems" acc k colon v by (auto simp: parse_members.simps [of b] Let_def)
    then show ?thesis using "5.IH"(2) [OF _ k HOL.refl HOL.refl _ v HOL.refl HOL.refl True kvs'(1)] acc colon ok okv by auto
  next
    case False
    then show ?thesis using "5.prems" acc k colon v ok okv by (auto simp: parse_members.simps [of b] Let_def)
  qed
qed

end
