(* ===== verification/Json_Roundtrip.thy ===== *)
theory Json_Roundtrip
  imports Json_Text Json_Parse
begin

text \<open>
  Parsing what was printed: the parser of \<open>Json_Parse\<close> reads the text of a tree back as the tree,
  whatever follows it in the buffer.  From this come the round trip of the two entry points the
  program uses, and what the server's replies look like to a client.
\<close>

section \<open>A buffer at a text\<close>

definition at_text :: "parse_buffer \<Rightarrow> bytes \<Rightarrow> bool" where
  "at_text b s \<longleftrightarrow> pb_offset b \<le> length (pb_content b) \<and> buffer_at_offset b = s"

lemma at_can: "at_text b s \<Longrightarrow> can_access_at_index b i \<longleftrightarrow> i < length s"
  by (auto simp: at_text_def buffer_at_offset_def can_access_at_index_def)

lemma at_byte: "at_text b (c # s) \<Longrightarrow> byte_at b 0 = Some c"
  using at_can [of b "c # s" 0] by (auto simp: byte_at_def at_text_def buffer_at_offset_def nth_via_drop)

lemma at_adv: "at_text b (s @ t) \<Longrightarrow> at_text (adv (length s) b) t"
proof -
  assume a: "at_text b (s @ t)"
  then have d: "drop (pb_offset b) (pb_content b) = s @ t" and o: "pb_offset b \<le> length (pb_content b)"
    by (simp_all add: at_text_def buffer_at_offset_def)
  have "length (pb_content b) - pb_offset b = length s + length t"
    using arg_cong [OF d, of length] by simp
  moreover have "drop (pb_offset b + length s) (pb_content b) = drop (length s) (drop (pb_offset b) (pb_content b))"
    by (simp add: add.commute)
  ultimately show ?thesis using o by (simp add: at_text_def buffer_at_offset_def adv_def d)
qed

lemma at_adv1: "at_text b (c # t) \<Longrightarrow> at_text (adv 1 b) t"
  using at_adv [of b "[c]" t] by simp

lemma at_depth [simp]: "at_text (b\<lparr>pb_depth := d\<rparr>) s = at_text b s"
  by (simp add: at_text_def buffer_at_offset_def)

lemma at_skip: "at_text b (c # s) \<Longrightarrow> \<not> is_ws_byte c \<Longrightarrow> buffer_skip_whitespace b = b"
  using at_can [of b "c # s" 0]
  by (auto simp: buffer_skip_whitespace_def at_text_def adv_def can_access_at_index_def)

lemma at_reads: "at_text b s \<Longrightarrow> reads b w \<longleftrightarrow> starts_with w s"
proof -
  assume a: "at_text b s"
  then have "length (pb_content b) = pb_offset b + length s"
    by (auto simp: at_text_def buffer_at_offset_def)
  then show ?thesis using a by (auto simp: reads_def can_read_def at_text_def starts_with_iff)
qed

lemma adv_adv [simp]: "adv m (adv n b) = adv (n + m) b"
  by (simp add: adv_def add.assoc)

lemma adv_depth: "adv n (b\<lparr>pb_depth := d\<rparr>) = (adv n b)\<lparr>pb_depth := d\<rparr>"
  by (simp add: adv_def)

lemma back1_adv [simp]: "back1 (adv (Suc n) b) = adv n b"
  by (simp add: back1_def adv_def)

lemma close_nested_adv: "close_nested (adv n (b\<lparr>pb_depth := pb_depth b + 1\<rparr>)) = adv (Suc n) b"
  by (simp add: close_nested_def adv_def)

text \<open>A printed value starts with a byte that is no white space, and a number stops before what
  follows it.\<close>

lemma is_ws_byte_literals [simp]:
  "\<not> is_ws_byte QUOTE" "\<not> is_ws_byte (CHR 0x2C)" "\<not> is_ws_byte (CHR '':'')" "\<not> is_ws_byte (CHR '']'')"
  "\<not> is_ws_byte (CHR 0x7D)"
  by (simp_all add: is_ws_byte_def)

definition value_start :: "bytes \<Rightarrow> bool" where
  "value_start s \<longleftrightarrow> s \<noteq> [] \<and> \<not> is_ws_byte (hd s) \<and> hd s \<notin> {CHR '']'', CHR 0x7D}"

lemma show_int_start:
  obtains c s where "show_int i = c # s" and "c = CHR ''-'' \<or> isdigit c"
proof (cases "i < 0")
  case True
  then show ?thesis using that by (simp add: show_int_def)
next
  case False
  obtain c s where "show_nat (nat i) = c # s" by (cases "show_nat (nat i)") auto
  then show ?thesis using that [of c s] False show_nat_digits [of "nat i"] by (simp add: show_int_def)
qed

lemma digit_start:
  assumes "c = CHR ''-'' \<or> isdigit c"
  shows "\<not> is_ws_byte c" and "c \<notin> {CHR '']'', CHR 0x7D, CHR ''n'', CHR ''f'', CHR ''t'', QUOTE}"
  using assms by (auto simp: is_ws_byte_def isdigit_def Let_def)

lemma json_text_start: "json_ok j \<Longrightarrow> value_start (json_text j)"
proof (cases j)
  case (JNum d)
  assume "json_ok j"
  then obtain i where i: "d = dbl_of_int i" "\<bar>i\<bar> < 10 ^ 15" using JNum by (auto elim: small_intE)
  obtain c s where "show_int i = c # s" "c = CHR ''-'' \<or> isdigit c" using show_int_start .
  then show ?thesis using JNum i digit_start [of c] by (simp add: number_buffer_text_int value_start_def)
qed (auto simp: value_start_def is_ws_byte_def string_text_eq)

lemma elements_text_start: "xs \<noteq> [] \<Longrightarrow> \<forall>x\<in>set xs. json_ok x \<Longrightarrow> value_start (elements_text xs @ r)"
  by (cases xs) (use json_text_start in \<open>auto simp: value_start_def\<close>)

lemma members_text_start: "kvs \<noteq> [] \<Longrightarrow> value_start (members_text kvs @ r)"
  by (cases kvs) (auto simp: value_start_def string_text_eq)

lemma at_value_skip: "at_text b (s @ r) \<Longrightarrow> value_start s \<Longrightarrow> buffer_skip_whitespace b = b"
  by (cases s) (auto simp: value_start_def intro: at_skip)

definition number_stop :: "bytes \<Rightarrow> bool" where
  "number_stop r \<longleftrightarrow> r = [] \<or> \<not> is_num_char (hd r)"

lemma number_stop_literals [simp]:
  "number_stop []" "number_stop (CHR 0x2C # r)" "number_stop (CHR '']'' # r)" "number_stop (CHR 0x7D # r)"
  "number_stop (NUL # r)"
  by (simp_all add: number_stop_def is_num_char_def is_exp_char_def isdigit_def)

section \<open>Values\<close>

lemma parse_string_at:
  assumes "at_text b (string_text s @ r)" and "NUL \<notin> set s"
  shows "parse_string b = Some (s, adv (length (string_text s)) b)"
  using assms parse_string_text_string_text [of s r] by (auto simp: parse_string_def at_text_def cstr_id)

lemma parse_number_at:
  assumes "at_text b (show_int i @ r)" and "\<bar>i\<bar> < 10 ^ 15" and "number_stop r"
  shows "parse_number b = Some (JInt i, adv (length (show_int i)) b)"
  using assms parse_number_text_show_int [of i r] by (simp add: parse_number_def at_text_def number_stop_def)


section \<open>Parsing the text of a tree\<close>

abbreviation deep_ok :: "parse_buffer \<Rightarrow> nat \<Rightarrow> bool" where
  "deep_ok b n \<equiv> pb_depth b + n \<le> CJSON_NESTING_LIMIT"

lemma parse_scalar:
  "at_text b (''null'' @ r) \<Longrightarrow> parse_value b = Some (JNull, adv 4 b)"
  "at_text b (''false'' @ r) \<Longrightarrow> parse_value b = Some (JBool False, adv 5 b)"
  "at_text b (''true'' @ r) \<Longrightarrow> parse_value b = Some (JBool True, adv 4 b)"
  by (subst parse_value.simps; simp add: at_reads)+

lemma parse_value_string:
  assumes "at_text b (string_text s @ r)" and "NUL \<notin> set s"
  shows "parse_value b = Some (JStr s, adv (length (string_text s)) b)"
proof -
  have q: "string_text s @ r = QUOTE # escaped s @ QUOTE # r" by (simp add: string_text_eq)
  have "byte_at b 0 = Some QUOTE" using assms(1) unfolding q by (rule at_byte)
  moreover have "\<not> reads b ''null''" "\<not> reads b ''false''" "\<not> reads b ''true''"
    using at_reads [OF assms(1)] unfolding q by simp_all
  ultimately show ?thesis
    using parse_string_at [OF assms] by (subst parse_value.simps) simp
qed

lemma parse_value_number:
  assumes "at_text b (show_int i @ r)" and "\<bar>i\<bar> < 10 ^ 15" and "number_stop r"
  shows "parse_value b = Some (JInt i, adv (length (show_int i)) b)"
proof -
  obtain c s where c: "show_int i = c # s" "c = CHR ''-'' \<or> isdigit c" using show_int_start .
  have "byte_at b 0 = Some c" using assms(1) unfolding c(1) append.simps by (rule at_byte)
  moreover have "\<not> reads b ''null''" "\<not> reads b ''false''" "\<not> reads b ''true''"
    using at_reads [OF assms(1)] digit_start(2) [OF c(2)] unfolding c(1) by auto
  ultimately show ?thesis
    using parse_number_at [OF assms] c(2) digit_start(2) [OF c(2)]
    by (subst parse_value.simps) (simp add: starts_number_def)
qed

lemma parse_value_nested:
  assumes "at_text b (c # r)"
  shows "c = CHR ''['' \<Longrightarrow> parse_value b = parse_array b" and "c = CHR 0x7B \<Longrightarrow> parse_value b = parse_object b"
proof -
  have "byte_at b 0 = Some c" using assms by (rule at_byte)
  then show "c = CHR ''['' \<Longrightarrow> parse_value b = parse_array b" and "c = CHR 0x7B \<Longrightarrow> parse_value b = parse_object b"
    using at_reads [OF assms] by (subst parse_value.simps; simp add: starts_number_def isdigit_def)+
qed

lemma at_ne_start: "at_text b (s @ r) \<Longrightarrow> value_start s \<Longrightarrow>
    can_access_at_index b 0 \<and> byte_at b 0 \<noteq> Some (CHR '']'') \<and> byte_at b 0 \<noteq> Some (CHR 0x7D)"
  by (cases s) (auto simp: value_start_def at_can dest: at_byte)

text \<open>Brackets around a parsed list, given what the loop over the elements does.\<close>

lemma parse_array_at:
  assumes at: "at_text b (CHR ''['' # elements_text xs @ CHR '']'' # r)" and "pb_depth b < CJSON_NESTING_LIMIT"
    and ok: "\<forall>x\<in>set xs. json_ok x"
    and el: "xs \<noteq> [] \<Longrightarrow> parse_elements (b\<lparr>pb_depth := pb_depth b + 1\<rparr>) =
      Some (xs, adv (Suc (length (elements_text xs))) (b\<lparr>pb_depth := pb_depth b + 1\<rparr>))"
  shows "parse_array b = Some (JArr xs, adv (length (elements_text xs) + 2) b)"
proof -
  let ?b = "b\<lparr>pb_depth := pb_depth b + 1\<rparr>"
  have b0: "byte_at b 0 = Some (CHR ''['')" using at by (rule at_byte)
  have a1: "at_text (adv 1 ?b) (elements_text xs @ CHR '']'' # r)" using at_adv1 [of ?b] at by simp
  show ?thesis
  proof (cases "xs = []")
    case True
    then have "buffer_skip_whitespace (adv 1 ?b) = adv 1 ?b" "byte_at (adv 1 ?b) 0 = Some (CHR '']'')"
      using a1 by (auto intro: at_skip at_byte)
    then show ?thesis
      using True b0 assms(2) close_nested_adv [of 1 b] by (subst parse_array.simps) (simp add: numeral_2_eq_2)
  next
    case False
    have vs: "value_start (elements_text xs)" using elements_text_start [OF False ok, of "[]"] by simp
    have s: "buffer_skip_whitespace (adv 1 ?b) = adv 1 ?b" using a1 vs by (rule at_value_skip)
    have "at_text (adv (length (CHR ''['' # elements_text xs)) ?b) (CHR '']'' # r)"
      using at_adv [of ?b "CHR ''['' # elements_text xs"] at by simp
    then have e: "byte_at (adv (Suc (length (elements_text xs))) ?b) 0 = Some (CHR '']'')"
      by (simp add: at_byte)
    have "back1 (adv 1 ?b) = ?b" by (simp add: back1_def adv_def)
    then show ?thesis
      using b0 assms(2) s at_ne_start [OF a1 vs] el [OF False] e
        close_nested_adv [of "Suc (length (elements_text xs))" b]
      by (subst parse_array.simps) simp
  qed
qed

lemma parse_object_at:
  assumes at: "at_text b (CHR 0x7B # members_text kvs @ CHR 0x7D # r)" and "pb_depth b < CJSON_NESTING_LIMIT"
    and el: "kvs \<noteq> [] \<Longrightarrow> parse_members (b\<lparr>pb_depth := pb_depth b + 1\<rparr>) =
      Some (kvs, adv (Suc (length (members_text kvs))) (b\<lparr>pb_depth := pb_depth b + 1\<rparr>))"
  shows "parse_object b = Some (JObj kvs, adv (length (members_text kvs) + 2) b)"
proof -
  let ?b = "b\<lparr>pb_depth := pb_depth b + 1\<rparr>"
  have b0: "byte_at b 0 = Some (CHR 0x7B)" using at by (rule at_byte)
  have a1: "at_text (adv 1 ?b) (members_text kvs @ CHR 0x7D # r)" using at_adv1 [of ?b] at by simp
  show ?thesis
  proof (cases "kvs = []")
    case True
    then have "buffer_skip_whitespace (adv 1 ?b) = adv 1 ?b" "byte_at (adv 1 ?b) 0 = Some (CHR 0x7D)"
      using a1 by (auto intro: at_skip at_byte)
    then show ?thesis
      using True b0 assms(2) close_nested_adv [of 1 b] by (subst parse_object.simps) (simp add: numeral_2_eq_2)
  next
    case False
    have vs: "value_start (members_text kvs)" using members_text_start [OF False, of "[]"] by simp
    have s: "buffer_skip_whitespace (adv 1 ?b) = adv 1 ?b" using a1 vs by (rule at_value_skip)
    have "at_text (adv (length (CHR 0x7B # members_text kvs)) ?b) (CHR 0x7D # r)"
      using at_adv [of ?b "CHR 0x7B # members_text kvs"] at by simp
    then have e: "byte_at (adv (Suc (length (members_text kvs))) ?b) 0 = Some (CHR 0x7D)"
      by (simp add: at_byte)
    have "back1 (adv 1 ?b) = ?b" by (simp add: back1_def adv_def)
    then show ?thesis
      using b0 assms(2) s at_ne_start [OF a1 vs] el [OF False] e
        close_nested_adv [of "Suc (length (members_text kvs))" b]
      by (subst parse_object.simps) simp
  qed
qed


lemma parse_text:
  "json_ok j \<Longrightarrow> deep_ok b (nesting j) \<Longrightarrow> at_text b (json_text j @ r) \<Longrightarrow> number_stop r \<Longrightarrow>
     parse_value b = Some (j, adv (length (json_text j)) b)"
  "\<forall>x\<in>set xs. json_ok x \<and> deep_ok b (nesting x) \<Longrightarrow> xs \<noteq> [] \<Longrightarrow>
     at_text b (c # elements_text xs @ CHR '']'' # r) \<Longrightarrow>
     parse_elements b = Some (xs, adv (Suc (length (elements_text xs))) b)"
  "\<forall>kv\<in>set kvs. NUL \<notin> set (fst kv) \<and> json_ok (snd kv) \<and> deep_ok b (nesting (snd kv)) \<Longrightarrow> kvs \<noteq> [] \<Longrightarrow>
     at_text b (c # members_text kvs @ CHR 0x7D # r) \<Longrightarrow>
     parse_members b = Some (kvs, adv (Suc (length (members_text kvs))) b)"
proof (induction j and xs and kvs arbitrary: b r and b c r and b c r
    rule: json_text_elements_text_members_text.induct)
  case 1
  then show ?case using parse_scalar(1) by (simp add: numeral_eq_Suc)
next
  case (2 v)
  then show ?case using parse_scalar(2,3) by (cases v) (simp_all add: numeral_eq_Suc)
next
  case (3 d)
  then obtain i where "d = dbl_of_int i" "\<bar>i\<bar> < 10 ^ 15" by (auto elim: small_intE)
  then show ?case using "3.prems" parse_value_number [of b i r] by (simp add: number_buffer_text_int)
next
  case (4 s)
  then show ?case using parse_value_string by simp
next
  case (5 xs)
  have at: "at_text b (CHR ''['' # elements_text xs @ CHR '']'' # r)" using "5.prems"(3) by simp
  let ?b = "b\<lparr>pb_depth := pb_depth b + 1\<rparr>"
  have d: "pb_depth b < CJSON_NESTING_LIMIT" "\<forall>x\<in>set xs. deep_ok ?b (nesting x)"
    using "5.prems"(2) fold_max_le [of nesting xs 0 "CJSON_NESTING_LIMIT - pb_depth b - 1"] by auto
  have "parse_elements ?b = Some (xs, adv (Suc (length (elements_text xs))) ?b)" if "xs \<noteq> []"
    using "5.IH" [of ?b "CHR ''[''" r] "5.prems"(1) d(2) that at by simp
  from parse_array_at [OF at d(1) _ this] show ?case
    using "5.prems"(1) parse_value_nested(1) [OF at] by simp
next
  case (6 kvs)
  have at: "at_text b (CHR 0x7B # members_text kvs @ CHR 0x7D # r)" using "6.prems"(3) by simp
  let ?b = "b\<lparr>pb_depth := pb_depth b + 1\<rparr>"
  have d: "pb_depth b < CJSON_NESTING_LIMIT" "\<forall>kv\<in>set kvs. deep_ok ?b (nesting (snd kv))"
    using "6.prems"(2) fold_max_le [of "\<lambda>kv. nesting (snd kv)" kvs 0 "CJSON_NESTING_LIMIT - pb_depth b - 1"] by auto
  have "parse_members ?b = Some (kvs, adv (Suc (length (members_text kvs))) ?b)" if "kvs \<noteq> []"
    using "6.IH" [of ?b "CHR 0x7B" r] "6.prems"(1) d(2) that at by simp
  from parse_object_at [OF at d(1) this] show ?case
    using parse_value_nested(2) [OF at] by simp
next
  case 7
  then show ?case by simp
next
  case (8 x xs)
  let ?v = "length (json_text x)"
  define t where "t = (if xs \<noteq> [] then [CHR 0x2C] else []) @ elements_text xs @ CHR '']'' # r"
  have t: "t = (if xs \<noteq> [] then CHR 0x2C # elements_text xs @ CHR '']'' # r else CHR '']'' # r)"
    by (simp add: t_def)
  have at1: "at_text (adv 1 b) (json_text x @ t)" using at_adv1 [OF "8.prems"(3)] by (simp add: t_def)
  have s: "buffer_skip_whitespace (adv 1 b) = adv 1 b"
    using at1 json_text_start "8.prems"(1) by (auto intro: at_value_skip)
  have "number_stop t" by (simp add: t)
  moreover have "deep_ok (adv 1 b) (nesting x)" using "8.prems"(1) by (simp add: adv_def)
  ultimately have v: "parse_value (adv 1 b) = Some (x, adv (1 + ?v) b)"
    using "8.IH"(1) [OF _ _ at1] "8.prems"(1) by simp
  have at2: "at_text (adv (1 + ?v) b) t" using at_adv [OF at1] by simp
  have s2: "buffer_skip_whitespace (adv (1 + ?v) b) = adv (1 + ?v) b"
    using at2 by (auto simp: t intro: at_skip split: if_splits)
  show ?case
  proof (cases "xs = []")
    case True
    then have "byte_at (adv (1 + ?v) b) 0 = Some (CHR '']'')" using at2 by (auto simp: t intro: at_byte)
    then show ?thesis using True s v s2 by (subst parse_elements.simps) simp
  next
    case False
    then have at3: "at_text (adv (1 + ?v) b) (CHR 0x2C # elements_text xs @ CHR '']'' # r)"
      using at2 by (simp add: t)
    then have "byte_at (adv (1 + ?v) b) 0 = Some (CHR 0x2C)" by (rule at_byte)
    moreover have "parse_elements (adv (1 + ?v) b) = Some (xs, adv (Suc (length (elements_text xs))) (adv (1 + ?v) b))"
      using "8.IH"(2) [OF _ False at3] "8.prems"(1) by (simp add: adv_def)
    ultimately show ?thesis using False s v s2 by (subst parse_elements.simps) (simp add: ac_simps)
  qed
next
  case 9
  then show ?case by simp
next
  case (10 k v kvs)
  let ?k = "length (string_text k)" and ?v = "length (json_text v)"
  define t where "t = (if kvs \<noteq> [] then [CHR 0x2C] else []) @ members_text kvs @ CHR 0x7D # r"
  have t: "t = (if kvs \<noteq> [] then CHR 0x2C # members_text kvs @ CHR 0x7D # r else CHR 0x7D # r)"
    by (simp add: t_def)
  have at1: "at_text (adv 1 b) (string_text k @ CHR '':'' # json_text v @ t)"
    using at_adv1 [OF "10.prems"(3)] by (simp add: t_def)
  have acc: "can_access_at_index b 1" using at_can [OF "10.prems"(3)] by simp
  have s: "buffer_skip_whitespace (adv 1 b) = adv 1 b"
    using at1 by (rule at_value_skip) (simp add: value_start_def string_text_eq)
  have k: "parse_string (adv 1 b) = Some (k, adv (1 + ?k) b)"
    using parse_string_at [OF at1] "10.prems"(1) by simp
  have at2: "at_text (adv (1 + ?k) b) (CHR '':'' # json_text v @ t)" using at_adv [OF at1] by simp
  then have s2: "buffer_skip_whitespace (adv (1 + ?k) b) = adv (1 + ?k) b"
    and colon: "byte_at (adv (1 + ?k) b) 0 = Some (CHR '':'')"
    by (auto intro: at_skip at_byte)
  have at3: "at_text (adv (2 + ?k) b) (json_text v @ t)" using at_adv1 [OF at2] by (simp add: ac_simps)
  have s3: "buffer_skip_whitespace (adv (2 + ?k) b) = adv (2 + ?k) b"
    using at3 json_text_start "10.prems"(1) by (auto intro: at_value_skip)
  have "number_stop t" by (simp add: t)
  moreover have "deep_ok (adv (2 + ?k) b) (nesting v)" using "10.prems"(1) by (simp add: adv_def)
  ultimately have v: "parse_value (adv (2 + ?k) b) = Some (v, adv (2 + ?k + ?v) b)"
    using "10.IH"(1) [OF _ _ at3] "10.prems"(1) by simp
  have at4: "at_text (adv (2 + ?k + ?v) b) t" using at_adv [OF at3] by simp
  have s4: "buffer_skip_whitespace (adv (2 + ?k + ?v) b) = adv (2 + ?k + ?v) b"
    using at4 by (auto simp: t intro: at_skip split: if_splits)
  have two: "adv 1 (adv (1 + ?k) b) = adv (2 + ?k) b" by simp
  have l: "Suc (length (members_text ((k, v) # kvs))) =
      2 + ?k + ?v + (if kvs = [] then 0 else Suc (length (members_text kvs)))"
    by simp
  note steps = acc s k s2 colon two s3 v s4 simp_thms if_True if_False Let_def option.case prod.case
  show ?case
  proof (cases "kvs = []")
    case True
    then have "byte_at (adv (2 + ?k + ?v) b) 0 = Some (CHR 0x7D)" using at4 by (auto simp: t intro: at_byte)
    then have no: "(byte_at (adv (2 + ?k + ?v) b) 0 = Some (CHR 0x2C)) = False" by simp
    show ?thesis unfolding l by (subst parse_members.simps) (simp only: steps no True, simp)
  next
    case False
    then have at5: "at_text (adv (2 + ?k + ?v) b) (CHR 0x2C # members_text kvs @ CHR 0x7D # r)"
      using at4 by (simp add: t)
    then have comma: "byte_at (adv (2 + ?k + ?v) b) 0 = Some (CHR 0x2C)" by (rule at_byte)
    have m: "parse_members (adv (2 + ?k + ?v) b) =
        Some (kvs, adv (Suc (length (members_text kvs))) (adv (2 + ?k + ?v) b))"
      using "10.IH"(2) [OF _ False at5] "10.prems"(1) by (simp add: adv_def)
    show ?thesis unfolding l by (subst parse_members.simps) (simp only: steps comma m option.map False, simp)
  qed
qed


section \<open>The round trip of the entry points\<close>

lemma skip_value_start:
  assumes "at_text b (s @ r)" and "value_start s"
  shows "buffer_skip_whitespace b = b"
  using assms by (rule at_value_skip)

lemma parse_whole_text:
  assumes "json_ok j" and "nesting j \<le> CJSON_NESTING_LIMIT" and "number_stop r"
  shows "cJSON_ParseWithLength (json_text j @ r) = Some j"
proof -
  let ?b = "\<lparr>pb_content = json_text j @ r, pb_offset = 0, pb_depth = 0\<rparr>"
  have at: "at_text ?b (json_text j @ r)" by (simp add: at_text_def buffer_at_offset_def)
  have vs: "value_start (json_text j)" using assms(1) by (rule json_text_start)
  have "(of_char (hd (json_text j)) :: nat) < 128"
  proof (cases j)
    case (JNum d)
    then obtain i where i: "d = dbl_of_int i" "\<bar>i\<bar> < 10 ^ 15" using assms(1) by (auto elim: small_intE)
    obtain c s where "show_int i = c # s" "c = CHR ''-'' \<or> isdigit c" using show_int_start .
    then show ?thesis using JNum i by (auto simp: number_buffer_text_int isdigit_def Let_def)
  qed (auto simp: string_text_eq)
  then have "hd (json_text j) \<noteq> CHR 0xEF" by auto
  then have "\<not> starts_with [CHR 0xEF, CHR 0xBB, CHR 0xBF] (json_text j @ r)"
    using vs by (cases "json_text j") (auto simp: value_start_def)
  then have "skip_utf8_bom ?b = ?b" by (simp add: skip_utf8_bom_def buffer_at_offset_def)
  moreover have "buffer_skip_whitespace ?b = ?b" using at vs by (rule skip_value_start)
  moreover have "parse_value ?b = Some (j, adv (length (json_text j)) ?b)"
    using assms at by (intro parse_text(1)) simp_all
  moreover have "json_text j @ r \<noteq> []" using vs by (simp add: value_start_def)
  ultimately show ?thesis
    by (simp add: cJSON_ParseWithLength_def cJSON_ParseWithLengthOpts_def)
qed

text \<open>Trees the round trip is about: integers of at most 15 digits, C strings, at most 1000 nested
  arrays and objects, and a text that an \<open>int\<close> can index.\<close>

definition wire_ok :: "json \<Rightarrow> bool" where
  "wire_ok j \<longleftrightarrow> json_ok j \<and> nesting j \<le> CJSON_NESTING_LIMIT \<and> length (json_text j) + 2 \<le> nat INT_MAX"

text \<open>C15. A printed tree whose numbers are integers of at most 15 digits, whose strings and keys hold no NUL, which
  nests at most 1000 deep and whose text an \<open>int\<close> can index, reads back as the same tree, members in order and
  duplicates kept, through either entry point, and also when something that cannot continue a number follows
  it.  The text is never empty and holds no control character, so it fits one line and one C string.\<close>

theorem json_print_parse:
  assumes "wire_ok j"
  shows "\<exists>t. cJSON_PrintUnformatted j = Some t \<and> cJSON_Parse t = Some j \<and>
    (\<forall>r. r = [] \<or> \<not> is_num_char (hd r) \<longrightarrow> cJSON_ParseWithLength (t @ r) = Some j) \<and>
    t \<noteq> [] \<and> (\<forall>c\<in>set t. 31 < (of_char c :: nat))"
proof -
  have ok: "json_ok j" "nesting j \<le> CJSON_NESTING_LIMIT" "length (json_text j) + 2 \<le> nat INT_MAX"
    using assms by (simp_all add: wire_ok_def)
  have "cJSON_Parse (json_text j) = Some j"
    using parse_whole_text [OF ok(1,2), of "[NUL]"] json_text_no_control(1) [OF ok(1)]
    by (simp add: cJSON_Parse_def cJSON_ParseWithOpts_def cJSON_ParseWithLength_def cstr_id)
  moreover have "json_text j \<noteq> []" using json_text_start [OF ok(1)] by (simp add: value_start_def)
  moreover have "\<forall>r. r = [] \<or> \<not> is_num_char (hd r) \<longrightarrow> cJSON_ParseWithLength (json_text j @ r) = Some j"
    using parse_whole_text [OF ok(1,2)] by (simp only: number_stop_def) blast
  ultimately show ?thesis
    using print_unformatted_text [OF ok(1,3)] json_text_printable(1) [OF ok(1)] by blast
qed

theorem json_print_parse_witness:
  "\<exists>t. cJSON_PrintUnformatted (JObj [(''id'', JInt (-7)), (''a'', JArr [JNull, JStr [QUOTE, LF], JBool True])]) = Some t \<and>
     cJSON_Parse t = Some (JObj [(''id'', JInt (-7)), (''a'', JArr [JNull, JStr [QUOTE, LF], JBool True])])"
  (is "\<exists>t. cJSON_PrintUnformatted ?j = Some t \<and> cJSON_Parse t = Some ?j")
proof -
  have "json_text ?j = [CHR 0x7B] @ string_text ''id'' @ '':-7'' @ [CHR 0x2C] @ string_text ''a'' @
      '':[null'' @ [CHR 0x2C] @ string_text [QUOTE, LF] @ [CHR 0x2C] @ ''true]'' @ [CHR 0x7D]"
    using number_buffer_text_int [of "-7"] by (simp add: show_int_def show_nat.simps [of 7])
  then have "wire_ok ?j"
    using small_int_of_int [of "-7"]
    by (simp add: wire_ok_def CJSON_NESTING_LIMIT_def INT_MAX_def length_string_text escape_characters_def extra_length_def)
  from json_print_parse [OF this] show ?thesis by blast
qed


text \<open>C19. Whatever bytes arrive, a tree they parse to has C strings only, and arrays and objects nested at
  most 1000 deep: this bounds every walk over a tree that came in.\<close>

theorem parsed_trees_are_bounded:
  assumes "cJSON_ParseWithLength s = Some j"
  shows "c_strings j \<and> nesting j \<le> CJSON_NESTING_LIMIT"
proof -
  obtain b b' where b: "parse_value b = Some (j, b')" and d: "pb_depth b = 0"
    using assms by (auto simp: cJSON_ParseWithLength_def cJSON_ParseWithLengthOpts_def skip_utf8_bom_def
        split: if_splits option.splits)
  show ?thesis using parse_tree_ok(1) [OF b] d by (simp add: tree_ok_def)
qed

theorem parsed_trees_are_bounded_witness:
  "c_strings (JArr [JStr ''x'']) \<and> nesting (JArr [JStr ''x'']) \<le> CJSON_NESTING_LIMIT"
proof -
  have "cJSON_ParseWithLength (json_text (JArr [JStr ''x'']) @ []) = Some (JArr [JStr ''x''])"
    by (rule parse_whole_text) (simp_all add: CJSON_NESTING_LIMIT_def)
  then show ?thesis by (rule parsed_trees_are_bounded)
qed

end
