(* ===== verification/Json_Wire.thy ===== *)
theory Json_Wire
  imports Server_Conns Json_Roundtrip
begin

text \<open>
  The dispatch over cJSON's own text: the parameters \<open>print\<close> and \<open>parse\<close> of the server instantiated with
  \<open>cJSON_PrintUnformatted\<close> and \<open>cJSON_ParseWithLength\<close>.
\<close>

text \<open>The server's \<open>print\<close>; where cJSON gives no text, the server sends no reply and nothing is claimed.\<close>

definition cj_print :: "json \<Rightarrow> bytes" where
  "cj_print j = (case cJSON_PrintUnformatted j of Some t \<Rightarrow> t | None \<Rightarrow> [])"

lemma cj_print_text: "wire_ok j \<Longrightarrow> cj_print j = json_text j"
  by (simp add: cj_print_def wire_ok_def print_unformatted_text)

lemma cj_parse_print: "wire_ok j \<Longrightarrow> cJSON_ParseWithLength (cj_print j) = Some j"
  using parse_whole_text [of j "[]"] by (simp add: cj_print_text) (simp add: wire_ok_def)

lemma cj_print_printable: "wire_ok j \<Longrightarrow> \<forall>c\<in>set (cj_print j). 31 < (of_char c :: nat)"
  using json_text_printable(1) [of j] by (simp add: cj_print_text) (simp add: wire_ok_def)

text \<open>The ids of the messages that want an answer; each gets one envelope, in order.\<close>

definition request_ids :: "json list \<Rightarrow> json list" where
  "request_ids qs = List.map_filter (\<lambda>q. cJSON_GetObjectItemCaseSensitive (Some q) ''id'') qs"

lemma request_ids_simps [simp]:
  "request_ids [] = []"
  "request_ids (q # qs) = (case cJSON_GetObjectItemCaseSensitive (Some q) ''id'' of
     None \<Rightarrow> request_ids qs | Some i \<Rightarrow> i # request_ids qs)"
  by (simp_all add: request_ids_def map_filter_simps split: option.splits)

lemma run_bodies_replies:
  "\<forall>q\<in>set qs. wire_ok q \<Longrightarrow> run_bodies cj_print cJSON_ParseWithLength r (map cj_print qs) ini w = (rs, x) \<Longrightarrow>
     \<exists>envs. rs = map cj_print envs \<and> list_all2 (\<lambda>i. reply_for (Some i)) (request_ids qs) envs"
proof (induction qs arbitrary: ini w rs x)
  case Nil
  then show ?case by simp
next
  case (Cons q qs)
  obtain rep i1 w1 where h: "handle_request cj_print cJSON_ParseWithLength r q ini w = (rep, i1, w1)"
    by (cases "handle_request cj_print cJSON_ParseWithLength r q ini w") auto
  have hb: "handle_body cj_print cJSON_ParseWithLength r (cj_print q) ini w = (rep, i1, w1)"
    using h cj_parse_print [of q] Cons.prems(1) by (simp add: handle_body_def)
  obtain rs1 x1 where rb: "run_bodies cj_print cJSON_ParseWithLength r (map cj_print qs) i1 w1 = (rs1, x1)"
    by (cases "run_bodies cj_print cJSON_ParseWithLength r (map cj_print qs) i1 w1") auto
  from Cons.IH [OF _ this] Cons.prems(1) obtain envs where
    e: "rs1 = map cj_print envs" "list_all2 (\<lambda>i. reply_for (Some i)) (request_ids qs) envs" by auto
  show ?case
  proof (cases "cJSON_GetObjectItemCaseSensitive (Some q) ''id''")
    case None
    then have "rep = None" using h by (simp add: handle_request_def Let_def split: option.splits)
    then show ?thesis using Cons.prems(2) hb rb e None by auto
  next
    case (Some i)
    obtain env where "rep = Some (cj_print env)" "reply_for (Some i) env"
      using handle_request_replies [OF Some, of cj_print cJSON_ParseWithLength r ini w] h by (auto simp: is_reply_def)
    then show ?thesis using Cons.prems(2) hb rb e Some by (intro exI [of _ "env # envs"]) auto
  qed
qed

end
