(* ===== verification/End_To_End.thy ===== *)
theory End_To_End
  imports Adapter_Bridge Json_Wire
begin

text \<open>
  The client, the adapter's bridge and the server together: the bytes that go through are followed from
  the client's standard output through the bridge to the server's dispatch, and the replies back.
\<close>

lemma flatten_size: "length (flatten m) = length m"
  by (simp add: flatten_def)

text \<open>What the client reads is what dispatching its requests one after the other gives, whatever prints and
  parses the JSON text.\<close>

lemma client_gets_dispatched:
  assumes run: "bridge_run (bridge_start chunks ws c0) n b"
    and input: "stdin_rest chunks = concat (map (dxr_stdio_encode FRAMING_NDJSON) reqs)"
      "\<And>m. m \<in> set reqs \<Longrightarrow> json_shaped m \<and> length m \<le> MAX_FRAME_BYTES"
    and conn0: "conn_clean c0" "sending c0" "conn_sent c0 = []"
    and up: "\<not> p_up b" "\<not> p_closed b"
    and server: "conn_valid (conn cl)" "sending (conn cl)" "conn_sent (conn cl) = []"
      "conn_pending (conn cl) = conn_sent (p_conn b)" "serve print parse r cl w = Some (cl', w')"
    and replies: "run_bodies print parse r (map flatten reqs) (initialized cl) w = (replies, ini, wn)"
      "\<And>t. t \<in> set replies \<Longrightarrow> t \<noteq> [] \<and> NUL \<notin> set t \<and> length t \<le> DXR_STDIO_MAX_MESSAGE_BYTES"
    and down: "conn_pending c0 = conn_sent (conn cl')" "\<forall>w\<in>set ws. 0 < w" "\<not> p_down b" "\<not> p_aborted b \<or> all_queued c0"
  shows "p_out b = concat (map (dxr_stdio_encode FRAMING_NDJSON) replies) \<and> initialized cl' = ini \<and> w' = wn"
proof -
  have max: "MAX_FRAME_BYTES < DXR_STDIO_MAX_MESSAGE_BYTES"
    by (simp add: MAX_FRAME_BYTES_def DXR_STDIO_MAX_MESSAGE_BYTES_def)
  have req: "json_shaped m \<and> length m < DXR_STDIO_MAX_MESSAGE_BYTES" if "m \<in> set reqs" for m
    using input(2) [OF that] max by simp
  from stream_messages_ndjson [OF req]
  have ms: "stream_messages FRAMING_UNKNOWN (stdin_rest chunks) = Some (map flatten reqs)" by (simp add: input(1))
  have sent: "conn_sent (p_conn b) = frames (map flatten reqs)"
    using sent_all [OF run ms conn0(1) up(2)] conn0 up(1) by simp
  have big: "DXR_STDIO_MAX_MESSAGE_BYTES < 10 ^ 40" using frame_limits(2) by simp
  have p40: "NUL \<notin> set t \<and> length t < 10 ^ 40" if "t \<in> set replies" for t
    using replies(2) [OF that] big by linarith
  have body: "0 < length m \<and> length m \<le> MAX_FRAME_BYTES" if "m \<in> set (map flatten reqs)" for m
    using that input(2) by (auto simp: flatten_size json_shaped_def flatten_def)
  have out: "conn_sent (conn cl') = frames replies \<and> w' = wn \<and> initialized cl' = ini"
    using serve_replies_aux(1) [OF server(1,2) _ body p40 replies(1) server(5)] server(3,4) sent by simp
  have "0 < length t \<and> length t \<le> DXR_STDIO_MAX_MESSAGE_BYTES" if "t \<in> set replies" for t
    using replies(2) [OF that] by simp
  then have fs: "server_frames (conn_pending c0) = replies"
    using out down(1) frames_of_encoded [of replies] by simp
  have "client_framing (stdin_rest chunks) (map flatten reqs) = FRAMING_NDJSON"
    unfolding input(1) using input(2) by (intro client_framing_ndjson) simp
  then have "p_out b = lines FRAMING_NDJSON replies"
    using relayed_all [OF run ms conn0(1) down(2-4)] by (simp add: fs)
  with out show ?thesis by simp
qed

section \<open>JSON text all the way\<close>

lemma cj_print_no_control:
  assumes "wire_ok j"
  shows "NUL \<notin> set (cj_print j)" and "flatten (cj_print j) = cj_print j"
  using json_text_no_control [of j] assms by (auto simp: cj_print_text flatten_def wire_ok_def intro!: map_idI)

lemma cj_print_shaped:
  "wire_ok (JObj kvs) \<Longrightarrow> json_shaped (cj_print (JObj kvs))"
  by (simp add: cj_print_text json_shaped_def)

text \<open>C1. A client writes JSON objects as lines to the adapter, printed as cJSON prints them, each within
  \<open>wire_ok\<close> (integers of at most 15 digits, strings without NUL, at most 1000 nested arrays and objects) and at most
  4 MiB long, which is what the server takes.  The bridge starts on a fresh connection whose two ends take what
  is written to them, as standard output does; it ran until both pumps were done and did
  not yet close the connection, and it cut it off, if it did, only when all replies had arrived.  The server served
  exactly the bytes the bridge sent, and what it sent back is what the bridge got; its texts are C strings of
  1 byte to 16 MiB.  Then the client reads the printed text of one reply envelope for each object with an id,
  in their order and each as one line; and each line of an envelope within \<open>wire_ok\<close> parses back to that envelope.\<close>

theorem client_gets_its_replies:
  assumes run: "bridge_run (bridge_start chunks ws c0) n b"
    and input: "stdin_rest chunks = concat (map (\<lambda>q. cj_print q @ [LF]) qs)"
      "\<And>q. q \<in> set qs \<Longrightarrow> wire_ok q \<and> (\<exists>kvs. q = JObj kvs) \<and> length (cj_print q) \<le> MAX_FRAME_BYTES"
    and conn0: "conn_clean c0" "sending c0" "conn_sent c0 = []"
    and up: "\<not> p_up b" "\<not> p_closed b"
    and server: "conn_valid (conn cl)" "sending (conn cl)" "conn_sent (conn cl) = []"
      "conn_pending (conn cl) = conn_sent (p_conn b)" "serve cj_print cJSON_ParseWithLength r cl w = Some (cl', w')"
    and replies: "run_bodies cj_print cJSON_ParseWithLength r (map cj_print qs) (initialized cl) w = (replies, ini, wn)"
      "\<And>t. t \<in> set replies \<Longrightarrow> t \<noteq> [] \<and> NUL \<notin> set t \<and> length t \<le> DXR_STDIO_MAX_MESSAGE_BYTES"
    and down: "conn_pending c0 = conn_sent (conn cl')" "\<forall>w\<in>set ws. 0 < w" "\<not> p_down b" "\<not> p_aborted b \<or> all_queued c0"
  shows "\<exists>envs. replies = map cj_print envs \<and> list_all2 (\<lambda>i. reply_for (Some i)) (request_ids qs) envs \<and>
    p_out b = concat (map (\<lambda>e. dxr_stdio_encode FRAMING_NDJSON (cj_print e)) envs) \<and>
    (\<forall>e\<in>set envs. wire_ok e \<longrightarrow> dxr_stdio_encode FRAMING_NDJSON (cj_print e) = cj_print e @ [LF] \<and>
       cJSON_ParseWithLength (cj_print e) = Some e) \<and>
    initialized cl' = ini \<and> w' = wn"
proof -
  have enc: "dxr_stdio_encode FRAMING_NDJSON (cj_print e) = cj_print e @ [LF]" if "wire_ok e" for e
    using cj_print_no_control(2) [OF that] by (simp add: dxr_stdio_encode_def flatten_def)
  have lines: "stdin_rest chunks = concat (map (dxr_stdio_encode FRAMING_NDJSON) (map cj_print qs))"
    using input enc by (simp add: comp_def cong: map_cong)
  have shaped: "json_shaped m \<and> length m \<le> MAX_FRAME_BYTES" if "m \<in> set (map cj_print qs)" for m
    using that input(2) cj_print_shaped by fastforce
  have "map flatten (map cj_print qs) = map cj_print qs"
    using input(2) cj_print_no_control(2) by (simp add: comp_def cong: map_cong)
  note out = client_gets_dispatched [OF run lines shaped conn0 up server _ replies(2) down, unfolded this, OF _ replies(1)]
  have "\<forall>q\<in>set qs. wire_ok q" using input(2) by blast
  from run_bodies_replies [OF this replies(1)] obtain envs where
    e: "replies = map cj_print envs" "list_all2 (\<lambda>i. reply_for (Some i)) (request_ids qs) envs" by blast
  from out e cj_parse_print enc show ?thesis by (auto simp: comp_def)
qed

text \<open>One ping.\<close>

definition demo_request :: json where
  "demo_request = JObj [(''id'', JInt 1), (''method'', JStr ''ping'')]"

definition demo_reply :: json where
  "demo_reply = JObj [(''jsonrpc'', JStr ''2.0''), (''id'', JInt 1), (''result'', JObj [])]"

lemma demo_texts:
  "wire_ok demo_request" "wire_ok demo_reply" "length (cj_print demo_request) \<le> 100" "length (cj_print demo_reply) \<le> 100"
proof -
  have l: "length (string_text ''id'') = 4" "length (string_text ''method'') = 8" "length (string_text ''ping'') = 6"
    "length (string_text ''jsonrpc'') = 9" "length (string_text ''2.0'') = 5" "length (string_text ''result'') = 8"
    by (simp_all add: length_string_text escape_characters_def extra_length_def)
  have i: "number_buffer_text (dbl_of_int 1) = ''1''"
    using number_buffer_text_int [of 1] by (simp add: show_int_def show_nat.simps)
  have t: "length (json_text demo_request) \<le> 100" "length (json_text demo_reply) \<le> 100"
    using l i by (simp_all add: demo_request_def demo_reply_def)
  then show ok: "wire_ok demo_request" "wire_ok demo_reply"
    using small_int_of_int [of 1] by (auto simp: wire_ok_def demo_request_def demo_reply_def CJSON_NESTING_LIMIT_def INT_MAX_def)
  show "length (cj_print demo_request) \<le> 100" "length (cj_print demo_reply) \<le> 100"
    using t by (simp_all only: cj_print_text [OF ok(1)] cj_print_text [OF ok(2)])
qed

lemma demo_dispatch:
  "run_bodies cj_print cJSON_ParseWithLength (registry_zero :: nat registry) [cj_print demo_request] True 0 =
     ([cj_print demo_reply], True, 0)"
proof -
  have "handle_body cj_print cJSON_ParseWithLength (registry_zero :: nat registry) (cj_print demo_request) True 0 =
      (Some (cj_print demo_reply), True, 0)"
    using cj_parse_print [OF demo_texts(1)]
    by (simp add: handle_body_def handle_request_def jsonrpc_result_def jsonrpc_envelope_def demo_request_def
        demo_reply_def Let_def json_simps)
  then show ?thesis by simp
qed

text \<open>A connection with one frame to read, that takes \<open>n\<close> bytes one at a time.\<close>

definition demo_wire :: "bytes \<Rightarrow> nat \<Rightarrow> mcp_conn option" where
  "demo_wire t n = Some (demo_conn [RxData (encode_frame t)] (replicate n (demo_send 1)))"

lemma demo_wire_facts:
  "conn_clean (demo_wire t n)" "sending (demo_wire t n)" "conn_sent (demo_wire t n) = []" "conn_valid (demo_wire t n)"
  "conn_pending (demo_wire t n) = encode_frame t" "can_take n (demo_wire t n)"
proof -
  have e: "encode_frame t \<noteq> []" by (simp add: encode_frame_def)
  then show "conn_clean (demo_wire t n)" "sending (demo_wire t n)" "conn_sent (demo_wire t n) = []"
    "conn_valid (demo_wire t n)" "conn_pending (demo_wire t n) = encode_frame t" "can_take n (demo_wire t n)"
    by (simp_all add: demo_wire_def conn_clean_def demo_conn_def rx_clean_def sending_def demo_send_def conn_sent_def
        conn_valid_def conn_pending_def can_take_def)
qed

theorem client_gets_its_replies_witness:
  "\<exists>ws n b cl'. bridge_run (bridge_start [cj_print demo_request @ [LF]] ws
        (demo_wire (cj_print demo_reply) (length (encode_frame (cj_print demo_request))))) n b \<and>
     serve cj_print cJSON_ParseWithLength (registry_zero :: nat registry)
       \<lparr>conn = demo_wire (cj_print demo_request) (length (encode_frame (cj_print demo_reply))), initialized = True,
        writing = False\<rparr> 0 = Some (cl', 0) \<and>
     p_out b = cj_print demo_reply @ [LF] \<and> cJSON_ParseWithLength (cj_print demo_reply) = Some demo_reply"
proof -
  let ?m = "cj_print demo_request" and ?t = "cj_print demo_reply" and ?reg = "registry_zero :: nat registry"
  let ?c0 = "demo_wire ?t (length (encode_frame ?m))" and ?cl = "\<lparr>conn = demo_wire ?m (length (encode_frame ?t)),
    initialized = True, writing = False\<rparr>" and ?chunks = "[?m @ [LF]]"
  note d = demo_texts
  have sh: "json_shaped ?m" "json_shaped ?t" using cj_print_shaped d(1,2) by (simp_all add: demo_request_def demo_reply_def)
  then have ne: "0 < length ?m" "0 < length ?t" by (simp_all add: json_shaped_def)
  have fl: "flatten ?m = ?m" "NUL \<notin> set ?t" using cj_print_no_control d(1,2) by simp_all
  have enc: "dxr_stdio_encode FRAMING_NDJSON ?m = ?m @ [LF]"
    using fl(1) by (simp add: dxr_stdio_encode_def flatten_def)
  have input: "stdin_rest ?chunks = concat (map (\<lambda>q. cj_print q @ [LF]) [demo_request])" by (simp add: stdin_rest_def)
  have sm: "stream_messages FRAMING_UNKNOWN (stdin_rest ?chunks) = Some [?m]"
    using stream_messages_ndjson [of "[?m]"] sh(1) d(3) fl(1)
    by (simp add: enc stdin_rest_def DXR_STDIO_MAX_MESSAGE_BYTES_def)
  obtain ws :: "int list" where ws: "\<forall>w\<in>set ws. 0 < w"
    "length (lines (client_framing (stdin_rest ?chunks) [?m]) (server_frames (conn_pending ?c0))) \<le> length ws"
  proof
    show "\<forall>w\<in>set (replicate k 1). 0 < (w :: int)" for k by simp
    show "k \<le> length (replicate k (1 :: int))" for k by simp
  qed
  have "can_take (length (frames [?m])) ?c0" using demo_wire_facts(6) by simp
  from bridge_delivers [OF sm _ demo_wire_facts(1) this ws] obtain n b where
    b: "bridge_run (bridge_start ?chunks ws ?c0) n b" "\<not> p_up b" "\<not> p_down b" "\<not> p_aborted b" "\<not> p_closed b"
    "conn_sent (p_conn b) = encode_frame ?m" by (auto simp: demo_wire_facts)
  have rb1: "run_bodies cj_print cJSON_ParseWithLength ?reg [?m] (initialized ?cl) 0 = ([?t], True, 0)"
    using demo_dispatch by (simp only: mcp_client.select_convs)
  then have rb: "run_bodies cj_print cJSON_ParseWithLength ?reg (map cj_print [demo_request]) (initialized ?cl) 0 = ([?t], True, 0)"
    by (simp only: list.map)
  have cl: "conn_valid (conn ?cl)" "sending (conn ?cl)" "conn_sent (conn ?cl) = []"
    "conn_pending (conn ?cl) = concat (map encode_frame [?m])" "conn_pending (conn ?cl) = conn_sent (p_conn b)"
    by (simp_all add: demo_wire_facts b(6))
  have sz: "0 < length x \<and> length x \<le> MAX_FRAME_BYTES" if "x \<in> set [?m]" for x
    using that ne d(3) by (simp add: MAX_FRAME_BYTES_def)
  have rs: "x \<noteq> [] \<and> NUL \<notin> set x \<and> length x \<le> DXR_STDIO_MAX_MESSAGE_BYTES" if "x \<in> set [?t]" for x
    using that ne(2) fl(2) d(4) by (simp add: DXR_STDIO_MAX_MESSAGE_BYTES_def)
  have "NUL \<notin> set x \<and> length x < 10 ^ 40" if "x \<in> set [?t]" for x using that fl(2) d(4) by simp
  note sv = serve_replies_aux [OF cl(1,2,4) sz this rb1]
  have "can_take (length (concat (map encode_frame [?t]))) (conn ?cl)" using demo_wire_facts(6) by simp
  with sv(2) obtain cl' where s: "serve cj_print cJSON_ParseWithLength ?reg ?cl 0 = Some (cl', 0)"
    and bk: "conn_pending ?c0 = conn_sent (conn cl')"
    using sv(1) by (fastforce simp: demo_wire_facts)
  have qs: "wire_ok q \<and> (\<exists>kvs. q = JObj kvs) \<and> length (cj_print q) \<le> MAX_FRAME_BYTES" if "q \<in> set [demo_request]" for q
    using that d(1,3) by (simp add: MAX_FRAME_BYTES_def demo_request_def)
  have np: "\<not> p_aborted b \<or> all_queued ?c0" using b(4) ..
  have "\<exists>envs. [?t] = map cj_print envs \<and> list_all2 (\<lambda>i. reply_for (Some i)) (request_ids [demo_request]) envs \<and>
      p_out b = concat (map (\<lambda>e. dxr_stdio_encode FRAMING_NDJSON (cj_print e)) envs) \<and>
      (\<forall>e\<in>set envs. wire_ok e \<longrightarrow> dxr_stdio_encode FRAMING_NDJSON (cj_print e) = cj_print e @ [LF] \<and>
        cJSON_ParseWithLength (cj_print e) = Some e) \<and> initialized cl' = True \<and> (0 :: nat) = 0"
    by (rule client_gets_its_replies [OF b(1) input qs demo_wire_facts(1-3) b(2,5) cl(1-3,5) s rb rs bk ws(1) b(3) np])
  then obtain envs where e: "[?t] = map cj_print envs"
    "p_out b = concat (map (\<lambda>e. dxr_stdio_encode FRAMING_NDJSON (cj_print e)) envs)"
    by (elim exE conjE) (rule that)
  then have "p_out b = dxr_stdio_encode FRAMING_NDJSON ?t" by (cases envs) auto
  also have "\<dots> = ?t @ [LF]" using cj_print_no_control(2) [OF d(2)] by (simp add: dxr_stdio_encode_def flatten_def)
  finally show ?thesis using b(1) s cj_parse_print [OF d(2)] by blast
qed

end
