(* ===== verification/Win_Transport.thy ===== *)
theory Win_Transport
  imports Frames
begin

text \<open>
  The Windows half of \<^verbatim>\<open>src/mcp_transport.c\<close>: named pipes with overlapped I/O.  As in
  \<open>Transport\<close>, what the peer and the kernel do is a script in the connection: the outcome of every
  \<open>ReadFile\<close>, and for every pass of a write loop the tick count, the outcome of \<open>WriteFile\<close>, whether
  the wait for it ended in time and what had landed if it did not.  The pipe operations interpret the
  same locales as the sockets, so the frame readers and writers work over them.
\<close>

section \<open>Overlapped I/O\<close>

definition INVALID_HANDLE_VALUE :: int where
  "INVALID_HANDLE_VALUE = -1"

text \<open>A call that is done, one that failed, and one that was pending, with what
  \<open>GetOverlappedResult\<close> then gave.\<close>

datatype 'a overlapped = IoDone 'a | IoFailed | IoPending "'a option"

fun io_result :: "'a overlapped \<Rightarrow> 'a option" where
  "io_result (IoDone x) = Some x"
| "io_result IoFailed = None"
| "io_result (IoPending r) = r"

record win_tx =
  tick :: u64
  write_io :: "nat overlapped"
  wait_ok :: bool
  cancelled :: nat

record win_conn =
  w_pipe :: int
  w_aborted :: bool
  w_rx :: "bytes overlapped list"
  w_tx :: "win_tx list"
  w_tick :: u64
  w_sent :: bytes

text \<open>The length argument of one call is a \<open>DWORD\<close>.\<close>

definition dword :: "nat \<Rightarrow> nat" where
  "dword n = n mod 2 ^ 32"

section \<open>Reading\<close>

function win_read_loop ::
    "bool \<Rightarrow> nat \<Rightarrow> bytes \<Rightarrow> bytes overlapped list \<Rightarrow> bytes option \<times> bytes overlapped list" where
  "win_read_loop ab len acc es =
     (if len = 0 then (Some acc, es)
      else if ab then (None, es)
      else
        case es of
          [] \<Rightarrow> (None, [])
        | e # es' \<Rightarrow>
            (case io_result e of
               None \<Rightarrow> (None, es')
             | Some d \<Rightarrow>
                 let got = min (length d) (dword len);
                     left = (if got < length d then IoDone (drop got d) # es' else es')
                 in if got = 0 then (None, left) else win_read_loop ab (len - got) (acc @ take got d) left))"
  by pat_completeness auto
termination
  by (relation "measure (\<lambda>(_, len, _, _). len)") auto

declare win_read_loop.simps [simp del]

definition win_conn_read :: "win_conn option \<Rightarrow> nat \<Rightarrow> win_conn option \<times> bytes option" where
  "win_conn_read conn len =
     (case conn of None \<Rightarrow> (None, None)
      | Some c \<Rightarrow>
          let (r, rx') = win_read_loop (w_aborted c) len [] (w_rx c) in (Some (c\<lparr>w_rx := rx'\<rparr>), r))"

section \<open>Writing\<close>

definition win_conn_abort :: "win_conn option \<Rightarrow> win_conn option" where
  "win_conn_abort conn =
     (case conn of None \<Rightarrow> None
      | Some c \<Rightarrow> if w_pipe c = INVALID_HANDLE_VALUE then Some c else Some (c\<lparr>w_aborted := True\<rparr>))"

text \<open>\<open>None\<close> is a write that never returns.\<close>

fun win_write_loop ::
    "bool \<Rightarrow> bytes \<Rightarrow> bytes \<Rightarrow> win_tx list \<Rightarrow> (bool \<times> bytes \<times> win_tx list) option" where
  "win_write_loop ab buf out [] =
     (if buf = [] then Some (True, out, []) else if ab then Some (False, out, []) else None)"
| "win_write_loop ab buf out (e # es) =
     (if buf = [] then Some (True, out, e # es)
      else if ab then Some (False, out, e # es)
      else
        case io_result (write_io e) of
          None \<Rightarrow> Some (False, out, es)
        | Some n \<Rightarrow>
            let wrote = min n (dword (length buf))
            in if wrote = 0 then Some (False, out, es)
               else win_write_loop ab (drop wrote buf) (out @ take wrote buf) es)"

definition win_conn_write :: "win_conn option \<Rightarrow> bytes \<Rightarrow> (bool \<times> win_conn option) option" where
  "win_conn_write conn buf =
     (case conn of None \<Rightarrow> Some (False, None)
      | Some c \<Rightarrow>
          map_option (\<lambda>(ok, out, tx'). (ok, Some (c\<lparr>w_sent := out, w_tx := tx'\<rparr>)))
            (win_write_loop (w_aborted c) buf (w_sent c) (w_tx c)))"

text \<open>One pass of the bounded write.  A wait that runs out cancels the write; what had landed by then
  stays sent.\<close>

fun win_bounded_loop ::
    "u64 \<Rightarrow> bytes \<Rightarrow> win_conn \<Rightarrow> win_tx list \<Rightarrow> (bool \<times> win_conn option) option" where
  "win_bounded_loop deadline buf c [] =
     (if buf = [] then Some (True, Some (c\<lparr>w_tx := []\<rparr>))
      else if w_aborted c then Some (False, Some (c\<lparr>w_tx := []\<rparr>)) else None)"
| "win_bounded_loop deadline buf c (e # es) =
     (if buf = [] then Some (True, Some (c\<lparr>w_tx := e # es\<rparr>))
      else if w_aborted c then Some (False, Some (c\<lparr>w_tx := e # es\<rparr>))
      else
        let c' = c\<lparr>w_tx := es, w_tick := tick e\<rparr>
        in if deadline \<le> tick e then Some (False, win_conn_abort (Some c'))
           else if (\<exists>r. write_io e = IoPending r) \<and> \<not> wait_ok e
           then Some (False, win_conn_abort (Some (c'\<lparr>w_sent := w_sent c @ take (min (cancelled e) (dword (length buf))) buf\<rparr>)))
           else
             case io_result (write_io e) of
               None \<Rightarrow> Some (False, win_conn_abort (Some c'))
             | Some n \<Rightarrow>
                 let wrote = min n (dword (length buf))
                 in if wrote = 0 then Some (False, win_conn_abort (Some c'))
                    else win_bounded_loop deadline (drop wrote buf) (c'\<lparr>w_sent := w_sent c @ take wrote buf\<rparr>) es)"

definition win_conn_write_bounded ::
    "win_conn option \<Rightarrow> bytes \<Rightarrow> 32 word \<Rightarrow> (bool \<times> win_conn option) option" where
  "win_conn_write_bounded conn buf timeout_ms =
     (case conn of None \<Rightarrow> Some (False, None)
      | Some c \<Rightarrow> win_bounded_loop (w_tick c + ucast timeout_ms) buf c (w_tx c))"

definition win_conn_fd :: "win_conn option \<Rightarrow> int" where
  "win_conn_fd conn = -1"

section \<open>The pipe as a source and a sink\<close>

text \<open>What a reader can still get; nothing once the connection is aborted.\<close>

fun win_rx_bytes :: "bytes overlapped list \<Rightarrow> bytes" where
  "win_rx_bytes [] = []"
| "win_rx_bytes (e # es) =
     (case io_result e of None \<Rightarrow> [] | Some d \<Rightarrow> if d = [] then [] else d @ win_rx_bytes es)"

definition win_rx_size :: "bytes overlapped list \<Rightarrow> nat" where
  "win_rx_size es = sum_list (map (\<lambda>e. case io_result e of None \<Rightarrow> 0 | Some d \<Rightarrow> length d) es)"

definition win_pending :: "win_conn option \<Rightarrow> bytes" where
  "win_pending conn =
     (case conn of None \<Rightarrow> [] | Some c \<Rightarrow> if w_aborted c then [] else win_rx_bytes (w_rx c))"

text \<open>A live handle whose peer sends less than 4 GiB.\<close>

definition win_valid :: "win_conn option \<Rightarrow> bool" where
  "win_valid conn \<longleftrightarrow>
     (case conn of None \<Rightarrow> False
      | Some c \<Rightarrow> w_pipe c \<noteq> INVALID_HANDLE_VALUE \<and> win_rx_size (w_rx c) < 2 ^ 32)"

definition win_sent :: "win_conn option \<Rightarrow> bytes" where
  "win_sent conn = (case conn of None \<Rightarrow> [] | Some c \<Rightarrow> w_sent c)"

definition win_dead :: "win_conn option \<Rightarrow> bool" where
  "win_dead conn = (case conn of None \<Rightarrow> True | Some c \<Rightarrow> w_aborted c)"

lemma win_rx_size_Cons [simp]:
  "win_rx_size [] = 0"
  "win_rx_size (e # es) = (case io_result e of None \<Rightarrow> 0 | Some d \<Rightarrow> length d) + win_rx_size es"
  by (simp_all add: win_rx_size_def)

lemma win_rx_bytes_size: "length (win_rx_bytes es) \<le> win_rx_size es"
  by (induction es) (auto split: option.splits)

lemma dword_id: "n < 2 ^ 32 \<Longrightarrow> dword n = n"
  by (simp add: dword_def)

lemma win_read_loop_spec:
  assumes "win_rx_size es < 2 ^ 32" and "win_read_loop ab len acc es = (r, es')"
  shows "win_rx_size es' \<le> win_rx_size es \<and>
    (if len \<le> length (if ab then [] else win_rx_bytes es)
     then r = Some (acc @ take len (win_rx_bytes es)) \<and> (ab \<or> win_rx_bytes es' = drop len (win_rx_bytes es)) \<and> (ab \<longrightarrow> len = 0)
     else r = None)"
  using assms
proof (induction ab len acc es arbitrary: r es' rule: win_read_loop.induct)
  case (1 ab len acc es)
  show ?case
  proof (cases "len = 0 \<or> ab \<or> es = []")
    case True
    with "1.prems" show ?thesis by (subst (asm) win_read_loop.simps) (auto split: if_splits)
  next
    case False
    then obtain e es1 where nz: "len \<noteq> 0" "\<not> ab" and es: "es = e # es1" by (cases es) auto
    show ?thesis
    proof (cases "io_result e")
      case None
      with "1.prems" nz es show ?thesis by (subst (asm) win_read_loop.simps) auto
    next
      case (Some d)
      let ?got = "min (length d) (dword len)"
      let ?left = "if ?got < length d then IoDone (drop ?got d) # es1 else es1"
      have e1: "win_read_loop ab len acc es =
          (if ?got = 0 then (None, ?left) else win_read_loop ab (len - ?got) (acc @ take ?got d) ?left)"
        using nz es Some by (subst win_read_loop.simps) (simp add: Let_def)
      have sz: "win_rx_size ?left \<le> win_rx_size es" using es Some by simp
      show ?thesis
      proof (cases "?got = 0")
        case True
        have "\<not> len \<le> length (win_rx_bytes es)"
        proof
          assume l: "len \<le> length (win_rx_bytes es)"
          with "1.prems"(1) win_rx_bytes_size [of es] have "dword len = len" by (intro dword_id) simp
          with True nz have "d = []" by (auto simp: min_def split: if_splits)
          with l nz es Some show False by simp
        qed
        with "1.prems" e1 True nz sz show ?thesis by simp
      next
        case got: False
        have lt: "win_rx_size ?left < 2 ^ 32" using sz "1.prems"(1) by simp
        have rec: "win_read_loop ab (len - ?got) (acc @ take ?got d) ?left = (r, es')"
          using "1.prems"(2) e1 got by simp
        note IH = "1.IH" [OF nz es Some refl refl got lt rec]
        have d: "d \<noteq> []" using got by auto
        have wb: "win_rx_bytes es = take ?got d @ win_rx_bytes ?left"
          using es Some d by (auto simp: min_def)
        have gl: "?got \<le> len" unfolding dword_def by (rule order_trans [OF min.cobounded2]) simp
        have tl: "length (take ?got d) = ?got" by simp
        show ?thesis
          using IH sz nz(2) gl unfolding wb by (auto simp: tl split: if_splits)
      qed
    qed
  qed
qed

interpretation win_src: conn_source win_conn_read win_pending win_valid
proof
  fix s :: "win_conn option" and n :: nat
  assume "win_valid s"
  then obtain c where c: "s = Some c" "w_pipe c \<noteq> INVALID_HANDLE_VALUE" "win_rx_size (w_rx c) < 2 ^ 32"
    by (auto simp: win_valid_def split: option.splits)
  obtain r es where l: "win_read_loop (w_aborted c) n [] (w_rx c) = (r, es)" by fastforce
  note sp = win_read_loop_spec [OF c(3) l]
  show "win_valid (fst (win_conn_read s n))"
    using c sp l by (auto simp: win_valid_def win_conn_read_def)
  show "n \<le> length (win_pending s) \<Longrightarrow>
      snd (win_conn_read s n) = Some (take n (win_pending s)) \<and> win_pending (fst (win_conn_read s n)) = drop n (win_pending s)"
    using c sp l by (auto simp: win_pending_def win_conn_read_def split: if_splits)
  show "length (win_pending s) < n \<Longrightarrow> snd (win_conn_read s n) = None"
    using c sp l by (auto simp: win_pending_def win_conn_read_def split: if_splits)
qed

lemma win_write_loop_spec:
  "win_write_loop ab buf out es = Some (ok, out', es') \<Longrightarrow>
     (ok \<longrightarrow> out' = out @ buf) \<and> (\<exists>k. out' = out @ take k buf)"
proof (induction ab buf out es arbitrary: ok out' es' rule: win_write_loop.induct)
  case (1 ab buf out)
  then show ?case by (auto split: if_splits intro: exI [of _ 0])
next
  case (2 ab buf out e es)
  show ?case
  proof (cases "buf = [] \<or> ab \<or> io_result (write_io e) = None")
    case True
    with "2.prems" show ?thesis by (auto split: if_splits intro: exI [of _ 0])
  next
    case False
    then obtain n where nb: "buf \<noteq> []" "\<not> ab" and n: "io_result (write_io e) = Some n" by auto
    let ?w = "min n (dword (length buf))"
    show ?thesis
    proof (cases "?w = 0")
      case True
      with "2.prems" nb n show ?thesis by (auto simp: Let_def intro: exI [of _ 0])
    next
      case w: False
      with "2.prems" nb n have "win_write_loop ab (drop ?w buf) (out @ take ?w buf) es = Some (ok, out', es')"
        by (simp add: Let_def)
      from "2.IH" [OF nb n refl w this] obtain k where
        k: "ok \<longrightarrow> out' = out @ buf" "out' = (out @ take ?w buf) @ take k (drop ?w buf)" by auto
      from k(2) have "out' = out @ take (?w + k) buf" by (simp add: take_add)
      with k(1) show ?thesis by blast
    qed
  qed
qed

lemma win_abort_facts:
  "win_sent (win_conn_abort s) = win_sent s" "win_valid (win_conn_abort s) = win_valid s"
  "win_valid s \<Longrightarrow> win_dead (win_conn_abort s)"
  by (auto simp: win_conn_abort_def win_sent_def win_valid_def win_dead_def split: option.splits)

lemma win_bounded_loop_spec:
  "win_bounded_loop T buf c es = Some (ok, s') \<Longrightarrow> win_valid (Some c) \<Longrightarrow>
     win_valid s' \<and> (ok \<longrightarrow> win_sent s' = w_sent c @ buf) \<and> (\<exists>k. win_sent s' = w_sent c @ take k buf) \<and>
     (\<not> ok \<longrightarrow> win_dead s')"
proof (induction T buf c es arbitrary: ok s' rule: win_bounded_loop.induct)
  case (1 T buf c)
  then show ?case
    by (auto simp: win_valid_def win_sent_def win_dead_def split: if_splits intro: exI [of _ 0])
next
  case (2 T buf c e es)
  let ?c' = "c\<lparr>w_tx := es, w_tick := tick e\<rparr>"
  have v: "win_valid (Some (?c'\<lparr>w_sent := x\<rparr>))" "win_valid (Some ?c')" for x
    using "2.prems"(2) by (simp_all add: win_valid_def)
  have quit: ?case if "Some (ok, s') = Some (False, win_conn_abort (Some (?c'\<lparr>w_sent := w_sent c @ take k buf\<rparr>)))" for k
    using that v(1) win_abort_facts [of "Some (?c'\<lparr>w_sent := w_sent c @ take k buf\<rparr>)"]
    by (auto simp: win_sent_def)
  have quit0: ?case if "Some (ok, s') = Some (False, win_conn_abort (Some ?c'))"
    using quit [of 0] that by simp
  show ?case
  proof (cases "buf = [] \<or> w_aborted c")
    case True
    with "2.prems" show ?thesis
      by (auto simp: win_valid_def win_sent_def win_dead_def split: if_splits intro: exI [of _ 0])
  next
    case False
    then have nb: "buf \<noteq> []" "\<not> w_aborted c" by auto
    show ?thesis
    proof (cases "T \<le> tick e")
      case True
      with "2.prems"(1) nb show ?thesis by (intro quit0) (simp add: Let_def)
    next
      case nt: False
      show ?thesis
      proof (cases "(\<exists>r. write_io e = IoPending r) \<and> \<not> wait_ok e")
        case True
        with "2.prems"(1) nb nt show ?thesis
          by (intro quit [of "min (cancelled e) (dword (length buf))"]) (simp add: Let_def)
      next
        case nw: False
        show ?thesis
        proof (cases "io_result (write_io e)")
          case None
          with "2.prems"(1) nb nt nw show ?thesis by (intro quit0) (simp add: Let_def)
        next
          case (Some n)
          let ?w = "min n (dword (length buf))"
          show ?thesis
          proof (cases "?w = 0")
            case True
            with "2.prems"(1) nb nt nw Some show ?thesis by (intro quit0) (simp add: Let_def)
          next
            case w: False
            let ?c2 = "?c'\<lparr>w_sent := w_sent c @ take ?w buf\<rparr>"
            have rec: "win_bounded_loop T (drop ?w buf) ?c2 es = Some (ok, s')"
              using "2.prems"(1) nb nt nw Some w by (simp add: Let_def)
            have ws: "w_sent ?c2 = w_sent c @ take ?w buf" by simp
            note IH = "2.IH" [OF nb refl nt nw Some refl w rec v(1), unfolded ws]
            then obtain k where k: "win_sent s' = (w_sent c @ take ?w buf) @ take k (drop ?w buf)"
              by blast
            have "win_sent s' = w_sent c @ take (?w + k) buf" using k by (simp only: take_add append_assoc)
            moreover have "ok \<longrightarrow> win_sent s' = w_sent c @ buf"
              using IH by (simp only: append_assoc append_take_drop_id) blast
            ultimately show ?thesis using IH by blast
          qed
        qed
      qed
    qed
  qed
qed

lemma win_conn_write_spec:
  assumes "win_valid s" and "win_conn_write s b = Some (ok, s')"
  shows "win_valid s'" and "ok \<Longrightarrow> win_sent s' = win_sent s @ b" and "\<exists>k. win_sent s' = win_sent s @ take k b"
proof -
  from assms obtain c out es where c: "s = Some c" and l: "win_write_loop (w_aborted c) b (w_sent c) (w_tx c) = Some (ok, out, es)"
    and s': "s' = Some (c\<lparr>w_sent := out, w_tx := es\<rparr>)"
    by (auto simp: win_conn_write_def win_valid_def split: option.splits)
  from win_write_loop_spec [OF l] assms(1) show "win_valid s'" "ok \<Longrightarrow> win_sent s' = win_sent s @ b"
    "\<exists>k. win_sent s' = win_sent s @ take k b"
    by (simp_all add: c s' win_valid_def win_sent_def)
qed

lemma win_conn_write_bounded_spec:
  assumes "win_valid s" and "win_conn_write_bounded s b t = Some (ok, s')"
  shows "win_valid s'" and "ok \<Longrightarrow> win_sent s' = win_sent s @ b" and "\<exists>k. win_sent s' = win_sent s @ take k b"
    and "\<not> ok \<Longrightarrow> win_dead s'"
proof -
  from assms obtain c where c: "s = Some c" and l: "win_bounded_loop (w_tick c + ucast t) b c (w_tx c) = Some (ok, s')"
    by (auto simp: win_conn_write_bounded_def win_valid_def split: option.splits)
  from win_bounded_loop_spec [OF l] assms(1) show "win_valid s'" "ok \<Longrightarrow> win_sent s' = win_sent s @ b"
    "\<exists>k. win_sent s' = win_sent s @ take k b" "\<not> ok \<Longrightarrow> win_dead s'"
    by (simp_all add: c win_sent_def)
qed

interpretation win_sink: conn_sink win_conn_write win_sent win_valid
  by unfold_locales (auto dest: win_conn_write_spec)

interpretation win_bounded: bounded_sink "\<lambda>s b. win_conn_write_bounded s b t" win_sent win_valid win_dead for t
  by unfold_locales (auto dest: win_conn_write_bounded_spec)

section \<open>Pipe names, instances, listeners\<close>

definition PIPE_PREFIX :: bytes where
  "PIPE_PREFIX = [CHR 0x5C, CHR 0x5C, CHR ''.'', CHR 0x5C] @ ''pipe'' @ [CHR 0x5C] @ ''displayxr-mcp-''"

definition build_pipe_name :: "nat \<Rightarrow> int \<Rightarrow> bytes" where
  "build_pipe_name cap pid = snprintf_s cap (PIPE_PREFIX @ show_int pid)"

definition build_pipe_name_named :: "nat \<Rightarrow> bytes \<Rightarrow> bytes" where
  "build_pipe_name_named cap role = snprintf_s cap (PIPE_PREFIX @ role)"

text \<open>The server-side pipe instances the process holds, as handles with their names; \<open>h\<close> is the handle
  \<open>CreateNamedPipeA\<close> gives.\<close>

type_synonym win_os = "(int \<times> bytes) list"

definition create_pipe_instance :: "int \<Rightarrow> bytes \<Rightarrow> win_os \<Rightarrow> int \<times> win_os" where
  "create_pipe_instance h name os = (h, if h = INVALID_HANDLE_VALUE then os else (h, name) # os)"

definition close_handle :: "int \<Rightarrow> win_os \<Rightarrow> win_os" where
  "close_handle h os = filter (\<lambda>i. fst i \<noteq> h) os"

record win_listener =
  wl_pipe :: int
  wl_name :: bytes
  wl_closed :: bool

definition listener_open_pipe_name :: "int \<Rightarrow> bytes \<Rightarrow> win_os \<Rightarrow> win_listener option \<times> win_os" where
  "listener_open_pipe_name h name os =
     (let n = snprintf_s 128 name;
          (p, os') = create_pipe_instance h n os
      in if p = INVALID_HANDLE_VALUE then (None, os')
         else (Some \<lparr>wl_pipe = p, wl_name = n, wl_closed = False\<rparr>, os'))"

definition win_listener_open_named :: "int \<Rightarrow> bytes option \<Rightarrow> win_os \<Rightarrow> win_listener option \<times> win_os" where
  "win_listener_open_named h role os =
     (case role of None \<Rightarrow> (None, os)
      | Some r \<Rightarrow> if r = [] then (None, os) else listener_open_pipe_name h (build_pipe_name_named 128 r) os)"

definition win_listener_open :: "int \<Rightarrow> int \<Rightarrow> win_os \<Rightarrow> win_listener option \<times> win_os" where
  "win_listener_open h pid os = listener_open_pipe_name h (build_pipe_name 128 pid) os"

text \<open>\<open>ConnectNamedPipe\<close> succeeds, is pending until its wait ends (a client came, or the listener was
  closed), finds a client that was faster, or fails.\<close>

datatype connect_result = ConnectOk | ConnectPending bool | ConnectRaced | ConnectFailed

fun connect_ok :: "connect_result \<Rightarrow> bool" where
  "connect_ok ConnectOk = True"
| "connect_ok (ConnectPending done) = done"
| "connect_ok ConnectRaced = True"
| "connect_ok ConnectFailed = False"

text \<open>\<open>peer\<close> is the client at the other end; the connection takes over the pending instance, and the
  listener gets a new one, \<open>h\<close>.  An invalid handle cannot be connected.\<close>

definition win_listener_accept ::
    "bool \<Rightarrow> connect_result \<Rightarrow> int \<Rightarrow> win_conn \<Rightarrow> win_listener option \<Rightarrow> win_os \<Rightarrow>
       win_conn option \<times> win_listener option \<times> win_os"
where
  "win_listener_accept event_ok cr h peer listener os =
     (case listener of None \<Rightarrow> (None, None, os)
      | Some l \<Rightarrow>
          if \<not> event_ok then (None, Some l, os)
          else if wl_pipe l = INVALID_HANDLE_VALUE \<or> \<not> connect_ok cr then (None, Some l, os)
          else if wl_closed l then (None, Some l, os)
          else
            let connected = wl_pipe l;
                (p, os') = create_pipe_instance h (wl_name l) os
            in (Some (peer\<lparr>w_pipe := connected, w_aborted := False\<rparr>), Some (l\<lparr>wl_pipe := p\<rparr>), os'))"

definition win_listener_close :: "win_listener option \<Rightarrow> win_os \<Rightarrow> win_os" where
  "win_listener_close listener os =
     (case listener of None \<Rightarrow> os
      | Some l \<Rightarrow> if wl_pipe l \<noteq> INVALID_HANDLE_VALUE then close_handle (wl_pipe l) os else os)"

definition win_conn_close :: "win_conn option \<Rightarrow> win_os \<Rightarrow> win_conn option \<times> win_os" where
  "win_conn_close conn os =
     (case conn of None \<Rightarrow> (None, os)
      | Some c \<Rightarrow> (None, if w_pipe c \<noteq> INVALID_HANDLE_VALUE then close_handle (w_pipe c) os else os))"

text \<open>\<open>peer\<close> is what opening the pipe of a name gives; \<open>waited\<close> is the answer of \<open>WaitNamedPipeA\<close>.\<close>

definition conn_connect_pipe_name :: "bool \<Rightarrow> (bytes \<Rightarrow> win_conn option) \<Rightarrow> bytes \<Rightarrow> win_conn option" where
  "conn_connect_pipe_name waited peer name = (if \<not> waited then None else peer name)"

definition win_conn_connect :: "bool \<Rightarrow> (bytes \<Rightarrow> win_conn option) \<Rightarrow> int \<Rightarrow> win_conn option" where
  "win_conn_connect waited peer pid = conn_connect_pipe_name waited peer (build_pipe_name 128 pid)"

definition win_conn_connect_named :: "bool \<Rightarrow> (bytes \<Rightarrow> win_conn option) \<Rightarrow> bytes option \<Rightarrow> win_conn option" where
  "win_conn_connect_named waited peer role =
     (case role of None \<Rightarrow> None
      | Some r \<Rightarrow> if r = [] then None else conn_connect_pipe_name waited peer (build_pipe_name_named 128 r))"

section \<open>Session discovery\<close>

text \<open>The names of the find loop; \<open>long\<close> has 32 bits.\<close>

fun win_enumerate_loop :: "nat \<Rightarrow> nat \<Rightarrow> bytes list \<Rightarrow> int list" where
  "win_enumerate_loop cap n [] = []"
| "win_enumerate_loop cap n (name # names) =
     (case strstr name ''displayxr-mcp-'' of
        None \<Rightarrow> win_enumerate_loop cap n names
      | Some i \<Rightarrow>
          let pid = fst (strtol 32 (drop (i + length ''displayxr-mcp-'') name))
          in if 0 < pid \<and> n < cap then pid # win_enumerate_loop cap (Suc n) names
             else win_enumerate_loop cap n names)"

definition win_enumerate_sessions :: "bytes list option \<Rightarrow> nat \<Rightarrow> int list" where
  "win_enumerate_sessions names cap =
     (case names of None \<Rightarrow> [] | Some ns \<Rightarrow> win_enumerate_loop cap 0 ns)"

section \<open>What the pipe transport guarantees\<close>

text \<open>Over named pipes as over sockets, a frame of 1 byte to 4 MiB that the adapter writes is read back
  unchanged by the server, and a reply the server writes by the adapter, whatever the pieces the overlapped
  calls moved and whether they were done at once or later.\<close>

theorem pipe_frame_roundtrip:
  assumes "win_valid s" and "win_valid t" and "0 < length body" and "length body \<le> MAX_FRAME_BYTES"
    and "win_sent s @ win_pending t = win_sent s' @ rest"
  shows "(dxr_conn_write_frame win_conn_write s body (length body) = Some (True, s') \<longrightarrow>
      (\<exists>t'. read_frame win_conn_read t = Some (t', Some body) \<and> win_pending t' = rest)) \<and>
    (write_frame win_conn_write s (Some body) = Some (True, s') \<and> NUL \<notin> set body \<longrightarrow>
      (\<exists>t'. dxr_conn_read_frame win_conn_read t = Some (t', Some body) \<and> win_pending t' = rest))"
proof -
  have max: "length body \<le> DXR_STDIO_MAX_MESSAGE_BYTES"
    using assms(4) by (simp add: MAX_FRAME_BYTES_def DXR_STDIO_MAX_MESSAGE_BYTES_def)
  have pend: "win_pending t = encode_frame body @ rest"
    if "write_parts win_conn_write s (cl_header (length body)) body = Some (True, s')"
    using encode_frame_written [OF assms(1) that win_sink.conn_sink_axioms max] assms(5) by simp
  show ?thesis
    using pend win_src.read_frame_decodes [OF assms(2)] win_src.dxr_conn_read_frame_decodes [OF assms(2)]
      decode_encode_server [OF assms(3,4), of rest] decode_encode_adapter [OF assms(3) max, of rest]
    by (auto simp: dxr_conn_write_frame_def write_frame_text)
qed

definition demo_pipe :: "bytes overlapped list \<Rightarrow> win_tx list \<Rightarrow> win_conn option" where
  "demo_pipe rxs txs = Some \<lparr>w_pipe = 8, w_aborted = False, w_rx = rxs, w_tx = txs, w_tick = 1000, w_sent = []\<rparr>"

definition demo_pass :: "u64 \<Rightarrow> nat overlapped \<Rightarrow> bool \<Rightarrow> win_tx" where
  "demo_pass t io w = \<lparr>tick = t, write_io = io, wait_ok = w, cancelled = 1\<rparr>"

theorem pipe_frame_roundtrip_witness:
  "\<exists>t'. read_frame win_conn_read
      (demo_pipe [IoDone ''Content-Le'', IoPending (Some (''ngth: 2'' @ CRLF2 @ ''{'')), IoDone ''}XY''] []) =
     Some (t', Some ''{}'') \<and> win_pending t' = ''XY''"
proof -
  let ?s = "demo_pipe [] [demo_pass 0 (IoPending (Some 9)) True, demo_pass 0 (IoDone 100) True, demo_pass 0 (IoDone 2) True]"
  let ?s' = "map_option (\<lambda>c. c\<lparr>w_sent := ''Content-Length: 2'' @ CRLF2 @ ''{}''\<rparr>) (demo_pipe [] [])"
  let ?t = "demo_pipe [IoDone ''Content-Le'', IoPending (Some (''ngth: 2'' @ CRLF2 @ ''{'')), IoDone ''}XY''] []"
  have h: "cl_header 2 = ''Content-Length: 2'' @ CRLF2"
    by (simp add: cl_header_eq show_nat.simps)
  have w: "dxr_conn_write_frame win_conn_write ?s ''{}'' (length ''{}'') = Some (True, ?s')"
    by (simp add: dxr_conn_write_frame_def write_parts_def h [unfolded numeral_2_eq_2] win_conn_write_def demo_pipe_def
        demo_pass_def CRLF2_def dword_def)
  have v: "win_valid ?s" "win_valid ?t"
    by (simp_all add: win_valid_def demo_pipe_def INVALID_HANDLE_VALUE_def CRLF2_def)
  have e: "win_sent ?s @ win_pending ?t = win_sent ?s' @ ''XY''"
    by (simp add: win_sent_def win_pending_def demo_pipe_def CRLF2_def)
  from pipe_frame_roundtrip [OF v _ _ e] w show ?thesis by (simp add: MAX_FRAME_BYTES_def)
qed

text \<open>A bounded write to a pipe returns as soon as a pass finds the deadline passed or its wait runs out;
  success means that the whole buffer was sent, failure that a prefix was and that the connection is dead, so
  nothing follows a cut frame.\<close>

theorem pipe_bounded_write:
  assumes "win_valid (Some c)" and "deadline = w_tick c + ucast t"
    and "\<exists>e\<in>set (w_tx c). deadline \<le> tick e \<or> (\<exists>r. write_io e = IoPending r) \<and> \<not> wait_ok e"
  shows "\<exists>ok s'. win_conn_write_bounded (Some c) b t = Some (ok, s') \<and> win_valid s' \<and>
    (if ok then win_sent s' = w_sent c @ b else win_dead s' \<and> (\<exists>k. win_sent s' = w_sent c @ take k b))"
proof -
  have "\<exists>r. win_bounded_loop deadline b c es = Some r"
    if "\<exists>e\<in>set es. deadline \<le> tick e \<or> (\<exists>r. write_io e = IoPending r) \<and> \<not> wait_ok e" for es
    using that
  proof (induction deadline b c es rule: win_bounded_loop.induct)
    case (2 T buf c e es)
    show ?case
    proof (cases "buf = [] \<or> w_aborted c \<or> T \<le> tick e \<or> ((\<exists>r. write_io e = IoPending r) \<and> \<not> wait_ok e)")
      case True
      then show ?thesis by (auto simp: Let_def)
    next
      case False
      with "2.prems" have "\<exists>e\<in>set es. T \<le> tick e \<or> (\<exists>r. write_io e = IoPending r) \<and> \<not> wait_ok e" by auto
      with 2 False show ?thesis by (auto simp: Let_def split: option.splits)
    qed
  qed simp
  with assms(2,3) obtain ok s' where r: "win_conn_write_bounded (Some c) b t = Some (ok, s')"
    by (fastforce simp: win_conn_write_bounded_def)
  with win_conn_write_bounded_spec [OF assms(1) r] show ?thesis by (auto simp: win_sent_def)
qed

theorem pipe_bounded_write_witness:
  "\<exists>ok s'. win_conn_write_bounded (demo_pipe [] [demo_pass 1000 (IoDone 1) True, demo_pass 1100 (IoPending None) False]) ''abc'' 250 =
     Some (ok, s') \<and> (if ok then win_sent s' = ''abc'' else win_dead s' \<and> (\<exists>k. win_sent s' = take k ''abc''))"
proof -
  let ?c = "the (demo_pipe [] [demo_pass 1000 (IoDone 1) True, demo_pass 1100 (IoPending None) False])"
  have "win_valid (Some ?c)" by (simp add: demo_pipe_def win_valid_def INVALID_HANDLE_VALUE_def)
  moreover have "\<exists>e\<in>set (w_tx ?c). w_tick ?c + ucast (250 :: 32 word) \<le> tick e \<or> (\<exists>r. write_io e = IoPending r) \<and> \<not> wait_ok e"
    by (simp add: demo_pipe_def demo_pass_def)
  ultimately have "\<exists>ok s'. win_conn_write_bounded (Some ?c) ''abc'' 250 = Some (ok, s') \<and> win_valid s' \<and>
      (if ok then win_sent s' = w_sent ?c @ ''abc'' else win_dead s' \<and> (\<exists>k. win_sent s' = w_sent ?c @ take k ''abc''))"
    by (intro pipe_bounded_write [OF _ refl])
  moreover have "w_sent ?c = []" "Some ?c = demo_pipe [] [demo_pass 1000 (IoDone 1) True, demo_pass 1100 (IoPending None) False]"
    by (simp_all add: demo_pipe_def)
  ultimately show ?thesis by (simp only: append_Nil) blast
qed

section \<open>Instances of a listener\<close>

text \<open>A sequence of accepts, each with what the system answers; the connections it gives, oldest first.\<close>

fun win_accepts ::
    "(bool \<times> connect_result \<times> int \<times> win_conn) list \<Rightarrow> win_conn list \<Rightarrow> win_listener option \<Rightarrow> win_os \<Rightarrow>
       win_conn list \<times> win_listener option \<times> win_os"
where
  "win_accepts [] cs l os = (cs, l, os)"
| "win_accepts ((ev, cr, h, peer) # es) cs l os =
     (case win_listener_accept ev cr h peer l os of
        (c, l', os') \<Rightarrow> win_accepts es (case c of None \<Rightarrow> cs | Some c \<Rightarrow> cs @ [c]) l' os')"

definition new_handles :: "(bool \<times> connect_result \<times> int \<times> win_conn) list \<Rightarrow> int list" where
  "new_handles es = filter (\<lambda>h. h \<noteq> INVALID_HANDLE_VALUE) (map (\<lambda>(_, _, h, _). h) es)"

lemma new_handles_Cons [simp]:
  "new_handles ((ev, cr, h, peer) # es) = (if h = INVALID_HANDLE_VALUE then new_handles es else h # new_handles es)"
  "INVALID_HANDLE_VALUE \<notin> set (new_handles es)"
  by (simp_all add: new_handles_def)

definition instances_ok :: "win_os \<Rightarrow> win_conn list \<Rightarrow> win_listener \<Rightarrow> win_os \<Rightarrow> bool" where
  "instances_ok os0 cs l os \<longleftrightarrow>
     (\<exists>new. os = new @ os0 \<and> distinct (map fst new) \<and> (\<forall>i\<in>set new. snd i = wl_name l) \<and>
        fst ` set new = (if wl_pipe l = INVALID_HANDLE_VALUE then {} else {wl_pipe l}) \<union> w_pipe ` set cs \<and>
        distinct (wl_pipe l # map w_pipe cs) \<and> INVALID_HANDLE_VALUE \<notin> w_pipe ` set cs \<and>
        fst ` set new \<inter> fst ` set os0 = {})"

lemma accept_instances:
  assumes "instances_ok os0 cs l os" and "win_listener_accept ev cr h peer (Some l) os = (c, l', os')"
    and "h = INVALID_HANDLE_VALUE \<or> h \<notin> fst ` set os"
  shows "\<exists>l1. l' = Some l1 \<and> wl_name l1 = wl_name l \<and> instances_ok os0 (case c of None \<Rightarrow> cs | Some c \<Rightarrow> cs @ [c]) l1 os' \<and>
    fst ` set os' \<subseteq> insert h (fst ` set os)"
proof (cases "\<not> ev \<or> wl_pipe l = INVALID_HANDLE_VALUE \<or> \<not> connect_ok cr \<or> wl_closed l")
  case True
  with assms(2) have "c = None" "l' = Some l" "os' = os" by (auto simp: win_listener_accept_def split: if_splits)
  with assms(1) show ?thesis by auto
next
  case False
  let ?c = "peer\<lparr>w_pipe := wl_pipe l, w_aborted := False\<rparr>" and ?l = "l\<lparr>wl_pipe := h\<rparr>"
  let ?os = "if h = INVALID_HANDLE_VALUE then os else (h, wl_name l) # os"
  from assms(2) False have e: "c = Some ?c" "l' = Some ?l" "os' = ?os"
    by (auto simp: win_listener_accept_def create_pipe_instance_def split: if_splits)
  from assms(1) obtain new where n: "os = new @ os0" "distinct (map fst new)" "\<forall>i\<in>set new. snd i = wl_name l"
    "fst ` set new = {wl_pipe l} \<union> w_pipe ` set cs" "distinct (wl_pipe l # map w_pipe cs)"
    "INVALID_HANDLE_VALUE \<notin> w_pipe ` set cs" "fst ` set new \<inter> fst ` set os0 = {}"
    using False by (auto simp: instances_ok_def)
  have fresh: "h \<notin> fst ` set new" "h \<notin> fst ` set os0" if "h \<noteq> INVALID_HANDLE_VALUE"
    using assms(3) that n(1) by auto
  have "instances_ok os0 (cs @ [?c]) ?l ?os"
  proof (cases "h = INVALID_HANDLE_VALUE")
    case True
    with n False show ?thesis unfolding instances_ok_def by (intro exI [of _ new]) auto
  next
    case h: False
    have "h \<notin> set (map fst new)" using fresh(1) [OF h] by simp
    with n False h fresh [OF h] show ?thesis
      unfolding instances_ok_def by (intro exI [of _ "(h, wl_name l) # new"]) auto
  qed
  with e show ?thesis by auto
qed

lemma accepts_instances:
  assumes "instances_ok os0 cs l os" and "win_accepts es cs (Some l) os = (cs', l', os')"
    and "distinct (new_handles es)" and "set (new_handles es) \<inter> fst ` set os = {}"
  shows "\<exists>l1. l' = Some l1 \<and> wl_name l1 = wl_name l \<and> instances_ok os0 cs' l1 os'"
  using assms
proof (induction es arbitrary: cs l os)
  case (Cons e es)
  obtain ev cr h peer where e: "e = (ev, cr, h, peer)" by (cases e) auto
  obtain c l1 os1 where a: "win_listener_accept ev cr h peer (Some l) os = (c, l1, os1)"
    by (cases "win_listener_accept ev cr h peer (Some l) os") auto
  have h: "h = INVALID_HANDLE_VALUE \<or> h \<notin> fst ` set os"
    using Cons.prems(4) e by auto
  from accept_instances [OF Cons.prems(1) a h] obtain l2 where
    l2: "l1 = Some l2" "wl_name l2 = wl_name l" "instances_ok os0 (case c of None \<Rightarrow> cs | Some c \<Rightarrow> cs @ [c]) l2 os1"
      "fst ` set os1 \<subseteq> insert h (fst ` set os)" by blast
  have w: "win_accepts es (case c of None \<Rightarrow> cs | Some c \<Rightarrow> cs @ [c]) (Some l2) os1 = (cs', l', os')"
    using Cons.prems(2) a e l2(1) by simp
  have d: "distinct (new_handles es)" "set (new_handles es) \<inter> fst ` set os1 = {}"
  proof -
    show "distinct (new_handles es)" using Cons.prems(3) e by (simp split: if_splits)
    have "x \<notin> fst ` set os1" if x: "x \<in> set (new_handles es)" for x
    proof -
      have "x \<noteq> h" using x Cons.prems(3) e new_handles_Cons(2) [of es] by (auto split: if_splits)
      moreover have "x \<notin> fst ` set os" using x Cons.prems(4) e by (auto split: if_splits)
      ultimately show ?thesis using l2(4) by blast
    qed
    then show "set (new_handles es) \<inter> fst ` set os1 = {}" by blast
  qed
  from Cons.IH [OF l2(3) w d] l2(2) show ?case by simp
qed auto

lemma close_handles:
  "fold (\<lambda>c os. snd (win_conn_close (Some c) os)) cs os = filter (\<lambda>i. fst i \<notin> w_pipe ` set cs \<or> fst i = INVALID_HANDLE_VALUE) os"
proof (induction cs arbitrary: os)
  case (Cons c cs)
  then show ?case
    by (auto simp: win_conn_close_def close_handle_def intro!: filter_cong)
qed simp

text \<open>The handles the listener goes through: each accept whose event is created and whose connect succeeds
  uses up the one it has, up to the first the system does not give.\<close>

definition given_handles :: "(bool \<times> connect_result \<times> int \<times> win_conn) list \<Rightarrow> int list" where
  "given_handles es = map (\<lambda>(_, _, h, _). h) (filter (\<lambda>(event_ok, cr, _, _). event_ok \<and> connect_ok cr) es)"

definition up_to_invalid :: "int list \<Rightarrow> int list" where
  "up_to_invalid hs =
     (if INVALID_HANDLE_VALUE \<in> set hs then takeWhile (\<lambda>h. h \<noteq> INVALID_HANDLE_VALUE) hs @ [INVALID_HANDLE_VALUE] else hs)"

lemma up_to_invalid_Cons:
  "up_to_invalid (h # hs) = (if h = INVALID_HANDLE_VALUE then [h] else h # up_to_invalid hs)"
  by (simp add: up_to_invalid_def)

lemma accepts_handles:
  "win_accepts es cs (Some l) os = (cs', l', os') \<Longrightarrow> \<not> wl_closed l \<Longrightarrow>
     \<exists>l1. l' = Some l1 \<and> map w_pipe cs' @ [wl_pipe l1] = map w_pipe cs @ up_to_invalid (wl_pipe l # given_handles es)"
proof (induction es arbitrary: cs l os)
  case Nil
  then show ?case by (auto simp: given_handles_def up_to_invalid_def)
next
  case (Cons e es)
  obtain ev cr h peer where e: "e = (ev, cr, h, peer)" by (cases e) auto
  show ?case
  proof (cases "ev \<and> connect_ok cr \<and> wl_pipe l \<noteq> INVALID_HANDLE_VALUE")
    case True
    let ?c = "peer\<lparr>w_pipe := wl_pipe l, w_aborted := False\<rparr>"
    obtain os1 where "win_accepts es (cs @ [?c]) (Some (l\<lparr>wl_pipe := h\<rparr>)) os1 = (cs', l', os')"
      using Cons.prems True by (auto simp: e win_listener_accept_def create_pipe_instance_def Let_def)
    from Cons.IH [OF this] Cons.prems(2) True show ?thesis
      by (auto simp: e given_handles_def up_to_invalid_Cons)
  next
    case False
    then have "win_listener_accept ev cr h peer (Some l) os = (None, Some l, os)"
      by (auto simp: win_listener_accept_def)
    then have "win_accepts es cs (Some l) os = (cs', l', os')"
      using Cons.prems(1) by (simp add: e)
    from Cons.IH [OF this Cons.prems(2)] False show ?thesis
      by (auto simp: e given_handles_def up_to_invalid_Cons)
  qed
qed

text \<open>C14. The accepts of a listener hand out its pipe instances one after the other: the connections and the
  listener own, in order, the instance of the open and the one that each accept whose client connected created
  anew, up to the first that the system did not give; so there is one connection for each such accept, and,
  as long as the system gives instances, another one waits for the next client.  All are distinct and exist
  under the listener's name, and closing the listener and the connections leaves exactly the instances there
  were before.\<close>

theorem pipe_instances_are_owned:
  assumes "win_listener_open h pid os0 = (Some l, os1)" and "win_accepts es [] (Some l) os1 = (cs, l', os)"
    and "h \<noteq> INVALID_HANDLE_VALUE" and "distinct (h # new_handles es)" and "set (h # new_handles es) \<inter> fst ` set os0 = {}"
    and "INVALID_HANDLE_VALUE \<notin> fst ` set os0"
  shows "\<exists>l1. l' = Some l1 \<and>
    map w_pipe cs @ [wl_pipe l1] = up_to_invalid (h # given_handles es) \<and>
    (INVALID_HANDLE_VALUE \<notin> set (given_handles es) \<longrightarrow>
       wl_pipe l1 \<noteq> INVALID_HANDLE_VALUE \<and> length cs = length (given_handles es)) \<and>
    distinct (wl_pipe l1 # map w_pipe cs) \<and>
    (\<forall>c\<in>set cs. (w_pipe c, wl_name l) \<in> set os) \<and>
    (wl_pipe l1 \<noteq> INVALID_HANDLE_VALUE \<longrightarrow> (wl_pipe l1, wl_name l) \<in> set os) \<and>
    fold (\<lambda>c os. snd (win_conn_close (Some c) os)) cs (win_listener_close l' os) = os0"
proof -
  from assms(1,3) have l: "wl_pipe l = h" "os1 = (h, wl_name l) # os0" "\<not> wl_closed l"
    by (auto simp: win_listener_open_def listener_open_pipe_name_def create_pipe_instance_def Let_def)
  have "instances_ok os0 [] l os1"
    unfolding instances_ok_def using l assms(3,5) by (intro exI [of _ "[(h, wl_name l)]"]) auto
  from accepts_instances [OF this assms(2)] l assms(4,5) obtain l1 where
    l1: "l' = Some l1" "wl_name l1 = wl_name l" "instances_ok os0 cs l1 os" by auto
  then obtain new where n: "os = new @ os0" "\<forall>i\<in>set new. snd i = wl_name l"
    "fst ` set new = (if wl_pipe l1 = INVALID_HANDLE_VALUE then {} else {wl_pipe l1}) \<union> w_pipe ` set cs"
    "distinct (wl_pipe l1 # map w_pipe cs)" "INVALID_HANDLE_VALUE \<notin> w_pipe ` set cs" "fst ` set new \<inter> fst ` set os0 = {}"
    unfolding instances_ok_def by auto
  have mem: "(p, wl_name l) \<in> set os" if "p \<in> fst ` set new" for p
    using that n(1,2) by force
  let ?keep = "\<lambda>i. (fst i \<notin> w_pipe ` set cs \<or> fst i = INVALID_HANDLE_VALUE) \<and>
      (wl_pipe l1 = INVALID_HANDLE_VALUE \<or> fst i \<noteq> wl_pipe l1)"
  have "fold (\<lambda>c os. snd (win_conn_close (Some c) os)) cs (win_listener_close l' os) = filter ?keep os"
    unfolding close_handles l1(1)
    by (cases "wl_pipe l1 = INVALID_HANDLE_VALUE") (simp_all add: win_listener_close_def close_handle_def conj_commute)
  also have "\<dots> = filter (\<lambda>i. fst i \<notin> fst ` set new) os"
  proof (rule filter_cong [OF refl])
    fix i assume "i \<in> set os"
    show "?keep i \<longleftrightarrow> fst i \<notin> fst ` set new" unfolding n(3) using n(5) by (auto simp: image_iff)
  qed
  also have "\<dots> = os0"
  proof -
    have "filter (\<lambda>i. fst i \<notin> fst ` set new) new = []" by (auto simp: filter_empty_conv)
    moreover have "filter (\<lambda>i. fst i \<notin> fst ` set new) os0 = os0" using n(6) by (auto intro: filter_True)
    ultimately show ?thesis by (simp add: n(1))
  qed
  finally have closed: "fold (\<lambda>c os. snd (win_conn_close (Some c) os)) cs (win_listener_close l' os) = os0" .
  have given: "map w_pipe cs @ [wl_pipe l1] = up_to_invalid (h # given_handles es)"
    using accepts_handles [OF assms(2) l(3)] l1(1) l(1) by auto
  have waits: "wl_pipe l1 \<noteq> INVALID_HANDLE_VALUE \<and> length cs = length (given_handles es)"
    if "INVALID_HANDLE_VALUE \<notin> set (given_handles es)"
  proof -
    have u: "map w_pipe cs @ [wl_pipe l1] = h # given_handles es"
      using given that assms(3) by (simp add: up_to_invalid_def)
    then have "wl_pipe l1 \<in> set (h # given_handles es)" by (metis in_set_conv_decomp)
    then show ?thesis using that assms(3) arg_cong [OF u, of length] by auto
  qed
  show ?thesis
    by (rule exI [of _ l1]) (use l1(1) n(3,4) mem closed given waits in auto)
qed

text \<open>Two clients, one of them faster than its accept.\<close>

definition demo_accepts :: "(bool \<times> connect_result \<times> int \<times> win_conn) list" where
  "demo_accepts =
     [(True, ConnectPending True, 2, the (demo_pipe [] [])), (True, ConnectRaced, 3, the (demo_pipe [] []))]"

theorem pipe_instances_are_owned_witness:
  "\<exists>l os1 cs l1 os. win_listener_open 1 77 [] = (Some l, os1) \<and> win_accepts demo_accepts [] (Some l) os1 = (cs, Some l1, os) \<and>
     map w_pipe cs @ [wl_pipe l1] = [1, 2, 3] \<and>
     fold (\<lambda>c os. snd (win_conn_close (Some c) os)) cs (win_listener_close (Some l1) os) = []"
proof -
  obtain l os1 where o: "win_listener_open 1 77 [] = (Some l, os1)"
    by (simp add: win_listener_open_def listener_open_pipe_name_def create_pipe_instance_def INVALID_HANDLE_VALUE_def Let_def)
  obtain cs l' os where a: "win_accepts demo_accepts [] (Some l) os1 = (cs, l', os)"
    by (cases "win_accepts demo_accepts [] (Some l) os1") auto
  have "up_to_invalid (1 # given_handles demo_accepts) = [1, 2, 3]"
    by (simp add: given_handles_def demo_accepts_def up_to_invalid_def INVALID_HANDLE_VALUE_def)
  with pipe_instances_are_owned [OF o a] o a show ?thesis
    by (auto simp: INVALID_HANDLE_VALUE_def new_handles_def demo_accepts_def)
qed

end
