(* ===== verification/Json_Unicode.thy ===== *)
theory Json_Unicode
  imports Json_Roundtrip
begin

text \<open>
  The string parser of \<open>Json_String\<close>: whatever the literal, malformed escapes included, the bytes it decodes to
  are no more than \<open>parse_string\<close> counts (\<open>unescape_bound\<close>, on which \<open>Json_String_Mem\<close> builds); a
  well-formed UTF-16 escape decodes to the UTF-8 encoding of its code point, stated against an arithmetic
  reference; and a malformed escape cuts the string without an error.
\<close>

section \<open>The value of four hexadecimal digits\<close>

lemma hex_digit_value: "hex_digit c = Some d \<Longrightarrow> \<exists>m<16. d = of_nat m"
  by (auto simp: hex_digit_def Let_def split: if_splits
      intro: exI [of _ "of_char c - 48"] exI [of _ "10 + of_char c - 65"] exI [of _ "10 + of_char c - 97"])

lemma parse_hex4_loop_bound:
  "0 < k \<Longrightarrow> k \<le> 4 \<Longrightarrow> m + 16 \<le> 16 ^ (5 - k) \<Longrightarrow>
     \<exists>m'<65536. parse_hex4_loop k (of_nat m) cs = of_nat m'"
proof (induction k arbitrary: m cs)
  case 0
  then show ?case by simp
next
  case (Suc k)
  have "16 ^ (5 - Suc k) \<le> (16 :: nat) ^ 4" by (rule power_increasing) simp_all
  then have m: "m + 16 \<le> 65536" using Suc.prems(3) by simp
  show ?case
  proof (cases cs)
    case Nil
    then show ?thesis using m by (intro exI [of _ m]) simp
  next
    case (Cons c cs')
    show ?thesis
    proof (cases "hex_digit c")
      case None
      then show ?thesis using Cons by (intro exI [of _ 0]) simp
    next
      case (Some d)
      then obtain j where j: "j < 16" "d = of_nat j" using hex_digit_value by blast
      show ?thesis
      proof (cases "k = 0")
        case True
        then show ?thesis using Cons Some j m by (intro exI [of _ "m + j"]) simp
      next
        case False
        have e: "5 - k = Suc (5 - Suc k)" using Suc.prems(2) by simp
        define P :: nat where "P = 16 ^ (5 - Suc k)"
        have "m + 16 \<le> P" using Suc.prems(3) by (simp only: P_def)
        then have "(m + j) * 16 + 16 \<le> 16 * P" using j(1) by simp
        then have "(m + j) * 16 + 16 \<le> 16 ^ (5 - k)" unfolding e P_def by simp
        with Suc.IH [of "(m + j) * 16" cs'] False Suc.prems(2)
        obtain m' where "m' < 65536" "parse_hex4_loop k (of_nat ((m + j) * 16)) cs' = of_nat m'" by auto
        moreover have "(of_nat ((m + j) * 16) :: u32) = push_bit 4 (of_nat m + d)"
          by (simp add: push_bit_eq_mult j(2))
        ultimately show ?thesis using Cons Some False by auto
      qed
    qed
  qed
qed

lemma parse_hex4_bound: "\<exists>m<65536. parse_hex4 s = of_nat m"
  using parse_hex4_loop_bound [of 4 0 s] by (simp add: parse_hex4_def)

lemma u32_of_nat_less_iff:
  "m < 2 ^ 32 \<Longrightarrow> k < 2 ^ 32 \<Longrightarrow> (of_nat m :: u32) < of_nat k \<longleftrightarrow> m < k"
  by (simp add: word_of_nat_less_iff take_bit_nat_eq_self unsigned_of_nat)

lemma parse_hex4_less: "parse_hex4 s < 0x10000"
proof -
  obtain m where "m < 65536" "parse_hex4 s = of_nat m" using parse_hex4_bound by blast
  then show ?thesis using u32_of_nat_less_iff [of m 65536] by simp
qed

section \<open>The decoded string fits\<close>

lemma utf8_tail_length: "length (snd (utf8_tail k cp out)) = k + length out"
  by (induction k cp out rule: utf8_tail.induct) simp_all

lemma utf8_encode_length:
  assumes "utf8_encode cp = Some bs"
  shows "length bs \<le> 4" and "cp < 0x10000 \<Longrightarrow> length bs \<le> 3"
  using assms utf8_tail_length [of 1 cp "[]"] utf8_tail_length [of 2 cp "[]"] utf8_tail_length [of 3 cp "[]"]
  by (auto simp: utf8_encode_def split: if_splits prod.splits)

lemma utf16_sizes:
  assumes "utf16_literal_to_utf8 s = Some (bs, n)"
  shows "even n \<and> n \<le> length s \<and> length bs \<le> n div 2"
  using assms utf8_encode_length parse_hex4_less [of "drop 2 s"]
  by (fastforce simp: utf16_literal_to_utf8_def Let_def split: if_splits)

text \<open>How many escapes the scan for the end counts; the flag says that the scan skips the next byte.\<close>

fun escapes :: "bool \<Rightarrow> bytes \<Rightarrow> nat" where
  "escapes skip [] = 0"
| "escapes True (c # cs) = escapes False cs"
| "escapes False (c # cs) = (if c = BSLASH then Suc (escapes True cs) else escapes False cs)"

lemma escapes_two: "\<exists>b'. escapes b (x # y # s) \<le> Suc (escapes b' s)"
  by (cases b) (auto intro: exI [of _ True] exI [of _ False])

lemma escapes_drop:
  "2 * j \<le> length s \<Longrightarrow> \<exists>b'. escapes b s \<le> j + escapes b' (drop (2 * j) s)"
proof (induction j arbitrary: b s)
  case (Suc j)
  then obtain x y t where s: "s = x # y # t" by (auto simp: Suc_le_length_iff)
  obtain b1 where b1: "escapes b s \<le> Suc (escapes b1 t)" using escapes_two s by blast
  obtain b2 where "escapes b1 t \<le> j + escapes b2 (drop (2 * j) t)"
    using Suc.IH [of t b1] Suc.prems s by auto
  then show ?case using b1 s by (intro exI [of _ b2]) simp
qed auto

lemma unescape_bound: "unescape s = Some out \<Longrightarrow> length out + escapes b s \<le> Suc (length s)"
proof (induction s arbitrary: out b rule: unescape.induct)
  case 1
  then show ?case by simp
next
  case (2 c cs)
  let ?x = "hd (cs @ [QUOTE])"
  show ?case
  proof (cases "c = BSLASH")
    case False
    then obtain out' where o: "unescape cs = Some out'" "out = c # out'" using "2.prems" by auto
    show ?thesis using "2.IH"(1) [OF False o(1)] False o(2) by (cases b) auto
  next
    case True
    show ?thesis
    proof (cases "simple_escape ?x")
      case (Some y)
      then obtain out' where o: "unescape (drop 1 cs) = Some out'" "out = y # out'"
        using "2.prems" True by (auto split: if_splits)
      show ?thesis
      proof (cases cs)
        case Nil
        then show ?thesis using o by (cases b) auto
      next
        case (Cons x cs')
        obtain b' where "escapes b (c # cs) \<le> Suc (escapes b' cs')" using escapes_two Cons by blast
        moreover have "length out' + escapes b' cs' \<le> Suc (length cs')"
          using "2.IH"(3) [of ?x y out' b'] True Some o(1) Cons by simp
        ultimately show ?thesis using o(2) Cons by simp
      qed
    next
      case None
      then obtain bs n out' where u: "utf16_literal_to_utf8 (c # cs) = Some (bs, n)" "?x = CHR ''u''"
        and o: "unescape (drop n (c # cs)) = Some out'" "out = bs @ out'"
        using "2.prems" True by (auto split: if_splits option.splits)
      obtain j where n: "n = 2 * j" "2 * j \<le> length (c # cs)" "length bs \<le> j"
        using utf16_sizes [OF u(1)] by (auto elim!: evenE)
      obtain b' where b': "escapes b (c # cs) \<le> j + escapes b' (drop n (c # cs))"
        using escapes_drop n by blast
      have "length out' + escapes b' (drop n (c # cs)) \<le> Suc (length (c # cs) - n)"
        using "2.IH"(2) [of ?x "(bs, n)" bs n out' b'] True None u o(1) by simp
      moreover have "length out = length bs + length out'" by (simp add: o(2))
      ultimately show ?thesis using b' n by linarith
    qed
  qed
qed

lemma scan_string_spec:
  "scan_string s = Some (n, k) \<Longrightarrow> n < length s \<and> s ! n = QUOTE \<and> k = escapes False (take n s)"
proof (induction s arbitrary: n k rule: scan_string.induct)
  case (2 c cs)
  then show ?case by (auto split: if_splits list.splits)
qed simp

section \<open>UTF-16 escapes and UTF-8\<close>

text \<open>The UTF-8 encoding of a code point, as numbers.\<close>

definition utf8_bytes :: "nat \<Rightarrow> nat list" where
  "utf8_bytes cp =
     (if cp < 128 then [cp]
      else if cp < 2048 then [192 + cp div 64, 128 + cp mod 64]
      else if cp < 65536 then [224 + cp div 4096, 128 + cp div 64 mod 64, 128 + cp mod 64]
      else [240 + cp div 262144, 128 + cp div 4096 mod 64, 128 + cp div 64 mod 64, 128 + cp mod 64])"

definition u_escape :: "nat \<Rightarrow> bytes" where
  "u_escape n =
     [BSLASH, CHR ''u'', hex_char (n div 4096 mod 16), hex_char (n div 256 mod 16),
      hex_char (n div 16 mod 16), hex_char (n mod 16)]"

text \<open>A code point as JSON escapes it: one escape, or a surrogate pair.\<close>

definition escape_codepoint :: "nat \<Rightarrow> bytes" where
  "escape_codepoint cp =
     (if cp < 65536 then u_escape cp
      else u_escape (55296 + (cp - 65536) div 1024) @ u_escape (56320 + (cp - 65536) mod 1024))"

lemma parse_hex4_digits:
  assumes "hex_digit c1 = Some d1" "hex_digit c2 = Some d2" "hex_digit c3 = Some d3" "hex_digit c4 = Some d4"
  shows "parse_hex4 (c1 # c2 # c3 # c4 # t) = push_bit 4 (push_bit 4 (push_bit 4 d1 + d2) + d3) + d4"
proof -
  have "parse_hex4 s = parse_hex4_loop (Suc (Suc (Suc (Suc 0)))) 0 s" for s
    by (simp add: parse_hex4_def numeral_eq_Suc)
  then show ?thesis by (simp add: assms)
qed

lemma parse_hex4_u_escape:
  assumes "n < 65536"
  shows "parse_hex4 (drop 2 (u_escape n) @ t) = of_nat n"
proof -
  let ?a = "n div 4096 mod 16" and ?b = "n div 256 mod 16" and ?c = "n div 16 mod 16" and ?d = "n mod 16"
  define a b c d where "a = ?a" and "b = ?b" and "c = ?c" and "d = ?d"
  have lt: "a < 16" "b < 16" "c < 16" "d < 16" by (simp_all add: a_def b_def c_def d_def)
  have "n div 4096 < 16" using assms by (simp add: less_mult_imp_div_less)
  then have "n div 256 div 16 = a" by (simp add: a_def flip: div_mult2_eq)
  then have "n div 16 div 16 = a * 16 + b"
    using div_mult_mod_eq [of "n div 256" 16] by (simp add: b_def flip: div_mult2_eq)
  then have "n div 16 = (a * 16 + b) * 16 + c"
    using div_mult_mod_eq [of "n div 16" 16] by (simp add: c_def)
  then have n: "((a * 16 + b) * 16 + c) * 16 + d = n"
    using div_mult_mod_eq [of n 16] by (simp add: d_def)
  have sh: "push_bit 4 (of_nat x :: u32) = of_nat (x * 16)" for x by (simp add: push_bit_eq_mult)
  have w: "(of_nat n :: u32) =
      push_bit 4 (push_bit 4 (push_bit 4 (of_nat a) + of_nat b) + of_nat c) + of_nat d"
    by (simp only: sh of_nat_add [symmetric] n)
  have "parse_hex4 (hex_char a # hex_char b # hex_char c # hex_char d # t) = of_nat n"
    using parse_hex4_digits [of "hex_char a" "of_nat a" "hex_char b" "of_nat b" "hex_char c" "of_nat c"
        "hex_char d" "of_nat d" t] by (simp only: w hex_digit_hex_char lt)
  then show ?thesis by (simp add: u_escape_def a_def b_def c_def d_def)
qed

lemma u32_or_disjoint: "(x :: u32) AND y = 0 \<Longrightarrow> x OR y = x + y"
  by (simp add: disjunctive_add_eq_or)

lemma u32_mask: "(0x3F :: u32) = mask 6" "(0x3FF :: u32) = mask 10"
  by (simp_all add: mask_eq_exp_minus_1)

text \<open>The continuation byte of a code point.\<close>

lemma continuation_byte:
  "byte_of (((of_nat n :: u32) OR 0x80) AND 0xBF) = char_of (128 + n mod 64)"
proof -
  let ?x = "of_nat n :: u32"
  have e: "(0xBF :: u32) = 0x80 OR 0x3F" by simp
  have "(?x OR 0x80) AND 0xBF = ((?x AND 0x80) OR 0x80) OR ((?x OR 0x80) AND 0x3F)"
    unfolding e by (simp only: bit.conj_disj_distrib bit.conj_disj_distrib2) simp
  also have "(?x OR 0x80) AND 0x3F = ?x AND 0x3F"
    by (simp add: bit.conj_disj_distrib2)
  also have "(?x AND 0x80) OR 0x80 = (0x80 :: u32)" by (simp add: bit_eq_iff bit_simps)
  also have "?x AND 0x3F = take_bit 6 ?x" by (simp only: u32_mask take_bit_eq_mask)
  also have "take_bit 6 ?x = of_nat (n mod 64)" by (simp add: take_bit_of_nat take_bit_eq_mod [of 6 n])
  also have "(0x80 :: u32) OR of_nat (n mod 64) = of_nat (128 + n mod 64)"
  proof -
    have "push_bit 7 y AND take_bit 6 ?x = 0" for y by (auto simp: bit_eq_iff bit_simps)
    from this [of 1] have "(0x80 :: u32) AND of_nat (n mod 64) = 0"
      by (simp add: take_bit_of_nat take_bit_eq_mod [of 6 n])
    then show ?thesis by (simp add: u32_or_disjoint)
  qed
  finally show ?thesis
    by (simp add: byte_of_def unsigned_of_nat take_bit_nat_eq_self del: of_nat_add)
qed

text \<open>The first byte: a mark of ones above the bits that are left of the code point.\<close>

lemma u32_byte: "n < 256 \<Longrightarrow> byte_of ((of_nat n :: u32) AND 0xFF) = char_of n"
proof -
  assume n: "n < 256"
  have "(0xFF :: u32) = mask 8" by (simp add: mask_eq_exp_minus_1)
  then have "(of_nat n :: u32) AND 0xFF = take_bit 8 (of_nat n)" by (simp only: take_bit_eq_mask)
  also have "\<dots> = of_nat n" using n by (simp add: take_bit_of_nat take_bit_nat_eq_self)
  finally have "(of_nat n :: u32) AND 0xFF = of_nat n" .
  then show ?thesis using n by (simp add: byte_of_def unsigned_of_nat take_bit_nat_eq_self)
qed

lemma first_byte:
  assumes "m < 2 ^ j" and "k * 2 ^ j + m < 256"
  shows "byte_of (((of_nat m :: u32) OR push_bit j (of_nat k)) AND 0xFF) = char_of (k * 2 ^ j + m)"
proof -
  have "take_bit j (of_nat m :: u32) = of_nat m"
    using assms(1) by (simp add: take_bit_of_nat take_bit_nat_eq_self)
  moreover have "take_bit j (of_nat m :: u32) AND push_bit j (of_nat k) = 0"
    by (auto simp: bit_eq_iff bit_simps)
  ultimately have "(of_nat m :: u32) OR push_bit j (of_nat k) = of_nat (k * 2 ^ j + m)"
    by (simp add: u32_or_disjoint push_bit_eq_mult)
  then show ?thesis using u32_byte [OF assms(2)] by simp
qed

lemma first_bytes:
  "m < 32 \<Longrightarrow> byte_of (((of_nat m :: u32) OR 0xC0) AND 0xFF) = char_of (192 + m)"
  "m < 16 \<Longrightarrow> byte_of (((of_nat m :: u32) OR 0xE0) AND 0xFF) = char_of (224 + m)"
  "m < 8 \<Longrightarrow> byte_of (((of_nat m :: u32) OR 0xF0) AND 0xFF) = char_of (240 + m)"
  using first_byte [of m 5 6] first_byte [of m 4 14] first_byte [of m 3 30]
  by (simp_all add: push_bit_eq_mult)

lemma drop_bit_of_nat_u32:
  assumes "n < 2 ^ 32"
  shows "drop_bit 6 (of_nat n :: u32) = of_nat (n div 64)"
proof -
  have "unat (drop_bit 6 (of_nat n :: u32)) = drop_bit 6 n"
    using assms by (simp only: unat_drop_bit_eq) (simp add: unsigned_of_nat take_bit_nat_eq_self)
  then have "unat (drop_bit 6 (of_nat n :: u32)) = n div 64" by (simp add: drop_bit_eq_div)
  then have "of_nat (unat (drop_bit 6 (of_nat n :: u32))) = (of_nat (n div 64) :: u32)" by (simp only:)
  then show ?thesis by simp
qed

lemma utf8_tail_numerals:
  "utf8_tail 1 cp out = (drop_bit 6 cp, byte_of ((cp OR 0x80) AND 0xBF) # out)"
  "utf8_tail 2 cp out = utf8_tail 1 (drop_bit 6 cp) (byte_of ((cp OR 0x80) AND 0xBF) # out)"
  "utf8_tail 3 cp out = utf8_tail 2 (drop_bit 6 cp) (byte_of ((cp OR 0x80) AND 0xBF) # out)"
  by (simp_all add: numeral_2_eq_2 numeral_3_eq_3)

lemma utf8_encode_bytes:
  assumes "cp \<le> 0x10FFFF"
  shows "utf8_encode (of_nat cp) = Some (map char_of (utf8_bytes cp))"
proof -
  have lt: "(of_nat cp :: u32) < 0x80 \<longleftrightarrow> cp < 128" "(of_nat cp :: u32) < 0x800 \<longleftrightarrow> cp < 2048"
      "(of_nat cp :: u32) < 0x10000 \<longleftrightarrow> cp < 65536"
    using assms u32_of_nat_less_iff [of cp 128] u32_of_nat_less_iff [of cp 2048]
      u32_of_nat_less_iff [of cp 65536] by simp_all
  have le: "(of_nat cp :: u32) \<le> 0x10FFFF"
    using assms by (simp add: word_le_nat_alt unsigned_of_nat take_bit_nat_eq_self)
  have d: "drop_bit 6 (of_nat n :: u32) = of_nat (n div 64)" if "n \<le> cp" for n
    using that assms by (intro drop_bit_of_nat_u32) simp
  have q: "cp div 64 \<le> cp" "cp div 4096 \<le> cp" "cp div 64 div 64 = cp div 4096" "cp div 4096 div 64 = cp div 262144"
    by (simp_all flip: div_mult2_eq)
  have m: "cp < 2048 \<Longrightarrow> cp div 64 < 32" "cp < 65536 \<Longrightarrow> cp div 4096 < 16" "cp div 262144 < 8"
    using assms by (simp_all add: less_mult_imp_div_less)
  show ?thesis
    unfolding utf8_encode_def utf8_bytes_def lt utf8_tail_numerals
    using le m by (simp add: d q continuation_byte first_bytes byte_of_nat)
qed

lemma u_escape_length [simp]: "length (u_escape n) = 6"
  by (simp add: u_escape_def)

lemma u_escape_start: "u_escape n ! 0 = BSLASH" "u_escape n ! 1 = CHR ''u''"
  by (simp_all add: u_escape_def)

text \<open>The ten bits that each half of a surrogate pair carries.\<close>

lemma surrogate_bits:
  assumes "a < 1024" and "b < 1024"
  shows "(push_bit 10 ((of_nat (55296 + a) :: u32) AND 0x3FF) OR (of_nat (56320 + b) AND 0x3FF)) =
    of_nat (a * 1024 + b)"
proof -
  have m: "(of_nat n :: u32) AND 0x3FF = of_nat (n mod 1024)" for n
    by (simp only: u32_mask flip: take_bit_eq_mask) (simp add: take_bit_of_nat take_bit_eq_mod [of 10 n])
  have ab: "(55296 + a) mod 1024 = a" "(56320 + b) mod 1024 = b"
    using assms by (simp_all add: mod_add_eq flip: mod_add_left_eq [of 55296] mod_add_left_eq [of 56320])
  have "take_bit 10 (of_nat b :: u32) = of_nat b"
    using assms(2) by (simp add: take_bit_of_nat take_bit_nat_eq_self)
  moreover have "push_bit 10 x AND take_bit 10 y = 0" for x y :: u32
    by (auto simp: bit_eq_iff bit_simps)
  ultimately have "push_bit 10 (of_nat a :: u32) AND of_nat b = 0" by metis
  then have "push_bit 10 (of_nat a :: u32) OR of_nat b = push_bit 10 (of_nat a) + of_nat b"
    by (rule u32_or_disjoint)
  then show ?thesis unfolding m ab by (simp add: push_bit_eq_mult)
qed

lemma utf16_single:
  assumes "\<not> length s < 6" "parse_hex4 (drop 2 s) = f"
    and "\<not> (0xDC00 \<le> f \<and> f \<le> 0xDFFF)" "\<not> (0xD800 \<le> f \<and> f \<le> 0xDBFF)"
  shows "utf16_literal_to_utf8 s = map_option (\<lambda>bs. (bs, 6)) (utf8_encode f)"
  using assms unfolding utf16_literal_to_utf8_def Let_def by (simp only: simp_thms if_True if_False)

lemma utf16_pair:
  assumes "\<not> length s < 6" "parse_hex4 (drop 2 s) = f" "\<not> 0xDC00 \<le> f" "0xD800 \<le> f" "f \<le> 0xDBFF"
    and "drop 6 s = s2" "\<not> length s2 < 6" "s2 ! 0 = BSLASH" "s2 ! 1 = CHR ''u''"
    and "parse_hex4 (drop 2 s2) = g" "\<not> g < 0xDC00" "\<not> 0xDFFF < g"
  shows "utf16_literal_to_utf8 s = map_option (\<lambda>bs. (bs, 12))
    (utf8_encode (0x10000 + (push_bit 10 (f AND 0x3FF) OR (g AND 0x3FF))))"
  using assms unfolding utf16_literal_to_utf8_def Let_def by (simp only: simp_thms if_True if_False)

text \<open>C18. The escape of a code point, alone or as a surrogate pair, decodes to the code point's UTF-8
  bytes and to nothing else, wherever it stands.\<close>

theorem utf16_escape_is_utf8:
  assumes "cp \<le> 0x10FFFF" and "cp < 0xD800 \<or> 0xDFFF < cp"
  shows "utf16_literal_to_utf8 (escape_codepoint cp @ t) =
    Some (map char_of (utf8_bytes cp), length (escape_codepoint cp))"
proof (cases "cp < 65536")
  case True
  have h: "parse_hex4 (drop 2 (u_escape cp @ t)) = of_nat cp"
    using parse_hex4_u_escape [OF True, of t] by simp
  have r: "\<not> (0xDC00 \<le> (of_nat cp :: u32) \<and> (of_nat cp :: u32) \<le> 0xDFFF)"
      "\<not> (0xD800 \<le> (of_nat cp :: u32) \<and> (of_nat cp :: u32) \<le> 0xDBFF)"
    using assms(2) True by (auto simp: word_le_nat_alt unsigned_of_nat take_bit_nat_eq_self)
  have "\<not> length (u_escape cp @ t) < 6" by simp
  from utf16_single [OF this h r] show ?thesis
    using True utf8_encode_bytes [OF assms(1)] by (simp add: escape_codepoint_def)
next
  case False
  let ?a = "(cp - 65536) div 1024" and ?b = "(cp - 65536) mod 1024"
  have ab: "?a < 1024" "?b < 1024" using assms(1) by (simp_all add: less_mult_imp_div_less)
  have e: "escape_codepoint cp @ t = u_escape (55296 + ?a) @ u_escape (56320 + ?b) @ t"
    using False by (simp add: escape_codepoint_def)
  have h1: "parse_hex4 (drop 2 (u_escape (55296 + ?a) @ u_escape (56320 + ?b) @ t)) = of_nat (55296 + ?a)"
    using parse_hex4_u_escape [of "55296 + ?a" "u_escape (56320 + ?b) @ t"] ab by simp
  have h2: "parse_hex4 (drop 2 (u_escape (56320 + ?b) @ t)) = of_nat (56320 + ?b)"
    using parse_hex4_u_escape [of "56320 + ?b" t] ab by simp
  have r: "\<not> 0xDC00 \<le> (of_nat (55296 + ?a) :: u32)" "0xD800 \<le> (of_nat (55296 + ?a) :: u32)"
      "(of_nat (55296 + ?a) :: u32) \<le> 0xDBFF" "\<not> (of_nat (56320 + ?b) :: u32) < 0xDC00"
      "\<not> 0xDFFF < (of_nat (56320 + ?b) :: u32)"
    using ab by (simp_all add: word_le_nat_alt word_less_nat_alt unsigned_of_nat take_bit_nat_eq_self
        del: of_nat_add)
  have "(0x10000 :: u32) = of_nat 65536" by simp
  then have cp: "0x10000 + (push_bit 10 ((of_nat (55296 + ?a) :: u32) AND 0x3FF)
      OR (of_nat (56320 + ?b) AND 0x3FF)) = of_nat (65536 + (?a * 1024 + ?b))"
    unfolding surrogate_bits [OF ab] by (simp only: of_nat_add)
  have sum: "65536 + (?a * 1024 + ?b) = cp" using False by (simp only: div_mult_mod_eq)
  have st: "u_escape (56320 + ?b) @ t \<noteq> []" "(u_escape (56320 + ?b) @ t) ! 0 = BSLASH"
      "(u_escape (56320 + ?b) @ t) ! 1 = CHR ''u''"
    using u_escape_start [of "56320 + ?b"] by (simp_all add: u_escape_def)
  have len: "\<not> length (u_escape (55296 + ?a) @ u_escape (56320 + ?b) @ t) < 6"
      "drop 6 (u_escape (55296 + ?a) @ u_escape (56320 + ?b) @ t) = u_escape (56320 + ?b) @ t"
      "\<not> length (u_escape (56320 + ?b) @ t) < 6"
    by simp_all
  have "utf16_literal_to_utf8 (escape_codepoint cp @ t) = map_option (\<lambda>bs. (bs, 12)) (utf8_encode (of_nat cp))"
    using utf16_pair [OF len(1) h1 r(1-3) len(2,3) st(2,3) h2 r(4,5)] unfolding e cp sum .
  then show ?thesis using utf8_encode_bytes [OF assms(1)] False by (simp add: escape_codepoint_def)
qed

theorem utf16_escape_is_utf8_witness:
  "utf16_literal_to_utf8 (escape_codepoint 128512 @ ''!'') =
     Some (map char_of (utf8_bytes 128512), length (escape_codepoint 128512))"
  by (rule utf16_escape_is_utf8) simp_all


section \<open>Malformed escapes\<close>

lemma parse_hex4_invalid:
  assumes "\<exists>c\<in>{c1, c2, c3, c4}. hex_digit c = None"
  shows "parse_hex4 (c1 # c2 # c3 # c4 # t) = 0"
proof -
  have "parse_hex4 s = parse_hex4_loop (Suc (Suc (Suc (Suc 0)))) 0 s" for s
    by (simp add: parse_hex4_def numeral_eq_Suc)
  then show ?thesis using assms by (auto split: option.splits)
qed

lemma utf16_invalid:
  assumes "\<exists>c\<in>{c1, c2, c3, c4}. hex_digit c = None"
  shows "utf16_literal_to_utf8 (BSLASH # CHR ''u'' # c1 # c2 # c3 # c4 # t) = Some ([NUL], 6)"
proof -
  have "utf16_literal_to_utf8 (BSLASH # CHR ''u'' # c1 # c2 # c3 # c4 # t) = map_option (\<lambda>bs. (bs, 6)) (utf8_encode 0)"
    by (rule utf16_single) (simp_all add: parse_hex4_invalid [OF assms])
  moreover have "char_of (0 :: nat) = NUL"
    by (rule iffD1 [OF of_char_eq_iff [where 'a = nat]]) (simp add: of_char_of)
  ultimately show ?thesis using utf8_encode_bytes [of 0] by (simp add: utf8_bytes_def)
qed

lemma unescape_plain: "BSLASH \<notin> set s \<Longrightarrow> unescape (s @ t) = map_option (\<lambda>out. s @ out) (unescape t)"
  by (induction s) (cases "unescape t"; auto)+

lemma scan_plain: "QUOTE \<notin> set s \<Longrightarrow> BSLASH \<notin> set s \<Longrightarrow>
    scan_string (s @ t) = map_option (\<lambda>(n, k). (n + length s, k)) (scan_string t)"
  by (induction s) (cases "scan_string t"; auto)+

text \<open>A \<open>\u\<close> escape whose four characters are not all hexadecimal digits is not refused: the string
  ends where the escape stands, whatever text follows in the literal, and parsing goes on behind the
  literal.\<close>

theorem malformed_escape_cuts_string:
  assumes "at_text b (QUOTE # a @ [BSLASH, CHR ''u'', c1, c2, c3, c4] @ t @ QUOTE # r)"
    and "\<exists>c\<in>{c1, c2, c3, c4}. hex_digit c = None"
    and "set (a @ [c1, c2, c3, c4] @ t) \<inter> {QUOTE, BSLASH, NUL} = {}"
  shows "parse_value b = Some (JStr a, adv (length a + length t + 8) b)"
proof -
  let ?e = "[BSLASH, CHR ''u'', c1, c2, c3, c4]"
  define body where "body = a @ ?e @ t"
  have q: "QUOTE \<notin> set a" "BSLASH \<notin> set a" "NUL \<notin> set a" "QUOTE \<notin> set t" "BSLASH \<notin> set t" "NUL \<notin> set t"
    and c: "c1 \<noteq> QUOTE" "c2 \<noteq> QUOTE" "c3 \<noteq> QUOTE" "c4 \<noteq> QUOTE" "c1 \<noteq> BSLASH" "c2 \<noteq> BSLASH" "c3 \<noteq> BSLASH" "c4 \<noteq> BSLASH"
    using assms(3) by auto
  have at: "at_text b (QUOTE # body @ QUOTE # r)" and len: "length body = length a + length t + 6"
    using assms(1) by (simp_all add: body_def)
  have sc: "scan_string (body @ QUOTE # r) = Some (length body, 1)"
    using scan_plain [OF q(1,2), of "?e @ t @ QUOTE # r"] scan_plain [OF q(4,5), of "QUOTE # r"] c
    by (simp add: body_def)
  have un: "unescape body = Some (a @ NUL # t)"
    using unescape_plain [OF q(2), of "?e @ t"] unescape_plain [OF q(5), of "[]"] utf16_invalid [OF assms(2), of t]
    by (simp add: body_def simple_escape_def)
  have "parse_string_text (QUOTE # body @ QUOTE # r) = Some (a @ NUL # t, length body + 2, length body + 1)"
    using un by (simp add: parse_string_text_def sc)
  then have "parse_string b = Some (a, adv (length body + 2) b)"
    using at cstr_append [OF q(3), of "NUL # t"] by (simp add: parse_string_def at_text_def) (simp add: cstr_def)
  moreover have "byte_at b 0 = Some QUOTE" using assms(1) by (rule at_byte)
  moreover have "\<not> reads b ''null''" "\<not> reads b ''false''" "\<not> reads b ''true''"
    using at_reads [OF assms(1)] by simp_all
  ultimately show ?thesis by (subst parse_value.simps) (simp add: len ac_simps)
qed

theorem malformed_escape_cuts_string_witness:
  "\<exists>b'. parse_value \<lparr>pb_content = QUOTE # ''id'' @ [BSLASH] @ ''u12G4-7'' @ [QUOTE], pb_offset = 0, pb_depth = 0\<rparr> =
     Some (JStr ''id'', b')"
  using malformed_escape_cuts_string [of
      "\<lparr>pb_content = QUOTE # ''id'' @ [BSLASH] @ ''u12G4-7'' @ [QUOTE], pb_offset = 0, pb_depth = 0\<rparr>"
      "''id''" "CHR ''1''" "CHR ''2''" "CHR ''G''" "CHR ''4''" "''-7''" "[]"]
  by (simp add: at_text_def buffer_at_offset_def hex_digit_def)

end
