(* ===== verification/Json_String_Mem.thy ===== *)
theory Json_String_Mem
  imports Json_Unicode
begin

text \<open>
  \<open>parse_string\<close> of \<^verbatim>\<open>external/cjson/cJSON.c\<close> with its two buffers: the input with the pointers
  \<open>input_pointer\<close> and \<open>input_end\<close> as indices, the allocated output with \<open>output_pointer\<close>.  A read or write
  outside a buffer is a fault of its own, apart from the failures the code signals, and every byte is
  written where the code writes it, also before a failure.  The code has no fault, and computes what the
  functions on lists of \<open>Json_String\<close> compute.
\<close>

section \<open>Buffers\<close>

datatype 'a access = Fault | Fail | Done 'a

definition read_at :: "bytes \<Rightarrow> nat \<Rightarrow> char access" where
  "read_at buf i = (if i < length buf then Done (buf ! i) else Fault)"

definition write_at :: "bytes \<Rightarrow> nat \<Rightarrow> char \<Rightarrow> bytes access" where
  "write_at buf i c = (if i < length buf then Done (buf[i := c]) else Fault)"

text \<open>Going on with what was read or written.\<close>

fun and_then :: "'a access \<Rightarrow> ('a \<Rightarrow> 'b access) \<Rightarrow> 'b access" where
  "and_then Fault f = Fault"
| "and_then Fail f = Fail"
| "and_then (Done x) f = f x"

section \<open>The code\<close>

fun hex4_at :: "nat \<Rightarrow> u32 \<Rightarrow> bytes \<Rightarrow> nat \<Rightarrow> u32 access" where
  "hex4_at 0 h content p = Done h"
| "hex4_at (Suc k) h content p =
     and_then (read_at content p) (\<lambda>c.
       case hex_digit c of
         None \<Rightarrow> Done 0
       | Some d \<Rightarrow> hex4_at k (if 0 < k then push_bit 4 (h + d) else h + d) content (p + 1))"

text \<open>The continuation bytes at positions \<open>k\<close> down to 1 behind \<open>output_pointer\<close>.\<close>

fun utf8_loop :: "nat \<Rightarrow> u32 \<Rightarrow> nat \<Rightarrow> bytes \<Rightarrow> (u32 \<times> bytes) access" where
  "utf8_loop 0 codepoint op out = Done (codepoint, out)"
| "utf8_loop (Suc k) codepoint op out =
     and_then (write_at out (op + Suc k) (byte_of ((codepoint OR 0x80) AND 0xBF)))
       (\<lambda>out. utf8_loop k (drop_bit 6 codepoint) op out)"

definition utf8_class :: "u32 \<Rightarrow> (nat \<times> u32) option" where
  "utf8_class codepoint =
     (if codepoint < 0x80 then Some (1, 0)
      else if codepoint < 0x800 then Some (2, 0xC0)
      else if codepoint < 0x10000 then Some (3, 0xE0)
      else if codepoint \<le> 0x10FFFF then Some (4, 0xF0)
      else None)"

definition utf8_at :: "u32 \<Rightarrow> nat \<Rightarrow> bytes \<Rightarrow> (nat \<times> bytes) access" where
  "utf8_at codepoint op out =
     (case utf8_class codepoint of
        None \<Rightarrow> Fail
      | Some (utf8_length, first_byte_mark) \<Rightarrow>
          and_then (utf8_loop (utf8_length - 1) codepoint op out) (\<lambda>(codepoint, out).
          and_then (write_at out op
              (if 1 < utf8_length then byte_of ((codepoint OR first_byte_mark) AND 0xFF) else byte_of (codepoint AND 0x7F)))
            (\<lambda>out. Done (op + utf8_length, out))))"

text \<open>The result is the length of the sequence read, the new output pointer and the output.\<close>

definition utf16_at :: "bytes \<Rightarrow> nat \<Rightarrow> nat \<Rightarrow> nat \<Rightarrow> bytes \<Rightarrow> (nat \<times> nat \<times> bytes) access" where
  "utf16_at content first_sequence input_end op out =
     (if int input_end - int first_sequence < 6 then Fail
      else and_then (hex4_at 4 0 content (first_sequence + 2)) (\<lambda>first_code.
        if 0xDC00 \<le> first_code \<and> first_code \<le> 0xDFFF then Fail
        else if 0xD800 \<le> first_code \<and> first_code \<le> 0xDBFF then
          (let second_sequence = first_sequence + 6
           in if int input_end - int second_sequence < 6 then Fail
              else and_then (read_at content second_sequence) (\<lambda>c0.
                if c0 \<noteq> BSLASH then Fail
                else and_then (read_at content (second_sequence + 1)) (\<lambda>c1.
                if c1 \<noteq> CHR ''u'' then Fail
                else and_then (hex4_at 4 0 content (second_sequence + 2)) (\<lambda>second_code.
                if second_code < 0xDC00 \<or> 0xDFFF < second_code then Fail
                else and_then (utf8_at (0x10000 + (push_bit 10 (first_code AND 0x3FF) OR (second_code AND 0x3FF))) op out)
                  (\<lambda>(op, out). Done (12, op, out))))))
        else and_then (utf8_at first_code op out) (\<lambda>(op, out). Done (6, op, out))))"

text \<open>One pass of the decoding loop: the new input and output pointers and the output.\<close>

definition decode_step :: "bytes \<Rightarrow> nat \<Rightarrow> nat \<Rightarrow> nat \<Rightarrow> bytes \<Rightarrow> (nat \<times> nat \<times> bytes) access" where
  "decode_step content input_end p op out =
     and_then (read_at content p) (\<lambda>c.
       if c \<noteq> BSLASH then and_then (write_at out op c) (\<lambda>out. Done (p + 1, op + 1, out))
       else if int input_end - int p < 1 then Fail
       else and_then (read_at content (p + 1)) (\<lambda>x.
         case simple_escape x of
           Some y \<Rightarrow> and_then (write_at out op y) (\<lambda>out. Done (p + 2, op + 1, out))
         | None \<Rightarrow>
             if x = CHR ''u''
             then and_then (utf16_at content p input_end op out) (\<lambda>(sequence_length, op, out). Done (p + sequence_length, op, out))
             else Fail))"

lemma and_then_Done: "and_then m f = Done y \<longleftrightarrow> (\<exists>x. m = Done x \<and> f x = Done y)"
  by (cases m) auto

lemma decode_step_moves: "decode_step content e p op out = Done (p', op', out') \<Longrightarrow> p < p'"
  by (auto simp: decode_step_def and_then_Done utf16_at_def Let_def split: if_splits option.splits)

function decode_at :: "bytes \<Rightarrow> nat \<Rightarrow> nat \<Rightarrow> nat \<Rightarrow> bytes \<Rightarrow> (nat \<times> bytes) access" where
  "decode_at content input_end p op out =
     (if p < input_end then
        (case decode_step content input_end p op out of
           Fault \<Rightarrow> Fault
         | Fail \<Rightarrow> Fail
         | Done (p, op, out) \<Rightarrow> decode_at content input_end p op out)
      else Done (op, out))"
  by pat_completeness auto

termination
  by (relation "measure (\<lambda>(_, e, p, _, _). e - p)") (auto dest: decode_step_moves)

declare decode_at.simps [simp del]

text \<open>The loop that finds the closing quote, and its check behind the loop.\<close>

function scan_at :: "bytes \<Rightarrow> nat \<Rightarrow> nat \<Rightarrow> (nat \<times> nat) access" where
  "scan_at content input_end skipped_bytes =
     (if input_end < length content then
        (case read_at content input_end of
           Done c \<Rightarrow>
             if c = QUOTE then Done (input_end, skipped_bytes)
             else if c = BSLASH then
               if length content \<le> input_end + 1 then Fail
               else scan_at content (input_end + 2) (skipped_bytes + 1)
             else scan_at content (input_end + 1) skipped_bytes
         | _ \<Rightarrow> Fault)
      else Fail)"
  by pat_completeness auto

termination
  by (relation "measure (\<lambda>(content, e, _). length content - e)") auto

declare scan_at.simps [simp del]

text \<open>What \<open>malloc\<close> returns holds anything.  The result is the output buffer and the new offset.\<close>

definition parse_string_at :: "(nat \<Rightarrow> char) \<Rightarrow> bytes \<Rightarrow> nat \<Rightarrow> (bytes \<times> nat) access" where
  "parse_string_at garbage content offset =
     and_then (read_at content offset) (\<lambda>c.
       if c \<noteq> QUOTE then Fail
       else and_then (scan_at content (offset + 1) 0) (\<lambda>(input_end, skipped_bytes).
         let allocation_length = input_end - offset - skipped_bytes;
             output = map garbage [0..<allocation_length + 1]
         in and_then (decode_at content input_end (offset + 1) 0 output) (\<lambda>(op, output).
            and_then (write_at output op NUL) (\<lambda>output. Done (output, input_end + 1)))))"

section \<open>Reading escapes\<close>

lemma hex4_at_loop:
  "p + k \<le> length content \<Longrightarrow> k \<le> m \<Longrightarrow>
     hex4_at k h content p = Done (parse_hex4_loop k h (take m (drop p content)))"
proof (induction k arbitrary: h p m)
  case (Suc k)
  then obtain m' where m: "m = Suc m'" by (cases m) auto
  have "p < length content" using Suc.prems(1) by simp
  then have d: "take (Suc m') (drop p content) = content ! p # take m' (drop (Suc p) content)"
    by (simp flip: Cons_nth_drop_Suc)
  show ?case
    using Suc.IH [of "Suc p" m'] Suc.prems m \<open>p < length content\<close>
    by (auto simp: read_at_def d split: option.split simp del: take_Suc_Cons)
qed simp

lemma write_inside:
  assumes "op + length bs \<le> length out"
  shows "\<exists>pre old post. out = pre @ old @ post \<and> length pre = op \<and> length old = length bs"
proof -
  have "out = take op out @ take (length bs) (drop op out) @ drop (length bs) (drop op out)"
    by (simp only: append_take_drop_id)
  then show ?thesis using assms by (intro exI conjI) auto
qed

text \<open>A buffer with the bytes \<open>bs\<close> written from \<open>op\<close> on.\<close>

definition overwrite :: "nat \<Rightarrow> bytes \<Rightarrow> bytes \<Rightarrow> bytes" where
  "overwrite op bs out = take op out @ bs @ drop (op + length bs) out"

lemma overwrite_Nil [simp]: "overwrite op [] out = out"
  by (simp add: overwrite_def)

lemma length_overwrite [simp]: "op + length bs \<le> length out \<Longrightarrow> length (overwrite op bs out) = length out"
  by (simp add: overwrite_def)

lemma overwrite_overwrite:
  "op + length bs \<le> length out \<Longrightarrow>
     overwrite (op + length bs) bs' (overwrite op bs out) = overwrite op (bs @ bs') out"
  by (simp add: overwrite_def ac_simps)

lemma write_at_overwrite: "op < length out \<Longrightarrow> write_at out op c = Done (overwrite op [c] out)"
  by (simp add: write_at_def overwrite_def upd_conv_take_nth_drop)

lemma utf8_at_encode:
  assumes "op + 4 \<le> length out \<or> codepoint < 0x10000 \<and> op + 3 \<le> length out"
  shows "utf8_at codepoint op out =
    (case utf8_encode codepoint of None \<Rightarrow> Fail
     | Some bs \<Rightarrow> Done (op + length bs, overwrite op bs out))"
proof -
  consider (one) "codepoint < 0x80" | (two) "\<not> codepoint < 0x80" "codepoint < 0x800"
    | (three) "\<not> codepoint < 0x800" "\<not> codepoint < 0x80" "codepoint < 0x10000"
    | (four) "\<not> codepoint < 0x10000" "\<not> codepoint < 0x800" "\<not> codepoint < 0x80" "codepoint \<le> 0x10FFFF"
    | (bad) "\<not> codepoint < 0x10000" "\<not> codepoint < 0x800" "\<not> codepoint < 0x80" "\<not> codepoint \<le> 0x10FFFF"
    by (meson less_trans not_less order_less_le_trans)
  then show ?thesis
  proof cases
    case one
    obtain pre a post where "out = pre @ [a] @ post" "length pre = op"
      using write_inside [of op "[NUL]" out] assms by (auto simp: length_Suc_conv)
    then show ?thesis using one
      by (auto simp: utf8_at_def utf8_class_def utf8_encode_def write_at_def list_update_append overwrite_def)
  next
    case two
    obtain pre a b post where "out = pre @ [a, b] @ post" "length pre = op"
      using write_inside [of op "[NUL, NUL]" out] assms by (auto simp: length_Suc_conv)
    then show ?thesis using two
      by (auto simp: utf8_at_def utf8_class_def utf8_encode_def write_at_def list_update_append overwrite_def numeral_eq_Suc)
  next
    case three
    obtain pre a b c post where "out = pre @ [a, b, c] @ post" "length pre = op"
      using write_inside [of op "[NUL, NUL, NUL]" out] assms by (auto simp: length_Suc_conv)
    then show ?thesis using three
      by (auto simp: utf8_at_def utf8_class_def utf8_encode_def write_at_def list_update_append overwrite_def numeral_eq_Suc)
  next
    case four
    obtain pre a b c d post where "out = pre @ [a, b, c, d] @ post" "length pre = op"
      using write_inside [of op "[NUL, NUL, NUL, NUL]" out] assms four by (auto simp: length_Suc_conv)
    then show ?thesis using four
      by (auto simp: utf8_at_def utf8_class_def utf8_encode_def write_at_def list_update_append overwrite_def numeral_eq_Suc)
  qed (simp add: utf8_at_def utf8_class_def utf8_encode_def)
qed

text \<open>The escape at \<open>p\<close> is read inside the literal: both length checks before the digits are needed.\<close>

lemma utf16_at_literal:
  assumes s: "s = take (e - p) (drop p content)" and e: "e \<le> length content" and p: "p \<le> e"
    and room: "6 \<le> length s \<Longrightarrow> op + 4 \<le> length out"
  shows "utf16_at content p e op out =
    (case utf16_literal_to_utf8 s of None \<Rightarrow> Fail
     | Some (bs, n) \<Rightarrow> Done (n, op + length bs, overwrite op bs out))"
proof (cases "length s < 6")
  case True
  then have "int e - int p < 6" using s e p by (simp add: min_def split: if_splits)
  then show ?thesis using True by (simp add: utf16_at_def utf16_literal_to_utf8_def)
next
  case six: False
  have len: "length s = e - p" using e by (simp add: s min_absorb2 diff_le_mono)
  have l1: "\<not> int e - int p < 6" using six len p by simp
  have h1: "hex4_at 4 0 content (p + 2) = Done (parse_hex4 (drop 2 s))"
    using hex4_at_loop [of "p + 2" 4 content "e - p - 2" 0] six len e p
    by (simp add: parse_hex4_def s drop_take add.commute)
  have enc: "utf8_at cp op out =
      (case utf8_encode cp of None \<Rightarrow> Fail | Some bs \<Rightarrow> Done (op + length bs, overwrite op bs out))" for cp
    using utf8_at_encode room six by simp
  show ?thesis
  proof (cases "length s < 12")
    case True
    then have "int e - int (p + 6) < 6" "length (drop 6 s) < 6" using len p six by simp_all
    then show ?thesis
      using six l1 by (auto simp: utf16_at_def utf16_literal_to_utf8_def h1 enc Let_def
          simp del: drop_drop nth_drop add_2_eq_Suc' split: option.split)
  next
    case False
    then have twelve: "p + 12 \<le> e" using len by linarith
    have l2: "\<not> int e - int (p + 6) < 6" "\<not> length (drop 6 s) < 6" using twelve len by simp_all
    have r: "read_at content (p + 6) = Done (drop 6 s ! 0)" "read_at content (7 + p) = Done (drop 6 s ! 1)"
      using twelve e by (simp_all add: read_at_def s ac_simps)
    have h2: "hex4_at 4 0 content (8 + p) = Done (parse_hex4 (drop 2 (drop 6 s)))"
      using hex4_at_loop [of "p + 8" 4 content "e - p - 8" 0] False len e p
      by (simp add: parse_hex4_def s drop_take add.commute)
    show ?thesis
      using six l1 l2
      by (auto simp: utf16_at_def utf16_literal_to_utf8_def h1 h2 r enc Let_def
          simp del: drop_drop nth_drop add_2_eq_Suc' split: option.split)
  qed
qed

section \<open>Decoding\<close>

text \<open>What the scan of \<open>escapes\<close> leaves to the literal: no more than every other byte.\<close>

lemma escapes_half: "2 * escapes b s \<le> Suc (length s)"
  and escapes_half_True: "2 * escapes True s \<le> length s"
proof -
  have "2 * escapes True s \<le> length s \<and> 2 * escapes False s \<le> Suc (length s)"
    by (induction s) auto
  then show "2 * escapes b s \<le> Suc (length s)" "2 * escapes True s \<le> length s" by (cases b; auto)+
qed

lemma drop_literal: "take (e - p) (drop p content) = c # cs \<Longrightarrow> e \<le> length content \<Longrightarrow>
    p < e \<and> content ! p = c \<and> cs = take (e - Suc p) (drop (Suc p) content)"
proof -
  assume s: "take (e - p) (drop p content) = c # cs" and e: "e \<le> length content"
  then have p: "p < e" by (cases "p < e") auto
  then have "take (e - p) (drop p content) = content ! p # take (e - Suc p) (drop (Suc p) content)"
    using e by (simp flip: Cons_nth_drop_Suc Suc_diff_Suc)
  then show ?thesis using s p by simp
qed

lemma decode_at_unescape:
  assumes "s = take (e - p) (drop p content)" "p \<le> e" "e < length content" "content ! e = QUOTE"
    and "length s + 2 + op \<le> length out + escapes b s"
  shows "decode_at content e p op out =
    (case unescape s of None \<Rightarrow> Fail | Some bs \<Rightarrow> Done (op + length bs, overwrite op bs out))"
  using assms
proof (induction s arbitrary: p op out b rule: unescape.induct)
  case 1
  then show ?case by (subst decode_at.simps) (auto split: if_splits)
next
  case (2 c cs)
  let ?x = "hd (cs @ [QUOTE])"
  have at: "p < e" "content ! p = c" "cs = take (e - Suc p) (drop (Suc p) content)"
    using drop_literal [of e p content c cs] "2.prems"(1,3) by simp_all
  have rc: "read_at content p = Done c" using at(1,2) "2.prems"(3) by (simp add: read_at_def)
  have half: "2 * escapes b (c # cs) \<le> Suc (length (c # cs))" by (rule escapes_half)
  then have op: "op < length out" using "2.prems"(5) by simp
  show ?case
  proof (cases "c = BSLASH")
    case False
    have "\<exists>b'. escapes b (c # cs) = escapes b' cs" using False by (cases b) auto
    then obtain b' where b': "escapes b (c # cs) = escapes b' cs" by blast
    have "decode_at content e (Suc p) (Suc op) (overwrite op [c] out) =
        (case unescape cs of None \<Rightarrow> Fail | Some bs \<Rightarrow> Done (Suc op + length bs, overwrite (Suc op) bs (overwrite op [c] out)))"
      by (rule "2.IH"(1) [OF False at(3)]) (use at(1) op b' "2.prems"(3-5) in simp_all)
    then show ?thesis
      using False at(1) op overwrite_overwrite [of op "[c]" out]
      by (subst decode_at.simps) (simp add: decode_step_def rc write_at_overwrite split: option.split)
  next
    case True
    have rx: "read_at content (Suc p) = Done ?x"
    proof (cases cs)
      case Nil
      then have "Suc p = e" using at(1,3) "2.prems"(3) by auto
      then show ?thesis using Nil "2.prems"(3,4) by (simp add: read_at_def)
    next
      case (Cons y ys)
      then show ?thesis
        using drop_literal [of e "Suc p" content y ys] at(3) "2.prems"(3) by (simp add: read_at_def)
    qed
    have more: "\<not> int e - int p < 1" using at(1) by simp
    show ?thesis
    proof (cases "simple_escape ?x")
      case (Some y)
      have step: "decode_step content e p op out = Done (p + 2, Suc op, overwrite op [y] out)"
        using True Some more op by (simp add: decode_step_def rc rx write_at_overwrite)
      show ?thesis
      proof (cases cs)
        case Nil
        then have "Suc p = e" using at(1,3) "2.prems"(3) by auto
        then have "decode_at content e (p + 2) (Suc op) (overwrite op [y] out) = Done (Suc op, overwrite op [y] out)"
          by (subst decode_at.simps) simp
        then show ?thesis using True Some Nil at(1) by (subst decode_at.simps) (simp add: step)
      next
        case (Cons z zs)
        obtain b' where b': "escapes b (c # cs) \<le> Suc (escapes b' zs)" using escapes_two Cons by blast
        have zs: "Suc p < e" "zs = take (e - (p + 2)) (drop (p + 2) content)"
          using drop_literal [of e "Suc p" content z zs] at(3) Cons "2.prems"(3) by simp_all
        have "decode_at content e (p + 2) (Suc op) (overwrite op [y] out) =
            (case unescape (drop 1 cs) of None \<Rightarrow> Fail
             | Some bs \<Rightarrow> Done (Suc op + length bs, overwrite (Suc op) bs (overwrite op [y] out)))"
          by (rule "2.IH"(3) [of ?x y _ _ _ b']) (use True Some Cons zs b' op "2.prems"(3-5) in simp_all)
        then show ?thesis
          using True Some at(1) op overwrite_overwrite [of op "[y]" out]
          by (subst decode_at.simps) (simp add: step split: option.split)
      qed
    next
      case None
      have room: "op + 4 \<le> length out" if "6 \<le> length (c # cs)"
        using that half "2.prems"(5) by linarith
      have u16: "utf16_at content p e op out =
          (case utf16_literal_to_utf8 (c # cs) of None \<Rightarrow> Fail
           | Some (bs, n) \<Rightarrow> Done (n, op + length bs, overwrite op bs out))"
        by (rule utf16_at_literal) (use "2.prems"(1-3) room in simp_all)
      show ?thesis
      proof (cases "?x = CHR ''u'' \<and> utf16_literal_to_utf8 (c # cs) \<noteq> None")
        case False
        then have bad: "?x \<noteq> CHR ''u'' \<or> utf16_literal_to_utf8 (c # cs) = None" by blast
        then have "decode_step content e p op out = Fail"
          using True None more by (auto simp: decode_step_def rc rx u16)
        then show ?thesis using True None at(1) bad by (subst decode_at.simps) auto
      next
        case utf: True
        then obtain bs n where u: "utf16_literal_to_utf8 (c # cs) = Some (bs, n)" "?x = CHR ''u''" by auto
        obtain j where n: "n = 2 * j" "2 * j \<le> length (c # cs)" "length bs \<le> j"
          using utf16_sizes [OF u(1)] by (auto elim!: evenE)
        obtain b' where b': "escapes b (c # cs) \<le> j + escapes b' (drop n (c # cs))"
          using escapes_drop n by blast
        have step: "decode_step content e p op out = Done (p + n, op + length bs, overwrite op bs out)"
          using True None more u by (simp add: decode_step_def rc rx u16)
        have fits: "op + length bs \<le> length out" using half n "2.prems"(5) by linarith
        have rest: "drop n (c # cs) = take (e - (p + n)) (drop (p + n) content)"
          by (simp add: "2.prems"(1) drop_take add.commute)
        have len: "length (c # cs) = e - p" using "2.prems"(3) unfolding "2.prems"(1) by simp
        have "decode_at content e (p + n) (op + length bs) (overwrite op bs out) =
            (case unescape (drop n (c # cs)) of None \<Rightarrow> Fail
             | Some bs' \<Rightarrow> Done (op + length bs + length bs', overwrite (op + length bs) bs' (overwrite op bs out)))"
          by (rule "2.IH"(2) [of ?x "(bs, n)" bs n _ _ _ b'])
            (use True None u rest fits b' n len at(1) "2.prems"(2-5) in simp_all)
        then show ?thesis
          using True None at(1) u overwrite_overwrite [OF fits]
          by (subst decode_at.simps) (simp add: step split: option.split)
      qed
    qed
  qed
qed

section \<open>The parser and its two buffers\<close>

lemma scan_at_string:
  "scan_at content p k =
     (case scan_string (drop p content) of None \<Rightarrow> Fail | Some (n, skipped) \<Rightarrow> Done (p + n, k + skipped))"
proof (induction content p k rule: scan_at.induct)
  case (1 content p k)
  show ?case
  proof (cases "p < length content")
    case False
    then show ?thesis by (subst scan_at.simps) simp
  next
    case True
    then have d: "drop p content = content ! p # drop (Suc p) content" by (simp add: Cons_nth_drop_Suc)
    have r: "read_at content p = Done (content ! p)" using True by (simp add: read_at_def)
    show ?thesis
    proof (cases "content ! p = QUOTE \<or> content ! p \<noteq> BSLASH")
      case quote: True
      then show ?thesis
        using "1.IH"(2) [of "content ! p"] True r
        by (subst scan_at.simps) (auto simp: d split: option.split)
    next
      case False
      show ?thesis
      proof (cases "drop (Suc p) content")
        case Nil
        then show ?thesis using False True r by (subst scan_at.simps) (simp add: d)
      next
        case (Cons x xs)
        then have "\<not> length content \<le> p + 1" "xs = drop (p + 2) content"
          by (auto simp flip: drop_Suc_Cons dest: arg_cong [of _ _ tl] simp: tl_drop drop_Suc)
        then show ?thesis
          using "1.IH"(1) [of "content ! p"] False True r Cons
          by (subst scan_at.simps) (auto simp: d split: option.split)
      qed
    qed
  qed
qed

text \<open>C16. From every offset inside a text \<open>C16. parse_string\<close> stays inside its two buffers, whatever the text is,
  malformed literals and escapes included: no read leaves the text, and no write leaves the output it
  allocated, whatever that memory held.
  It fails exactly when the literal does not decode, and otherwise leaves the decoded bytes, the
  terminator and the rest of the output untouched, with the offset behind the closing quote.\<close>

theorem parse_string_in_memory:
  assumes "offset < length content"
  shows "case parse_string_text (drop offset content) of
      None \<Rightarrow> parse_string_at garbage content offset = Fail
    | Some (s, n, alloc) \<Rightarrow>
        length s < alloc \<and> offset + n \<le> length content \<and>
        parse_string_at garbage content offset = Done (s @ NUL # map garbage [length s + 1..<alloc], offset + n)"
proof -
  have d: "drop offset content = content ! offset # drop (Suc offset) content"
    using assms by (simp add: Cons_nth_drop_Suc)
  have r: "read_at content offset = Done (content ! offset)" using assms by (simp add: read_at_def)
  show ?thesis
  proof (cases "content ! offset = QUOTE \<and> scan_string (drop (Suc offset) content) \<noteq> None")
    case False
    then have "content ! offset \<noteq> QUOTE \<or> scan_string (drop (Suc offset) content) = None" by blast
    then show ?thesis
      by (auto simp: parse_string_at_def parse_string_text_def d r scan_at_string)
  next
    case True
    then obtain n k where q: "content ! offset = QUOTE" and sc: "scan_string (drop (Suc offset) content) = Some (n, k)"
      by auto
    let ?e = "Suc offset + n" and ?lit = "take n (drop (Suc offset) content)"
    let ?out = "map garbage [0..<n + 1 - k + 1]"
    have e: "?e < length content" "content ! ?e = QUOTE" and k: "k = escapes False ?lit"
      using scan_string_spec [OF sc] by auto
    have len: "length ?lit = n" using e by simp
    have half: "2 * k \<le> Suc n" using escapes_half [of False ?lit] k len by simp
    have dec: "decode_at content ?e (Suc offset) 0 ?out =
        (case unescape ?lit of None \<Rightarrow> Fail | Some bs \<Rightarrow> Done (0 + length bs, overwrite 0 bs ?out))"
      by (rule decode_at_unescape [where b = False]) (use e k len half in simp_all)
    have size: "?e - offset - k = n + 1 - k" by simp
    show ?thesis
    proof (cases "unescape ?lit")
      case None
      then show ?thesis using q sc dec
        by (simp add: parse_string_at_def parse_string_text_def d r scan_at_string size Let_def del: upt_Suc)
    next
      case (Some bs)
      have fits: "length bs + k \<le> Suc n" using unescape_bound [OF Some, of False] k len by simp
      then have room: "length bs < n + 1 - k + 1" by simp
      have w: "write_at (overwrite 0 bs ?out) (length bs) NUL = Done (bs @ NUL # map garbage [length bs + 1..<n + 1 - k + 1])"
        using room overwrite_overwrite [of 0 bs ?out "[NUL]"]
        by (simp add: write_at_overwrite overwrite_def drop_map del: upt_Suc)
      show ?thesis using q sc dec Some e room w
        by (simp add: parse_string_at_def parse_string_text_def d r scan_at_string size Let_def del: upt_Suc)
    qed
  qed
qed

theorem parse_string_in_memory_witness:
  "parse_string_at (\<lambda>_. CHR ''#'') ([QUOTE, BSLASH] @ ''u00'' @ [QUOTE]) 0 = Fail \<and>
   parse_string_at (\<lambda>_. CHR ''#'') ([QUOTE, BSLASH] @ ''n'' @ [BSLASH] @ ''u0041'' @ [QUOTE] @ '',1'') 0 =
     Done ([LF, CHR ''A'', NUL] @ ''#####'', 10)"
proof
  have "parse_string_text (drop 0 ([QUOTE, BSLASH] @ ''u00'' @ [QUOTE])) = None" by code_simp
  then show "parse_string_at (\<lambda>_. CHR ''#'') ([QUOTE, BSLASH] @ ''u00'' @ [QUOTE]) 0 = Fail"
    using parse_string_in_memory [of 0 "[QUOTE, BSLASH] @ ''u00'' @ [QUOTE]" "\<lambda>_. CHR ''#''"] by simp
  let ?c = "[QUOTE, BSLASH] @ ''n'' @ [BSLASH] @ ''u0041'' @ [QUOTE] @ '',1''"
  have "parse_string_text (drop 0 ?c) = Some ([LF, CHR ''A''], 10, 8)" by code_simp
  then show "parse_string_at (\<lambda>_. CHR ''#'') ?c 0 = Done ([LF, CHR ''A'', NUL] @ ''#####'', 10)"
    using parse_string_in_memory [of 0 ?c "\<lambda>_. CHR ''#''"] by (simp add: upt_rec)
qed

end
