(* ===== verification/Json_Heap.thy ===== *)
theory Json_Heap
  imports Json_Number "HOL-Library.Monad_Syntax"
begin

unbundle bit_operations_syntax

text \<open>
  The items of \<^verbatim>\<open>external/cjson/cJSON.c\<close> as they lie in memory: a heap from addresses to items, whose
  \<open>next\<close>, \<open>prev\<close> and \<open>child\<close> pointers make the lists of siblings.  The first child's \<open>prev\<close> points to the
  last one.  An operation is \<open>None\<close> where the code would read or write through a null or dangling
  pointer, or would not end.  \<open>malloc\<close> is a parameter: the address it gives in a heap, or none; strings
  are values, copied with \<open>strdup\<close> that succeeds.
\<close>

section \<open>Items\<close>

type_synonym addr = nat

record cJSON =
  it_next :: "addr option"
  it_prev :: "addr option"
  it_child :: "addr option"
  it_type :: u32
  it_valuestring :: "bytes option"
  it_valueint :: int
  it_valuedouble :: dbl
  it_string :: "bytes option"

type_synonym heap = "addr \<Rightarrow> cJSON option"

definition cJSON_False :: u32 where "cJSON_False = 1"
definition cJSON_True :: u32 where "cJSON_True = 2"
definition cJSON_NULL :: u32 where "cJSON_NULL = 4"
definition cJSON_Number :: u32 where "cJSON_Number = 8"
definition cJSON_String :: u32 where "cJSON_String = 16"
definition cJSON_Array :: u32 where "cJSON_Array = 32"
definition cJSON_Object :: u32 where "cJSON_Object = 64"
definition cJSON_IsReference :: u32 where "cJSON_IsReference = 256"
definition cJSON_StringIsConst :: u32 where "cJSON_StringIsConst = 512"

definition item_zero :: cJSON where
  "item_zero = \<lparr>it_next = None, it_prev = None, it_child = None, it_type = 0, it_valuestring = None,
     it_valueint = 0, it_valuedouble = Finite 0, it_string = None\<rparr>"

text \<open>Reading and writing through a pointer.\<close>

definition deref :: "addr option \<Rightarrow> heap \<Rightarrow> cJSON option" where
  "deref p h = Option.bind p h"

definition upd :: "addr option \<Rightarrow> (cJSON \<Rightarrow> cJSON) \<Rightarrow> heap \<Rightarrow> heap option" where
  "upd p f h = (case p of None \<Rightarrow> None | Some a \<Rightarrow> (case h a of None \<Rightarrow> None | Some c \<Rightarrow> Some (h(a \<mapsto> f c))))"

section \<open>Creating\<close>

definition cJSON_New_Item :: "(heap \<Rightarrow> addr option) \<Rightarrow> heap \<Rightarrow> addr option \<times> heap" where
  "cJSON_New_Item malloc h =
     (case malloc h of None \<Rightarrow> (None, h) | Some a \<Rightarrow> (Some a, h(a \<mapsto> item_zero)))"

definition create_item :: "(heap \<Rightarrow> addr option) \<Rightarrow> (cJSON \<Rightarrow> cJSON) \<Rightarrow> heap \<Rightarrow> addr option \<times> heap" where
  "create_item malloc init h =
     (case cJSON_New_Item malloc h of
        (None, h) \<Rightarrow> (None, h)
      | (Some a, h) \<Rightarrow> (Some a, h(a \<mapsto> init item_zero)))"

definition create_null :: "(heap \<Rightarrow> addr option) \<Rightarrow> heap \<Rightarrow> addr option \<times> heap" where
  "create_null malloc = create_item malloc (\<lambda>c. c\<lparr>it_type := cJSON_NULL\<rparr>)"

definition create_bool :: "(heap \<Rightarrow> addr option) \<Rightarrow> bool \<Rightarrow> heap \<Rightarrow> addr option \<times> heap" where
  "create_bool malloc b = create_item malloc (\<lambda>c. c\<lparr>it_type := (if b then cJSON_True else cJSON_False)\<rparr>)"

definition create_number :: "(heap \<Rightarrow> addr option) \<Rightarrow> dbl \<Rightarrow> heap \<Rightarrow> addr option \<times> heap" where
  "create_number malloc num =
     create_item malloc (\<lambda>c. c\<lparr>it_type := cJSON_Number, it_valuedouble := num, it_valueint := valueint num\<rparr>)"

definition create_string :: "(heap \<Rightarrow> addr option) \<Rightarrow> bytes \<Rightarrow> heap \<Rightarrow> addr option \<times> heap" where
  "create_string malloc s =
     create_item malloc (\<lambda>c. c\<lparr>it_type := cJSON_String, it_valuestring := Some (cstr s)\<rparr>)"

definition create_array :: "(heap \<Rightarrow> addr option) \<Rightarrow> heap \<Rightarrow> addr option \<times> heap" where
  "create_array malloc = create_item malloc (\<lambda>c. c\<lparr>it_type := cJSON_Array\<rparr>)"

definition create_object :: "(heap \<Rightarrow> addr option) \<Rightarrow> heap \<Rightarrow> addr option \<times> heap" where
  "create_object malloc = create_item malloc (\<lambda>c. c\<lparr>it_type := cJSON_Object\<rparr>)"

section \<open>Deleting\<close>

partial_function (option) cJSON_Delete :: "addr option \<Rightarrow> heap \<Rightarrow> heap option" where
  "cJSON_Delete item h =
     (case item of
        None \<Rightarrow> Some h
      | Some a \<Rightarrow> do {
          c \<leftarrow> h a;
          h \<leftarrow> (if it_type c AND cJSON_IsReference = 0 \<and> it_child c \<noteq> None then cJSON_Delete (it_child c) h else Some h);
          _ \<leftarrow> h a;
          cJSON_Delete (it_next c) (h(a := None))
        })"

section \<open>Walking\<close>

fun array_item_loop :: "nat \<Rightarrow> addr option \<Rightarrow> heap \<Rightarrow> addr option option" where
  "array_item_loop i None h = Some None"
| "array_item_loop 0 (Some a) h = Some (Some a)"
| "array_item_loop (Suc i) (Some a) h = Option.bind (h a) (\<lambda>c. array_item_loop i (it_next c) h)"

definition get_array_item :: "addr option \<Rightarrow> nat \<Rightarrow> heap \<Rightarrow> addr option option" where
  "get_array_item array index h =
     (case array of
        None \<Rightarrow> Some None
      | Some p \<Rightarrow> Option.bind (h p) (\<lambda>c. array_item_loop index (it_child c) h))"

partial_function (option) array_size_loop :: "addr option \<Rightarrow> heap \<Rightarrow> nat option" where
  "array_size_loop item h =
     (case item of
        None \<Rightarrow> Some 0
      | Some a \<Rightarrow> do { c \<leftarrow> h a; n \<leftarrow> array_size_loop (it_next c) h; Some (Suc n) })"

text \<open>The count is a \<open>size_t\<close>, the result an \<open>int\<close>.\<close>

definition cJSON_GetArraySize :: "addr option \<Rightarrow> heap \<Rightarrow> int option" where
  "cJSON_GetArraySize array h =
     (case array of
        None \<Rightarrow> Some 0
      | Some p \<Rightarrow> do { c \<leftarrow> h p; n \<leftarrow> array_size_loop (it_child c) h; Some (sint (of_nat n :: u32)) })"

text \<open>Case-sensitive lookup; the walk stops at an item without a name.\<close>

partial_function (option) object_item_loop :: "bytes \<Rightarrow> addr option \<Rightarrow> heap \<Rightarrow> addr option option" where
  "object_item_loop name item h =
     (case item of
        None \<Rightarrow> Some None
      | Some a \<Rightarrow> do {
          c \<leftarrow> h a;
          case it_string c of
            None \<Rightarrow> Some None
          | Some s \<Rightarrow> if cstr name = s then Some (Some a) else object_item_loop name (it_next c) h
        })"

definition get_object_item :: "addr option \<Rightarrow> bytes option \<Rightarrow> heap \<Rightarrow> addr option option" where
  "get_object_item object name h =
     (case (object, name) of
        (Some p, Some k) \<Rightarrow> Option.bind (h p) (\<lambda>c. object_item_loop k (it_child c) h)
      | _ \<Rightarrow> Some None)"

section \<open>Linking\<close>

definition suffix_object :: "addr option \<Rightarrow> addr option \<Rightarrow> heap \<Rightarrow> heap option" where
  "suffix_object prev item h = do {
     h \<leftarrow> upd prev (\<lambda>c. c\<lparr>it_next := item\<rparr>) h;
     upd item (\<lambda>c. c\<lparr>it_prev := prev\<rparr>) h
   }"

definition add_item_to_array :: "addr option \<Rightarrow> addr option \<Rightarrow> heap \<Rightarrow> (bool \<times> heap) option" where
  "add_item_to_array array item h =
     (if item = None \<or> array = None \<or> array = item then Some (False, h)
      else do {
        a \<leftarrow> deref array h;
        case it_child a of
          None \<Rightarrow> do {
            h \<leftarrow> upd array (\<lambda>c. c\<lparr>it_child := item\<rparr>) h;
            h \<leftarrow> upd item (\<lambda>c. c\<lparr>it_prev := item, it_next := None\<rparr>) h;
            Some (True, h)
          }
        | Some child \<Rightarrow> do {
            c \<leftarrow> h child;
            if it_prev c = None then Some (True, h)
            else do {
              h \<leftarrow> suffix_object (it_prev c) item h;
              h \<leftarrow> upd (Some child) (\<lambda>c. c\<lparr>it_prev := item\<rparr>) h;
              Some (True, h)
            }
          }
      })"

text \<open>With a copied key; the old key is freed.\<close>

definition add_item_to_object :: "addr option \<Rightarrow> bytes option \<Rightarrow> addr option \<Rightarrow> heap \<Rightarrow> (bool \<times> heap) option" where
  "add_item_to_object object name item h =
     (if object = None \<or> name = None \<or> item = None \<or> object = item then Some (False, h)
      else do {
        h \<leftarrow> upd item (\<lambda>c. c\<lparr>it_string := map_option cstr name, it_type := it_type c AND NOT cJSON_StringIsConst\<rparr>) h;
        add_item_to_array object item h
      })"

text \<open>\<open>cJSON_AddStringToObject\<close> and its siblings: what cannot be added is deleted.\<close>

definition add_created :: "addr option \<Rightarrow> bytes option \<Rightarrow> addr option \<times> heap \<Rightarrow> (addr option \<times> heap) option" where
  "add_created object name created =
     (case created of (item, h) \<Rightarrow> do {
        (ok, h) \<leftarrow> add_item_to_object object name item h;
        if ok then Some (item, h) else do { h \<leftarrow> cJSON_Delete item h; Some (None, h) }
      })"

definition cJSON_DetachItemViaPointer :: "addr option \<Rightarrow> addr option \<Rightarrow> heap \<Rightarrow> (addr option \<times> heap) option" where
  "cJSON_DetachItemViaPointer parent item h =
     (if parent = None \<or> item = None then Some (None, h)
      else do {
        p \<leftarrow> deref parent h;
        i \<leftarrow> deref item h;
        h \<leftarrow> (if item \<noteq> it_child p then upd (it_prev i) (\<lambda>c. c\<lparr>it_next := it_next i\<rparr>) h else Some h);
        i \<leftarrow> deref item h;
        h \<leftarrow> (if it_next i \<noteq> None then upd (it_next i) (\<lambda>c. c\<lparr>it_prev := it_prev i\<rparr>) h else Some h);
        i \<leftarrow> deref item h;
        p \<leftarrow> deref parent h;
        h \<leftarrow> (if item = it_child p then upd parent (\<lambda>c. c\<lparr>it_child := it_next i\<rparr>) h
             else if it_next i = None then upd (it_child p) (\<lambda>c. c\<lparr>it_prev := it_prev i\<rparr>) h
             else Some h);
        h \<leftarrow> upd item (\<lambda>c. c\<lparr>it_prev := None, it_next := None\<rparr>) h;
        Some (item, h)
      })"

definition cJSON_InsertItemInArray :: "addr option \<Rightarrow> int \<Rightarrow> addr option \<Rightarrow> heap \<Rightarrow> (bool \<times> heap) option" where
  "cJSON_InsertItemInArray array which newitem h =
     (if which < 0 \<or> newitem = None then Some (False, h)
      else do {
        after \<leftarrow> get_array_item array (nat which) h;
        case after of
          None \<Rightarrow> add_item_to_array array newitem h
        | Some a \<Rightarrow> do {
            p \<leftarrow> deref array h;
            c \<leftarrow> h a;
            if after \<noteq> it_child p \<and> it_prev c = None then Some (False, h)
            else do {
              h \<leftarrow> upd newitem (\<lambda>n. n\<lparr>it_next := after, it_prev := it_prev c\<rparr>) h;
              h \<leftarrow> upd after (\<lambda>c. c\<lparr>it_prev := newitem\<rparr>) h;
              p \<leftarrow> deref array h;
              n \<leftarrow> deref newitem h;
              h \<leftarrow> (if after = it_child p then upd array (\<lambda>c. c\<lparr>it_child := newitem\<rparr>) h
                   else upd (it_prev n) (\<lambda>c. c\<lparr>it_next := newitem\<rparr>) h);
              Some (True, h)
            }
          }
      })"

text \<open>The links of \<open>cJSON_ReplaceItemViaPointer\<close>: the replacement takes the item's place, the item ends
  outside the list.\<close>

definition link_replacement ::
    "addr option \<Rightarrow> addr option \<Rightarrow> addr option \<Rightarrow> heap \<Rightarrow> heap option" where
  "link_replacement parent item replacement h = do {
     i \<leftarrow> deref item h;
     h \<leftarrow> upd replacement (\<lambda>r. r\<lparr>it_next := it_next i, it_prev := it_prev i\<rparr>) h;
     r \<leftarrow> deref replacement h;
     h \<leftarrow> (if it_next r \<noteq> None then upd (it_next r) (\<lambda>c. c\<lparr>it_prev := replacement\<rparr>) h else Some h);
     p \<leftarrow> deref parent h;
     r \<leftarrow> deref replacement h;
     h \<leftarrow> (if it_child p = item
          then do {
            f \<leftarrow> deref (it_child p) h;
            h \<leftarrow> (if it_prev f = it_child p then upd replacement (\<lambda>r. r\<lparr>it_prev := replacement\<rparr>) h else Some h);
            upd parent (\<lambda>c. c\<lparr>it_child := replacement\<rparr>) h
          }
          else do {
            h \<leftarrow> (if it_prev r \<noteq> None then upd (it_prev r) (\<lambda>c. c\<lparr>it_next := replacement\<rparr>) h else Some h);
            r \<leftarrow> deref replacement h;
            p \<leftarrow> deref parent h;
            if it_next r = None then upd (it_child p) (\<lambda>c. c\<lparr>it_prev := replacement\<rparr>) h else Some h
          });
     upd item (\<lambda>c. c\<lparr>it_next := None, it_prev := None\<rparr>) h
   }"

definition cJSON_ReplaceItemViaPointer ::
    "addr option \<Rightarrow> addr option \<Rightarrow> addr option \<Rightarrow> heap \<Rightarrow> (bool \<times> heap) option" where
  "cJSON_ReplaceItemViaPointer parent item replacement h =
     (if parent = None then Some (False, h)
      else do {
        p \<leftarrow> deref parent h;
        if it_child p = None \<or> replacement = None \<or> item = None then Some (False, h)
        else if replacement = item then Some (True, h)
        else do {
          h \<leftarrow> link_replacement parent item replacement h;
          h \<leftarrow> cJSON_Delete item h;
          Some (True, h)
        }
      })"

definition replace_item_in_object ::
    "addr option \<Rightarrow> bytes option \<Rightarrow> addr option \<Rightarrow> heap \<Rightarrow> (bool \<times> heap) option" where
  "replace_item_in_object object name replacement h =
     (if replacement = None \<or> name = None then Some (False, h)
      else do {
        h \<leftarrow> upd replacement (\<lambda>r. r\<lparr>it_string := map_option cstr name,
               it_type := it_type r AND NOT cJSON_StringIsConst\<rparr>) h;
        item \<leftarrow> get_object_item object name h;
        cJSON_ReplaceItemViaPointer object item replacement h
      })"

section \<open>Duplicating\<close>

text \<open>The copy of a child goes behind the copy before it, or becomes the first child.\<close>

definition link_copy :: "addr \<Rightarrow> addr option \<Rightarrow> addr option \<Rightarrow> heap \<Rightarrow> heap option" where
  "link_copy n tail newchild h =
     (if tail \<noteq> None then do {
        h \<leftarrow> upd tail (\<lambda>x. x\<lparr>it_next := newchild\<rparr>) h;
        upd newchild (\<lambda>x. x\<lparr>it_prev := tail\<rparr>) h
      }
      else upd (Some n) (\<lambda>x. x\<lparr>it_child := newchild\<rparr>) h)"

text \<open>A call of \<open>cJSON_Duplicate\<close>, or the loop over the children: the source's next child, the new item
  and its last child so far.\<close>

datatype dup_job = DupItem "addr option" bool | DupChildren "addr option" addr "addr option"

partial_function (option) duplicate :: "(heap \<Rightarrow> addr option) \<Rightarrow> dup_job \<Rightarrow> heap \<Rightarrow> (addr option \<times> heap) option" where
  "duplicate malloc job h =
     (case job of
        DupItem item recurse \<Rightarrow>
          (case item of
             None \<Rightarrow> Some (None, h)
           | Some a \<Rightarrow>
               (case cJSON_New_Item malloc h of
                  (None, h) \<Rightarrow> Some (None, h)
                | (Some n, h) \<Rightarrow> do {
                    c \<leftarrow> h a;
                    h \<leftarrow> upd (Some n) (\<lambda>x. x\<lparr>it_type := it_type c AND NOT cJSON_IsReference, it_valueint := it_valueint c,
                           it_valuedouble := it_valuedouble c, it_valuestring := it_valuestring c,
                           it_string := it_string c\<rparr>) h;
                    if recurse then duplicate malloc (DupChildren (it_child c) n None) h else Some (Some n, h)
                  }))
      | DupChildren child n tail \<Rightarrow>
          (case child of
             None \<Rightarrow> do {
               x \<leftarrow> h n;
               h \<leftarrow> (if it_child x \<noteq> None then upd (it_child x) (\<lambda>f. f\<lparr>it_prev := tail\<rparr>) h else Some h);
               Some (Some n, h)
             }
           | Some a \<Rightarrow> do {
               (newchild, h) \<leftarrow> duplicate malloc (DupItem (Some a) True) h;
               if newchild = None then do { h \<leftarrow> cJSON_Delete (Some n) h; Some (None, h) }
               else do {
                 h \<leftarrow> link_copy n tail newchild h;
                 c \<leftarrow> h a;
                 duplicate malloc (DupChildren (it_next c) n newchild) h
               }
             }))"

definition cJSON_Duplicate ::
    "(heap \<Rightarrow> addr option) \<Rightarrow> addr option \<Rightarrow> bool \<Rightarrow> heap \<Rightarrow> (addr option \<times> heap) option" where
  "cJSON_Duplicate malloc item recurse h = duplicate malloc (DupItem item recurse) h"

end
