(* ===== verification/Json_Heap_Lists.thy ===== *)
theory Json_Heap_Lists
  imports Json_Heap
begin

text \<open>
  Lists of siblings in the heap of \<open>Json_Heap\<close>, after the pattern of linked lists as paths: what the
  operations on \<open>next\<close>, \<open>prev\<close> and \<open>child\<close> do to the list of addresses, and that they change nothing else.
\<close>

section \<open>Paths\<close>

fun path :: "heap \<Rightarrow> addr option \<Rightarrow> addr list \<Rightarrow> addr option \<Rightarrow> bool" where
  "path h x [] y \<longleftrightarrow> x = y"
| "path h x (a # as) y \<longleftrightarrow> x = Some a \<and> (\<exists>c. h a = Some c \<and> path h (it_next c) as y)"

text \<open>Each item's \<open>prev\<close> is the one before it, the first one's is \<open>p\<close>.\<close>

fun prevs :: "heap \<Rightarrow> addr option \<Rightarrow> addr list \<Rightarrow> bool" where
  "prevs h p [] \<longleftrightarrow> True"
| "prevs h p (a # as) \<longleftrightarrow> (\<exists>c. h a = Some c \<and> it_prev c = p \<and> prevs h (Some a) as)"

definition siblings :: "heap \<Rightarrow> addr option \<Rightarrow> addr list \<Rightarrow> bool" where
  "siblings h x as \<longleftrightarrow> path h x as None \<and> (as \<noteq> [] \<longrightarrow> prevs h (Some (last as)) as)"

lemma path_append [simp]: "path h x (as @ bs) z \<longleftrightarrow> (\<exists>y. path h x as y \<and> path h y bs z)"
  by (induction as arbitrary: x) auto

lemma prevs_append [simp]: "prevs h p (as @ bs) \<longleftrightarrow> prevs h p as \<and> prevs h (if as = [] then p else Some (last as)) bs"
  by (induction as arbitrary: p) auto

lemma path_upd [simp]: "a \<notin> set as \<Longrightarrow> path (h(a := v)) x as y = path h x as y"
  by (induction as arbitrary: x) auto

lemma prevs_upd [simp]: "a \<notin> set as \<Longrightarrow> prevs (h(a := v)) p as = prevs h p as"
  by (induction as arbitrary: p) auto

lemma path_cong: "\<forall>a\<in>set as. map_option it_next (h' a) = map_option it_next (h a) \<Longrightarrow> path h' x as y = path h x as y"
  by (induction as arbitrary: x) (auto, (metis (no_types, lifting) map_option_eq_Some option.inject)+)

lemma prevs_cong: "\<forall>a\<in>set as. map_option it_prev (h' a) = map_option it_prev (h a) \<Longrightarrow> prevs h' p as = prevs h p as"
  by (induction as arbitrary: p) (auto, (metis (no_types, lifting) map_option_eq_Some option.inject)+)

lemma path_keep: "h a = Some c \<Longrightarrow> it_next c' = it_next c \<Longrightarrow> path (h(a \<mapsto> c')) x as y = path h x as y"
  by (rule path_cong) simp

lemma prevs_keep: "h a = Some c \<Longrightarrow> it_prev c' = it_prev c \<Longrightarrow> prevs (h(a \<mapsto> c')) p as = prevs h p as"
  by (rule prevs_cong) simp

lemma path_in_heap: "path h x as y \<Longrightarrow> a \<in> set as \<Longrightarrow> \<exists>c. h a = Some c"
  by (induction as arbitrary: x) auto

lemma path_head: "path h x as None \<Longrightarrow> x = (case as of [] \<Rightarrow> None | a # _ \<Rightarrow> Some a)"
  by (cases as) auto

section \<open>What only relinks\<close>

text \<open>An item without its place in its list.\<close>

definition core :: "cJSON \<Rightarrow> cJSON" where
  "core c = c\<lparr>it_next := None, it_prev := None\<rparr>"

lemma core_links [simp]:
  "core (c\<lparr>it_next := n\<rparr>) = core c" "core (c\<lparr>it_prev := p\<rparr>) = core c"
  by (simp_all add: core_def)

text \<open>At most \<open>next\<close> and \<open>prev\<close> of the items in \<open>R\<close> differ.\<close>

definition relinked :: "addr set \<Rightarrow> heap \<Rightarrow> heap \<Rightarrow> bool" where
  "relinked R h h' \<longleftrightarrow> (\<forall>x. x \<notin> R \<longrightarrow> h' x = h x) \<and> (\<forall>x. map_option core (h' x) = map_option core (h x))"

lemma relinked_refl: "relinked R h h"
  by (simp add: relinked_def)

lemma relinked_upd:
  "relinked R h h' \<Longrightarrow> h' a = Some c \<Longrightarrow> a \<in> R \<Longrightarrow> core c' = core c \<Longrightarrow> relinked R h (h'(a \<mapsto> c'))"
  by (auto simp: relinked_def) (metis option.simps(9))

lemma relinked_mono: "relinked R h h' \<Longrightarrow> R \<subseteq> S \<Longrightarrow> relinked S h h'"
  by (auto simp: relinked_def)

text \<open>The children of \<open>p\<close> are relinked, and \<open>p\<close> points to the first of them.\<close>

definition new_children :: "addr \<Rightarrow> addr set \<Rightarrow> addr list \<Rightarrow> heap \<Rightarrow> heap \<Rightarrow> bool" where
  "new_children p R as h h' \<longleftrightarrow>
     (\<exists>c c'. h p = Some c \<and> h' p = Some c' \<and> c' = c\<lparr>it_child := it_child c'\<rparr> \<and>
        siblings h' (it_child c') as \<and> relinked R h (h'(p \<mapsto> c)))"

lemmas link_defs = deref_def upd_def new_children_def siblings_def relinked_def core_def

text \<open>A list of siblings is empty, a single item, or has a first and a different last one.\<close>

lemma ends_cases [case_names none one more]:
  assumes "as = [] \<Longrightarrow> P" and "\<And>a. as = [a] \<Longrightarrow> P" and "\<And>a ms l. as = a # ms @ [l] \<Longrightarrow> P"
  shows P
  using assms by (metis list.exhaust rev_exhaust)

section \<open>Adding\<close>

lemma add_links:
  assumes "h p = Some cp" and "siblings h (it_child cp) as" and "h i = Some ci" and "it_next ci = None"
    and "distinct (p # i # as)"
  shows "\<exists>h'. add_item_to_array (Some p) (Some i) h = Some (True, h') \<and> new_children p (insert i (set as)) (as @ [i]) h h'"
  using assms by (cases as rule: ends_cases) (auto simp: add_item_to_array_def suffix_object_def link_defs)

section \<open>Detaching\<close>

lemma detach_links:
  assumes "h p = Some cp" and "siblings h (it_child cp) (xs @ i # ys)" and "distinct (p # xs @ i # ys)"
  shows "\<exists>h'. cJSON_DetachItemViaPointer (Some p) (Some i) h = Some (Some i, h') \<and>
    new_children p (set (xs @ i # ys)) (xs @ ys) h h' \<and>
    (\<exists>ci. h' i = Some ci \<and> it_next ci = None \<and> it_prev ci = None)"
proof (cases xs rule: ends_cases)
  case none
  then show ?thesis using assms by (cases ys) (auto simp: cJSON_DetachItemViaPointer_def link_defs)
next
  case one
  then show ?thesis using assms by (cases ys) (auto simp: cJSON_DetachItemViaPointer_def link_defs)
next
  case more
  then show ?thesis using assms by (cases ys) (auto simp: cJSON_DetachItemViaPointer_def link_defs)
qed

section \<open>Walking and inserting\<close>

lemma array_item_loop_path:
  "path h x as None \<Longrightarrow> array_item_loop n x h = Some (if n < length as then Some (as ! n) else None)"
  by (induction n x h arbitrary: as rule: array_item_loop.induct) (auto split: if_splits elim: path.elims)

lemma insert_before:
  assumes "h p = Some cp" and "siblings h (it_child cp) (xs @ i # ys)" and "h r = Some cr"
    and "distinct (p # r # xs @ i # ys)" and "0 \<le> n" and "get_array_item (Some p) (nat n) h = Some (Some i)"
  shows "\<exists>h'. cJSON_InsertItemInArray (Some p) n (Some r) h = Some (True, h') \<and>
    new_children p (insert r (set (xs @ i # ys))) (xs @ r # i # ys) h h'"
proof (cases xs rule: ends_cases)
  case none
  then show ?thesis using assms by (cases ys) (auto simp: cJSON_InsertItemInArray_def link_defs)
next
  case one
  then show ?thesis using assms by (cases ys) (auto simp: cJSON_InsertItemInArray_def link_defs)
next
  case more
  then show ?thesis using assms by (cases ys) (auto simp: cJSON_InsertItemInArray_def link_defs)
qed

lemma insert_links:
  assumes "h p = Some cp" and "siblings h (it_child cp) (xs @ i # ys)" and "h r = Some cr"
    and "distinct (p # r # xs @ i # ys)"
  shows "\<exists>h'. cJSON_InsertItemInArray (Some p) (int (length xs)) (Some r) h = Some (True, h') \<and>
    new_children p (insert r (set (xs @ i # ys))) (xs @ r # i # ys) h h'"
proof (rule insert_before [OF assms])
  show "get_array_item (Some p) (nat (int (length xs))) h = Some (Some i)"
    using assms(1,2) array_item_loop_path [of h "it_child cp" "xs @ i # ys"]
    by (simp add: get_array_item_def siblings_def)
qed simp

section \<open>Replacing\<close>

lemma replace_links:
  assumes "h p = Some cp" and "siblings h (it_child cp) (xs @ i # ys)" and "h r = Some cr"
    and "distinct (p # r # xs @ i # ys)"
  shows "\<exists>h'. link_replacement (Some p) (Some i) (Some r) h = Some h' \<and>
    new_children p (insert r (set (xs @ i # ys))) (xs @ r # ys) h h' \<and> (\<exists>ci. h' i = Some ci \<and> it_next ci = None)"
proof (cases xs rule: ends_cases)
  case none
  then show ?thesis using assms by (cases ys) (auto simp: link_replacement_def link_defs)
next
  case one
  then show ?thesis using assms by (cases ys) (auto simp: link_replacement_def link_defs)
next
  case more
  then show ?thesis using assms by (cases ys) (auto simp: link_replacement_def link_defs)
qed

end
