(* ===== verification/Json_Heap_Trees.thy ===== *)
theory Json_Heap_Trees
  imports Json_Heap_Lists
begin

text \<open>
  Trees of items in the heap of \<open>Json_Heap\<close>: a forest names the address of every item, \<open>stored\<close> says that the
  heap holds it, and \<open>jsons\<close> reads it as the members of the trees of \<open>Json\<close>.  The lemmas say that storing
  depends on nothing outside the forest and that deleting removes exactly its items.
\<close>

section \<open>Forests with addresses\<close>

text \<open>What an item holds, without its pointers to other items.\<close>

definition payload :: "cJSON \<Rightarrow> cJSON" where
  "payload c = c\<lparr>it_next := None, it_prev := None, it_child := None\<rparr>"

datatype atree = ANode (root: addr) (held: cJSON) (kids: "atree list")

fun addrs :: "atree list \<Rightarrow> addr list" where
  "addrs [] = []"
| "addrs (ANode a c ks # ts) = a # addrs ks @ addrs ts"

fun stored :: "heap \<Rightarrow> atree list \<Rightarrow> bool" where
  "stored h [] \<longleftrightarrow> True"
| "stored h (ANode a c ks # ts) \<longleftrightarrow>
     (\<exists>i. h a = Some i \<and> payload i = c \<and> it_type i AND cJSON_IsReference = 0 \<and>
          siblings h (it_child i) (map root ks)) \<and> stored h ks \<and> stored h ts"

lemma addrs_append [simp]: "addrs (ts @ us) = addrs ts @ addrs us"
  by (induction ts rule: addrs.induct) auto

lemma stored_append [simp]: "stored h (ts @ us) \<longleftrightarrow> stored h ts \<and> stored h us"
  by (induction ts rule: addrs.induct) auto

lemma addrs_of: "set (addrs ts) = (\<Union>t\<in>set ts. set (addrs [t]))"
  by (induction ts rule: addrs.induct) auto

lemma stored_of: "stored h ts \<longleftrightarrow> (\<forall>t\<in>set ts. stored h [t])"
  by (induction ts rule: addrs.induct) auto

lemma addrs_subset: "set ts \<subseteq> set us \<Longrightarrow> set (addrs ts) \<subseteq> set (addrs us)"
  by (simp only: addrs_of [of ts] addrs_of [of us]) blast

lemma stored_subset: "stored h us \<Longrightarrow> set ts \<subseteq> set us \<Longrightarrow> stored h ts"
  by (simp only: stored_of [of h ts] stored_of [of h us]) blast

lemma roots_addrs: "set (map root ts) \<subseteq> set (addrs ts)"
  by (induction ts rule: addrs.induct) auto

lemma distinct_roots: "distinct (addrs ts) \<Longrightarrow> distinct (map root ts)"
proof (induction ts rule: addrs.induct)
  case (2 a c ks ts)
  then show ?case using roots_addrs [of ts] by auto
qed simp

lemma addrs_kids: "set (addrs ts) = set (map root ts) \<union> set (addrs (concat (map kids ts)))"
  by (induction ts rule: addrs.induct) auto

lemma root_below: "distinct (addrs ts) \<Longrightarrow> set (map root ts) \<inter> set (addrs (concat (map kids ts))) = {}"
proof (induction ts rule: addrs.induct)
  case (2 a c ks ts)
  then show ?case using addrs_kids [of ts] by auto
qed simp

lemma roots_apart:
  assumes "distinct (addrs us)" and "set ts \<subseteq> set us"
  shows "set (map root us) \<inter> set (addrs (concat (map kids ts))) = {}"
proof -
  have "set (concat (map kids ts)) \<subseteq> set (concat (map kids us))" using assms(2) by auto
  then have "set (addrs (concat (map kids ts))) \<subseteq> set (addrs (concat (map kids us)))" by (rule addrs_subset)
  then show ?thesis using root_below [OF assms(1)] by blast
qed

lemma stored_in_heap: "stored h ts \<Longrightarrow> set (addrs ts) \<subseteq> dom h"
  by (induction ts rule: addrs.induct) auto

section \<open>Storing is local\<close>

lemma path_same: "\<forall>a\<in>set (addrs ts). h' a = h a \<Longrightarrow> path h' x (map root ts) y = path h x (map root ts) y"
  by (rule path_cong) (metis roots_addrs subsetD)

lemma siblings_cong: "\<forall>a\<in>set as. h' a = h a \<Longrightarrow> siblings h' x as = siblings h x as"
  using path_cong [of as h' h] prevs_cong [of as h' h] by (auto simp: siblings_def)

lemma stored_cong: "\<forall>a\<in>set (addrs ts). h' a = h a \<Longrightarrow> stored h' ts = stored h ts"
proof (induction ts rule: addrs.induct)
  case (2 a c ks ts)
  then have "siblings h' x (map root ks) = siblings h x (map root ks)" for x
    using roots_addrs [of ks] by (intro siblings_cong) auto
  then show ?case using 2 by simp
qed simp

lemma core_payload: "core c' = core c \<Longrightarrow> payload c' = payload c \<and> it_child c' = it_child c \<and> it_type c' = it_type c"
  by (auto simp: core_def payload_def) (metis cJSON.ext_inject cJSON.surjective cJSON.update_convs)+

text \<open>The roots of a forest may be relinked.\<close>

lemma stored_relinked:
  "relinked R h h' \<Longrightarrow> R \<inter> set (addrs (concat (map kids ts))) = {} \<Longrightarrow> stored h ts \<Longrightarrow> stored h' ts"
proof (induction ts rule: addrs.induct)
  case (2 a c ks ts)
  have same: "\<forall>x\<in>set (addrs ks). h' x = h x" using 2(3,4) by (auto simp: relinked_def)
  then have "siblings h' x (map root ks) = siblings h x (map root ks)" for x
    using roots_addrs [of ks] by (intro siblings_cong) auto
  moreover have "stored h' ks" using stored_cong [OF same] 2(5) by simp
  moreover have "stored h' ts" using 2 by auto
  moreover obtain i where i: "h a = Some i" "payload i = c" "it_type i AND cJSON_IsReference = 0"
    "siblings h (it_child i) (map root ks)" using 2(5) by auto
  moreover obtain i' where "h' a = Some i'" "core i' = core i"
    using 2(3) i(1) by (auto simp: relinked_def) (metis map_option_eq_Some)
  ultimately show ?case using core_payload [of i' i] by auto
qed simp

section \<open>Deleting\<close>

lemma delete_forest:
  "path h x (map root ts) None \<Longrightarrow> stored h ts \<Longrightarrow> distinct (addrs ts) \<Longrightarrow>
     cJSON_Delete x h = Some (h |` (- set (addrs ts)))"
proof (induction ts arbitrary: h x rule: addrs.induct)
  case 1
  then show ?case by (simp add: cJSON_Delete.simps [of None] restrict_map_def)
next
  case (2 a c ks ts)
  let ?h1 = "h |` (- set (addrs ks))"
  let ?h2 = "?h1(a := None)"
  obtain i where i: "h a = Some i" "it_type i AND cJSON_IsReference = 0" "path h (it_child i) (map root ks) None"
    and next_path: "path h (it_next i) (map root ts) None"
    using 2(3,4) by (auto simp: siblings_def)
  have "(if it_child i \<noteq> None then cJSON_Delete (it_child i) h else Some h) = Some ?h1"
  proof (cases ks)
    case Nil
    then show ?thesis using i(3) by (simp add: restrict_map_def)
  next
    case Cons
    moreover have "cJSON_Delete (it_child i) h = Some ?h1" using 2(4,5) i(3) by (intro 2(1)) auto
    ultimately show ?thesis using i(3) by simp
  qed
  moreover have "?h1 a = Some i" using i(1) 2(5) by simp
  moreover have "cJSON_Delete (it_next i) ?h2 = Some (?h2 |` (- set (addrs ts)))"
  proof (rule 2(2))
    have same: "\<forall>x\<in>set (addrs ts). ?h2 x = h x" using 2(5) by (auto simp: restrict_map_def)
    then show "path ?h2 (it_next i) (map root ts) None"
      using next_path path_same [of ts ?h2 h] by (simp only:)
    show "stored ?h2 ts" using stored_cong [OF same] 2(4) by simp
    show "distinct (addrs ts)" using 2(5) by simp
  qed
  moreover have "?h2 |` (- set (addrs ts)) = h |` (- set (addrs (ANode a c ks # ts)))"
    by (auto simp: restrict_map_def)
  ultimately show ?case using 2(3) i(1,2) by (auto simp: cJSON_Delete.simps [of "Some a"])
qed

section \<open>New children\<close>

lemma new_children_others:
  assumes "new_children p R as h h'" and "stored h ts" and "p \<notin> set (addrs ts)"
    and "R \<inter> set (addrs (concat (map kids ts))) = {}"
  shows "stored h' ts"
proof -
  obtain i where "relinked R h (h'(p \<mapsto> i))" using assms(1) by (auto simp: new_children_def)
  then have "stored (h'(p \<mapsto> i)) ts" using stored_relinked assms(2,4) by blast
  then show ?thesis using stored_cong [of ts "h'(p \<mapsto> i)" h'] assms(3) by auto
qed

lemma new_children_stored:
  assumes new: "new_children p R (map root ks') h h'" and old: "stored h [ANode p c ks]" and "stored h ks'"
    and "p \<notin> set (addrs ks')" and "R \<inter> set (addrs (concat (map kids ks'))) = {}"
  shows "stored h' [ANode p c ks']"
proof -
  obtain i i' where i: "h p = Some i" "h' p = Some i'" "i' = i\<lparr>it_child := it_child i'\<rparr>"
    "siblings h' (it_child i') (map root ks')" using new by (auto simp: new_children_def)
  have "stored h' ks'" by (rule new_children_others [OF new assms(3-5)])
  moreover have "payload (i\<lparr>it_child := x\<rparr>) = payload i \<and> it_type (i\<lparr>it_child := x\<rparr>) = it_type i" for x
    by (simp add: payload_def)
  then have "payload i' = payload i \<and> it_type i' = it_type i" using i(3) by metis
  ultimately show ?thesis using i old by auto
qed

lemma new_children_frame: "new_children p R as h h' \<Longrightarrow> x \<noteq> p \<Longrightarrow> x \<notin> R \<Longrightarrow> h' x = h x"
  by (auto simp: new_children_def relinked_def)

section \<open>What a forest says\<close>

text \<open>The value of an item whose children have the given names and values; the low byte of the type decides,
  as it does where the items are printed.\<close>

definition item_json :: "cJSON \<Rightarrow> (bytes option \<times> json) list \<Rightarrow> json option" where
  "item_json c ms =
     (let t = it_type c AND 0xFF
      in if t = cJSON_NULL then Some JNull
         else if t = cJSON_False then Some (JBool False)
         else if t = cJSON_True then Some (JBool True)
         else if t = cJSON_Number then Some (JNum (it_valuedouble c))
         else if t = cJSON_String then map_option JStr (it_valuestring c)
         else if t = cJSON_Array then Some (JArr (map snd ms))
         else if t = cJSON_Object
           then (if list_all (\<lambda>(k, v). k \<noteq> None) ms then Some (JObj (map (\<lambda>(k, v). (the k, v)) ms)) else None)
         else None)"

fun jsons :: "atree list \<Rightarrow> (bytes option \<times> json) list option" where
  "jsons [] = Some []"
| "jsons (ANode a c ks # ts) = do {
     ms \<leftarrow> jsons ks;
     v \<leftarrow> item_json c ms;
     rest \<leftarrow> jsons ts;
     Some ((it_string c, v) # rest)
   }"

lemma jsons_append:
  "jsons (ts @ us) = Option.bind (jsons ts) (\<lambda>ms. Option.bind (jsons us) (\<lambda>ns. Some (ms @ ns)))"
  by (induction ts rule: jsons.induct) (auto simp: Option.bind_assoc split: bind_splits)

lemma jsons_length: "jsons ts = Some ms \<Longrightarrow> length ms = length ts"
  by (induction ts arbitrary: ms rule: jsons.induct) (auto split: bind_splits)

lemma jsons_one:
  "jsons [ANode a c ks] = Some [(k, v)] \<longleftrightarrow> (\<exists>ms. jsons ks = Some ms \<and> item_json c ms = Some v \<and> it_string c = k)"
  by (auto split: bind_splits)

text \<open>The item at \<open>a\<close> and what hangs below it, at the addresses \<open>A\<close>, is the tree \<open>v\<close>.\<close>

definition holds :: "heap \<Rightarrow> addr \<Rightarrow> json \<Rightarrow> addr set \<Rightarrow> bool" where
  "holds h a v A \<longleftrightarrow>
     (\<exists>c ks. stored h [ANode a c ks] \<and> distinct (addrs [ANode a c ks]) \<and> A = set (addrs [ANode a c ks]) \<and>
             jsons [ANode a c ks] = Some [(it_string c, v)])"

text \<open>An item that is in no list has no \<open>next\<close>.\<close>

definition unlinked :: "heap \<Rightarrow> addr \<Rightarrow> bool" where
  "unlinked h a \<longleftrightarrow> (\<exists>c. h a = Some c \<and> it_next c = None)"

lemma new_children_unlinked: "new_children p R as h h' \<Longrightarrow> unlinked h p \<Longrightarrow> unlinked h' p"
  unfolding new_children_def unlinked_def by (metis cJSON.select_convs(1) cJSON.surjective cJSON.update_convs(3) option.inject)

lemma holds_delete:
  assumes "holds h a v A" and "unlinked h a"
  shows "cJSON_Delete (Some a) h = Some (h |` (- A))"
proof -
  obtain c ks where "stored h [ANode a c ks]" "distinct (addrs [ANode a c ks])" "A = set (addrs [ANode a c ks])"
    using assms(1) by (auto simp: holds_def)
  moreover have "path h (Some a) (map root [ANode a c ks]) None" using assms(2) by (auto simp: unlinked_def)
  ultimately show ?thesis using delete_forest by blast
qed

lemma holds_cong: "\<forall>x\<in>A. h' x = h x \<Longrightarrow> holds h a v A \<Longrightarrow> holds h' a v A"
  unfolding holds_def using stored_cong by blast

lemma holds_in_heap: "holds h a v A \<Longrightarrow> A \<subseteq> dom h"
  unfolding holds_def using stored_in_heap by blast

end
