(* ===== verification/Json_Heap_Refine.thy ===== *)
theory Json_Heap_Refine
  imports Json_Heap_Trees
begin

text \<open>
  The operations on items in memory do what the operations of \<open>Json\<close> do to trees: they keep the heap a store of
  disjoint trees, change nothing outside the trees they are given, and free what leaves a tree.
\<close>

section \<open>Objects and arrays\<close>

lemma type_values: "cJSON_NULL = 4" "cJSON_False = 1" "cJSON_True = 2" "cJSON_Number = 8" "cJSON_String = 16"
  "cJSON_Array = 32" "cJSON_Object = 64" "cJSON_IsReference = 256" "cJSON_StringIsConst = 512"
  by (simp_all add: cJSON_NULL_def cJSON_False_def cJSON_True_def cJSON_Number_def cJSON_String_def cJSON_Array_def
      cJSON_Object_def cJSON_IsReference_def cJSON_StringIsConst_def)

lemma named_members:
  "list_all (\<lambda>(k, v). k \<noteq> None) ms \<and> map (\<lambda>(k, v). (the k, v)) ms = kvs \<longleftrightarrow> ms = map (apfst Some) kvs"
proof -
  have "list_all (\<lambda>(k, v). k \<noteq> None) ms \<Longrightarrow> map (apfst Some) (map (\<lambda>(k, v). (the k, v)) ms) = ms"
    by (induction ms) auto
  moreover have "list_all (\<lambda>(k, v). k \<noteq> None) (map (apfst Some) kvs)"
    and "map (\<lambda>(k, v). (the k, v)) (map (apfst Some) kvs) = kvs"
    by (induction kvs) auto
  ultimately show ?thesis by metis
qed

lemma item_json_object:
  "item_json c ms = Some (JObj kvs) \<longleftrightarrow> it_type c AND 0xFF = cJSON_Object \<and> ms = map (apfst Some) kvs"
  unfolding named_members [symmetric] by (auto simp: item_json_def Let_def type_values)

lemma item_json_array: "item_json c ms = Some (JArr vs) \<longleftrightarrow> it_type c AND 0xFF = cJSON_Array \<and> map snd ms = vs"
  by (auto simp: item_json_def Let_def type_values)

lemma holds_object:
  "holds h p (JObj kvs) A \<longleftrightarrow>
     (\<exists>c ks. stored h [ANode p c ks] \<and> distinct (addrs [ANode p c ks]) \<and> A = set (addrs [ANode p c ks]) \<and>
        it_type c AND 0xFF = cJSON_Object \<and> jsons ks = Some (map (apfst Some) kvs))"
  unfolding holds_def jsons_one item_json_object by blast

lemma holds_array:
  "holds h p (JArr vs) A \<longleftrightarrow>
     (\<exists>c ks ms. stored h [ANode p c ks] \<and> distinct (addrs [ANode p c ks]) \<and> A = set (addrs [ANode p c ks]) \<and>
        it_type c AND 0xFF = cJSON_Array \<and> jsons ks = Some ms \<and> map snd ms = vs)"
  unfolding holds_def jsons_one item_json_array by blast

section \<open>Renaming\<close>

definition renamed :: "bytes \<Rightarrow> cJSON \<Rightarrow> cJSON" where
  "renamed s c = c\<lparr>it_string := Some s, it_type := it_type c AND NOT cJSON_StringIsConst\<rparr>"

lemma renamed_type: "it_type (renamed s c) AND 0xFF = it_type c AND 0xFF"
  "it_type (renamed s c) AND cJSON_IsReference = it_type c AND cJSON_IsReference"
  by (simp_all add: renamed_def type_values and.assoc)

lemma item_json_renamed: "item_json (renamed s c) ms = item_json c ms"
  using renamed_type(1) [of s c] by (simp add: item_json_def Let_def) (simp add: renamed_def)

lemma payload_fields:
  "it_type (payload c) = it_type c" "it_valuestring (payload c) = it_valuestring c"
  "it_valuedouble (payload c) = it_valuedouble c" "it_string (payload c) = it_string c"
  by (simp_all add: payload_def)

lemma item_json_payload: "item_json (payload c) ms = item_json c ms"
  by (simp only: item_json_def payload_fields)

lemma payload_renamed: "payload (renamed s c) = renamed s (payload c)"
  by (simp add: payload_def renamed_def)

lemma rename_item:
  assumes "stored h [ANode i c ks]" and "distinct (addrs [ANode i c ks])" and "h i = Some ci"
  shows "stored (h(i \<mapsto> renamed s ci)) [ANode i (renamed s c) ks]"
proof -
  let ?h = "h(i \<mapsto> renamed s ci)"
  have same: "\<forall>x\<in>set (addrs ks). ?h x = h x" using assms(2) by auto
  then have "\<forall>x\<in>set (map root ks). ?h x = h x" using roots_addrs [of ks] by blast
  then have "siblings ?h x (map root ks) = siblings h x (map root ks)" for x
    by (rule siblings_cong)
  moreover have "stored ?h ks" using stored_cong [of ks ?h h] same assms(1) by (simp only: stored.simps)
  moreover have "it_child (renamed s ci) = it_child ci" by (simp add: renamed_def)
  moreover have "?h i = Some (renamed s ci)" by simp
  ultimately show ?thesis using assms(1,3)
    by (simp only: stored.simps payload_renamed renamed_type option.inject simp_thms)
qed

section \<open>Adding\<close>

lemma add_tree:
  assumes "stored h [ANode p c ks]" and "stored h [ANode i d ls]"
    and "distinct (addrs [ANode p c ks] @ addrs [ANode i d ls])" and "unlinked h i"
  shows "\<exists>h'. add_item_to_array (Some p) (Some i) h = Some (True, h') \<and>
    stored h' [ANode p c (ks @ [ANode i d ls])] \<and> (unlinked h p \<longrightarrow> unlinked h' p) \<and>
    (\<forall>x. x \<notin> set (addrs [ANode p c ks] @ addrs [ANode i d ls]) \<longrightarrow> h' x = h x)"
proof -
  let ?R = "insert i (set (map root ks))"
  obtain ip where ip: "h p = Some ip" "siblings h (it_child ip) (map root ks)" using assms(1) by auto
  have roots: "set (map root ks) \<subseteq> set (addrs ks)" by (rule roots_addrs)
  have "distinct (map root ks)" using assms(3) distinct_roots [of ks] by simp
  then have d: "distinct (p # i # map root ks)" using assms(3) roots by auto
  obtain ci where ci: "h i = Some ci" "it_next ci = None" using assms(4) by (auto simp: unlinked_def)
  obtain h' where h': "add_item_to_array (Some p) (Some i) h = Some (True, h')"
    "new_children p ?R (map root ks @ [i]) h h'" using add_links [OF ip ci d] by blast
  have new: "new_children p ?R (map root (ks @ [ANode i d ls])) h h'" using h'(2) by simp
  have all: "stored h (ks @ [ANode i d ls])" using assms(1,2) by simp
  have out: "p \<notin> set (addrs (ks @ [ANode i d ls]))" using assms(3) by auto
  have "?R \<inter> set (addrs (concat (map kids (ks @ [ANode i d ls])))) = {}"
    using root_below [of "ks @ [ANode i d ls]"] assms(3) by auto
  then have "stored h' [ANode p c (ks @ [ANode i d ls])]" by (rule new_children_stored [OF new assms(1) all out])
  moreover have "h' x = h x" if "x \<notin> set (addrs [ANode p c ks] @ addrs [ANode i d ls])" for x
    using new_children_frame [OF h'(2)] that roots by auto
  moreover have "unlinked h p \<longrightarrow> unlinked h' p" using new_children_unlinked [OF h'(2)] by blast
  ultimately show ?thesis using h'(1) by blast
qed

lemma add_to_array_holds:
  assumes "holds h p (JArr vs) A" and "holds h i v B" and "A \<inter> B = {}" and "unlinked h i"
  shows "\<exists>h'. add_item_to_array (Some p) (Some i) h = Some (True, h') \<and>
    holds h' p (cJSON_AddItemToArray (JArr vs) v) (A \<union> B) \<and>
    (unlinked h p \<longrightarrow> unlinked h' p) \<and> (\<forall>x. x \<notin> A \<union> B \<longrightarrow> h' x = h x)"
proof -
  obtain c ks ms where p: "stored h [ANode p c ks]" "distinct (addrs [ANode p c ks])" "A = set (addrs [ANode p c ks])"
    "it_type c AND 0xFF = cJSON_Array" "jsons ks = Some ms" "map snd ms = vs" using assms(1) by (auto simp: holds_array)
  obtain d ls where i: "stored h [ANode i d ls]" "distinct (addrs [ANode i d ls])" "B = set (addrs [ANode i d ls])"
    "jsons [ANode i d ls] = Some [(it_string d, v)]" using assms(2) by (auto simp: holds_def)
  have d: "distinct (addrs [ANode p c ks] @ addrs [ANode i d ls])"
    using p(2,3) i(2,3) assms(3) by (simp only: distinct_append)
  obtain h' where h': "add_item_to_array (Some p) (Some i) h = Some (True, h')"
    "stored h' [ANode p c (ks @ [ANode i d ls])]" "unlinked h p \<longrightarrow> unlinked h' p"
    "\<forall>x. x \<notin> set (addrs [ANode p c ks] @ addrs [ANode i d ls]) \<longrightarrow> h' x = h x"
    using add_tree [OF p(1) i(1) d assms(4)] by blast
  have "jsons (ks @ [ANode i d ls]) = Some (ms @ [(it_string d, v)])" using p(5) i(4) by (simp only: jsons_append) simp
  moreover have "distinct (addrs [ANode p c (ks @ [ANode i d ls])])" using d by auto
  moreover have "A \<union> B = set (addrs [ANode p c (ks @ [ANode i d ls])])" using p(3) i(3) by auto
  moreover have "map snd (ms @ [(it_string d, v)]) = vs @ [v]" using p(6) by simp
  ultimately have "holds h' p (JArr (vs @ [v])) (A \<union> B)" unfolding holds_array using h'(2) p(4) by blast
  moreover have "\<forall>x. x \<notin> A \<union> B \<longrightarrow> h' x = h x" using h'(4) p(3) i(3) by (simp only: set_append)
  ultimately show ?thesis using h'(1,3) by (intro exI [of _ h'] conjI) simp_all
qed

lemma rename_holds:
  assumes "holds h i v B" and "h i = Some ci"
  shows "holds (h(i \<mapsto> renamed s ci)) i v B"
    and "\<exists>d ls. stored (h(i \<mapsto> renamed s ci)) [ANode i d ls] \<and> distinct (addrs [ANode i d ls]) \<and>
      B = set (addrs [ANode i d ls]) \<and> jsons [ANode i d ls] = Some [(Some s, v)]"
proof -
  obtain d ls where i: "stored h [ANode i d ls]" "distinct (addrs [ANode i d ls])" "B = set (addrs [ANode i d ls])"
    "jsons [ANode i d ls] = Some [(it_string d, v)]" using assms(1) by (auto simp: holds_def)
  have st: "stored (h(i \<mapsto> renamed s ci)) [ANode i (renamed s d) ls]" by (rule rename_item [OF i(1,2) assms(2)])
  moreover have js: "jsons [ANode i (renamed s d) ls] = Some [(Some s, v)]"
    using i(4) by (simp only: jsons_one item_json_renamed) (simp add: renamed_def)
  moreover have ad: "addrs [ANode i (renamed s d) ls] = addrs [ANode i d ls]" by simp
  ultimately show "\<exists>d ls. stored (h(i \<mapsto> renamed s ci)) [ANode i d ls] \<and> distinct (addrs [ANode i d ls]) \<and>
      B = set (addrs [ANode i d ls]) \<and> jsons [ANode i d ls] = Some [(Some s, v)]" using i(2,3) by metis
  have "it_string (renamed s d) = Some s" by (simp add: renamed_def)
  then show "holds (h(i \<mapsto> renamed s ci)) i v B" unfolding holds_def using st js ad i(2,3) by metis
qed

lemma add_to_object_holds:
  assumes "holds h p (JObj kvs) A" and "holds h i v B" and "A \<inter> B = {}" and "unlinked h i"
  shows "\<exists>h'. add_item_to_object (Some p) (Some k) (Some i) h = Some (True, h') \<and>
    holds h' p (cJSON_AddItemToObject (JObj kvs) (cstr k) v) (A \<union> B) \<and>
    (unlinked h p \<longrightarrow> unlinked h' p) \<and> (\<forall>x. x \<notin> A \<union> B \<longrightarrow> h' x = h x)"
proof -
  obtain ci where ci: "h i = Some ci" "it_next ci = None" using assms(4) by (auto simp: unlinked_def)
  let ?h = "h(i \<mapsto> renamed (cstr k) ci)"
  obtain d ls where i: "stored ?h [ANode i d ls]" "distinct (addrs [ANode i d ls])" "B = set (addrs [ANode i d ls])"
    "jsons [ANode i d ls] = Some [(Some (cstr k), v)]" using rename_holds(2) [OF assms(2) ci(1)] by blast
  have "i \<in> B" using i(3) by simp
  then have "\<forall>x\<in>A. ?h x = h x" using assms(3) by auto
  then have "holds ?h p (JObj kvs) A" using assms(1) by (rule holds_cong)
  then obtain c ks where p: "stored ?h [ANode p c ks]" "distinct (addrs [ANode p c ks])" "A = set (addrs [ANode p c ks])"
    "it_type c AND 0xFF = cJSON_Object" "jsons ks = Some (map (apfst Some) kvs)" unfolding holds_object by blast
  have d: "distinct (addrs [ANode p c ks] @ addrs [ANode i d ls])"
    using p(2,3) i(2,3) assms(3) by (simp only: distinct_append)
  have "unlinked ?h i" using ci(2) by (simp add: unlinked_def renamed_def)
  then obtain h' where h': "add_item_to_array (Some p) (Some i) ?h = Some (True, h')"
    "stored h' [ANode p c (ks @ [ANode i d ls])]" "unlinked ?h p \<longrightarrow> unlinked h' p"
    "\<forall>x. x \<notin> set (addrs [ANode p c ks] @ addrs [ANode i d ls]) \<longrightarrow> h' x = ?h x"
    using add_tree [OF p(1) i(1) d] by blast
  have "p \<in> A" using p(3) by simp
  then have "p \<noteq> i" using \<open>i \<in> B\<close> assms(3) by auto
  then have op: "add_item_to_object (Some p) (Some k) (Some i) h = Some (True, h')"
    using ci(1) h'(1) by (simp add: add_item_to_object_def upd_def renamed_def)
  have "jsons (ks @ [ANode i d ls]) = Some (map (apfst Some) (kvs @ [(cstr k, v)]))"
    using p(5) i(4) by (simp only: jsons_append) simp
  moreover have "distinct (addrs [ANode p c (ks @ [ANode i d ls])])" using d by auto
  moreover have "A \<union> B = set (addrs [ANode p c (ks @ [ANode i d ls])])" using p(3) i(3) by auto
  ultimately have "holds h' p (JObj (kvs @ [(cstr k, v)])) (A \<union> B)" unfolding holds_object using h'(2) p(4) by blast
  moreover have "\<forall>x. x \<notin> A \<union> B \<longrightarrow> h' x = h x" 
    using h'(4) \<open>i \<in> B\<close> by (simp only: set_append p(3) [symmetric] i(3) [symmetric]) auto
  moreover have "unlinked h p \<longrightarrow> unlinked h' p" using h'(3) \<open>p \<noteq> i\<close> by (simp add: unlinked_def)
  ultimately show ?thesis using op by (intro exI [of _ h'] conjI) simp_all
qed

section \<open>Creating\<close>

text \<open>What \<open>malloc\<close> gives is not in use.\<close>

definition fresh :: "(heap \<Rightarrow> addr option) \<Rightarrow> bool" where
  "fresh malloc \<longleftrightarrow> (\<forall>h a. malloc h = Some a \<longrightarrow> h a = None)"

definition leaf :: "cJSON \<Rightarrow> json \<Rightarrow> bool" where
  "leaf c v \<longleftrightarrow> it_next c = None \<and> it_child c = None \<and> it_type c AND cJSON_IsReference = 0 \<and> item_json c [] = Some v"

lemma leaf_holds:
  assumes "leaf c v" and "h a = Some c"
  shows "holds h a v {a}" and "unlinked h a"
proof -
  have "item_json (payload c) [] = Some v" using assms(1) by (simp add: leaf_def item_json_payload)
  then have "jsons [ANode a (payload c) []] = Some [(it_string (payload c), v)]" by simp
  moreover have "stored h [ANode a (payload c) []]" using assms by (simp add: leaf_def siblings_def)
  moreover have "addrs [ANode a (payload c) []] = [a]" by simp
  ultimately show "holds h a v {a}" unfolding holds_def by (metis distinct_singleton list.set(1) list.simps(15))
  show "unlinked h a" using assms by (simp add: leaf_def unlinked_def)
qed

lemma leaf_created:
  "leaf (item_zero\<lparr>it_type := cJSON_NULL\<rparr>) JNull"
  "leaf (item_zero\<lparr>it_type := (if b then cJSON_True else cJSON_False)\<rparr>) (JBool b)"
  "leaf (item_zero\<lparr>it_type := cJSON_Number, it_valuedouble := d, it_valueint := valueint d\<rparr>) (JNum d)"
  "leaf (item_zero\<lparr>it_type := cJSON_String, it_valuestring := Some s\<rparr>) (JStr s)"
  "leaf (item_zero\<lparr>it_type := cJSON_Array\<rparr>) (JArr [])"
  "leaf (item_zero\<lparr>it_type := cJSON_Object\<rparr>) (JObj [])"
  by (simp_all add: leaf_def item_zero_def item_json_def type_values)

lemmas created_by = create_null_def create_bool_def create_number_def create_string_def create_array_def create_object_def

lemma add_created_holds:
  assumes "holds h p (JObj kvs) A" and "fresh malloc" and "leaf (init item_zero) v"
  shows "\<exists>q h'. add_created (Some p) (Some k) (create_item malloc init h) = Some (q, h') \<and>
    (case q of None \<Rightarrow> h' = h \<and> malloc h = None
     | Some a \<Rightarrow> h a = None \<and> holds h' p (cJSON_AddItemToObject (JObj kvs) (cstr k) v) (insert a A) \<and>
         (unlinked h p \<longrightarrow> unlinked h' p) \<and> (\<forall>x. x \<notin> insert a A \<longrightarrow> h' x = h x))"
proof (cases "malloc h")
  case None
  then show ?thesis
    by (simp add: create_item_def cJSON_New_Item_def add_created_def add_item_to_object_def cJSON_Delete.simps [of None])
next
  case (Some a)
  let ?h = "h(a \<mapsto> init item_zero)"
  have free: "h a = None" using Some assms(2) by (simp add: fresh_def)
  then have "a \<notin> A" using holds_in_heap [OF assms(1)] by auto
  then have "holds ?h p (JObj kvs) A" using assms(1) by (intro holds_cong [of A ?h h]) auto
  moreover have "holds ?h a v {a}" "unlinked ?h a" using leaf_holds [OF assms(3), of ?h a] by simp_all
  ultimately obtain h' where h': "add_item_to_object (Some p) (Some k) (Some a) ?h = Some (True, h')"
    "holds h' p (cJSON_AddItemToObject (JObj kvs) (cstr k) v) (A \<union> {a})" "unlinked ?h p \<longrightarrow> unlinked h' p"
    "\<forall>x. x \<notin> A \<union> {a} \<longrightarrow> h' x = ?h x"
    using add_to_object_holds [of ?h p kvs A a v "{a}" k] \<open>a \<notin> A\<close> by auto
  have "add_created (Some p) (Some k) (create_item malloc init h) = Some (Some a, h')"
    using Some h'(1) by (simp add: create_item_def cJSON_New_Item_def add_created_def)
  moreover have "p \<noteq> a" using assms(1) \<open>a \<notin> A\<close> by (auto simp: holds_def)
  ultimately show ?thesis using h'(2-4) free
    by (intro exI [of _ "Some a"] exI [of _ h']) (auto simp: unlinked_def)
qed

section \<open>Lookup\<close>

lemma loop_skip:
  "path h x (map root ks) y \<Longrightarrow> stored h ks \<Longrightarrow> jsons ks = Some (map (apfst Some) us) \<Longrightarrow>
     cstr k \<notin> fst ` set us \<Longrightarrow> object_item_loop k x h = object_item_loop k y h"
proof (induction ks arbitrary: x us rule: addrs.induct)
  case (2 a c ls ks)
  obtain i where i: "x = Some a" "h a = Some i" "payload i = c" "path h (it_next i) (map root ks) y" using 2(3,4) by auto
  obtain v ms where ms: "jsons ks = Some ms" "map (apfst Some) us = (it_string c, v) # ms"
    using 2(5) by (auto split: bind_splits)
  then obtain s us' where us: "us = (s, v) # us'" "it_string c = Some s" "ms = map (apfst Some) us'" by (cases us) auto
  have "it_string i = Some s" using i(3) us(2) by (auto simp: payload_def)
  moreover have "cstr k \<noteq> s" using 2(6) us(1) by auto
  ultimately have "object_item_loop k x h = object_item_loop k (it_next i) h"
    using i by (simp add: object_item_loop.simps [of k "Some a"])
  also have "\<dots> = object_item_loop k y h" using 2(2) i(4) 2(4,6) ms(1) us by auto
  finally show ?case .
qed simp

lemma loop_found:
  assumes "path h x (map root (ANode a c ls # ys)) z" and "stored h [ANode a c ls]" and "it_string c = Some (cstr k)"
  shows "object_item_loop k x h = Some (Some a)"
  using assms by (auto simp: object_item_loop.simps [of k "Some a"] payload_def)

lemma jsons_split:
  "jsons ks = Some (ms @ m # ns) \<Longrightarrow>
     \<exists>xs t ys. ks = xs @ t # ys \<and> jsons xs = Some ms \<and> jsons [t] = Some [m] \<and> jsons ys = Some ns"
proof (induction ks arbitrary: ms rule: addrs.induct)
  case (2 a c ls ks)
  obtain l v rest where l: "jsons ls = Some l" "item_json c l = Some v" "jsons ks = Some rest"
    "ms @ m # ns = (it_string c, v) # rest" using 2(3) by (auto split: bind_splits)
  show ?case
  proof (cases ms)
    case Nil
    then have "jsons [ANode a c ls] = Some [m]" "jsons ks = Some ns" using l by auto
    then show ?thesis using Nil by (intro exI [of _ "[]"]) auto
  next
    case (Cons m' ms')
    then obtain xs t ys where "ks = xs @ t # ys" "jsons xs = Some ms'" "jsons [t] = Some [m]" "jsons ys = Some ns"
      using 2(2) [of ms'] l(3,4) by auto
    then show ?thesis using Cons l by (intro exI [of _ "ANode a c ls # xs"]) auto
  qed
qed simp

lemma map_of_first: "map_of kvs k = Some v \<Longrightarrow> \<exists>us ws. kvs = us @ (k, v) # ws \<and> k \<notin> fst ` set us"
proof (induction kvs)
  case (Cons kv kvs)
  show ?case
  proof (cases "fst kv = k")
    case True
    then show ?thesis using Cons(2) by (intro exI [of _ "[]"] exI [of _ kvs]) (cases kv, auto)
  next
    case False
    then obtain us ws where "kvs = us @ (k, v) # ws" "k \<notin> fst ` set us" using Cons by (auto split: prod.splits if_splits)
    then show ?thesis using False by (intro exI [of _ "kv # us"] exI [of _ ws]) auto
  qed
qed simp

lemma replace_member_first: "k \<notin> fst ` set us \<Longrightarrow> replace_member k v (us @ (k, w) # ws) = us @ (k, v) # ws"
  by (induction us) auto

lemma find_member:
  assumes "holds h p (JObj kvs) A" and "map_of kvs (cstr k) = Some v"
  shows "\<exists>c xs t ys us ws. stored h [ANode p c (xs @ t # ys)] \<and> distinct (addrs [ANode p c (xs @ t # ys)]) \<and>
    A = set (addrs [ANode p c (xs @ t # ys)]) \<and> it_type c AND 0xFF = cJSON_Object \<and>
    kvs = us @ (cstr k, v) # ws \<and> cstr k \<notin> fst ` set us \<and>
    jsons xs = Some (map (apfst Some) us) \<and> jsons [t] = Some [(Some (cstr k), v)] \<and>
    jsons ys = Some (map (apfst Some) ws) \<and> get_object_item (Some p) (Some k) h = Some (Some (root t))"
proof -
  obtain c ks where p: "stored h [ANode p c ks]" "distinct (addrs [ANode p c ks])" "A = set (addrs [ANode p c ks])"
    "it_type c AND 0xFF = cJSON_Object" "jsons ks = Some (map (apfst Some) kvs)" using assms(1) unfolding holds_object by blast
  obtain us ws where us: "kvs = us @ (cstr k, v) # ws" "cstr k \<notin> fst ` set us" using map_of_first [OF assms(2)] by blast
  have "jsons ks = Some (map (apfst Some) us @ (Some (cstr k), v) # map (apfst Some) ws)" using p(5) us(1) by simp
  then obtain xs t ys where ks: "ks = xs @ t # ys" "jsons xs = Some (map (apfst Some) us)"
    "jsons [t] = Some [(Some (cstr k), v)]" "jsons ys = Some (map (apfst Some) ws)" using jsons_split by blast
  obtain a d ls where t: "t = ANode a d ls" by (cases t)
  obtain i y where i: "h p = Some i" "path h (it_child i) (map root xs) y" "path h y (map root (t # ys)) None"
    using p(1) ks(1) by (auto simp: siblings_def)
  have st: "stored h xs" "stored h [t]" using p(1) ks(1) by (simp_all add: stored_append [of h xs "t # ys"]) (simp add: t)
  have "object_item_loop k (it_child i) h = object_item_loop k y h" by (rule loop_skip [OF i(2) st(1) ks(2) us(2)])
  also have "\<dots> = Some (Some a)"
    using loop_found [of h y a d ls ys None k] i(3) st(2) ks(3) by (simp only: t jsons_one) auto
  finally have "get_object_item (Some p) (Some k) h = Some (Some (root t))" using i(1) by (simp add: get_object_item_def t)
  then show ?thesis using p(1-4) ks us by (metis (no_types, lifting))
qed

lemma miss_member:
  assumes "holds h p (JObj kvs) A" and "map_of kvs (cstr k) = None"
  shows "get_object_item (Some p) (Some k) h = Some None"
proof -
  obtain c ks where p: "stored h [ANode p c ks]" "jsons ks = Some (map (apfst Some) kvs)"
    using assms(1) unfolding holds_object by blast
  obtain i where i: "h p = Some i" "path h (it_child i) (map root ks) None" using p(1) by (auto simp: siblings_def)
  have "cstr k \<notin> fst ` set kvs" using assms(2) by (simp add: map_of_eq_None_iff)
  then have "object_item_loop k (it_child i) h = object_item_loop k None h"
    using loop_skip [OF i(2) _ p(2)] p(1) by simp
  then show ?thesis using i(1) by (simp add: get_object_item_def object_item_loop.simps [of k None])
qed

section \<open>Replacing\<close>

text \<open>The tree \<open>u\<close> takes the place of the child \<open>t\<close>, whose items are freed.\<close>

lemma replace_tree:
  assumes "stored h [ANode p c (xs @ t # ys)]" and "stored h [u]"
    and d: "distinct (addrs [ANode p c (xs @ t # ys)] @ addrs [u])"
  shows "\<exists>h'. cJSON_ReplaceItemViaPointer (Some p) (Some (root t)) (Some (root u)) h = Some (True, h') \<and>
    stored h' [ANode p c (xs @ u # ys)] \<and> (\<forall>x\<in>set (addrs [t]). h' x = None) \<and>
    (\<forall>x. x \<notin> set (addrs [ANode p c (xs @ t # ys)] @ addrs [u]) \<longrightarrow> h' x = h x)"
proof -
  let ?old = "xs @ t # ys" and ?new = "xs @ u # ys"
  let ?R = "insert (root u) (set (map root xs @ root t # map root ys))"
  have split: "addrs (v # ys) = addrs [v] @ addrs ys" for v using addrs_append [of "[v]" ys] by simp
  obtain ip where ip: "h p = Some ip" "siblings h (it_child ip) (map root xs @ root t # map root ys)"
    using assms(1) by auto
  obtain cu where cu: "h (root u) = Some cu" using assms(2) by (cases u) auto
  have whole: "addrs [ANode p c ?old] @ addrs [u] = p # addrs (?old @ [u])"
    by (simp only: addrs_append addrs.simps append_Cons append_Nil2)
  then have all: "distinct (addrs (?old @ [u]))" using d by (simp only: distinct.simps)
  have roots: "set (map root (?old @ [u])) \<subseteq> set (addrs (?old @ [u]))" by (rule roots_addrs)
  have p: "p \<notin> set (addrs (?old @ [u]))" using d by (simp only: whole distinct.simps simp_thms)
  have "distinct (map root (?old @ [u]))" using distinct_roots [OF all] .
  moreover have "p \<notin> set (map root (?old @ [u]))" using roots p by blast
  ultimately have "distinct (p # root u # map root xs @ root t # map root ys)" by auto
  then obtain h2 ct where h2: "link_replacement (Some p) (Some (root t)) (Some (root u)) h = Some h2"
    "new_children p ?R (map root xs @ root u # map root ys) h h2" "h2 (root t) = Some ct" "it_next ct = None"
    using replace_links [OF ip cu] by blast
  have "?R = set (map root (?old @ [u]))" by auto
  then have below: "?R \<inter> set (addrs (concat (map kids ts))) = {}" if "set ts \<subseteq> set (?old @ [u])" for ts
    using roots_apart [OF all that] by (simp only:)
  have stored_old: "stored h (?old @ [u])" using assms(1,2) by (simp only: stored_append) (simp add: stored_append)
  have st: "stored h ts" if "set ts \<subseteq> set (?old @ [u])" for ts using stored_subset [OF stored_old that] .
  have out: "p \<notin> set (addrs ts)" if "set ts \<subseteq> set (?old @ [u])" for ts using p addrs_subset [OF that] by blast
  have new: "stored h2 [ANode p c ?new]"
    by (rule new_children_stored [OF _ assms(1) st out below]) (use h2(2) in auto)
  have gone: "stored h2 [t]" by (rule new_children_others [OF h2(2) st out below]) auto
  let ?h3 = "h2 |` (- set (addrs [t]))"
  have "path h2 (Some (root t)) (map root [t]) None" using h2(3,4) by simp
  moreover have "distinct (addrs [t])" using d split [of t] by simp
  ultimately have "cJSON_Delete (Some (root t)) h2 = Some ?h3" using delete_forest gone by blast
  moreover have "it_child ip \<noteq> None" using ip(2) by (cases xs) (auto simp: siblings_def)
  moreover have "root u \<noteq> root t" using distinct_roots [OF all] by auto
  ultimately have "cJSON_ReplaceItemViaPointer (Some p) (Some (root t)) (Some (root u)) h = Some (True, ?h3)"
    using ip(1) h2(1) by (auto simp: cJSON_ReplaceItemViaPointer_def deref_def)
  moreover have "stored ?h3 [ANode p c ?new]"
  proof -
    have "set (addrs [ANode p c ?new]) \<inter> set (addrs [t]) = {}"
      using d split [of t] split [of u] by (simp del: append_assoc) blast
    then have "\<forall>x\<in>set (addrs [ANode p c ?new]). ?h3 x = h2 x" by (metis ComplI IntI empty_iff restrict_in)
    then show ?thesis using stored_cong new by blast
  qed
  moreover have "?h3 x = h x" if "x \<notin> set (addrs [ANode p c ?old] @ addrs [u])" for x
  proof -
    have x: "x \<noteq> p" "x \<notin> set (addrs (?old @ [u]))" using that by (simp_all only: whole list.set insert_iff de_Morgan_disj simp_thms)
    then have "x \<notin> set (map root (?old @ [u]))" using roots by blast
    then have "h2 x = h x" using x(1) by (intro new_children_frame [OF h2(2)]) auto
    moreover have "x \<notin> set (addrs [t])" using x(2) addrs_subset [of "[t]" "?old @ [u]"] by auto
    ultimately show ?thesis by (simp add: restrict_map_def)
  qed
  ultimately show ?thesis by (intro exI [of _ ?h3]) (auto simp: restrict_map_def)
qed

lemma lookup_holds:
  assumes "holds h p (JObj kvs) A"
  shows "\<exists>q. get_object_item (Some p) (Some k) h = Some q \<and>
    (case q of None \<Rightarrow> map_of kvs (cstr k) = None
     | Some a \<Rightarrow> \<exists>v B. map_of kvs (cstr k) = Some v \<and> holds h a v B \<and> B \<subseteq> A - {p})"
proof (cases "map_of kvs (cstr k)")
  case None
  then show ?thesis using miss_member [OF assms] by auto
next
  case (Some v)
  then obtain c xs t ys where f: "stored h [ANode p c (xs @ t # ys)]" "distinct (addrs [ANode p c (xs @ t # ys)])"
    "A = set (addrs [ANode p c (xs @ t # ys)])" "jsons [t] = Some [(Some (cstr k), v)]"
    "get_object_item (Some p) (Some k) h = Some (Some (root t))" using find_member [OF assms] by blast
  obtain a d ls where t: "t = ANode a d ls" by (cases t)
  have "holds h a v (set (addrs [t]))" using f(1,2,4) unfolding holds_def t jsons_one by (intro exI [of _ d] exI [of _ ls]) auto
  moreover have "set (addrs [t]) \<subseteq> A - {p}" using f(2,3) by (auto simp: t)
  ultimately show ?thesis using Some f(5) by (intro exI [of _ "Some a"]) (auto simp: t)
qed

lemma replace_found:
  assumes "holds h p (JObj kvs) A" and "holds h r v B" and "A \<inter> B = {}" and "map_of kvs (cstr k) = Some w"
  shows "\<exists>h' C. replace_item_in_object (Some p) (Some k) (Some r) h = Some (True, h') \<and>
    (\<exists>a. holds h a w C) \<and> C \<subseteq> A - {p} \<and>
    holds h' p (JObj (replace_member (cstr k) v kvs)) (A - C \<union> B) \<and>
    (\<forall>x\<in>C. h' x = None) \<and> (\<forall>x. x \<notin> A \<union> B \<longrightarrow> h' x = h x)"
proof -
  obtain cr where cr: "h r = Some cr" using assms(2) by (auto simp: holds_def)
  let ?h = "h(r \<mapsto> renamed (cstr k) cr)"
  obtain d ls where u: "stored ?h [ANode r d ls]" "distinct (addrs [ANode r d ls])" "B = set (addrs [ANode r d ls])"
    "jsons [ANode r d ls] = Some [(Some (cstr k), v)]" using rename_holds(2) [OF assms(2) cr] by blast
  let ?u = "ANode r d ls"
  have r: "r \<in> B" using u(3) by simp
  then have same: "\<forall>x\<in>A. ?h x = h x" using assms(3) by auto
  then have hp: "holds ?h p (JObj kvs) A" using assms(1) by (rule holds_cong)
  obtain c xs t ys us ws where f: "stored ?h [ANode p c (xs @ t # ys)]" "distinct (addrs [ANode p c (xs @ t # ys)])"
    "A = set (addrs [ANode p c (xs @ t # ys)])" "it_type c AND 0xFF = cJSON_Object"
    "kvs = us @ (cstr k, w) # ws" "cstr k \<notin> fst ` set us" "jsons xs = Some (map (apfst Some) us)"
    "jsons [t] = Some [(Some (cstr k), w)]" "jsons ys = Some (map (apfst Some) ws)"
    "get_object_item (Some p) (Some k) ?h = Some (Some (root t))" using find_member [OF hp assms(4)] by blast
  let ?C = "set (addrs [t])"
  have split: "addrs (x # ys) = addrs [x] @ addrs ys" for x using addrs_append [of "[x]" ys] by simp
  have d: "distinct (addrs [ANode p c (xs @ t # ys)] @ addrs [?u])" using f(2,3) u(2,3) assms(3) by (simp only: distinct_append)
  obtain h' where h': "cJSON_ReplaceItemViaPointer (Some p) (Some (root t)) (Some (root ?u)) ?h = Some (True, h')"
    "stored h' [ANode p c (xs @ ?u # ys)]" "\<forall>x\<in>?C. h' x = None"
    "\<forall>x. x \<notin> set (addrs [ANode p c (xs @ t # ys)] @ addrs [?u]) \<longrightarrow> h' x = ?h x"
    using replace_tree [OF f(1) u(1) d] by blast
  have op: "replace_item_in_object (Some p) (Some k) (Some r) h = Some (True, h')"
    using cr h'(1) f(10) by (simp add: replace_item_in_object_def upd_def renamed_def [symmetric])
  have C: "?C \<subseteq> A - {p}" using f(2,3) split [of t] by auto
  have "\<forall>x\<in>?C. h x = ?h x" using C same by (metis Diff_iff subsetD)
  moreover have "stored ?h [t]" using stored_subset [of ?h "xs @ t # ys" "[t]"] f(1) by simp
  ultimately have "stored h [t]" using stored_cong [of "[t]" h ?h] by blast
  moreover obtain a e ms where t: "t = ANode a e ms" by (cases t)
  moreover have "distinct (addrs [t])" using d split [of t] by simp
  ultimately have old: "holds h a w ?C" unfolding holds_def using f(8) by (metis jsons_one)
  have "jsons (xs @ ?u # ys) = Some (map (apfst Some) (us @ (cstr k, v) # ws))"
    using f(7,9) u(4) jsons_append [of "[?u]" ys] by (simp only: jsons_append append_Cons append_Nil) simp
  moreover have "replace_member (cstr k) v kvs = us @ (cstr k, v) # ws" using f(5,6) by (simp add: replace_member_first)
  moreover have "distinct (addrs [ANode p c (xs @ ?u # ys)])" using d split [of t] split [of ?u] by (simp add: split) blast
  moreover have "A - ?C \<union> B = set (addrs [ANode p c (xs @ ?u # ys)])"
    using d split [of t] split [of ?u] f(3) u(3) by (simp add: split) blast
  ultimately have new: "holds h' p (JObj (replace_member (cstr k) v kvs)) (A - ?C \<union> B)"
    unfolding holds_object using h'(2) f(4) by metis
  have "\<forall>x. x \<notin> A \<union> B \<longrightarrow> h' x = h x"
    using h'(4) r by (simp only: set_append f(3) [symmetric] u(3) [symmetric]) auto
  then show ?thesis using op old C new h'(3) by blast
qed

lemma replace_missing:
  assumes "holds h p (JObj kvs) A" and "holds h r v B" and "A \<inter> B = {}" and "map_of kvs (cstr k) = None"
  shows "\<exists>h'. replace_item_in_object (Some p) (Some k) (Some r) h = Some (False, h') \<and>
    holds h' p (JObj kvs) A \<and> holds h' r v B \<and> (\<forall>x. x \<noteq> r \<longrightarrow> h' x = h x)"
proof -
  obtain cr where cr: "h r = Some cr" using assms(2) by (auto simp: holds_def)
  let ?h = "h(r \<mapsto> renamed (cstr k) cr)"
  have "r \<in> B" using assms(2) by (auto simp: holds_def)
  then have "\<forall>x\<in>A. ?h x = h x" using assms(3) by auto
  then have hp: "holds ?h p (JObj kvs) A" using assms(1) by (rule holds_cong)
  then obtain cp where cp: "?h p = Some cp" using holds_in_heap [OF hp] unfolding holds_def by fastforce
  have "replace_item_in_object (Some p) (Some k) (Some r) h = Some (False, ?h)"
    using cr cp miss_member [OF hp assms(4)]
    by (simp add: replace_item_in_object_def upd_def renamed_def [symmetric] cJSON_ReplaceItemViaPointer_def deref_def)
  then show ?thesis using hp rename_holds(1) [OF assms(2) cr] by auto
qed

section \<open>Walking an array\<close>

lemma array_size_loop_path: "path h x as None \<Longrightarrow> array_size_loop x h = Some (length as)"
  by (induction as arbitrary: x)
    (auto simp: array_size_loop.simps [of None] array_size_loop.simps [of "Some a" for a])

lemma nth_json: "jsons ks = Some ms \<Longrightarrow> n < length ks \<Longrightarrow> jsons [ks ! n] = Some [ms ! n]"
proof (induction ks arbitrary: ms n rule: addrs.induct)
  case (2 a c ls ks)
  then show ?case by (cases n) (auto split: bind_splits)
qed simp

lemma array_walk_holds:
  assumes "holds h p (JArr vs) A"
  shows "cJSON_GetArraySize (Some p) h = Some (sint (of_nat (length vs) :: u32))"
    and "\<exists>q. get_array_item (Some p) n h = Some q \<and>
      (case q of None \<Rightarrow> length vs \<le> n | Some a \<Rightarrow> n < length vs \<and> (\<exists>B. holds h a (vs ! n) B \<and> B \<subseteq> A - {p}))"
proof -
  obtain c ks ms where k: "stored h [ANode p c ks]" "distinct (addrs [ANode p c ks])" "A = set (addrs [ANode p c ks])"
    "jsons ks = Some ms" "map snd ms = vs" using assms unfolding holds_array by blast
  obtain i where i: "h p = Some i" "path h (it_child i) (map root ks) None" using k(1) by (auto simp: siblings_def)
  have len: "length vs = length ks" using k(5) jsons_length [OF k(4)] by auto
  show "cJSON_GetArraySize (Some p) h = Some (sint (of_nat (length vs) :: u32))"
    using i(1) array_size_loop_path [OF i(2)] len by (simp add: cJSON_GetArraySize_def)
  have item: "get_array_item (Some p) n h = Some (if n < length ks then Some (root (ks ! n)) else None)"
    using i(1) array_item_loop_path [OF i(2), of n] by (simp add: get_array_item_def)
  have "\<exists>B. holds h (root (ks ! n)) (vs ! n) B \<and> B \<subseteq> A - {p}" if n: "n < length ks"
  proof -
    obtain a d ls where t: "ks ! n = ANode a d ls" by (cases "ks ! n")
    have sub: "set [ANode a d ls] \<subseteq> set ks" using n t nth_mem [of n ks] by simp
    obtain xs ys where "ks = xs @ [ANode a d ls] @ ys" using id_take_nth_drop [OF n] t by auto
    then have d: "distinct (addrs [ANode a d ls])" using k(2) by simp
    have "stored h ks" using k(1) by simp
    then have "stored h [ANode a d ls]" using stored_subset sub by blast
    moreover have "jsons [ANode a d ls] = Some [(it_string d, vs ! n)]"
    proof -
      obtain s v where m: "ms ! n = (s, v)" by (cases "ms ! n")
      then have "jsons [ANode a d ls] = Some [(s, v)]" using nth_json [OF k(4) n] t by (simp only:)
      moreover from this have "it_string d = s" unfolding jsons_one by blast
      moreover have "vs ! n = v" using m k(5) n jsons_length [OF k(4)] by auto
      ultimately show ?thesis by simp
    qed
    ultimately have "holds h a (vs ! n) (set (addrs [ANode a d ls]))" unfolding holds_def using d by blast
    moreover have "set (addrs [ANode a d ls]) \<subseteq> A - {p}" using addrs_subset [OF sub] k(2,3) by auto
    ultimately show ?thesis using t by auto
  qed
  then show "\<exists>q. get_array_item (Some p) n h = Some q \<and>
      (case q of None \<Rightarrow> length vs \<le> n | Some a \<Rightarrow> n < length vs \<and> (\<exists>B. holds h a (vs ! n) B \<and> B \<subseteq> A - {p}))"
    using item len by (cases "n < length ks") auto
qed

end
