(* ===== verification/Json_Heap_Dup.thy ===== *)
theory Json_Heap_Dup
  imports Json_Heap_Refine
begin

text \<open>
  \<open>cJSON_Duplicate\<close> on items in memory: when an allocation fails it frees what it has built and the heap is as
  before; otherwise the copy is a tree of new items with the value of the original.
\<close>

section \<open>A copy in the making\<close>

text \<open>The item \<open>n\<close> with the children copied so far; the first child's \<open>prev\<close> is not set yet.\<close>

definition building :: "heap \<Rightarrow> addr \<Rightarrow> cJSON \<Rightarrow> atree list \<Rightarrow> bool" where
  "building h n c us \<longleftrightarrow>
     (\<exists>i. h n = Some i \<and> payload i = c \<and> it_type i AND cJSON_IsReference = 0 \<and> it_next i = None \<and>
        path h (it_child i) (map root us) None) \<and>
     (\<exists>q. prevs h q (map root us)) \<and> stored h us \<and> distinct (n # addrs us)"

definition tail_of :: "atree list \<Rightarrow> addr option" where
  "tail_of us = (if us = [] then None else Some (root (last us)))"

lemma building_delete:
  assumes "building h n c us"
  shows "cJSON_Delete (Some n) h = Some (h |` (- set (n # addrs us)))"
proof -
  obtain i where i: "h n = Some i" "it_type i AND cJSON_IsReference = 0" "it_next i = None"
    "path h (it_child i) (map root us) None" "stored h us" "distinct (n # addrs us)"
    using assms by (auto simp: building_def)
  let ?h = "h |` (- set (addrs us))"
  have "(if it_child i \<noteq> None then cJSON_Delete (it_child i) h else Some h) = Some ?h"
  proof (cases us)
    case Nil
    then show ?thesis using i(4) by (simp add: restrict_map_def)
  next
    case Cons
    moreover have "cJSON_Delete (it_child i) h = Some ?h" using i by (intro delete_forest) auto
    ultimately show ?thesis using i(4) by simp
  qed
  moreover have "?h n = Some i" using i(1,6) by simp
  moreover have "?h(n := None) = h |` (- set (n # addrs us))" by (auto simp: restrict_map_def)
  ultimately show ?thesis using i(1-3) by (auto simp: cJSON_Delete.simps [of "Some n"] cJSON_Delete.simps [of None])
qed

lemma building_done:
  assumes "building h n c us"
  shows "\<exists>h'. duplicate malloc (DupChildren None n (tail_of us)) h = Some (Some n, h') \<and>
    stored h' [ANode n c us] \<and> unlinked h' n \<and> (\<forall>x. x \<notin> set (n # addrs us) \<longrightarrow> h' x = h x)"
proof -
  obtain i q where i: "h n = Some i" "payload i = c" "it_type i AND cJSON_IsReference = 0" "it_next i = None"
    "path h (it_child i) (map root us) None" "prevs h q (map root us)" "stored h us" "distinct (n # addrs us)"
    using assms by (auto simp: building_def)
  show ?thesis
  proof (cases us)
    case Nil
    then show ?thesis using i by (auto simp: duplicate.simps siblings_def unlinked_def)
  next
    case (Cons u vs)
    obtain cu where cu: "h (root u) = Some cu" using i(5) Cons by auto
    let ?h = "h(root u \<mapsto> cu\<lparr>it_prev := tail_of us\<rparr>)"
    have roots: "set (map root us) \<subseteq> set (addrs us)" by (rule roots_addrs)
    then have "n \<noteq> root u" using i(8) Cons by auto
    moreover have child: "it_child i = Some (root u)" using i(5) Cons by simp
    ultimately have op: "duplicate malloc (DupChildren None n (tail_of us)) h = Some (Some n, ?h)"
      using i(1) cu by (simp add: duplicate.simps [of malloc "DupChildren None n (tail_of us)"] upd_def)
    have "path ?h (it_child i) (map root us) None = path h (it_child i) (map root us) None"
      by (rule path_keep [where h = h, OF cu]) simp
    moreover have "prevs ?h (tail_of us) (map root us)"
      using i(6) Cons distinct_roots [of us] i(8) cu by auto
    ultimately have "siblings ?h (it_child i) (map root us)"
      using i(5) Cons by (simp add: siblings_def tail_of_def last_map)
    moreover have "stored ?h us"
    proof (rule stored_relinked [OF _ _ i(7)])
      show "relinked {root u} h ?h" by (intro relinked_upd [where h' = h, OF relinked_refl cu]) simp_all
      show "{root u} \<inter> set (addrs (concat (map kids us))) = {}" using root_below [of us] i(8) Cons by auto
    qed
    moreover have "root u \<in> set (addrs us)" using roots Cons by auto
    ultimately show ?thesis using op i(1-4) \<open>n \<noteq> root u\<close> by (intro exI [of _ ?h]) (auto simp: unlinked_def)
  qed
qed

lemma building_link:
  assumes "building h n c us" and "stored h [t]" and "unlinked h (root t)" and "distinct (n # addrs (us @ [t]))"
  shows "\<exists>h'. link_copy n (tail_of us) (Some (root t)) h = Some h' \<and> building h' n c (us @ [t]) \<and>
    (\<forall>x. x \<notin> set (n # addrs (us @ [t])) \<longrightarrow> h' x = h x)"
proof -
  obtain i q where i: "h n = Some i" "payload i = c" "it_type i AND cJSON_IsReference = 0" "it_next i = None"
    "path h (it_child i) (map root us) None" "prevs h q (map root us)" "stored h us"
    using assms(1) by (auto simp: building_def)
  obtain ct where ct: "h (root t) = Some ct" "it_next ct = None" using assms(3) by (auto simp: unlinked_def)
  have roots: "set (map root (us @ [t])) \<subseteq> set (addrs (us @ [t]))" by (rule roots_addrs)
  have all: "distinct (addrs (us @ [t]))" using assms(4) by simp
  have d: "distinct (n # map root us @ [root t])" using distinct_roots [OF all] roots assms(4) by auto
  show ?thesis
  proof (cases us rule: rev_cases)
    case Nil
    let ?h = "h(n \<mapsto> i\<lparr>it_child := Some (root t)\<rparr>)"
    have "link_copy n (tail_of us) (Some (root t)) h = Some ?h" using Nil i(1) by (simp add: link_copy_def tail_of_def upd_def)
    moreover have "stored ?h [t]" using stored_cong [of "[t]" ?h h] assms(2,4) Nil by auto
    ultimately show ?thesis using Nil i assms(4) ct d
      by (intro exI [of _ ?h]) (auto simp: building_def payload_def)
  next
    case (snoc vs l)
    obtain cl where cl: "h (root l) = Some cl" using i(5) snoc by auto
    let ?h1 = "h(root l \<mapsto> cl\<lparr>it_next := Some (root t)\<rparr>)"
    let ?h = "?h1(root t \<mapsto> ct\<lparr>it_prev := Some (root l)\<rparr>)"
    have ne: "root l \<noteq> root t" "n \<noteq> root l" "n \<noteq> root t" using d snoc by auto
    then have "link_copy n (tail_of us) (Some (root t)) h = Some ?h"
      using snoc cl ct by (simp add: link_copy_def tail_of_def upd_def)
    moreover have "stored ?h (us @ [t])"
    proof (rule stored_relinked)
      have "relinked {root l, root t} h ?h1" by (intro relinked_upd [where h' = h, OF relinked_refl cl]) simp_all
      then show "relinked {root l, root t} h ?h" by (rule relinked_upd [where h' = ?h1 and c = ct]) (use ct ne in simp_all)
      show "{root l, root t} \<inter> set (addrs (concat (map kids (us @ [t])))) = {}" using root_below [OF all] snoc by auto
      show "stored h (us @ [t])" using i(7) assms(2) by simp
    qed
    moreover have "path ?h (it_child i) (map root (us @ [t])) None"
      using i(5) snoc cl ct d by auto
    moreover have "prevs ?h q (map root (us @ [t]))"
    proof -
      have "prevs ?h1 q (map root us) = prevs h q (map root us)" by (rule prevs_keep [where h = h, OF cl]) simp
      then show ?thesis using i(6) d snoc by (auto simp: last_map)
    qed
    moreover have "root l \<in> set (addrs us)" "root t \<in> set (addrs [t])" using roots_addrs [of us] roots_addrs [of "[t]"] snoc by auto
    ultimately show ?thesis using i(1-4) ne assms(4) by (intro exI [of _ ?h]) (auto simp: building_def)
  qed
qed

lemma building_cong:
  assumes "\<forall>x\<in>set (n # addrs us). h' x = h x"
  shows "building h' n c us = building h n c us"
proof -
  have "set (map root us) \<subseteq> set (addrs us)" by (rule roots_addrs)
  then have "\<forall>x\<in>set (map root us). map_option it_prev (h' x) = map_option it_prev (h x)" using assms by auto
  then have "prevs h' q (map root us) = prevs h q (map root us)" for q by (rule prevs_cong)
  moreover have same: "\<forall>x\<in>set (addrs us). h' x = h x" using assms by simp
  moreover note path_same [OF same] stored_cong [OF same]
  moreover have "h' n = h n" using assms by simp
  ultimately show ?thesis by (simp add: building_def)
qed

section \<open>Copying\<close>

text \<open>An allocation fails once finitely many items, or none, are added.\<close>

definition starved :: "(heap \<Rightarrow> addr option) \<Rightarrow> heap \<Rightarrow> bool" where
  "starved malloc h \<longleftrightarrow> (\<exists>g A. malloc g = None \<and> finite A \<and> dom g \<subseteq> dom h \<union> A)"

lemma starved_now: "malloc h = None \<Longrightarrow> starved malloc h"
  unfolding starved_def by blast

lemma starved_earlier:
  assumes "starved malloc h'" and "finite A" and "\<And>x. x \<notin> A \<Longrightarrow> h' x = h x"
  shows "starved malloc h"
proof -
  obtain g B where g: "malloc g = None" "finite B" "dom g \<subseteq> dom h' \<union> B" using assms(1) by (auto simp: starved_def)
  have "dom h' \<subseteq> dom h \<union> A" using assms(3) by (auto simp: dom_def)
  then have "dom g \<subseteq> dom h \<union> (A \<union> B)" using g(3) by blast
  then show ?thesis using g(1,2) assms(2) unfolding starved_def by (intro exI [of _ g] exI [of _ "A \<union> B"]) simp
qed

lemma not_starved: "finite (dom h) \<Longrightarrow> (\<And>g. finite (dom g) \<Longrightarrow> malloc g \<noteq> None) \<Longrightarrow> \<not> starved malloc h"
  unfolding starved_def by (metis finite_UnI finite_subset)

lemma restrict_new:
  assumes "\<And>x. x \<notin> set (n # addrs (us @ ts)) \<Longrightarrow> h' x = h x" and "\<And>x. x \<in> set (addrs ts) \<Longrightarrow> h x = None"
  shows "h' |` (- set (n # addrs (us @ ts))) = h |` (- set (n # addrs us))"
  using assms by (intro ext) (auto simp: restrict_map_def)

lemma dom_grows:
  assumes "\<And>x. x \<notin> set (n # addrs (us @ ts)) \<Longrightarrow> h' x = h x" and "set (n # addrs us) \<subseteq> dom h'"
    and "\<And>x. x \<in> set (addrs ts) \<Longrightarrow> h x = None"
  shows "dom h \<subseteq> dom h'"
proof
  fix x
  assume x: "x \<in> dom h"
  then have "x \<notin> set (addrs ts)" using assms(3) by auto
  then have "x \<in> set (n # addrs us) \<or> h' x = h x" using assms(1) [of x] by auto
  then show "x \<in> dom h'" using assms(2) x by (auto simp: dom_def)
qed

text \<open>What the loop over the remaining children \<open>ts\<close> does to a copy in the making.\<close>

definition copies :: "(heap \<Rightarrow> addr option) \<Rightarrow> atree list \<Rightarrow> bool" where
  "copies malloc ts \<longleftrightarrow> (\<forall>h x n c us.
     building h n c us \<longrightarrow> stored h ts \<longrightarrow> path h x (map root ts) None \<longrightarrow>
     set (addrs ts) \<inter> set (n # addrs us) = {} \<longrightarrow>
     (\<exists>q h'. duplicate malloc (DupChildren x n (tail_of us)) h = Some (q, h') \<and>
        (case q of None \<Rightarrow> h' = h |` (- set (n # addrs us)) \<and> starved malloc h
         | Some b \<Rightarrow> b = n \<and> (\<exists>ts'. jsons ts' = jsons ts \<and> stored h' [ANode n c (us @ ts')] \<and>
             distinct (n # addrs (us @ ts')) \<and> set (addrs ts') \<inter> dom h = {} \<and> unlinked h' n \<and>
             (\<forall>x. x \<notin> set (n # addrs (us @ ts')) \<longrightarrow> h' x = h x)))))"

lemma and_not_flag: "(x :: u32) AND m = 0 \<Longrightarrow> x AND NOT m = x"
  by (auto simp: bit_eq_iff bit_simps)

lemma copy_item:
  assumes "copies malloc ks" and "fresh malloc" and "stored h [ANode a c ks]"
  shows "\<exists>q h'. duplicate malloc (DupItem (Some a) True) h = Some (q, h') \<and>
    (case q of None \<Rightarrow> h' = h \<and> starved malloc h
     | Some m \<Rightarrow> \<exists>ks'. jsons [ANode m c ks'] = jsons [ANode a c ks] \<and> stored h' [ANode m c ks'] \<and>
         distinct (addrs [ANode m c ks']) \<and> set (addrs [ANode m c ks']) \<inter> dom h = {} \<and> unlinked h' m \<and>
         (\<forall>x. x \<notin> set (addrs [ANode m c ks']) \<longrightarrow> h' x = h x))"
proof (cases "malloc h")
  case None
  then show ?thesis
    by (simp add: duplicate.simps [of malloc "DupItem (Some a) True"] cJSON_New_Item_def starved_now)
next
  case (Some m)
  have new: "h m = None" using Some assms(2) by (simp add: fresh_def)
  obtain i where i: "h a = Some i" "payload i = c" "it_type i AND cJSON_IsReference = 0"
    "path h (it_child i) (map root ks) None" "stored h ks" using assms(3) by (auto simp: siblings_def)
  let ?i = "item_zero\<lparr>it_type := it_type i, it_valueint := it_valueint i, it_valuedouble := it_valuedouble i,
    it_valuestring := it_valuestring i, it_string := it_string i\<rparr>"
  let ?h = "h(m \<mapsto> ?i)"
  have "m \<noteq> a" using new i(1) by auto
  then have op: "duplicate malloc (DupItem (Some a) True) h = duplicate malloc (DupChildren (it_child i) m (tail_of [])) ?h"
    using Some i(1) and_not_flag [OF i(3)]
    by (simp add: duplicate.simps [of malloc "DupItem (Some a) True"] cJSON_New_Item_def upd_def tail_of_def)
  have "payload ?i = c" using i(2) by (auto simp: payload_def item_zero_def)
  then have build: "building ?h m c []" using i(3) by (simp add: building_def item_zero_def)
  have out: "m \<notin> set (addrs ks)" using stored_in_heap [OF i(5)] new by auto
  then have same: "\<forall>x\<in>set (addrs ks). ?h x = h x" by auto
  have st: "stored ?h ks" using stored_cong [of ks ?h h] same i(5) by blast
  have path: "path ?h (it_child i) (map root ks) None" using path_same [of ks ?h h] same i(4) by blast
  have "set (addrs ks) \<inter> set (m # addrs []) = {}" using out by simp
  then obtain q h' where r: "duplicate malloc (DupChildren (it_child i) m (tail_of [])) ?h = Some (q, h')"
    "case q of None \<Rightarrow> h' = ?h |` (- set (m # addrs [])) \<and> starved malloc ?h
     | Some b \<Rightarrow> b = m \<and> (\<exists>ts'. jsons ts' = jsons ks \<and> stored h' [ANode m c ([] @ ts')] \<and>
         distinct (m # addrs ([] @ ts')) \<and> set (addrs ts') \<inter> dom ?h = {} \<and> unlinked h' m \<and>
         (\<forall>x. x \<notin> set (m # addrs ([] @ ts')) \<longrightarrow> h' x = ?h x))"
    using assms(1) [unfolded copies_def, rule_format, OF build st path] by blast
  show ?thesis
  proof (cases q)
    case None
    then have "h' = h" and "starved malloc ?h" using r(2) new by (auto simp: restrict_map_def)
    then have "h' = h \<and> starved malloc h" using starved_earlier [where h' = ?h and A = "{m}" and h = h] by auto
    then show ?thesis using op r(1) None by auto
  next
    case (Some b)
    then obtain ks' where ks': "b = m" "jsons ks' = jsons ks" "stored h' [ANode m c ks']"
      "distinct (m # addrs ks')" "set (addrs ks') \<inter> dom ?h = {}" "unlinked h' m"
      "\<forall>x. x \<notin> set (m # addrs ks') \<longrightarrow> h' x = ?h x" using r(2) by auto
    have "set (addrs [ANode m c ks']) \<inter> dom h = {}" using ks'(5) new by auto
    moreover have "distinct (addrs [ANode m c ks'])" using ks'(4) by simp
    moreover have "\<forall>x. x \<notin> set (addrs [ANode m c ks']) \<longrightarrow> h' x = h x" using ks'(7) by auto
    moreover have "jsons [ANode m c ks'] = jsons [ANode a c ks]" using ks'(2) by simp
    ultimately show ?thesis using op r(1) Some ks'(1,3,6) by (intro exI [of _ "Some m"] exI [of _ h']) auto
  qed
qed

lemma tail_of_snoc: "tail_of (us @ [t]) = Some (root t)"
  by (simp add: tail_of_def)

lemma copies_none: "copies malloc []"
  unfolding copies_def
proof (intro allI impI)
  fix h x n c us
  assume b: "building h n c us" and "path h x (map root []) None"
  then show "\<exists>q h'. duplicate malloc (DupChildren x n (tail_of us)) h = Some (q, h') \<and>
    (case q of None \<Rightarrow> h' = h |` (- set (n # addrs us)) \<and> starved malloc h
     | Some b \<Rightarrow> b = n \<and> (\<exists>ts'. jsons ts' = jsons [] \<and> stored h' [ANode n c (us @ ts')] \<and>
         distinct (n # addrs (us @ ts')) \<and> set (addrs ts') \<inter> dom h = {} \<and> unlinked h' n \<and>
         (\<forall>x. x \<notin> set (n # addrs (us @ ts')) \<longrightarrow> h' x = h x)))"
    using building_done [OF b, of malloc] b
    by (auto simp: building_def intro!: exI [of _ "Some n"] exI [of _ "[] :: atree list"])
qed

text \<open>A new tree \<open>t\<close>, all at addresses free in \<open>h\<close>, is linked into the copy in the making.\<close>

lemma copy_linked:
  assumes b: "building h n d us" and t: "stored h1 [t]" "distinct (addrs [t])" "set (addrs [t]) \<inter> dom h = {}"
      "unlinked h1 (root t)" "\<forall>x. x \<notin> set (addrs [t]) \<longrightarrow> h1 x = h x"
  shows "\<exists>h2. link_copy n (tail_of us) (Some (root t)) h1 = Some h2 \<and> building h2 n d (us @ [t]) \<and>
    (\<forall>x. x \<notin> set (n # addrs (us @ [t])) \<longrightarrow> h2 x = h x) \<and> dom h \<subseteq> dom h2"
proof -
  have live: "set (n # addrs us) \<subseteq> dom h" using b stored_in_heap [of h us] by (auto simp: building_def)
  have apart: "set (addrs [t]) \<inter> set (n # addrs us) = {}" using t(3) live by blast
  then have "\<forall>x\<in>set (n # addrs us). h1 x = h x" using t(5) by blast
  then have "building h1 n d us" using b building_cong by blast
  moreover have "distinct (n # addrs (us @ [t]))" using t(2) b apart by (simp add: building_def) blast
  ultimately obtain h2 where h2: "link_copy n (tail_of us) (Some (root t)) h1 = Some h2" "building h2 n d (us @ [t])"
    "\<forall>x. x \<notin> set (n # addrs (us @ [t])) \<longrightarrow> h2 x = h1 x"
    using building_link [OF _ t(1,4)] by blast
  have new: "h2 x = h x" if "x \<notin> set (n # addrs (us @ [t]))" for x using that h2(3) t(5) by simp
  have "set (n # addrs us) \<subseteq> dom h2" using h2(2) stored_in_heap [of h2 "us @ [t]"] by (auto simp: building_def)
  moreover have "h x = None" if "x \<in> set (addrs [t])" for x using t(3) that by blast
  ultimately have "dom h \<subseteq> dom h2" using new by (rule dom_grows [rotated])
  then show ?thesis using h2(1,2) new by blast
qed

lemma copies_more:
  assumes "copies malloc ks" and "copies malloc ts" and "fresh malloc"
  shows "copies malloc (ANode a c ks # ts)"
  unfolding copies_def
proof (intro allI impI)
  fix h x n d us
  let ?t = "ANode a c ks"
  let ?goal = "\<lambda>q h'. case q of None \<Rightarrow> h' = h |` (- set (n # addrs us)) \<and> starved malloc h
     | Some b \<Rightarrow> b = n \<and> (\<exists>ts'. jsons ts' = jsons (?t # ts) \<and> stored h' [ANode n d (us @ ts')] \<and>
         distinct (n # addrs (us @ ts')) \<and> set (addrs ts') \<inter> dom h = {} \<and> unlinked h' n \<and>
         (\<forall>x. x \<notin> set (n # addrs (us @ ts')) \<longrightarrow> h' x = h x))"
  assume b: "building h n d us" and st: "stored h (?t # ts)" and path: "path h x (map root (?t # ts)) None"
    and disj: "set (addrs (?t # ts)) \<inter> set (n # addrs us) = {}"
  have st_t: "stored h [?t]" and st_ts: "stored h ts" using st by auto
  obtain i where i: "x = Some a" "h a = Some i" "path h (it_next i) (map root ts) None" using path by auto
  obtain q1 h1 where c1: "duplicate malloc (DupItem (Some a) True) h = Some (q1, h1)"
    "case q1 of None \<Rightarrow> h1 = h \<and> starved malloc h
     | Some m \<Rightarrow> \<exists>ks'. jsons [ANode m c ks'] = jsons [?t] \<and> stored h1 [ANode m c ks'] \<and>
         distinct (addrs [ANode m c ks']) \<and> set (addrs [ANode m c ks']) \<inter> dom h = {} \<and> unlinked h1 m \<and>
         (\<forall>x. x \<notin> set (addrs [ANode m c ks']) \<longrightarrow> h1 x = h x)"
    using copy_item [OF assms(1,3) st_t] by blast
  show "\<exists>q h'. duplicate malloc (DupChildren x n (tail_of us)) h = Some (q, h') \<and> ?goal q h'"
  proof (cases q1)
    case None
    then have "duplicate malloc (DupChildren x n (tail_of us)) h = Some (None, h |` (- set (n # addrs us)))"
      using c1 building_delete [OF b] i(1) by (simp add: duplicate.simps [of malloc "DupChildren (Some a) n (tail_of us)"])
    then show ?thesis using c1(2) None by auto
  next
    case (Some m)
    then obtain ks' where k: "jsons [ANode m c ks'] = jsons [?t]" "stored h1 [ANode m c ks']"
      "distinct (addrs [ANode m c ks'])" "set (addrs [ANode m c ks']) \<inter> dom h = {}" "unlinked h1 m"
      "\<forall>x. x \<notin> set (addrs [ANode m c ks']) \<longrightarrow> h1 x = h x" using c1(2) by auto
    let ?m = "ANode m c ks'"
    obtain h2 where h2: "link_copy n (tail_of us) (Some m) h1 = Some h2" "building h2 n d (us @ [?m])"
      "\<forall>x. x \<notin> set (n # addrs (us @ [?m])) \<longrightarrow> h2 x = h x" "dom h \<subseteq> dom h2"
      using copy_linked [OF b k(2-4) _ k(6)] k(5) by auto
    note new = h2(3) [rule_format]
    have "set (addrs (?t # ts)) \<subseteq> dom h" by (rule stored_in_heap [OF st])
    then have far: "set (addrs (?t # ts)) \<inter> set (n # addrs (us @ [?m])) = {}" using disj k(4) by auto
    then have "\<forall>x\<in>set (addrs (?t # ts)). h2 x = h x" using new by blast
    then have same2: "\<forall>x\<in>set (addrs ts). h2 x = h x" and a: "h2 a = Some i" using i(2) by auto
    have st2: "stored h2 ts" using stored_cong [OF same2] st_ts by blast
    have path2: "path h2 (it_next i) (map root ts) None" using path_same [OF same2] i(3) by blast
    have far2: "set (addrs ts) \<inter> set (n # addrs (us @ [?m])) = {}" using far by auto
    obtain q h' where r: "duplicate malloc (DupChildren (it_next i) n (tail_of (us @ [?m]))) h2 = Some (q, h')"
      "case q of None \<Rightarrow> h' = h2 |` (- set (n # addrs (us @ [?m]))) \<and> starved malloc h2
       | Some b \<Rightarrow> b = n \<and> (\<exists>ts'. jsons ts' = jsons ts \<and> stored h' [ANode n d ((us @ [?m]) @ ts')] \<and>
           distinct (n # addrs ((us @ [?m]) @ ts')) \<and> set (addrs ts') \<inter> dom h2 = {} \<and> unlinked h' n \<and>
           (\<forall>x. x \<notin> set (n # addrs ((us @ [?m]) @ ts')) \<longrightarrow> h' x = h2 x))"
      using assms(2) [unfolded copies_def, rule_format, OF h2(2) st2 path2 far2] by blast
    have op: "duplicate malloc (DupChildren x n (tail_of us)) h = Some (q, h')"
      using c1(1) Some h2(1) a r(1) i(1)
      by (simp add: duplicate.simps [of malloc "DupChildren (Some a) n (tail_of us)"] tail_of_snoc)
    have none: "h x = None" if "x \<in> set (addrs [?m])" for x using k(4) that by blast
    have "?goal q h'"
    proof (cases q)
      case None
      have "h2 |` (- set (n # addrs (us @ [?m]))) = h |` (- set (n # addrs us))"
        using new none by (rule restrict_new)
      moreover have "starved malloc h"
        by (rule starved_earlier [where h' = h2 and A = "set (n # addrs (us @ [?m]))"]) (use r(2) None new in auto)
      ultimately show ?thesis using r(2) None by simp
    next
      case (Some b)
      then obtain ts' where t: "b = n" "jsons ts' = jsons ts" "stored h' [ANode n d (us @ ?m # ts')]"
        "distinct (n # addrs (us @ ?m # ts'))" "set (addrs ts') \<inter> dom h2 = {}" "unlinked h' n"
        "\<forall>x. x \<notin> set (n # addrs (us @ ?m # ts')) \<longrightarrow> h' x = h2 x" using r(2) by auto
      have js: "jsons (?m # ts') = jsons (?t # ts)"
        using k(1) t(2) jsons_append [of "[?m]" ts'] jsons_append [of "[?t]" ts] by simp
      have "set (addrs ts') \<inter> dom h = {}" using t(5) h2(4) by blast
      then have away: "set (addrs (?m # ts')) \<inter> dom h = {}" using k(4) by auto
      have frame: "\<forall>x. x \<notin> set (n # addrs (us @ ?m # ts')) \<longrightarrow> h' x = h x" using t(7) new by auto
      show ?thesis unfolding Some option.case
        by (intro conjI exI [of _ "?m # ts'"]) (rule t(1) js t(3) t(4) away t(6) frame)+
    qed
    then show ?thesis using op by blast
  qed
qed

lemma copies_all: "fresh malloc \<Longrightarrow> copies malloc ts"
  by (induction ts rule: addrs.induct) (simp_all add: copies_none copies_more)

lemma duplicate_holds:
  assumes "fresh malloc" and "holds h a v A"
  shows "\<exists>q h'. cJSON_Duplicate malloc (Some a) True h = Some (q, h') \<and>
    (case q of None \<Rightarrow> h' = h \<and> starved malloc h
     | Some b \<Rightarrow> (\<exists>B. holds h' b v B \<and> B \<inter> dom h = {} \<and> unlinked h' b \<and> (\<forall>x. x \<notin> B \<longrightarrow> h' x = h x)) \<and>
         cJSON_Delete (Some b) h' = Some h)"
proof -
  obtain c ks where k: "stored h [ANode a c ks]" "jsons [ANode a c ks] = Some [(it_string c, v)]"
    using assms(2) by (auto simp: holds_def)
  obtain q h' where r: "duplicate malloc (DupItem (Some a) True) h = Some (q, h')"
    "case q of None \<Rightarrow> h' = h \<and> starved malloc h
     | Some m \<Rightarrow> \<exists>ks'. jsons [ANode m c ks'] = jsons [ANode a c ks] \<and> stored h' [ANode m c ks'] \<and>
         distinct (addrs [ANode m c ks']) \<and> set (addrs [ANode m c ks']) \<inter> dom h = {} \<and> unlinked h' m \<and>
         (\<forall>x. x \<notin> set (addrs [ANode m c ks']) \<longrightarrow> h' x = h x)"
    using copy_item [OF copies_all [OF assms(1)] assms(1) k(1)] by blast
  show ?thesis
  proof (cases q)
    case None
    then show ?thesis using r by (simp add: cJSON_Duplicate_def)
  next
    case (Some b)
    then obtain ks' where b: "jsons [ANode b c ks'] = jsons [ANode a c ks]" "stored h' [ANode b c ks']"
      "distinct (addrs [ANode b c ks'])" "set (addrs [ANode b c ks']) \<inter> dom h = {}" "unlinked h' b"
      "\<forall>x. x \<notin> set (addrs [ANode b c ks']) \<longrightarrow> h' x = h x" using r(2) by auto
    let ?B = "set (addrs [ANode b c ks'])"
    have holds: "holds h' b v ?B" unfolding holds_def using b(1-3) k(2) by metis
    have "(h' |` (- ?B)) x = h x" for x
    proof (cases "x \<in> ?B")
      case True
      then have "x \<notin> dom h" using b(4) by blast
      then show ?thesis using True by (simp only: restrict_out domIff Compl_iff simp_thms)
    next
      case False
      then show ?thesis using b(6) by (simp only: restrict_in Compl_iff simp_thms)
    qed
    then have "h' |` (- ?B) = h" by (rule ext)
    then have "cJSON_Delete (Some b) h' = Some h" using holds_delete [OF holds b(5)] by (simp only:)
    then show ?thesis unfolding cJSON_Duplicate_def r(1) Some using holds b(4-6)
      by (intro exI [of _ "Some b"] exI [of _ h'] conjI) (simp_all only: option.case, blast)
  qed
qed

end
