(* ===== verification/Json_Heap_Arrays.thy ===== *)
theory Json_Heap_Arrays
  imports Json_Heap_Dup
begin

text \<open>
  The rest of the operations of \<^verbatim>\<open>external/cjson/cJSON.c\<close> on items in memory: arrays of numbers and
  strings, members that are detached, deleted or inserted, and the functions that add one kind of item each.
\<close>

section \<open>Operations\<close>

definition cJSON_GetArrayItem :: "addr option \<Rightarrow> int \<Rightarrow> heap \<Rightarrow> addr option option" where
  "cJSON_GetArrayItem array index h = (if index < 0 then Some None else get_array_item array (nat index) h)"

definition detach_item_from_array :: "addr option \<Rightarrow> int \<Rightarrow> heap \<Rightarrow> (addr option \<times> heap) option" where
  "detach_item_from_array array which h =
     (if which < 0 then Some (None, h)
      else do { item \<leftarrow> get_array_item array (nat which) h; cJSON_DetachItemViaPointer array item h })"

definition delete_item_from_array :: "addr option \<Rightarrow> int \<Rightarrow> heap \<Rightarrow> heap option" where
  "delete_item_from_array array which h = do { (item, h) \<leftarrow> detach_item_from_array array which h; cJSON_Delete item h }"

definition detach_item_from_object :: "addr option \<Rightarrow> bytes option \<Rightarrow> heap \<Rightarrow> (addr option \<times> heap) option" where
  "detach_item_from_object object name h =
     do { to_detach \<leftarrow> get_object_item object name h; cJSON_DetachItemViaPointer object to_detach h }"

definition delete_item_from_object :: "addr option \<Rightarrow> bytes option \<Rightarrow> heap \<Rightarrow> heap option" where
  "delete_item_from_object object name h = do { (item, h) \<leftarrow> detach_item_from_object object name h; cJSON_Delete item h }"

definition replace_item_in_array :: "addr option \<Rightarrow> int \<Rightarrow> addr option \<Rightarrow> heap \<Rightarrow> (bool \<times> heap) option" where
  "replace_item_in_array array which newitem h =
     (if which < 0 then Some (False, h)
      else do { item \<leftarrow> get_array_item array (nat which) h; cJSON_ReplaceItemViaPointer array item newitem h })"

definition add_null_to_object where
  "add_null_to_object malloc object name h = add_created object name (create_null malloc h)"

definition add_true_to_object where
  "add_true_to_object malloc object name h = add_created object name (create_bool malloc True h)"

definition add_false_to_object where
  "add_false_to_object malloc object name h = add_created object name (create_bool malloc False h)"

definition add_bool_to_object where
  "add_bool_to_object malloc object name boolean h = add_created object name (create_bool malloc boolean h)"

definition add_number_to_object where
  "add_number_to_object malloc object name number h = add_created object name (create_number malloc number h)"

definition add_object_to_object where
  "add_object_to_object malloc object name h = add_created object name (create_object malloc h)"

definition add_array_to_object where
  "add_array_to_object malloc object name h = add_created object name (create_array malloc h)"

text \<open>The loop that fills a new array; \<open>p\<close> is the item before, none at the first one.\<close>

fun array_loop :: "(heap \<Rightarrow> addr option \<times> heap) list \<Rightarrow> addr \<Rightarrow> addr option \<Rightarrow> heap \<Rightarrow> (addr option \<times> heap) option" where
  "array_loop [] a p h = do {
     c \<leftarrow> h a;
     h \<leftarrow> (if it_child c \<noteq> None then upd (it_child c) (\<lambda>x. x\<lparr>it_prev := p\<rparr>) h else Some h);
     Some (Some a, h)
   }"
| "array_loop (create # rest) a p h =
     (case create h of
        (None, h) \<Rightarrow> do { h \<leftarrow> cJSON_Delete (Some a) h; Some (None, h) }
      | (Some n, h) \<Rightarrow> do {
          h \<leftarrow> (if p = None then upd (Some a) (\<lambda>x. x\<lparr>it_child := Some n\<rparr>) h else suffix_object p (Some n) h);
          array_loop rest a (Some n) h
        })"

text \<open>Reading behind the caller's array is \<open>None\<close>.\<close>

definition create_array_of ::
    "(heap \<Rightarrow> addr option) \<Rightarrow> ('a \<Rightarrow> heap \<Rightarrow> addr option \<times> heap) \<Rightarrow> 'a list option \<Rightarrow> int \<Rightarrow> heap \<Rightarrow>
       (addr option \<times> heap) option" where
  "create_array_of malloc create elems count h =
     (case elems of
        None \<Rightarrow> Some (None, h)
      | Some xs \<Rightarrow>
          if count < 0 then Some (None, h)
          else if length xs < nat count then None
          else (case create_array malloc h of
                  (None, h) \<Rightarrow> Some (None, h)
                | (Some a, h) \<Rightarrow> array_loop (map create (take (nat count) xs)) a None h))"

definition cJSON_CreateIntArray where
  "cJSON_CreateIntArray malloc = create_array_of malloc (\<lambda>i. create_number malloc (dbl_of_int i))"

definition cJSON_CreateFloatArray where
  "cJSON_CreateFloatArray malloc = create_array_of malloc (create_number malloc)"

definition cJSON_CreateDoubleArray where
  "cJSON_CreateDoubleArray malloc = create_array_of malloc (create_number malloc)"

definition cJSON_CreateStringArray where
  "cJSON_CreateStringArray malloc = create_array_of malloc (create_string malloc)"

section \<open>New arrays\<close>

lemma array_loop_steps:
  "array_loop [] a p h = duplicate malloc (DupChildren None a p) h"
  "(if p = None then upd (Some a) (\<lambda>x. x\<lparr>it_child := Some n\<rparr>) h else suffix_object p (Some n) h) = link_copy a p (Some n) h"
  by (simp_all add: duplicate.simps [of malloc "DupChildren None a p"] link_copy_def suffix_object_def)

lemma create_leaf:
  assumes "fresh malloc" and "leaf (init item_zero) v" and "create_item malloc init h = (q, h')"
  shows "case q of None \<Rightarrow> h' = h
    | Some n \<Rightarrow> h n = None \<and> h' = h(n \<mapsto> init item_zero) \<and> unlinked h' n \<and>
        stored h' [ANode n (payload (init item_zero)) []] \<and>
        jsons [ANode n (payload (init item_zero)) []] = Some [(it_string (payload (init item_zero)), v)]"
  using assms
  by (auto simp: create_item_def cJSON_New_Item_def fresh_def leaf_def unlinked_def siblings_def item_json_payload
      split: option.splits)

text \<open>What the loop has done at some point: an array in the making, at addresses that were free in \<open>h0\<close>.\<close>

definition filling :: "heap \<Rightarrow> heap \<Rightarrow> addr \<Rightarrow> cJSON \<Rightarrow> atree list \<Rightarrow> json list \<Rightarrow> bool" where
  "filling h0 h a c us vs \<longleftrightarrow>
     building h a c us \<and> set (a # addrs us) \<inter> dom h0 = {} \<and> (\<forall>x. x \<notin> set (a # addrs us) \<longrightarrow> h x = h0 x) \<and>
     (\<exists>ms. jsons us = Some ms \<and> map snd ms = vs) \<and> it_type c AND 0xFF = cJSON_Array"

lemma filling_abort:
  assumes "filling h0 h a c us vs"
  shows "cJSON_Delete (Some a) h = Some h0"
proof -
  have b: "building h a c us" using assms by (simp add: filling_def)
  have "(h |` (- set (a # addrs us))) x = h0 x" for x
  proof (cases "x \<in> set (a # addrs us)")
    case True
    then have "x \<notin> dom h0" using assms unfolding filling_def by blast
    then show ?thesis using True by (simp add: restrict_map_def domIff del: set_simps)
  next
    case False
    then show ?thesis using assms by (simp add: filling_def)
  qed
  then have "h |` (- set (a # addrs us)) = h0" by (rule ext)
  then show ?thesis using building_delete [OF b] by simp
qed

lemma filling_step:
  assumes fill: "filling h0 h a c us vs" and "fresh malloc" and "leaf (init item_zero) v"
    and "create_item malloc init h = (Some n, h1)"
  shows "\<exists>h2 u. link_copy a (tail_of us) (Some n) h1 = Some h2 \<and> filling h0 h2 a c (us @ [u]) (vs @ [v]) \<and>
    tail_of (us @ [u]) = Some n"
proof -
  let ?i = "init item_zero" and ?u = "ANode n (payload (init item_zero)) []"
  have n: "h n = None" "h1 = h(n \<mapsto> ?i)" "unlinked h1 n" "stored h1 [?u]" "jsons [?u] = Some [(it_string (payload ?i), v)]"
    using create_leaf [where init = init, OF assms(2,3), of h "Some n" h1] assms(4) by (simp_all only: option.case)
  have b: "building h a c us" using fill by (simp add: filling_def)
  have "set (a # addrs us) \<subseteq> dom h" using b stored_in_heap [of h us] by (auto simp: building_def)
  then have out: "n \<notin> set (a # addrs us)" using n(1) by auto
  then have "\<forall>x\<in>set (a # addrs us). h1 x = h x" using n(2) by auto
  then have b1: "building h1 a c us" using b building_cong by blast
  have "distinct (a # addrs (us @ [?u]))" using b out by (auto simp: building_def)
  then obtain h2 where h2: "link_copy a (tail_of us) (Some n) h1 = Some h2" "building h2 a c (us @ [?u])"
    "\<forall>x. x \<notin> set (a # addrs (us @ [?u])) \<longrightarrow> h2 x = h1 x"
    using building_link [OF b1 n(4)] n(3) by auto
  have "h0 n = None" using fill n(1) out by (auto simp: filling_def)
  moreover obtain ms where ms: "jsons us = Some ms" "map snd ms = vs" using fill by (auto simp: filling_def)
  then have "jsons (us @ [?u]) = Some (ms @ [(it_string (payload ?i), v)])" using n(5) by (simp only: jsons_append) simp
  ultimately have "filling h0 h2 a c (us @ [?u]) (vs @ [v])"
    using fill h2(2,3) n(2) ms(2) unfolding filling_def by auto
  then show ?thesis using h2(1) by (intro exI [of _ h2] exI [of _ ?u]) (simp add: tail_of_snoc)
qed

lemma array_loop_fills:
  assumes "fresh malloc" and "list_all2 (\<lambda>m v. \<exists>init. m = create_item malloc init \<and> leaf (init item_zero) v) mks ws"
    and "filling h0 h a c us vs"
  shows "\<exists>q h'. array_loop mks a (tail_of us) h = Some (q, h') \<and>
    (case q of None \<Rightarrow> h' = h0
     | Some b \<Rightarrow> \<exists>A. holds h' b (JArr (vs @ ws)) A \<and> A \<inter> dom h0 = {} \<and> unlinked h' b \<and> (\<forall>x. x \<notin> A \<longrightarrow> h' x = h0 x))"
  using assms(2,3)
proof (induction mks arbitrary: ws us vs h)
  case Nil
  then have b: "building h a c us" and w: "ws = []" by (simp_all add: filling_def)
  obtain h' where h': "duplicate malloc (DupChildren None a (tail_of us)) h = Some (Some a, h')"
    "stored h' [ANode a c us]" "unlinked h' a" "\<forall>x. x \<notin> set (a # addrs us) \<longrightarrow> h' x = h x"
    using building_done [OF b] by blast
  obtain ms where "jsons us = Some ms" "map snd ms = vs" "it_type c AND 0xFF = cJSON_Array"
    using Nil(2) by (auto simp: filling_def)
  moreover have "distinct (addrs [ANode a c us])" using b by (simp add: building_def)
  ultimately have "holds h' a (JArr (vs @ ws)) (set (addrs [ANode a c us]))"
    unfolding holds_array w using h'(2) by (metis append_Nil2)
  moreover have "set (addrs [ANode a c us]) \<inter> dom h0 = {}" using Nil(2) by (simp add: filling_def)
  moreover have "\<forall>x. x \<notin> set (addrs [ANode a c us]) \<longrightarrow> h' x = h0 x" using h'(4) Nil(2) by (simp add: filling_def)
  ultimately show ?case unfolding array_loop_steps(1) [of a "tail_of us" h malloc] h'(1) using h'(3)
    by (intro exI [of _ "Some a"] exI [of _ h'] conjI) (simp_all only: option.case, blast)
next
  case (Cons mk mks)
  obtain w ws' init where w: "ws = w # ws'" "mk = create_item malloc init" "leaf (init item_zero) w"
    "list_all2 (\<lambda>m v. \<exists>init. m = create_item malloc init \<and> leaf (init item_zero) v) mks ws'"
    using Cons(2) by (auto simp: list_all2_Cons1)
  obtain q h1 where q: "mk h = (q, h1)" by (cases "mk h")
  show ?case
  proof (cases q)
    case None
    then have "h1 = h" using create_leaf [where init = init, OF assms(1) w(3), of h q h1] q w(2) by simp
    then show ?thesis using q None filling_abort [OF Cons(3)] by (intro exI [of _ None] exI [of _ h0]) simp
  next
    case (Some n)
    obtain h2 u where s: "link_copy a (tail_of us) (Some n) h1 = Some h2" "filling h0 h2 a c (us @ [u]) (vs @ [w])"
      "tail_of (us @ [u]) = Some n"
      using filling_step [where init = init, OF Cons(3) assms(1) w(3)] q Some w(2) by blast
    have "array_loop (mk # mks) a (tail_of us) h = array_loop mks a (tail_of (us @ [u])) h2"
      using q Some s(1,3) by (simp add: array_loop_steps(2))
    then show ?thesis using Cons(1) [OF w(4) s(2)] by (simp only: w(1) append_assoc append_Cons append_Nil)
  qed
qed

lemma create_array_holds:
  assumes "fresh malloc" and "\<And>x. \<exists>init. create x = create_item malloc init \<and> leaf (init item_zero) (value x)"
    and "0 \<le> count" and "nat count \<le> length xs"
  shows "\<exists>q h'. create_array_of malloc create (Some xs) count h = Some (q, h') \<and>
    (case q of None \<Rightarrow> h' = h
     | Some b \<Rightarrow> \<exists>A. holds h' b (JArr (map value (take (nat count) xs))) A \<and> A \<inter> dom h = {} \<and> unlinked h' b \<and>
         (\<forall>x. x \<notin> A \<longrightarrow> h' x = h x))"
proof (cases "malloc h")
  case None
  then show ?thesis using assms(3,4)
    by (simp add: create_array_of_def create_array_def create_item_def cJSON_New_Item_def)
next
  case (Some a)
  let ?i = "item_zero\<lparr>it_type := cJSON_Array\<rparr>" and ?ys = "take (nat count) xs"
  let ?h = "h(a \<mapsto> ?i)"
  have op: "create_array malloc h = (Some a, ?h)" using Some by (simp add: create_array_def create_item_def cJSON_New_Item_def)
  have "h a = None" using Some assms(1) by (simp add: fresh_def)
  moreover have "building ?h a (payload ?i) []" by (simp add: building_def item_zero_def type_values)
  ultimately have fill: "filling h ?h a (payload ?i) [] []"
    by (auto simp: filling_def payload_fields type_values)
  have "list_all2 (\<lambda>m v. \<exists>init. m = create_item malloc init \<and> leaf (init item_zero) v) (map create ?ys) (map value ?ys)"
    using assms(2) by (simp add: list_all2_conv_all_nth)
  from array_loop_fills [OF assms(1) this fill] obtain q h' where
    r: "array_loop (map create ?ys) a None ?h = Some (q, h')"
    "case q of None \<Rightarrow> h' = h
     | Some b \<Rightarrow> \<exists>A. holds h' b (JArr (map value ?ys)) A \<and> A \<inter> dom h = {} \<and> unlinked h' b \<and> (\<forall>x. x \<notin> A \<longrightarrow> h' x = h x)"
    unfolding tail_of_def append_Nil if_True simp_thms by blast
  have "create_array_of malloc create (Some xs) count h = Some (q, h')"
    using assms(3,4) op r(1) by (simp add: create_array_of_def)
  then show ?thesis using r(2) by blast
qed

text \<open>All or nothing, for each of the element types.\<close>

lemma arrays_created:
  assumes "fresh malloc" and "0 \<le> count"
  shows "nat count \<le> length ns \<Longrightarrow> \<exists>q h'. cJSON_CreateIntArray malloc (Some ns) count h = Some (q, h') \<and>
      (case q of None \<Rightarrow> h' = h | Some b \<Rightarrow> \<exists>A. holds h' b (JArr (map (\<lambda>i. JInt i) (take (nat count) ns))) A \<and>
         A \<inter> dom h = {} \<and> unlinked h' b \<and> (\<forall>x. x \<notin> A \<longrightarrow> h' x = h x))"
    and "nat count \<le> length ds \<Longrightarrow> \<exists>q h'. cJSON_CreateDoubleArray malloc (Some ds) count h = Some (q, h') \<and>
      (case q of None \<Rightarrow> h' = h | Some b \<Rightarrow> \<exists>A. holds h' b (JArr (map JNum (take (nat count) ds))) A \<and>
         A \<inter> dom h = {} \<and> unlinked h' b \<and> (\<forall>x. x \<notin> A \<longrightarrow> h' x = h x))"
    and "nat count \<le> length ss \<Longrightarrow> \<exists>q h'. cJSON_CreateStringArray malloc (Some ss) count h = Some (q, h') \<and>
      (case q of None \<Rightarrow> h' = h | Some b \<Rightarrow> \<exists>A. holds h' b (JArr (map (\<lambda>s. JStr (cstr s)) (take (nat count) ss))) A \<and>
         A \<inter> dom h = {} \<and> unlinked h' b \<and> (\<forall>x. x \<notin> A \<longrightarrow> h' x = h x))"
  unfolding cJSON_CreateIntArray_def cJSON_CreateDoubleArray_def cJSON_CreateStringArray_def created_by
  by (rule create_array_holds [OF assms(1) _ assms(2)]; fastforce intro: leaf_created)+

section \<open>Taking out and putting in\<close>

lemma detach_tree:
  assumes "stored h [ANode p c (xs @ t # ys)]" and d: "distinct (addrs [ANode p c (xs @ t # ys)])"
  shows "\<exists>h'. cJSON_DetachItemViaPointer (Some p) (Some (root t)) h = Some (Some (root t), h') \<and>
    stored h' [ANode p c (xs @ ys)] \<and> stored h' [t] \<and> unlinked h' (root t) \<and>
    (\<forall>x. x \<notin> set (addrs [ANode p c (xs @ t # ys)]) \<longrightarrow> h' x = h x)"
proof -
  let ?old = "xs @ t # ys" and ?R = "set (map root xs @ root t # map root ys)"
  obtain ip where ip: "h p = Some ip" "siblings h (it_child ip) (map root xs @ root t # map root ys)"
    using assms(1) by auto
  have whole: "addrs [ANode p c ?old] = p # addrs ?old" by simp
  have all: "distinct (addrs ?old)" and p: "p \<notin> set (addrs ?old)" using d by (simp_all only: whole distinct.simps simp_thms)
  have roots: "set (map root ?old) \<subseteq> set (addrs ?old)" by (rule roots_addrs)
  have "distinct (map root ?old)" by (rule distinct_roots [OF all])
  then have "distinct (p # map root xs @ root t # map root ys)" using p roots by auto
  from detach_links [OF ip this] obtain h' ct where
    h': "cJSON_DetachItemViaPointer (Some p) (Some (root t)) h = Some (Some (root t), h')"
    "new_children p ?R (map root xs @ map root ys) h h'" "h' (root t) = Some ct" "it_next ct = None" by blast
  have "?R = set (map root ?old)" by auto
  then have below: "?R \<inter> set (addrs (concat (map kids ts))) = {}" if "set ts \<subseteq> set ?old" for ts
    using roots_apart [OF all that] by (simp only:)
  have st: "stored h ts" if "set ts \<subseteq> set ?old" for ts using stored_subset [OF _ that] assms(1) by simp
  have out: "p \<notin> set (addrs ts)" if "set ts \<subseteq> set ?old" for ts using p addrs_subset [OF that] by blast
  have "stored h' [ANode p c (xs @ ys)]"
    by (rule new_children_stored [OF _ assms(1) st out below]) (use h'(2) in auto)
  moreover have "stored h' [t]" by (rule new_children_others [OF h'(2) st out below]) auto
  moreover have "h' x = h x" if "x \<notin> set (addrs [ANode p c ?old])" for x
  proof -
    have x: "x \<noteq> p" "x \<notin> set (addrs ?old)" using that by (simp_all only: whole list.set insert_iff de_Morgan_disj simp_thms)
    then have "x \<notin> set (map root ?old)" using roots by blast
    then show ?thesis using x(1) by (intro new_children_frame [OF h'(2)]) auto
  qed
  ultimately show ?thesis using h'(1,3,4) by (auto simp: unlinked_def)
qed

text \<open>The first member with the name.\<close>

fun remove_member :: "bytes \<Rightarrow> (bytes \<times> json) list \<Rightarrow> (bytes \<times> json) list" where
  "remove_member k [] = []"
| "remove_member k ((k', v) # kvs) = (if k' = k then kvs else (k', v) # remove_member k kvs)"

lemma remove_member_first: "k \<notin> fst ` set us \<Longrightarrow> remove_member k (us @ (k, w) # ws) = us @ ws"
  by (induction us) auto

lemma detach_member_holds:
  assumes "holds h p (JObj kvs) A" and "map_of kvs (cstr k) = Some w"
  shows "\<exists>a h' C. detach_item_from_object (Some p) (Some k) h = Some (Some a, h') \<and> C \<subseteq> A - {p} \<and>
    holds h' p (JObj (remove_member (cstr k) kvs)) (A - C) \<and> holds h' a w C \<and> unlinked h' a \<and>
    (\<forall>x. x \<notin> A \<longrightarrow> h' x = h x)"
proof -
  obtain c xs t ys us ws where f: "stored h [ANode p c (xs @ t # ys)]" "distinct (addrs [ANode p c (xs @ t # ys)])"
    "A = set (addrs [ANode p c (xs @ t # ys)])" "it_type c AND 0xFF = cJSON_Object"
    "kvs = us @ (cstr k, w) # ws" "cstr k \<notin> fst ` set us" "jsons xs = Some (map (apfst Some) us)"
    "jsons [t] = Some [(Some (cstr k), w)]" "jsons ys = Some (map (apfst Some) ws)"
    "get_object_item (Some p) (Some k) h = Some (Some (root t))" using find_member [OF assms] by blast
  obtain h' where h': "cJSON_DetachItemViaPointer (Some p) (Some (root t)) h = Some (Some (root t), h')"
    "stored h' [ANode p c (xs @ ys)]" "stored h' [t]" "unlinked h' (root t)"
    "\<forall>x. x \<notin> set (addrs [ANode p c (xs @ t # ys)]) \<longrightarrow> h' x = h x" using detach_tree [OF f(1,2)] by blast
  obtain a e ms where t: "t = ANode a e ms" by (cases t)
  have split: "addrs (t # ys) = addrs [t] @ addrs ys" using addrs_append [of "[t]" ys] by simp
  have "distinct (addrs [t])" using f(2) split by simp
  then have old: "holds h' a w (set (addrs [t]))" unfolding holds_def using h'(3) f(8) t by (metis jsons_one)
  have "jsons (xs @ ys) = Some (map (apfst Some) (remove_member (cstr k) kvs))"
    using f(5-7,9) by (simp add: jsons_append remove_member_first)
  moreover have "distinct (addrs [ANode p c (xs @ ys)])" using f(2) split by auto
  moreover have "A - set (addrs [t]) = set (addrs [ANode p c (xs @ ys)])" using f(2,3) split by auto
  ultimately have "holds h' p (JObj (remove_member (cstr k) kvs)) (A - set (addrs [t]))"
    unfolding holds_object using h'(2) f(4) by metis
  moreover have "set (addrs [t]) \<subseteq> A - {p}" using f(2,3) split by auto
  ultimately show ?thesis using f(3,10) h'(1,4,5) old t
    by (intro exI [of _ a] exI [of _ h'] exI [of _ "set (addrs [t])"]) (simp add: detach_item_from_object_def)
qed

lemma delete_member_holds:
  assumes "holds h p (JObj kvs) A" and "map_of kvs (cstr k) = Some w"
  shows "\<exists>h' C. delete_item_from_object (Some p) (Some k) h = Some h' \<and> C \<subseteq> A - {p} \<and>
    holds h' p (JObj (remove_member (cstr k) kvs)) (A - C) \<and> (\<forall>x\<in>C. h' x = None) \<and> (\<forall>x. x \<notin> A \<longrightarrow> h' x = h x)"
proof -
  obtain a h1 C where d: "detach_item_from_object (Some p) (Some k) h = Some (Some a, h1)" "C \<subseteq> A - {p}"
    "holds h1 p (JObj (remove_member (cstr k) kvs)) (A - C)" "holds h1 a w C" "unlinked h1 a"
    "\<forall>x. x \<notin> A \<longrightarrow> h1 x = h x" using detach_member_holds [OF assms] by blast
  let ?h = "h1 |` (- C)"
  have "delete_item_from_object (Some p) (Some k) h = Some ?h"
    using d(1) holds_delete [OF d(4,5)] by (simp add: delete_item_from_object_def)
  moreover have "holds ?h p (JObj (remove_member (cstr k) kvs)) (A - C)"
    by (rule holds_cong [OF _ d(3)]) (simp add: restrict_map_def)
  moreover have "\<forall>x. x \<notin> A \<longrightarrow> ?h x = h x" using d(2,6) by (auto simp: restrict_map_def)
  ultimately show ?thesis using d(2) by (intro exI [of _ ?h] exI [of _ C]) (simp add: restrict_map_def)
qed

end
