(* ===== verification/Json_Memory.thy ===== *)
theory Json_Memory
  imports Json_Heap_Dup
begin

text \<open>
  What the tree operations of cJSON promise on the items in memory: they do to the tree an item stands for what
  the operations of \<open>Json\<close> do to values, touch nothing else, leak nothing and free what leaves a tree.
\<close>

section \<open>Adding\<close>

text \<open>C20. \<open>cJSON_AddItemToObject\<close> and \<open>cJSON_AddItemToArray\<close> hang an item that is in no list below another: the object
  or array then stands for its value with the new member last, over the items of both, is in no list if it was
  in none, and no other item changes.
  The functions that create and add a member (\<open>cJSON_AddStringToObject\<close> and the like) do the same with a new
  item, and give \<open>NULL\<close> and leave the heap as it was when the allocation fails.
\<close>

theorem items_added_in_memory:
  assumes "holds h p j A" and "holds h i v B" and "A \<inter> B = {}" and "unlinked h i" and "fresh malloc"
  shows "(\<forall>kvs. j = JObj kvs \<longrightarrow> (\<exists>h'. add_item_to_object (Some p) (Some k) (Some i) h = Some (True, h') \<and>
            holds h' p (cJSON_AddItemToObject j (cstr k) v) (A \<union> B) \<and>
            (unlinked h p \<longrightarrow> unlinked h' p) \<and> (\<forall>x. x \<notin> A \<union> B \<longrightarrow> h' x = h x))) \<and>
         (\<forall>vs. j = JArr vs \<longrightarrow> (\<exists>h'. add_item_to_array (Some p) (Some i) h = Some (True, h') \<and>
            holds h' p (cJSON_AddItemToArray j v) (A \<union> B) \<and>
            (unlinked h p \<longrightarrow> unlinked h' p) \<and> (\<forall>x. x \<notin> A \<union> B \<longrightarrow> h' x = h x))) \<and>
         (\<forall>kvs s d b mk w. j = JObj kvs \<longrightarrow>
            (mk, w) \<in> {(create_string malloc s, JStr (cstr s)), (create_number malloc d, JNum d),
               (create_bool malloc b, JBool b), (create_null malloc, JNull), (create_object malloc, JObj []),
               (create_array malloc, JArr [])} \<longrightarrow>
            (\<exists>q h'. add_created (Some p) (Some k) (mk h) = Some (q, h') \<and>
               (case q of None \<Rightarrow> h' = h \<and> malloc h = None
                | Some a \<Rightarrow> h a = None \<and> holds h' p (cJSON_AddItemToObject j (cstr k) w) (insert a A) \<and>
                    (unlinked h p \<longrightarrow> unlinked h' p) \<and> (\<forall>x. x \<notin> insert a A \<longrightarrow> h' x = h x))))"
proof (intro conjI allI impI)
  fix kvs
  assume "j = JObj kvs"
  then show "\<exists>h'. add_item_to_object (Some p) (Some k) (Some i) h = Some (True, h') \<and>
      holds h' p (cJSON_AddItemToObject j (cstr k) v) (A \<union> B) \<and>
            (unlinked h p \<longrightarrow> unlinked h' p) \<and> (\<forall>x. x \<notin> A \<union> B \<longrightarrow> h' x = h x)"
    using add_to_object_holds assms(1-4) by metis
next
  fix vs
  assume "j = JArr vs"
  then show "\<exists>h'. add_item_to_array (Some p) (Some i) h = Some (True, h') \<and>
      holds h' p (cJSON_AddItemToArray j v) (A \<union> B) \<and>
            (unlinked h p \<longrightarrow> unlinked h' p) \<and> (\<forall>x. x \<notin> A \<union> B \<longrightarrow> h' x = h x)"
    using add_to_array_holds assms(1-4) by blast
next
  fix kvs s d b mk w
  assume j: "j = JObj kvs" and mk: "(mk, w) \<in> {(create_string malloc s, JStr (cstr s)), (create_number malloc d, JNum d),
      (create_bool malloc b, JBool b), (create_null malloc, JNull), (create_object malloc, JObj []),
      (create_array malloc, JArr [])}"
  obtain init where init: "mk = create_item malloc init" "leaf (init item_zero) w"
    using mk leaf_created by (auto simp: created_by)
  show "\<exists>q h'. add_created (Some p) (Some k) (mk h) = Some (q, h') \<and>
      (case q of None \<Rightarrow> h' = h \<and> malloc h = None
       | Some a \<Rightarrow> h a = None \<and> holds h' p (cJSON_AddItemToObject j (cstr k) w) (insert a A) \<and>
           (unlinked h p \<longrightarrow> unlinked h' p) \<and> (\<forall>x. x \<notin> insert a A \<longrightarrow> h' x = h x))"
    unfolding j init(1) by (rule add_created_holds) (use assms(1,5) init(2) j in auto)
qed

text \<open>An object, a member of it and a string, and an allocator with one more item to give.\<close>

definition example_heap :: heap where
  "example_heap =
     [0 \<mapsto> item_zero\<lparr>it_type := cJSON_Object, it_child := Some 1\<rparr>,
      1 \<mapsto> item_zero\<lparr>it_type := cJSON_Number, it_prev := Some 1, it_string := Some ''id'', it_valuedouble := Finite 7\<rparr>,
      2 \<mapsto> item_zero\<lparr>it_type := cJSON_String, it_valuestring := Some ''x''\<rparr>]"

definition example_malloc :: "heap \<Rightarrow> addr option" where
  "example_malloc h = (if h 3 = None then Some 3 else if h 4 = None then Some 4 else None)"

lemma example_holds:
  "holds example_heap 0 (JObj [(''id'', JNum (Finite 7))]) {0, 1}" "holds example_heap 2 (JStr ''x'') {2}"
  "unlinked example_heap 2" "fresh example_malloc" "cstr ''id'' = ''id''"
proof -
  let ?p = "payload (item_zero\<lparr>it_type := cJSON_Object, it_child := Some 1\<rparr>)"
  let ?c = "payload (item_zero\<lparr>it_type := cJSON_Number, it_prev := Some 1, it_string := Some ''id'', it_valuedouble := Finite 7\<rparr>)"
  have "stored example_heap [ANode 0 ?p [ANode 1 ?c []]]"
    by (simp add: example_heap_def siblings_def type_values item_zero_def)
  moreover have "jsons [ANode 1 ?c []] = Some [(Some ''id'', JNum (Finite 7))]"
    by (simp add: item_json_payload payload_fields) (simp add: item_json_def type_values item_zero_def)
  moreover have "it_type ?p AND 0xFF = cJSON_Object" by (simp add: payload_fields type_values)
  ultimately show "holds example_heap 0 (JObj [(''id'', JNum (Finite 7))]) {0, 1}"
    unfolding holds_object by (intro exI [of _ ?p] exI [of _ "[ANode 1 ?c []]"]) simp
  have s: "example_heap 2 = Some (item_zero\<lparr>it_type := cJSON_String, it_valuestring := Some ''x''\<rparr>)"
    by (simp add: example_heap_def)
  show "holds example_heap 2 (JStr ''x'') {2}" by (rule leaf_holds(1) [where h = example_heap, OF leaf_created(4) s])
  show "unlinked example_heap 2" by (rule leaf_holds(2) [where h = example_heap, OF leaf_created(4) s])
  show "fresh example_malloc" by (simp add: fresh_def example_malloc_def)
  show "cstr ''id'' = ''id''" by code_simp
qed

lemma items_added_in_memory_witness:
  "\<exists>h'. add_item_to_object (Some 0) (Some ''id'') (Some 2) example_heap = Some (True, h') \<and>
     holds h' 0 (JObj [(''id'', JNum (Finite 7)), (''id'', JStr ''x'')]) {0, 1, 2}"
  using items_added_in_memory [OF example_holds(1-2) _ example_holds(3,4), of "''id''"]
  by (simp add: example_holds(5) insert_commute) blast

section \<open>Replacing\<close>

text \<open>C21. \<open>cJSON_ReplaceItemInObjectCaseSensitive\<close> on the items in memory: the replacement takes the place of the first member
  with the name, whose items, and no others, are freed; the object then stands for the value with that member
  replaced.  Without such a member the call fails, frees nothing, and the replacement stays with the caller.
\<close>

theorem member_replaced_in_memory:
  assumes "holds h p (JObj kvs) A" and "holds h r v B" and "A \<inter> B = {}"
  shows "case map_of kvs (cstr k) of
      None \<Rightarrow> \<exists>h'. replace_item_in_object (Some p) (Some k) (Some r) h = Some (False, h') \<and>
        holds h' p (JObj kvs) A \<and> holds h' r v B \<and> (\<forall>x. x \<noteq> r \<longrightarrow> h' x = h x)
    | Some w \<Rightarrow> \<exists>h' C. replace_item_in_object (Some p) (Some k) (Some r) h = Some (True, h') \<and>
        (\<exists>a. holds h a w C) \<and> C \<subseteq> A - {p} \<and> holds h' p (JObj (replace_member (cstr k) v kvs)) (A - C \<union> B) \<and>
        (\<forall>x\<in>C. h' x = None) \<and> (\<forall>x. x \<notin> A \<union> B \<longrightarrow> h' x = h x)"
  using replace_missing [OF assms] replace_found [OF assms] by (cases "map_of kvs (cstr k)") simp_all

lemma member_replaced_in_memory_witness:
  "\<exists>h'. replace_item_in_object (Some 0) (Some ''id'') (Some 2) example_heap = Some (True, h') \<and>
     holds h' 0 (JObj [(''id'', JStr ''x'')]) {0, 2} \<and> h' 1 = None"
proof -
  obtain h' C where r: "replace_item_in_object (Some 0) (Some ''id'') (Some 2) example_heap = Some (True, h')"
    "\<exists>a. holds example_heap a (JNum (Finite 7)) C" "C \<subseteq> {0, 1} - {0}"
    "holds h' 0 (JObj [(''id'', JStr ''x'')]) ({0, 1} - C \<union> {2})" "\<forall>x\<in>C. h' x = None"
    using member_replaced_in_memory [OF example_holds(1,2), of "''id''"] by (simp add: example_holds(5)) blast
  then have "C = {1}" by (auto simp: holds_def)
  then have "{0, 1} - C \<union> {2} = {0, 2 :: nat}" by auto
  then show ?thesis using r(1,4,5) \<open>C = {1}\<close> by auto
qed

section \<open>Duplicating and deleting\<close>

text \<open>C22. \<open>cJSON_Duplicate(item, 1)\<close> on the items in memory is all or nothing: it gives \<open>NULL\<close> and leaves the heap exactly
  as it was, which happens only when an allocation fails in this heap with finitely many items more, or it gives a tree of new items with the same value,
  apart from everything there was, nothing of which changes; \<open>cJSON_Delete\<close> of the copy gives back the heap.
\<close>

theorem copy_is_all_or_nothing:
  assumes "fresh malloc" and "holds h a v A"
  shows "\<exists>q h'. cJSON_Duplicate malloc (Some a) True h = Some (q, h') \<and>
    (case q of None \<Rightarrow> h' = h \<and> (\<exists>g A. malloc g = None \<and> finite A \<and> dom g \<subseteq> dom h \<union> A)
     | Some b \<Rightarrow> (\<exists>B. holds h' b v B \<and> B \<inter> dom h = {} \<and> unlinked h' b \<and> (\<forall>x. x \<notin> B \<longrightarrow> h' x = h x)) \<and>
         cJSON_Delete (Some b) h' = Some h)"
  using duplicate_holds [OF assms] by (simp only: starved_def)

lemma copied: "map_option fst (cJSON_Duplicate example_malloc (Some 0) True example_heap) = Some (Some 3)"
  by (simp add: cJSON_Duplicate_def duplicate.simps [of example_malloc "DupItem (Some 0) True"]
      duplicate.simps [of example_malloc "DupItem (Some 1) True"] duplicate.simps [of example_malloc "DupChildren (Some 1) 3 None"]
      duplicate.simps [of example_malloc "DupChildren None 4 None"] duplicate.simps [of example_malloc "DupChildren None 3 (Some 4)"]
      cJSON_New_Item_def example_malloc_def example_heap_def upd_def link_copy_def item_zero_def
      del: One_nat_def)

lemma copy_is_all_or_nothing_witness:
  "\<exists>h' B. cJSON_Duplicate example_malloc (Some 0) True example_heap = Some (Some 3, h') \<and>
     holds h' 3 (JObj [(''id'', JNum (Finite 7))]) B \<and> cJSON_Delete (Some 3) h' = Some example_heap"
  using copy_is_all_or_nothing [OF example_holds(4,1)] copied by auto

end
