(* ===== verification/Reply_Memory.thy ===== *)
theory Reply_Memory
  imports Json_Memory Json_Print Server_Rpc
begin

text \<open>
  The replies of \<^verbatim>\<open>src/mcp_server.c\<close> built from items in memory: \<open>jsonrpc_envelope\<close>, \<open>jsonrpc_result\<close> and
  \<open>jsonrpc_error\<close> with every allocation, and that they refine the definitions of \<open>Server_Rpc\<close> on values and
  leave no item behind.
\<close>

section \<open>Printing what is in memory\<close>

text \<open>The tree that \<open>print_value\<close> walks: the children of arrays and objects, in the order of the \<open>next\<close> pointers.\<close>

partial_function (option) read_items :: "addr option \<Rightarrow> heap \<Rightarrow> (bytes option \<times> json) list option" where
  "read_items item h =
     (case item of
        None \<Rightarrow> Some []
      | Some a \<Rightarrow> do {
          c \<leftarrow> h a;
          ms \<leftarrow> (if it_type c AND 0xFF = cJSON_Array \<or> it_type c AND 0xFF = cJSON_Object then read_items (it_child c) h
                else Some []);
          v \<leftarrow> item_json c ms;
          rest \<leftarrow> read_items (it_next c) h;
          Some ((it_string c, v) # rest)
        })"

definition print_item :: "(json \<Rightarrow> bytes) \<Rightarrow> addr option \<Rightarrow> heap \<Rightarrow> bytes option option" where
  "print_item print item h =
     (case item of
        None \<Rightarrow> Some None
      | Some a \<Rightarrow> do {
          c \<leftarrow> h a;
          ms \<leftarrow> (if it_type c AND 0xFF = cJSON_Array \<or> it_type c AND 0xFF = cJSON_Object then read_items (it_child c) h
                else Some []);
          v \<leftarrow> item_json c ms;
          Some (Some (print v))
        })"

lemma read_children:
  assumes "read_items x h = Some ms" and "item_json c ms = Some v"
  shows "\<exists>ms'. (if it_type c AND 0xFF = cJSON_Array \<or> it_type c AND 0xFF = cJSON_Object then read_items x h
      else Some []) = Some ms' \<and> item_json c ms' = Some v"
proof (cases "it_type c AND 0xFF = cJSON_Array \<or> it_type c AND 0xFF = cJSON_Object")
  case False
  then have "item_json c [] = item_json c ms" by (simp add: item_json_def Let_def)
  then show ?thesis using False assms(2) by auto
qed (use assms in auto)

lemma read_items_stored:
  "path h x (map root ts) None \<Longrightarrow> stored h ts \<Longrightarrow> jsons ts = Some ms \<Longrightarrow> read_items x h = Some ms"
proof (induction ts arbitrary: x ms rule: addrs.induct)
  case 1
  then show ?case by (simp add: read_items.simps [of None])
next
  case (2 a c ks ts)
  obtain i where i: "x = Some a" "h a = Some i" "payload i = c" "path h (it_child i) (map root ks) None"
    "path h (it_next i) (map root ts) None" using 2(3,4) by (auto simp: siblings_def)
  obtain ls v rest where l: "jsons ks = Some ls" "item_json c ls = Some v" "jsons ts = Some rest"
    "ms = (it_string c, v) # rest" using 2(5) by (auto split: bind_splits)
  have "item_json i ls = Some v" "it_string i = it_string c"
    using l(2) i(3) item_json_payload [of i ls] by (auto simp: payload_def)
  moreover have "read_items (it_child i) h = Some ls" using 2(1) i(4) 2(4) l(1) by simp
  moreover have "read_items (it_next i) h = Some rest" using 2(2) i(5) 2(4) l(3) by simp
  ultimately show ?case
    using i(1,2) l(4) read_children [of "it_child i" h ls i v] by (auto simp: read_items.simps [of "Some a"])
qed

lemma print_item_holds:
  assumes "holds h a v A"
  shows "print_item print (Some a) h = Some (Some (print v))"
proof -
  obtain c ks ms where k: "stored h [ANode a c ks]" "jsons ks = Some ms" "item_json c ms = Some v"
    using assms unfolding holds_def jsons_one by blast
  obtain i where i: "h a = Some i" "payload i = c" "path h (it_child i) (map root ks) None" "stored h ks"
    using k(1) by (auto simp: siblings_def)
  have "item_json i ms = Some v" using k(3) i(2) item_json_payload [of i ms] by auto
  moreover have "read_items (it_child i) h = Some ms" by (rule read_items_stored [OF i(3,4) k(2)])
  ultimately show ?thesis using i(1) read_children [of "it_child i" h ms i v] by (auto simp: print_item_def)
qed

section \<open>The replies\<close>

text \<open>What \<open>cJSON_AddItemToObject\<close> returns is ignored: an item that cannot be added stays where it is.\<close>

definition envelope_in_memory :: "(heap \<Rightarrow> addr option) \<Rightarrow> addr option \<Rightarrow> heap \<Rightarrow> (addr option \<times> heap) option" where
  "envelope_in_memory malloc rid h =
     (case create_object malloc h of (env, h) \<Rightarrow> do {
        (_, h) \<leftarrow> add_created env (Some ''jsonrpc'') (create_string malloc ''2.0'' h);
        h \<leftarrow> (if rid \<noteq> None then do {
               (d, h) \<leftarrow> cJSON_Duplicate malloc rid True h;
               (_, h) \<leftarrow> add_item_to_object env (Some ''id'') d h;
               Some h
             }
             else Some h);
        Some (env, h)
      })"

definition result_in_memory ::
    "(heap \<Rightarrow> addr option) \<Rightarrow> (json \<Rightarrow> bytes) \<Rightarrow> addr option \<Rightarrow> addr option \<Rightarrow> heap \<Rightarrow> (bytes option \<times> heap) option" where
  "result_in_memory malloc print rid result h = do {
     (env, h) \<leftarrow> envelope_in_memory malloc rid h;
     let (result, h) = (if result \<noteq> None then (result, h) else create_object malloc h);
     (_, h) \<leftarrow> add_item_to_object env (Some ''result'') result h;
     out \<leftarrow> print_item print env h;
     h \<leftarrow> cJSON_Delete env h;
     Some (out, h)
   }"

definition error_in_memory ::
    "(heap \<Rightarrow> addr option) \<Rightarrow> (json \<Rightarrow> bytes) \<Rightarrow> addr option \<Rightarrow> int \<Rightarrow> bytes \<Rightarrow> heap \<Rightarrow> (bytes option \<times> heap) option" where
  "error_in_memory malloc print rid code message h = do {
     (env, h) \<leftarrow> envelope_in_memory malloc rid h;
     let (err, h) = create_object malloc h;
     (_, h) \<leftarrow> add_created err (Some ''code'') (create_number malloc (dbl_of_int code) h);
     (_, h) \<leftarrow> add_created err (Some ''message'') (create_string malloc message h);
     (_, h) \<leftarrow> add_item_to_object env (Some ''error'') err h;
     out \<leftarrow> print_item print env h;
     h \<leftarrow> cJSON_Delete env h;
     Some (out, h)
   }"

section \<open>New trees\<close>

text \<open>A new tree for \<open>v\<close> stands at \<open>a\<close>, at addresses that were free, and nothing else changed.\<close>

definition built :: "heap \<Rightarrow> heap \<Rightarrow> addr \<Rightarrow> json \<Rightarrow> addr set \<Rightarrow> bool" where
  "built h h' a v A \<longleftrightarrow>
     holds h' a v A \<and> unlinked h' a \<and> A \<inter> dom h = {} \<and> (\<forall>x. x \<notin> A \<longrightarrow> h' x = h x)"

text \<open>An allocator that has memory as long as finitely many items are in use.\<close>

definition plenty :: "(heap \<Rightarrow> addr option) \<Rightarrow> bool" where
  "plenty malloc \<longleftrightarrow> (\<forall>h. finite (dom h) \<longrightarrow> malloc h \<noteq> None)"

lemma holds_finite: "holds h a v A \<Longrightarrow> finite A"
  by (auto simp: holds_def)

lemma built_finite: "built h h' a v A \<Longrightarrow> finite (dom h) \<Longrightarrow> finite (dom h')"
proof -
  assume b: "built h h' a v A" and f: "finite (dom h)"
  have "dom h' \<subseteq> dom h \<union> A" using b by (auto simp: built_def dom_def)
  moreover have "finite A" using b holds_finite unfolding built_def by blast
  ultimately show "finite (dom h')" using f finite_subset by blast
qed

lemma create_built:
  assumes "fresh malloc" and "plenty malloc" and "finite (dom h)" and "leaf (init item_zero) v"
  shows "\<exists>a h'. create_item malloc init h = (Some a, h') \<and> built h h' a v {a}"
proof -
  obtain a where a: "malloc h = Some a" using assms(2,3) by (auto simp: plenty_def)
  then have "h a = None" using assms(1) by (simp add: fresh_def)
  then show ?thesis using a leaf_holds [OF assms(4), of "h(a \<mapsto> init item_zero)" a]
    by (auto simp: create_item_def cJSON_New_Item_def built_def)
qed

lemma add_created_built:
  assumes "fresh malloc" and "plenty malloc" and "finite (dom h)" and "leaf (init item_zero) v"
    and "built h0 h p (JObj kvs) A"
  shows "\<exists>a h'. add_created (Some p) (Some k) (create_item malloc init h) = Some (Some a, h') \<and>
    built h0 h' p (cJSON_AddItemToObject (JObj kvs) (cstr k) v) (insert a A)"
proof -
  have p: "holds h p (JObj kvs) A" using assms(5) by (simp add: built_def)
  obtain q h' where r: "add_created (Some p) (Some k) (create_item malloc init h) = Some (q, h')"
    "case q of None \<Rightarrow> h' = h \<and> malloc h = None
     | Some a \<Rightarrow> h a = None \<and> holds h' p (cJSON_AddItemToObject (JObj kvs) (cstr k) v) (insert a A) \<and>
         (unlinked h p \<longrightarrow> unlinked h' p) \<and> (\<forall>x. x \<notin> insert a A \<longrightarrow> h' x = h x)"
    using add_created_holds [where init = init and h = h, OF p assms(1,4)] by blast
  obtain a where q: "q = Some a" using r(2) assms(2,3) by (cases q) (auto simp: plenty_def)
  have "h a = None" "a \<notin> A" using r(2) q holds_in_heap [OF p] by auto
  then have "h0 a = None" using assms(5) by (simp add: built_def)
  then show ?thesis using r q assms(5) by (intro exI [of _ a] exI [of _ h']) (auto simp: built_def)
qed

lemma add_built:
  assumes "built h0 h p (JObj kvs) A" and "built h h1 i v B"
  shows "\<exists>h'. add_item_to_object (Some p) (Some k) (Some i) h1 = Some (True, h') \<and>
    built h0 h' p (cJSON_AddItemToObject (JObj kvs) (cstr k) v) (A \<union> B)"
proof -
  have sub: "A \<subseteq> dom h" using assms(1) holds_in_heap unfolding built_def by blast
  then have disj: "A \<inter> B = {}" using assms(2) unfolding built_def by blast
  then have same: "\<forall>x\<in>A. h1 x = h x" using assms(2) by (auto simp: built_def)
  have p: "holds h1 p (JObj kvs) A" using holds_cong [OF same] assms(1) by (simp add: built_def)
  have "p \<in> A" using p by (auto simp: holds_def)
  then have u: "unlinked h1 p" using assms(1) same by (simp add: built_def unlinked_def)
  obtain h' where h': "add_item_to_object (Some p) (Some k) (Some i) h1 = Some (True, h')"
    "holds h' p (cJSON_AddItemToObject (JObj kvs) (cstr k) v) (A \<union> B)" "unlinked h' p"
    "\<forall>x. x \<notin> A \<union> B \<longrightarrow> h' x = h1 x"
    using add_to_object_holds [OF p _ disj, of i v k] assms(2) u by (auto simp: built_def)
  have "x \<notin> dom h0" if "x \<in> A \<union> B" for x
  proof (cases "x \<in> A")
    case True
    then show ?thesis using assms(1) by (auto simp: built_def)
  next
    case False
    then have "h x = None" "h x = h0 x" using that assms by (auto simp: built_def)
    then show ?thesis by auto
  qed
  moreover have "h' x = h0 x" if "x \<notin> A \<union> B" for x using that h'(4) assms by (simp add: built_def)
  ultimately show ?thesis using h'(1-3) unfolding built_def by blast
qed

lemma built_keeps:
  assumes "built h h' a v A" and "holds h i w B"
  shows "holds h' i w B" and "unlinked h i \<Longrightarrow> unlinked h' i" and "A \<inter> B = {}"
proof -
  show disj: "A \<inter> B = {}" using assms(1) holds_in_heap [OF assms(2)] unfolding built_def by blast
  have same: "\<forall>x\<in>B. h' x = h x" using assms(1) disj unfolding built_def by blast
  then show "holds h' i w B" using assms(2) by (rule holds_cong)
  have "i \<in> B" using assms(2) by (auto simp: holds_def)
  then show "unlinked h i \<Longrightarrow> unlinked h' i" using same by (simp add: unlinked_def)
qed

lemma built_deleted:
  assumes "built h h' a v A"
  shows "cJSON_Delete (Some a) h' = Some h"
proof -
  have "(h' |` (- A)) x = h x" for x
  proof (cases "x \<in> A")
    case True
    then have "x \<notin> dom h" using assms unfolding built_def by blast
    then show ?thesis using True by (simp add: restrict_map_def domIff)
  next
    case False
    then show ?thesis using assms by (simp add: built_def)
  qed
  then have "h' |` (- A) = h" by (rule ext)
  then show ?thesis using assms holds_delete [of h' a v A] by (simp only: built_def)
qed

section \<open>Refinement\<close>

text \<open>The request's id, when there is one, is an item of the heap.\<close>

definition id_item :: "heap \<Rightarrow> addr option \<Rightarrow> json option \<Rightarrow> bool" where
  "id_item h rid v \<longleftrightarrow>
     (case (rid, v) of (None, None) \<Rightarrow> True | (Some i, Some j) \<Rightarrow> (\<exists>I. holds h i j I) | _ \<Rightarrow> False)"

lemma cstr_literals: "cstr ''jsonrpc'' = ''jsonrpc''" "cstr ''2.0'' = ''2.0''" "cstr ''id'' = ''id''"
  "cstr ''result'' = ''result''" "cstr ''error'' = ''error''" "cstr ''code'' = ''code''" "cstr ''message'' = ''message''"
  by code_simp+

lemma object_built:
  assumes "fresh malloc" and "plenty malloc" and "finite (dom h)"
  shows "\<exists>a h'. create_object malloc h = (Some a, h') \<and> built h h' a (JObj []) {a}"
  using create_built [where init = "\<lambda>c. c\<lparr>it_type := cJSON_Object\<rparr>", OF assms leaf_created(6)]
  by (simp only: created_by)

lemma add_string_built:
  assumes "fresh malloc" and "plenty malloc" and "built h0 h p (JObj kvs) A" and "finite (dom h0)"
  shows "\<exists>a h'. add_created (Some p) (Some k) (create_string malloc s h) = Some (Some a, h') \<and>
    built h0 h' p (JObj (kvs @ [(cstr k, JStr (cstr s))])) (insert a A)"
  using add_created_built [where init = "\<lambda>c. c\<lparr>it_type := cJSON_String, it_valuestring := Some (cstr s)\<rparr>" and k = k,
      OF assms(1,2) built_finite [OF assms(3,4)] leaf_created(4) assms(3)]
  by (simp add: created_by)

lemma add_number_built:
  assumes "fresh malloc" and "plenty malloc" and "built h0 h p (JObj kvs) A" and "finite (dom h0)"
  shows "\<exists>a h'. add_created (Some p) (Some k) (create_number malloc d h) = Some (Some a, h') \<and>
    built h0 h' p (JObj (kvs @ [(cstr k, JNum d)])) (insert a A)"
  using add_created_built [where init = "\<lambda>c. c\<lparr>it_type := cJSON_Number, it_valuedouble := d, it_valueint := valueint d\<rparr>"
      and k = k, OF assms(1,2) built_finite [OF assms(3,4)] leaf_created(3) assms(3)]
  by (simp add: created_by)

lemma copy_built:
  assumes "fresh malloc" and "plenty malloc" and "finite (dom h)" and "holds h i v I"
  shows "\<exists>d h' D. cJSON_Duplicate malloc (Some i) True h = Some (Some d, h') \<and> built h h' d v D"
proof -
  obtain q h' where r: "cJSON_Duplicate malloc (Some i) True h = Some (q, h')"
    "case q of None \<Rightarrow> h' = h \<and> starved malloc h
     | Some b \<Rightarrow> (\<exists>B. holds h' b v B \<and> B \<inter> dom h = {} \<and> unlinked h' b \<and> (\<forall>x. x \<notin> B \<longrightarrow> h' x = h x)) \<and>
         cJSON_Delete (Some b) h' = Some h"
    using duplicate_holds [OF assms(1,4)] by blast
  have "\<not> starved malloc h" using not_starved assms(2,3) unfolding plenty_def by blast
  then obtain b where "q = Some b" using r(2) by (cases q) auto
  then show ?thesis using r unfolding built_def by auto
qed

lemma envelope_built:
  assumes "fresh malloc" and "plenty malloc" and "finite (dom h)" and "id_item h rid v"
  shows "\<exists>a h' A kvs. envelope_in_memory malloc rid h = Some (Some a, h') \<and> built h h' a (jsonrpc_envelope v) A \<and>
    jsonrpc_envelope v = JObj kvs"
proof -
  obtain a h1 where e: "create_object malloc h = (Some a, h1)" "built h h1 a (JObj []) {a}"
    using object_built [OF assms(1-3)] by blast
  obtain s h2 where s: "add_created (Some a) (Some ''jsonrpc'') (create_string malloc ''2.0'' h1) = Some (Some s, h2)"
    "built h h2 a (JObj [(''jsonrpc'', JStr ''2.0'')]) {s, a}"
    using add_string_built [OF assms(1,2) e(2) assms(3), of "''jsonrpc''" "''2.0''"] by (auto simp: cstr_literals)
  have f2: "finite (dom h2)" by (rule built_finite [OF s(2) assms(3)])
  show ?thesis
  proof (cases rid)
    case None
    then have "v = None" using assms(4) by (cases v) (auto simp: id_item_def)
    then have "jsonrpc_envelope v = JObj [(''jsonrpc'', JStr ''2.0'')]"
      by (simp add: jsonrpc_envelope_def cJSON_AddStringToObject_def cJSON_CreateObject_def)
    moreover have "envelope_in_memory malloc rid h = Some (Some a, h2)" using None e(1) s(1) by (simp add: envelope_in_memory_def)
    ultimately show ?thesis using s(2) by metis
  next
    case (Some i)
    then obtain j I where j: "v = Some j" "holds h i j I" using assms(4) by (cases v) (auto simp: id_item_def)
    have "holds h2 i j I" by (rule built_keeps(1) [OF s(2) j(2)])
    then obtain d h3 D where d: "cJSON_Duplicate malloc (Some i) True h2 = Some (Some d, h3)" "built h2 h3 d j D"
      using copy_built [OF assms(1,2) f2] by blast
    obtain h4 where h4: "add_item_to_object (Some a) (Some ''id'') (Some d) h3 = Some (True, h4)"
      "built h h4 a (JObj [(''jsonrpc'', JStr ''2.0''), (''id'', j)]) ({s, a} \<union> D)"
      using add_built [OF s(2) d(2), of "''id''"] by (auto simp: cstr_literals)
    have "jsonrpc_envelope v = JObj [(''jsonrpc'', JStr ''2.0''), (''id'', j)]"
      using j(1) by (simp add: jsonrpc_envelope_def cJSON_AddStringToObject_def cJSON_CreateObject_def)
    moreover have "envelope_in_memory malloc rid h = Some (Some a, h4)"
      using Some e(1) s(1) d(1) h4(1) by (simp add: envelope_in_memory_def)
    ultimately show ?thesis using h4(2) by metis
  qed
qed

lemma result_given:
  assumes "fresh malloc" and "plenty malloc" and "finite (dom h)" and "id_item h rid v"
    and "holds h r w R" and "unlinked h r"
  shows "result_in_memory malloc print rid (Some r) h = Some (Some (jsonrpc_result print v w), h |` (- R))"
proof -
  obtain a h1 A kvs where e: "envelope_in_memory malloc rid h = Some (Some a, h1)"
    "built h h1 a (jsonrpc_envelope v) A" "jsonrpc_envelope v = JObj kvs" using envelope_built [OF assms(1-4)] by blast
  have env: "holds h1 a (JObj kvs) A" "unlinked h1 a" using e(2,3) by (simp_all add: built_def)
  obtain h2 where h2: "add_item_to_object (Some a) (Some ''result'') (Some r) h1 = Some (True, h2)"
    "holds h2 a (cJSON_AddItemToObject (JObj kvs) ''result'' w) (A \<union> R)" "unlinked h2 a"
    "\<forall>x. x \<notin> A \<union> R \<longrightarrow> h2 x = h1 x"
    using add_to_object_holds [OF env(1) built_keeps(1,3,2) [OF e(2) assms(5)], of "''result''"] assms(6) env(2)
    by (auto simp: cstr_literals)
  have "(h2 |` (- (A \<union> R))) x = (h |` (- R)) x" for x
  proof (cases "x \<in> A \<union> R")
    case True
    then have "x \<in> R \<or> x \<notin> dom h" using e(2) unfolding built_def by blast
    then show ?thesis using True by (auto simp: restrict_map_def)
  next
    case False
    then show ?thesis using h2(4) e(2) by (simp add: built_def)
  qed
  then have "h2 |` (- (A \<union> R)) = h |` (- R)" by (rule ext)
  then have "cJSON_Delete (Some a) h2 = Some (h |` (- R))" using holds_delete [OF h2(2,3)] by simp
  then show ?thesis
    using e(1,3) h2(1) print_item_holds [OF h2(2), of print] by (simp add: result_in_memory_def jsonrpc_result_def)
qed

lemma result_missing:
  assumes "fresh malloc" and "plenty malloc" and "finite (dom h)" and "id_item h rid v"
  shows "result_in_memory malloc print rid None h = Some (Some (jsonrpc_result print v (JObj [])), h)"
proof -
  obtain a h1 A kvs where e: "envelope_in_memory malloc rid h = Some (Some a, h1)"
    "built h h1 a (jsonrpc_envelope v) A" "jsonrpc_envelope v = JObj kvs" using envelope_built [OF assms(1-4)] by blast
  obtain r h2 where r: "create_object malloc h1 = (Some r, h2)" "built h1 h2 r (JObj []) {r}"
    using object_built [OF assms(1,2) built_finite [OF e(2) assms(3)]] by blast
  obtain h3 where h3: "add_item_to_object (Some a) (Some ''result'') (Some r) h2 = Some (True, h3)"
    "built h h3 a (cJSON_AddItemToObject (JObj kvs) ''result'' (JObj [])) (A \<union> {r})"
    using add_built [OF e(2) [unfolded e(3)] r(2), of "''result''"] by (auto simp: cstr_literals)
  have "holds h3 a (cJSON_AddItemToObject (JObj kvs) ''result'' (JObj [])) (A \<union> {r})" using h3(2) by (simp add: built_def)
  from print_item_holds [OF this, of print] show ?thesis
    using e(1,3) r(1) h3(1) built_deleted [OF h3(2)] by (simp add: result_in_memory_def jsonrpc_result_def)
qed

lemma error_given:
  assumes "fresh malloc" and "plenty malloc" and "finite (dom h)" and "id_item h rid v"
  shows "error_in_memory malloc print rid code message h = Some (Some (jsonrpc_error print v code (cstr message)), h)"
proof -
  obtain a h1 A kvs where e: "envelope_in_memory malloc rid h = Some (Some a, h1)"
    "built h h1 a (jsonrpc_envelope v) A" "jsonrpc_envelope v = JObj kvs" using envelope_built [OF assms(1-4)] by blast
  have f1: "finite (dom h1)" by (rule built_finite [OF e(2) assms(3)])
  obtain r h2 where r: "create_object malloc h1 = (Some r, h2)" "built h1 h2 r (JObj []) {r}"
    using object_built [OF assms(1,2) f1] by blast
  obtain b h3 where b: "add_created (Some r) (Some ''code'') (create_number malloc (dbl_of_int code) h2) = Some (Some b, h3)"
    "built h1 h3 r (JObj [(''code'', JInt code)]) {b, r}"
    using add_number_built [OF assms(1,2) r(2) f1, of "''code''" "dbl_of_int code"] by (auto simp: cstr_literals)
  obtain m h4 where m: "add_created (Some r) (Some ''message'') (create_string malloc message h3) = Some (Some m, h4)"
    "built h1 h4 r (JObj [(''code'', JInt code), (''message'', JStr (cstr message))]) {m, b, r}"
    using add_string_built [OF assms(1,2) b(2) f1, of "''message''" message] by (auto simp: cstr_literals)
  let ?env = "cJSON_AddItemToObject (JObj kvs) ''error'' (JObj [(''code'', JInt code), (''message'', JStr (cstr message))])"
  obtain h5 where h5: "add_item_to_object (Some a) (Some ''error'') (Some r) h4 = Some (True, h5)"
    "built h h5 a ?env (A \<union> {m, b, r})"
    using add_built [OF e(2) [unfolded e(3)] m(2), of "''error''"] by (auto simp: cstr_literals)
  have "holds h5 a ?env (A \<union> {m, b, r})" using h5(2) by (simp add: built_def)
  from print_item_holds [OF this, of print] show ?thesis
    using e(1,3) r(1) b(1) m(1) h5(1) built_deleted [OF h5(2)]
    by (simp add: error_in_memory_def jsonrpc_error_def cJSON_AddNumberToObject_def cJSON_AddStringToObject_def
        cJSON_CreateObject_def)
qed

text \<open>The result of a reply that cannot be built stays in memory: nobody frees it.\<close>

lemma result_leaks_without_memory:
  assumes "malloc h = None"
  shows "result_in_memory malloc print rid (Some r) h = Some (None, h)"
proof -
  have "create_item malloc init h = (None, h)" for init using assms by (simp add: create_item_def cJSON_New_Item_def)
  moreover have "cJSON_Duplicate malloc rid True h = Some (None, h)"
    
    using assms by (cases rid) (simp_all add: cJSON_Duplicate_def duplicate.simps [of malloc "DupItem None True"]
      duplicate.simps [of malloc "DupItem (Some a) True" for a] cJSON_New_Item_def)
  ultimately show ?thesis
    by (simp add: result_in_memory_def envelope_in_memory_def created_by add_created_def add_item_to_object_def
        print_item_def cJSON_Delete.simps [of None])
qed

text \<open>C23. The reply the server builds from items in memory is the reply of the model on values: with the request's
  id in memory and memory for every new item, \<open>jsonrpc_result\<close> and \<open>jsonrpc_error\<close> print exactly the text of
  \<open>Server_Rpc\<close>.  Afterwards the items of the result the function was given are freed, and no other item is
  freed, changed or left behind; an error, or a missing result, leaves the heap exactly as it was.
\<close>

theorem replies_in_memory:
  assumes "fresh malloc" and "plenty malloc" and "finite (dom h)" and "id_item h rid v"
    and "holds h r w R" and "unlinked h r"
  shows "result_in_memory malloc print rid (Some r) h = Some (Some (jsonrpc_result print v w), h |` (- R)) \<and>
         result_in_memory malloc print rid None h = Some (Some (jsonrpc_result print v (JObj [])), h) \<and>
         error_in_memory malloc print rid code message h = Some (Some (jsonrpc_error print v code (cstr message)), h)"
  using result_given [OF assms] result_missing [OF assms(1-4)] error_given [OF assms(1-4)] by blast

text \<open>An allocator that gives the first free address.\<close>

definition first_free :: "heap \<Rightarrow> addr option" where
  "first_free h = (if \<exists>a. h a = None then Some (LEAST a. h a = None) else None)"

lemma first_free_ok: "fresh first_free" "plenty first_free"
proof -
  show "fresh first_free"
    by (auto simp: fresh_def first_free_def intro: LeastI split: if_splits)
  have "\<exists>a. h a = None" if "finite (dom h)" for h :: heap
    using that infinite_UNIV_nat by (metis UNIV_I domIff finite_subset subsetI)
  then show "plenty first_free" by (simp add: plenty_def first_free_def)
qed

lemma replies_in_memory_witness:
  "result_in_memory first_free (\<lambda>j. the (cJSON_PrintUnformatted j)) (Some 2) (Some 0) example_heap =
     Some (Some (the (cJSON_PrintUnformatted
        (JObj [(''jsonrpc'', JStr ''2.0''), (''id'', JStr ''x''), (''result'', JObj [(''id'', JNum (Finite 7))])]))),
       example_heap |` (- {0, 1}))"
proof -
  have "id_item example_heap (Some 2) (Some (JStr ''x''))" using example_holds(2) by (auto simp: id_item_def)
  moreover have "unlinked example_heap 0" by (simp add: unlinked_def example_heap_def item_zero_def)
  moreover have "finite (dom example_heap)" by (simp add: example_heap_def)
  ultimately show ?thesis
    using replies_in_memory [OF first_free_ok _ _ example_holds(1), of "Some 2" "Some (JStr ''x'')"
        "\<lambda>j. the (cJSON_PrintUnformatted j)"]
    by (simp add: jsonrpc_result_def jsonrpc_envelope_def cJSON_AddStringToObject_def cJSON_CreateObject_def)
qed

end
