(* ===== verification/Spec2Isabelle.thy ===== *)
theory Spec2Isabelle
  imports Os_Compat Audit_Log Capture Agg_Listing Adapter_Main End_To_End Win_Transport Json_String_Mem Json_Heap_Arrays Reply_Memory
begin

text \<open>
  Verification of the DisplayXR MCP framework.

  \<^bold>\<open>The program.\<close>  A process of the DisplayXR runtime hosts an MCP server: a registry of tools,
  a JSON-RPC 2.0 dispatch and one thread per client (\<^verbatim>\<open>src/mcp_server.c\<close>), behind a local
  endpoint, a Unix socket or a named pipe (\<^verbatim>\<open>src/mcp_transport.c\<close>).  Around the server stand a log
  ring with the tool \<open>tail_log\<close> (\<^verbatim>\<open>src/mcp_log_ring.c\<close>), the capture hand-off between a tool call
  and the frame loop of the runtime (\<^verbatim>\<open>src/mcp_capture.c\<close>), an audit log (\<^verbatim>\<open>src/mcp_audit.c\<close>) and an
  allowlist of client processes (\<^verbatim>\<open>src/mcp_allowlist.c\<close>).  An agent does not talk to the endpoint
  itself: it starts the adapter (\<^verbatim>\<open>adapter/displayxr_mcp.c\<close>) and talks to it over standard input and
  output, in newline-delimited JSON or with Content-Length headers (\<^verbatim>\<open>adapter/stdio_framing.c\<close>).  The
  adapter either bridges to one server, with two pump threads, or runs as the workspace aggregator
  (\<^verbatim>\<open>adapter/workspace_aggregator.c\<close>), which attaches to the shell and to every application's server,
  merges their tools under prefixed names, routes calls and relays replies.  Between adapter and
  server every message travels as a frame with a Content-Length header.  JSON text and trees are
  those of the vendored cJSON (\<^verbatim>\<open>external/cjson/cJSON.c\<close>).  Paths are relative to \<^verbatim>\<open>src/\<close>, the
  repository's root.

  \<^bold>\<open>Theories and code.\<close>

  \<^item> \<open>Mcp_Prelude\<close>: type synonyms, theorem collections, generic lemmas.  \<open>C_Lib\<close>: C strings, character
    classes, \<open>strtoul\<close>, \<open>strtol\<close> and \<open>atol\<close> with their saturation, decimal printing.
  \<^item> \<open>Json\<close>: JSON trees and the cJSON operations on them that the sources call; numbers are finite
    rationals or an infinity, with the rounding of 64-bit integers to a \<open>double\<close> written out.
  \<^item> JSON text, \<^verbatim>\<open>cJSON.c\<close> again.  \<open>Json_Number\<close>: \<open>parse_number\<close>, \<open>print_number\<close> with its two
    precisions, and of \<open>strtod\<close> and \<open>%g\<close> what the code needs in the C locale, rounded to nearest.
    \<open>Json_String\<close>: \<open>parse_string\<close>, \<open>parse_hex4\<close>, \<open>utf16_literal_to_utf8\<close>, \<open>print_string_ptr\<close>.
    \<open>Json_Print\<close>: \<open>printbuffer\<close> with \<open>ensure\<close>, \<open>print_value\<close>, \<open>print_array\<close>, \<open>print_object\<close>,
    \<open>print\<close>.  \<open>Json_Text\<close>: the text a tree has, as a function.  \<open>Json_Parse\<close>: \<open>parse_buffer\<close>, \<open>parse_value\<close>,
    \<open>parse_array\<close>, \<open>parse_object\<close> and the entry points.  \<open>Json_Roundtrip\<close> and \<open>Json_Unicode\<close>: what is
    proved of them.  \<open>Json_String_Mem\<close>: \<open>parse_string\<close> and what it calls once more, with the text and the
    allocated output as buffers, where an access outside is a fault of its own; \<open>Json_Wire\<close>: this text as the bodies of the server's frames.
  \<^item> The same trees as cJSON keeps them in memory.  \<open>Json_Heap\<close>: a heap of items with their \<open>next\<close>, \<open>prev\<close>
    and \<open>child\<close> pointers and the operations on them, with an allocator that may fail.
    \<open>Json_Heap_Lists\<close>: what the operations do to a list of siblings.  \<open>Json_Heap_Trees\<close>: trees stored in
    the heap, and the value of \<open>Json\<close> an item stands for (\<open>holds\<close>).  \<open>Json_Heap_Refine\<close>, \<open>Json_Heap_Dup\<close> and
    \<open>Json_Memory\<close>: the refinement.  \<open>Json_Heap_Arrays\<close>: new arrays, detached and deleted members.
    \<open>Reply_Memory\<close>: the replies of \<^verbatim>\<open>mcp_server.c\<close> over it.
  \<^item> \<open>Transport\<close>: the POSIX half of \<^verbatim>\<open>mcp_transport.c\<close>.  A connection is a record with scripts of what
    the kernel gives to successive reads, polls and writes.  The locales \<open>conn_source\<close>, \<open>conn_sink\<close>,
    \<open>exact_sink\<close> and \<open>bounded_sink\<close> state what the frame code relies on; sockets and pipes interpret
    them.  Listeners, socket paths, stale sockets and the session scan are there too.
  \<^item> \<open>Win_Transport\<close>: the Windows half, with overlapped calls, the 64-bit tick deadline and pipe
    instances, over the same locales.
  \<^item> \<open>Frames\<close>: \<open>read_line\<close>, \<open>read_frame\<close>, \<open>write_frame\<close> of the server and \<open>conn_read_line\<close>,
    \<open>dxr_conn_read_frame\<close>, \<open>dxr_conn_write_frame\<close> of the adapter, once over any source and sink;
    \<open>Frame_Stream\<close>: the frames of a whole stream.
  \<^item> \<open>Stdio_Framing\<close> and \<open>Stdio_Spec\<close>: the buffered reader of standard input with its detection of the
    framing, both parsers, the encoder; and the reader's specification on flat bytes (\<open>nd_next\<close>,
    \<open>cl_next\<close>) with the refinement, in the locale \<open>byte_source\<close>.
  \<^item> \<open>Os_Compat\<close>: \<^verbatim>\<open>src/os_compat.c\<close>, the clocks of both systems with the double arithmetic of the
    Windows one, the time stamps and deadlines made from them, and the framework's log callback.
  \<^item> \<open>Log_Ring\<close>, \<open>Capture\<close>, \<open>Audit_Log\<close>, \<open>Allowlist\<close>: one theory for each of these files, the
    ring as a 512-entry buffer with \<open>u64\<close> sequence numbers, the capture hand-off as a step relation.
  \<^item> \<open>Server_Rpc\<close>: registry, built-in tools, \<open>handle_request\<close> with every method and error.
    \<open>Server_Conns\<close>: client slots, \<open>serve\<close>, broadcasts, the starts and the
    three parts of \<open>mcp_server_stop\<close> as steps of the relation \<open>srv_step\<close>; the locale \<open>finite_source\<close> gives termination
    of the serve loop.
  \<^item> \<open>Adapter_Pump\<close>: the two pump threads and the thread of \<open>main\<close> as steps cut where they can block;
    \<open>Adapter_Bridge\<close>: what the steps do to the two streams; \<open>Adapter_Main\<close>: command line, session
    list, choice of a target.  \<open>End_To_End\<close> composes client, bridge and server, over cJSON's text.
  \<^item> \<open>Agg_Prefix\<close> (slugs and sticky prefixes), \<open>Agg_State\<close> (the state \<open>g\<close>, table of calls in flight,
    output, teardown), \<open>Agg_Members\<close> (reader, setup and poll threads of the backends), \<open>Agg_Agent\<close>
    (merged tool list, routing, dispatch, main loop, and the step relation \<open>agg_step\<close>): the
    aggregator; \<open>Agg_Calls\<close>, \<open>Agg_Routing\<close>, \<open>Agg_System\<close>, \<open>Agg_Invariants\<close>,
    \<open>Agg_Listing\<close>: what is proved of it.

  \<^bold>\<open>How code becomes definitions.\<close>  A struct is a record, an enum a datatype, a machine integer a word of
  its width or, where the code first bounds it, a number with the bound stated.  Text is a list of
  bytes; a C string ends before its first NUL.  A function that can fail returns an option or a flag
  beside the new state.  What the environment decides is an argument: the result of a system call, a
  script of such results, the clock, the directory the session scan finds.  \<open>None\<close> as the value of a
  loop over a script of writes means that the code blocks there for ever; claims that a loop returns say so
  themselves.  The script of what a connection or standard input delivers is all that its peer will ever
  send, and behind it stands the end of the stream: a read does not block, and a peer that stays silent
  without closing is not expressed.  Threads are steps of an inductive relation, one step for each stretch that runs under a
  lock or up to the next blocking call, and the invariants hold after any interleaving of steps.
  Tools and the runtime's hooks are functions the definitions take as arguments, so a tool that never
  returns is not expressed; and arguments are, in the
  server and the adapter, the printer and the parser of JSON text; \<open>Json_Wire\<close> puts cJSON's there.

  \<^bold>\<open>What is shown.\<close>  Frames and both stdio framings round trip, in each direction and however reads and
  writes are cut.  The bounded write delivers all of a buffer or kills the connection,
  and is over at the first pass that sees its budget used up.  Every request
  gets exactly one reply, a client gets its replies in order, client slots are accounted for, shutdown
  can finish.  The log ring refines the list of all entries, and a reader that passes cursors on sees
  each line once.  A capture call reports success only after a completion that
  reported success and came after the call's submit.  The bridge forwards and
  relays without loss, invention or reordering, and ends.  In every run of the aggregator a session is
  served at most once, live backends have different prefixes, calls in flight belong to live backends,
  every agent request is answered or accounted for, and a response comes back under the agent's id.
  Printing stays in its buffer; the parser returns on every buffer, yields only trees of bounded
  nesting and parses what was printed back into the same tree, for trees of C strings and integers of
  at most 15 digits; an escaped UTF-16 text becomes its UTF-8; parsing a string, malformed ones included,
  neither reads outside the text nor writes outside the memory counted for it.  The audit log is only cut at
  its beginning.  A pipe listener re-arms after each client and leaves no instance behind.  Trees in memory refine trees as values: adding, replacing and looking up do to the item
  what the operations of \<open>Json\<close> do to its value and touch nothing else, a replaced member is freed, and
  a copy is made of new items or, when an allocation fails, not at all and without a leak.  A reply
  built in memory prints as the reply of the model on values and leaves nothing behind but the text.

  \<^bold>\<open>Bounds and fuel.\<close>  The constants are those of the code: frames of at most 4 MiB for the server's
  reader and 16 MiB for the adapter's, header lines of at most 255 bytes, 8 clients, 64 tools, 32
  backends, 128 calls in flight, 512 log entries.  No definition runs on fuel: loops recurse on data
  or on the script of outcomes, or are partial functions into an option.  Facts on identifiers that
  travel as a \<open>double\<close> hold for runs of up to \<open>2 ^ 53\<close> calls, where the conversion is exact; prefixes
  stay fresh while fewer than 98 were handed out, the range the code probes.  Round trips of JSON text
  are for nesting of at most 1000, the limit of the parser, and text of a length within an \<open>int\<close>.

  \<^bold>\<open>Not modelled.\<close>  Failing allocations, but for those of cJSON's items in \<open>Json_Heap\<close>, of the setup
  threads and of the print buffer's size; strings in memory, which \<open>Json_Heap\<close> keeps as values; what a print has written when its buffer cannot
  grow; the modes and sizes of a pipe; how deep the parser's own recursion goes on text it refuses; the parts of cJSON the program does not reach (references, raw items, printing into a
  given buffer, sorting, case-insensitive lookup, minification, comparison, custom allocators, the
  position of a parse error); printf formatting of log text before it reaches the ring; build files,
  installers, tests and documents.
\<close>

end
